(* ===== verification/Kernel_Prelude.thy ===== *)
theory Kernel_Prelude
  imports Main "HOL-Library.Word" "HOL-Library.Signed_Division"
begin

text \<open>
  The prelude of the Toastium development: the machine integers of
  \<^verbatim>\<open>src/src/include/types.h\<close>, the macros of \<^verbatim>\<open>src/src/include/def.h\<close>, the outcome type
  every kernel operation returns, the flat kernel memory with its 64-bit and 8-bit accesses, and
  the facts on words, bits and memory that the component theories share.

  An outcome is \<open>None\<close> when a loop of the code never ends, \<open>Some (Ok x)\<close> when the code
  returns, \<open>Some (Panic msg a b c)\<close> when it calls \<open>PANIC(msg, a, b, c)\<close> (which prints and
  freezes the hart, so nothing runs afterwards), and \<open>Some (Undef why)\<close> when it does something C
  gives no meaning to, such as reading outside a constant table.

  Memory is a function from addresses to 64-bit cells. The kernel's \<open>u64\<close> pointers are page
  addresses plus multiples of eight, and the cell of such a pointer is named by its address; byte
  accesses read and write one byte of the cell that holds it, little endian as RISC-V is.
\<close>

unbundle bit_operations_syntax

named_theorems kdefs \<open>definitions a witness unfolds to evaluate the model\<close>
named_theorems bits \<open>bitwise facts on machine words\<close>

section \<open>Machine integers and macros\<close>

type_synonym u8 = "8 word"
type_synonym u16 = "16 word"
type_synonym u32 = "32 word"
type_synonym u64 = "64 word"

text \<open>
  Signed variables are integers; \<open>s32\<close> is the conversion to a 32-bit signed value, written
  where the code stores into an \<open>s32\<close> or computes in \<open>int\<close>.
\<close>

definition s32 :: "int \<Rightarrow> int" where
  "s32 x = signed_take_bit 31 x"

abbreviation U64_MAX :: u64 where
  "U64_MAX \<equiv> 0xFFFFFFFFFFFFFFFF"

abbreviation KERNEL_PAGE_SIZE :: u64 where
  "KERNEL_PAGE_SIZE \<equiv> 4096"

abbreviation KERNEL_VMA_START :: u64 where
  "KERNEL_VMA_START \<equiv> 0xffffffc000000000"

definition BIT :: "nat \<Rightarrow> u64" where
  "BIT n = push_bit n 1"

definition ROUND_MOD_DOWN :: "u64 \<Rightarrow> u64 \<Rightarrow> u64" where
  "ROUND_MOD_DOWN number rounder = (number div rounder) * rounder"

definition ROUND_MOD_UP :: "u64 \<Rightarrow> u64 \<Rightarrow> u64" where
  "ROUND_MOD_UP number rounder = ((number + (rounder - 1)) div rounder) * rounder"

text \<open>\<open>__builtin_ctzl\<close> and \<open>__builtin_clzl\<close>; the code calls them on nonzero words only.\<close>

definition ctzl :: "u64 \<Rightarrow> nat" where
  "ctzl w = length (takeWhile (\<lambda>i. \<not> bit w i) [0..<64])"

definition clzl :: "u64 \<Rightarrow> nat" where
  "clzl w = length (takeWhile (\<lambda>i. \<not> bit w (63 - i)) [0..<64])"

section \<open>Outcomes\<close>

datatype 'a res = Ok 'a | Panic string u64 u64 u64 | Undef string

type_synonym 'a run = "'a res option"

abbreviation ret :: "'a \<Rightarrow> 'a run" where
  "ret x \<equiv> Some (Ok x)"

abbreviation panic :: "string \<Rightarrow> u64 \<Rightarrow> u64 \<Rightarrow> u64 \<Rightarrow> 'a run" where
  "panic msg a b c \<equiv> Some (Panic msg a b c)"

abbreviation undef :: "string \<Rightarrow> 'a run" where
  "undef why \<equiv> Some (Undef why)"

fun res_bind :: "'a res \<Rightarrow> ('a \<Rightarrow> 'b run) \<Rightarrow> 'b run" where
  "res_bind (Ok x) k = k x"
| "res_bind (Panic msg a b c) k = panic msg a b c"
| "res_bind (Undef why) k = undef why"

definition bindr :: "'a run \<Rightarrow> ('a \<Rightarrow> 'b run) \<Rightarrow> 'b run" where
  "bindr m k = Option.bind m (\<lambda>r. res_bind r k)"

lemma bindr_simps [simp]:
  "bindr (ret x) k = k x"
  "bindr (panic msg a b c) k = panic msg a b c"
  "bindr (undef why) k = undef why"
  "bindr None k = None"
  by (simp_all add: bindr_def)

lemma bindr_mono [partial_function_mono]:
  assumes "mono_option B" and C: "\<And>y. mono_option (\<lambda>f. C y f)"
  shows "mono_option (\<lambda>f. bindr (B f) (\<lambda>y. C y f))"
proof -
  have "mono_option (\<lambda>f. res_bind r (\<lambda>y. C y f))" for r
    by (cases r) (auto intro: C option.const_mono)
  with assms(1) show ?thesis
    unfolding bindr_def by (rule bind_mono)
qed

lemma bindr_eq_ret [simp]: "bindr m k = ret y \<longleftrightarrow> (\<exists>x. m = ret x \<and> k x = ret y)"
  by (cases m; cases "the m") auto

lemma bindr_assoc: "bindr (bindr m f) g = bindr m (\<lambda>x. bindr (f x) g)"
  by (cases m; cases "the m") auto

text \<open>A loop over the elements of a list, threading the state.\<close>

primrec for_each :: "'a list \<Rightarrow> ('a \<Rightarrow> 's \<Rightarrow> (unit \<times> 's) run) \<Rightarrow> 's \<Rightarrow> (unit \<times> 's) run" where
  "for_each [] f s = ret ((), s)"
| "for_each (x # xs) f s = bindr (f x s) (\<lambda>(_, s). for_each xs f s)"

section \<open>Memory\<close>

type_synonym mem = "u64 \<Rightarrow> u64"

text \<open>The byte at an address: byte \<open>a mod 8\<close> of the cell at \<open>a\<close> rounded down to eight.\<close>

definition cell_of :: "u64 \<Rightarrow> u64" where
  "cell_of a = a AND NOT 7"

definition lane_of :: "u64 \<Rightarrow> nat" where
  "lane_of a = 8 * unat (a AND 7)"

definition ld8 :: "mem \<Rightarrow> u64 \<Rightarrow> u8" where
  "ld8 m a = ucast (drop_bit (lane_of a) (m (cell_of a)))"

definition st8 :: "mem \<Rightarrow> u64 \<Rightarrow> u8 \<Rightarrow> mem" where
  "st8 m a v = m(cell_of a := (m (cell_of a) AND NOT (push_bit (lane_of a) 0xFF))
                             OR push_bit (lane_of a) (ucast v))"

text \<open>\<open>for (k = 0; k < n; k++) a[k] = 0;\<close> on a \<open>u64\<close> array.\<close>

primrec zero_cells :: "nat \<Rightarrow> u64 \<Rightarrow> mem \<Rightarrow> mem" where
  "zero_cells 0 a m = m"
| "zero_cells (Suc k) a m = (zero_cells k a m)(a + 8 * of_nat k := 0)"

text \<open>The cells of an array of \<open>n\<close> words, and of one page.\<close>

definition cells :: "u64 \<Rightarrow> nat \<Rightarrow> u64 set" where
  "cells a n = {a + 8 * of_nat k | k. k < n}"

abbreviation page_cells :: "u64 \<Rightarrow> u64 set" where
  "page_cells p \<equiv> cells p 512"

lemma zero_cells_apply: "zero_cells n a m x = (if x \<in> cells a n then 0 else m x)"
  by (induction n) (auto simp: cells_def less_Suc_eq)

text \<open>The machine state every component extends with its own globals.\<close>

record machine =
  kmem :: mem

text \<open>\<open>a[i]\<close> of a \<open>u64\<close> array in memory, and the assignment to it.\<close>

definition at :: "'a machine_scheme \<Rightarrow> u64 \<Rightarrow> u64 \<Rightarrow> u64" where
  "at s a i = kmem s (a + 8 * i)"

definition set_at :: "u64 \<Rightarrow> u64 \<Rightarrow> u64 \<Rightarrow> 'a machine_scheme \<Rightarrow> 'a machine_scheme" where
  "set_at a i v s = s\<lparr>kmem := (kmem s)(a + 8 * i := v)\<rparr>"

section \<open>Facts on bits and words\<close>

lemma word64_eqI: "(\<And>n. n < 64 \<Longrightarrow> bit v n = bit w n) \<Longrightarrow> v = w" for v w :: u64
  by (rule bit_word_eqI) simp

lemma takeWhile_upt_first:
  assumes "k < n" and "P k"
  shows "length (takeWhile (\<lambda>i. \<not> P i) [0..<n]) < n"
    and "P (length (takeWhile (\<lambda>i. \<not> P i) [0..<n]))"
    and "i < length (takeWhile (\<lambda>i. \<not> P i) [0..<n]) \<Longrightarrow> \<not> P i"
proof -
  let ?t = "takeWhile (\<lambda>i. \<not> P i) [0..<n]"
  show lt: "length ?t < n"
  proof (rule ccontr)
    assume "\<not> length ?t < n"
    then have "?t = [0..<n]"
      by (metis diff_zero length_takeWhile_le length_upt nat_less_le takeWhile_eq_take take_all_iff)
    then have "\<forall>x \<in> set [0..<n]. \<not> P x"
      by (metis set_takeWhileD)
    with assms show False by simp
  qed
  then show "P (length ?t)"
    using nth_length_takeWhile [of "\<lambda>i. \<not> P i" "[0..<n]"] by simp
  show "i < length ?t \<Longrightarrow> \<not> P i"
    using takeWhile_nth [of i "\<lambda>i. \<not> P i" "[0..<n]"] lt nth_mem [of i ?t]
    by (auto dest: set_takeWhileD)
qed

lemma nonzero_word_bit: "w \<noteq> 0 \<Longrightarrow> \<exists>k<64. bit w k" for w :: u64
  by (metis bit_0_eq bot_apply bot_bool_def word64_eqI)

lemma ctzl_nonzero:
  assumes "w \<noteq> 0"
  shows "ctzl w < 64" and "bit w (ctzl w)" and "i < ctzl w \<Longrightarrow> \<not> bit w i"
proof -
  obtain k where k: "k < 64" "bit w k" using nonzero_word_bit [OF assms] by blast
  from takeWhile_upt_first [of k 64 "bit w", OF k]
  show "ctzl w < 64" and "bit w (ctzl w)" and "i < ctzl w \<Longrightarrow> \<not> bit w i"
    by (auto simp: ctzl_def)
qed

text \<open>The first zero bit of a bitmap word that is not full.\<close>

lemma ctzl_not:
  assumes "w \<noteq> U64_MAX"
  shows "ctzl (NOT w) < 64" and "\<not> bit w (ctzl (NOT w))" and "i < ctzl (NOT w) \<Longrightarrow> bit w i"
proof -
  have "NOT w \<noteq> 0"
  proof
    assume "NOT w = 0"
    then have "NOT (NOT w) = NOT 0" by simp
    with assms show False by simp
  qed
  from ctzl_nonzero [OF this]
  show lt: "ctzl (NOT w) < 64" and "\<not> bit w (ctzl (NOT w))"
    by (auto simp: bit_not_iff)
  show "bit w i" if "i < ctzl (NOT w)"
    using ctzl_nonzero(3) [OF \<open>NOT w \<noteq> 0\<close> that] that lt by (simp add: bit_not_iff)
qed

lemma ctzl_not_eq:
  assumes "k < 64" and "\<not> bit w k" and "\<And>i. i < k \<Longrightarrow> bit w i"
  shows "ctzl (NOT w) = k" and "w \<noteq> U64_MAX"
proof -
  have "bit (U64_MAX :: u64) k"
  proof -
    have "(U64_MAX :: u64) = - 1" by simp
    then show ?thesis using assms(1) by (simp only: bit_minus_1_iff) simp
  qed
  with assms(2) show ne: "w \<noteq> U64_MAX" by metis
  from ctzl_not [OF this] assms show "ctzl (NOT w) = k"
    by (metis linorder_cases)
qed

lemma full_word_bit: "w = U64_MAX \<longleftrightarrow> (\<forall>i<64. bit w i)" for w :: u64
proof
  have "bit (U64_MAX :: u64) i" if "i < 64" for i
  proof -
    have "(U64_MAX :: u64) = - 1" by simp
    then have "bit (U64_MAX :: u64) i = bit (- 1 :: u64) i" by (rule arg_cong)
    with that show ?thesis by (simp only: bit_minus_1_iff) simp
  qed
  then show "w = U64_MAX \<Longrightarrow> \<forall>i<64. bit w i" by blast
  assume "\<forall>i<64. bit w i"
  with \<open>\<And>i. i < 64 \<Longrightarrow> bit (U64_MAX :: u64) i\<close> show "w = U64_MAX"
    by (intro word64_eqI) blast
qed

lemma clzl_nonzero:
  assumes "w \<noteq> 0"
  shows "clzl w < 64" and "bit w (63 - clzl w)" and "63 - clzl w < i \<Longrightarrow> \<not> bit w i"
proof -
  obtain k where k: "k < 64" "bit w k" using nonzero_word_bit [OF assms] by blast
  then have "63 - k < 64" and "bit w (63 - (63 - k))" by simp_all
  note first = takeWhile_upt_first [of "63 - k" 64 "\<lambda>i. bit w (63 - i)", OF this]
  from first show lt: "clzl w < 64" and "bit w (63 - clzl w)"
    by (auto simp: clzl_def)
  show "\<not> bit w i" if "63 - clzl w < i"
  proof (cases "i < 64")
    case True
    with that lt have "63 - i < clzl w" by linarith
    with first(3) [of "63 - i"] True show ?thesis
      by (auto simp: clzl_def)
  next
    case False
    then show ?thesis using bit_imp_le_length [of w i] by auto
  qed
qed

lemma bit_BIT [bits]: "bit (BIT n) i \<longleftrightarrow> n = i \<and> n < 64"
  by (auto simp: BIT_def bit_simps)

lemma BIT_and_eq_0 [bits]: "n < 64 \<Longrightarrow> w AND BIT n = 0 \<longleftrightarrow> \<not> bit w n"
proof
  assume n: "n < 64" and "w AND BIT n = 0"
  then have "bit (w AND BIT n) n = bit 0 n" by simp
  with n show "\<not> bit w n" by (simp add: bit_simps bits)
next
  assume "n < 64" and "\<not> bit w n"
  then show "w AND BIT n = 0"
    by (intro word64_eqI) (auto simp: bit_simps bits)
qed

text \<open>Setting and clearing one bit, the way the code writes it.\<close>

lemma bit_set [bits]: "bit (w OR BIT n) i \<longleftrightarrow> bit w i \<or> (n = i \<and> n < 64)"
  by (auto simp: bit_simps bits)

lemma bit_clear [bits]: "bit (w AND NOT (BIT n)) i \<longleftrightarrow> bit w i \<and> n \<noteq> i"
  using bit_imp_le_length [of w i] by (auto simp: bit_simps bits)

lemma unat_small: "n < 2 ^ 64 \<Longrightarrow> unat (of_nat n :: u64) = n"
  by (simp add: unat_of_nat)

lemma unat_round_down: "unat (ROUND_MOD_DOWN x k) = unat x div unat k * unat k"
proof -
  have "unat x div unat k * unat k \<le> unat x" by (rule div_times_less_eq_dividend)
  also have "\<dots> < 2 ^ 64" using unsigned_less [where ?'a = nat, of x] by simp
  finally show ?thesis
    unfolding ROUND_MOD_DOWN_def unat_div [symmetric] unat_word_ariths(2) by simp
qed

lemma s32_id [simp]: "- (2 ^ 31) \<le> x \<Longrightarrow> x < 2 ^ 31 \<Longrightarrow> s32 x = x"
  by (simp add: s32_def signed_take_bit_int_eq_self)

text \<open>C's signed division agrees with the natural one on nonnegative numbers.\<close>

lemma int_sdiv_numeral [simp]: "int n sdiv numeral w = int (n div numeral w)"
proof -
  have "int n sdiv numeral w = int n div numeral w"
    by (simp add: signed_divide_int_def sgn_if)
  then show ?thesis by (simp add: zdiv_int)
qed

lemma int_smod_numeral [simp]: "int n smod numeral w = int (n mod numeral w)"
proof -
  have "int n smod numeral w = int n mod numeral w"
    by (simp add: signed_modulo_int_def sgn_if)
  then show ?thesis by (simp add: zmod_int)
qed

section \<open>Facts on memory\<close>

lemma bit_7: "bit (7 :: u64) i \<longleftrightarrow> i < 3"
proof -
  have "(7 :: u64) = mask 3" by (simp add: mask_eq_exp_minus_1)
  then show ?thesis by (simp only: bit_mask_iff) auto
qed

lemma bit_FF: "bit (0xFF :: u64) i \<longleftrightarrow> i < 8"
proof -
  have "(0xFF :: u64) = mask 8" by (simp add: mask_eq_exp_minus_1)
  then show ?thesis by (simp only: bit_mask_iff) auto
qed

lemma bit_cell_of [bits]: "bit (cell_of a) i \<longleftrightarrow> bit a i \<and> 3 \<le> i"
  unfolding cell_of_def bit_and_iff bit_not_iff bit_7
  using bit_imp_le_length [of a i] by auto

lemma byte_address_split:
  assumes "cell_of a = cell_of b" and "lane_of a = lane_of b"
  shows "a = b"
proof (rule bit_word_eqI)
  fix i
  have "a AND 7 = b AND 7"
    using assms(2) by (simp add: lane_of_def word_unat_eq_iff)
  then have "bit (a AND 7) i = bit (b AND 7) i" by simp
  moreover have "bit (cell_of a) i = bit (cell_of b) i" using assms(1) by simp
  ultimately show "bit a i = bit b i"
    unfolding bit_cell_of bit_and_iff bit_7 by (cases "i < 3") auto
qed

lemma lane_cases: "\<exists>k<8. lane_of a = 8 * k"
proof -
  have "unat (a AND 7) \<le> unat (7 :: u64)"
    by (rule word_and_le1 [THEN word_le_nat_alt [THEN iffD1]])
  then show ?thesis
    by (intro exI [of _ "unat (a AND 7)"]) (simp add: lane_of_def)
qed

lemma lanes_apart:
  "lane_of a \<noteq> lane_of b \<Longrightarrow> i < 8 \<Longrightarrow>
   \<not> (lane_of a \<le> lane_of b + i \<and> lane_of b + i < lane_of a + 8)"
  using lane_cases [of a] lane_cases [of b] by auto

lemma bit_splice:
  fixes v :: u64 and w :: u8
  assumes "j < 64"
  shows "bit ((v AND NOT (push_bit sh 0xFF)) OR push_bit sh (ucast w)) j
       = (if sh \<le> j \<and> j < sh + 8 then bit w (j - sh) else bit v j)"
  unfolding bit_or_iff bit_and_iff bit_not_iff bit_push_bit_iff bit_FF bit_unsigned_iff
  using assms by (auto dest: bit_imp_le_length)

lemma bit_ld8:
  assumes "i < 8"
  shows "bit (ld8 m a) i = bit (m (cell_of a)) (lane_of a + i)"
  unfolding ld8_def bit_unsigned_iff bit_drop_bit_eq comp_def using assms by simp

text \<open>A byte store is seen by the byte load of its own address and by no other.\<close>

lemma ld8_st8: "ld8 (st8 m a v) b = (if a = b then v else ld8 m b)"
proof (cases "cell_of a = cell_of b")
  case False
  then show ?thesis by (auto simp: ld8_def st8_def)
next
  case same: True
  have lt: "lane_of b + i < 64" if "i < 8" for i
    using lane_cases [of b] that by auto
  have st: "bit (ld8 (st8 m a v) b) i
      = (if lane_of a \<le> lane_of b + i \<and> lane_of b + i < lane_of a + 8
         then bit v (lane_of b + i - lane_of a) else bit (m (cell_of b)) (lane_of b + i))"
    if "i < 8" for i
    unfolding bit_ld8 [OF that] st8_def
    using same bit_splice [OF lt [OF that], of "m (cell_of a)" "lane_of a" v] by simp
  show ?thesis
  proof (cases "a = b")
    case True
    with st show ?thesis by (intro bit_word_eqI) auto
  next
    case False
    with same have "lane_of a \<noteq> lane_of b" using byte_address_split by blast
    with st have "bit (ld8 (st8 m a v) b) i = bit (ld8 m b) i" if "i < 8" for i
      using that lanes_apart [OF \<open>lane_of a \<noteq> lane_of b\<close> that] bit_ld8 [OF that, of m b]
      by (simp only: if_False)
    with False show ?thesis by (intro bit_word_eqI) auto
  qed
qed

lemma st8_other_cell: "x \<noteq> cell_of a \<Longrightarrow> st8 m a v x = m x"
  by (simp add: st8_def)

subsection \<open>Arrays of cells\<close>

lemma unat_cell_index:
  fixes a :: u64
  assumes "unat a + 8 * n \<le> 2 ^ 64" and "k < n"
  shows "unat (a + 8 * of_nat k) = unat a + 8 * k"
proof -
  have "8 * k < 2 ^ 64" using assms by linarith
  then have "unat (8 * of_nat k :: u64) = 8 * k"
    by (simp add: unat_word_ariths unat_of_nat)
  with assms show ?thesis by (simp add: unat_word_ariths)
qed

lemma mod8_gap: "a mod 8 = b mod 8 \<Longrightarrow> a \<le> b \<Longrightarrow> b = a + 8 * ((b - a) div 8)" for a b :: nat
  by (metis dvd_mult_div_cancel le_add_diff_inverse mod_eq_dvd_iff_nat)

lemma in_cells_iff:
  assumes "unat a + 8 * n \<le> 2 ^ 64"
  shows "x \<in> cells a n \<longleftrightarrow>
    unat x mod 8 = unat a mod 8 \<and> unat a \<le> unat x \<and> unat x < unat a + 8 * n"
proof
  assume "x \<in> cells a n"
  then obtain k where "k < n" "x = a + 8 * of_nat k" by (auto simp: cells_def)
  then show "unat x mod 8 = unat a mod 8 \<and> unat a \<le> unat x \<and> unat x < unat a + 8 * n"
    using unat_cell_index [OF assms] by simp
next
  assume r: "unat x mod 8 = unat a mod 8 \<and> unat a \<le> unat x \<and> unat x < unat a + 8 * n"
  define k where "k = (unat x - unat a) div 8"
  have x: "unat x = unat a + 8 * k"
    unfolding k_def using r by (intro mod8_gap) simp_all
  then have "of_nat (unat x) = (of_nat (unat a + 8 * k) :: u64)" by (rule arg_cong)
  then have "x = a + 8 * of_nat k" by simp
  moreover have "k < n" using r x by linarith
  ultimately show "x \<in> cells a n" by (auto simp: cells_def)
qed

lemma cell_index_inj:
  fixes a :: u64
  assumes "unat a + 8 * n \<le> 2 ^ 64" and "j < n" and "k < n"
    and "a + 8 * of_nat j = a + 8 * of_nat k"
  shows "j = k"
proof -
  have "unat (a + 8 * of_nat j) = unat (a + 8 * of_nat k)" using assms(4) by (rule arg_cong)
  then show ?thesis
    unfolding unat_cell_index [OF assms(1,2)] unat_cell_index [OF assms(1,3)] by simp
qed

text \<open>Two half-open ranges of addresses that do not meet.\<close>

definition apart :: "nat \<Rightarrow> nat \<Rightarrow> nat \<Rightarrow> nat \<Rightarrow> bool" where
  "apart a la b lb \<longleftrightarrow> a + la \<le> b \<or> b + lb \<le> a"

lemma cells_apart:
  assumes "unat a + 8 * n \<le> 2 ^ 64" and "unat b + 8 * k \<le> 2 ^ 64"
    and "apart (unat a) (8 * n) (unat b) (8 * k)"
  shows "cells a n \<inter> cells b k = {}"
  using assms(3) by (auto simp: in_cells_iff [OF assms(1)] in_cells_iff [OF assms(2)] apart_def)

end
