(* ===== verification/Uart.thy ===== *)
theory Uart
  imports Kernel_Prelude
begin

text \<open>
  The serial port: the 16550 driver (\<^verbatim>\<open>src/src/drivers/uart/16550/uart_16550.c\<close>) and the
  printing layer over it (\<^verbatim>\<open>src/src/drivers/uart/uart.c\<close>).

  The device is an argument of the model: \<open>uart_dev s n off\<close> is the byte it returns to the
  \<open>n\<close>-th read, made at byte offset \<open>off\<close> from its base; writes are logged in order with
  their offset. The transmit register is offset 0, so the bytes the kernel has printed are the
  logged writes at offset 0. The lemmas show that the printing routines terminate when the device
  becomes ready again and again, and which bytes they print.
\<close>

record uart = machine +
  uart_reg_size :: u64
  uart_dev :: "nat \<Rightarrow> u64 \<Rightarrow> u8"
  uart_reads :: nat
  uart_writes :: "(u64 \<times> u8) list"

section \<open>The 16550 driver\<close>

definition uart_load :: "u64 \<Rightarrow> 'a uart_scheme \<Rightarrow> u8 \<times> 'a uart_scheme" where
  "uart_load off s = (uart_dev s (uart_reads s) off, s\<lparr>uart_reads := Suc (uart_reads s)\<rparr>)"

definition uart_store :: "u64 \<Rightarrow> u8 \<Rightarrow> 'a uart_scheme \<Rightarrow> 'a uart_scheme" where
  "uart_store off v s = s\<lparr>uart_writes := uart_writes s @ [(off, v)]\<rparr>"

text \<open>\<open>while (!(*uart_status & UART_STATUS_READY_SEND)) {}\<close> and the store that follows.\<close>

partial_function (option) uart_16550_output_u8 ::
  "u8 \<Rightarrow> 'a uart_scheme \<Rightarrow> (unit \<times> 'a uart_scheme) run" where
  "uart_16550_output_u8 output_u8 s =
     (let (status, s') = uart_load (5 * uart_reg_size s) s
      in if status AND 32 = 0 then uart_16550_output_u8 output_u8 s'
         else ret ((), uart_store 0 output_u8 s'))"

text \<open>The byte received, or \<open>- 1\<close> when none is waiting.\<close>

definition uart_16550_try_fetch_u8 :: "'a uart_scheme \<Rightarrow> int \<times> 'a uart_scheme" where
  "uart_16550_try_fetch_u8 s =
     (let (status, s) = uart_load (5 * uart_reg_size s) s
      in if status AND 1 \<noteq> 0 then (let (v, s) = uart_load 0 s in (uint v, s)) else (- 1, s))"

text \<open>The probe of one register stride: write \<open>'a'\<close>, read it back, write \<open>'c'\<close>, read it back.\<close>

definition uart_probe :: "u64 \<Rightarrow> 'a uart_scheme \<Rightarrow> bool \<times> 'a uart_scheme" where
  "uart_probe i s =
     (let s = uart_store (7 * i) 0x61 s; (v, s) = uart_load (7 * i) s
      in if v = 0x61
         then let s = uart_store (7 * i) 0x63 s; (w, s) = uart_load (7 * i) s in (w = 0x63, s)
         else (False, s))"

primrec uart_find_stride :: "nat \<Rightarrow> 'a uart_scheme \<Rightarrow> 'a uart_scheme" where
  "uart_find_stride 0 s = s"
| "uart_find_stride (Suc n) s =
     (let i = 9 - of_nat (Suc n); (found, s) = uart_probe i s
      in if found then s\<lparr>uart_reg_size := i\<rparr> else uart_find_stride n s)"

definition uart_16550_init :: "'a uart_scheme \<Rightarrow> (unit \<times> 'a uart_scheme) run" where
  "uart_16550_init s =
     (let s = uart_find_stride 8 (uart_store 1 0 s)
      in if uart_reg_size s = 0 then panic ''FAILED_TO_FIND_VALID_UART_SIZE'' 0 0 0
         else ret ((), s))"

section \<open>The printing layer\<close>

definition uart_print_char :: "u8 \<Rightarrow> 'a uart_scheme \<Rightarrow> (unit \<times> 'a uart_scheme) run" where
  "uart_print_char print_char s =
     bindr (uart_16550_output_u8 print_char s) (\<lambda>(_, s).
       if print_char = 10 then uart_16550_output_u8 13 s else ret ((), s))"

partial_function (option) uart_print_str :: "u64 \<Rightarrow> 'a uart_scheme \<Rightarrow> (unit \<times> 'a uart_scheme) run" where
  "uart_print_str p s =
     (if ld8 (kmem s) p = 0 then ret ((), s)
      else bindr (uart_16550_output_u8 (ld8 (kmem s) p) s) (\<lambda>(_, s). uart_print_str (p + 1) s))"

definition uart_init :: "'a uart_scheme \<Rightarrow> (unit \<times> 'a uart_scheme) run" where
  "uart_init s = uart_16550_init s"

definition uart_println_char :: "u8 \<Rightarrow> 'a uart_scheme \<Rightarrow> (unit \<times> 'a uart_scheme) run" where
  "uart_println_char print_char s =
     bindr (uart_print_char print_char s) (\<lambda>(_, s). uart_print_char 10 s)"

definition uart_println_str :: "u64 \<Rightarrow> 'a uart_scheme \<Rightarrow> (unit \<times> 'a uart_scheme) run" where
  "uart_println_str print_string s =
     bindr (uart_print_str print_string s) (\<lambda>(_, s). uart_print_char 10 s)"

text \<open>The same on a string constant.\<close>

definition uart_print_lit :: "string \<Rightarrow> 'a uart_scheme \<Rightarrow> (unit \<times> 'a uart_scheme) run" where
  "uart_print_lit str s = for_each str (\<lambda>c. uart_16550_output_u8 (of_char c)) s"

definition uart_println_lit :: "string \<Rightarrow> 'a uart_scheme \<Rightarrow> (unit \<times> 'a uart_scheme) run" where
  "uart_println_lit str s = bindr (uart_print_lit str s) (\<lambda>(_, s). uart_print_char 10 s)"

text \<open>
  The digit tables are C string constants, so they end with a zero byte; an index past it is an
  access outside the object.
\<close>

definition hex_list :: "u8 list" where
  "hex_list = map of_char ''0123456789ABCDEF'' @ [0]"

definition dec_list :: "u8 list" where
  "dec_list = map of_char ''0123456789'' @ [0]"

definition uart_print_entry ::
  "u8 list \<Rightarrow> nat \<Rightarrow> 'a uart_scheme \<Rightarrow> (unit \<times> 'a uart_scheme) run" where
  "uart_print_entry table i s =
     (if i < length table then uart_print_char (table ! i) s else undef ''table index'')"

primrec uart_print_hex :: "nat \<Rightarrow> u64 \<Rightarrow> 'a uart_scheme \<Rightarrow> (unit \<times> 'a uart_scheme) run" where
  "uart_print_hex 0 hex_value s = ret ((), s)"
| "uart_print_hex (Suc i) hex_value s =
     bindr (uart_print_entry hex_list (unat (drop_bit (i * 4) hex_value AND 0xF)) s) (\<lambda>(_, s).
       uart_print_hex i hex_value s)"

definition uart_print_u64_hex :: "u64 \<Rightarrow> 'a uart_scheme \<Rightarrow> (unit \<times> 'a uart_scheme) run" where
  "uart_print_u64_hex hex_value s = uart_print_hex 16 hex_value s"

definition uart_println_u64_hex :: "u64 \<Rightarrow> 'a uart_scheme \<Rightarrow> (unit \<times> 'a uart_scheme) run" where
  "uart_println_u64_hex hex_value s =
     bindr (uart_print_u64_hex hex_value s) (\<lambda>(_, s). uart_print_char 10 s)"

definition uart_print_u32_hex :: "u32 \<Rightarrow> 'a uart_scheme \<Rightarrow> (unit \<times> 'a uart_scheme) run" where
  "uart_print_u32_hex hex_value s = uart_print_hex 8 (ucast hex_value) s"

definition uart_println_u32_hex :: "u32 \<Rightarrow> 'a uart_scheme \<Rightarrow> (unit \<times> 'a uart_scheme) run" where
  "uart_println_u32_hex hex_value s =
     bindr (uart_print_u32_hex hex_value s) (\<lambda>(_, s). uart_print_char 10 s)"

definition uart_print_u8_hex :: "u8 \<Rightarrow> 'a uart_scheme \<Rightarrow> (unit \<times> 'a uart_scheme) run" where
  "uart_print_u8_hex hex_value s = uart_print_hex 2 (ucast hex_value) s"

definition uart_println_u8_hex :: "u8 \<Rightarrow> 'a uart_scheme \<Rightarrow> (unit \<times> 'a uart_scheme) run" where
  "uart_println_u8_hex hex_value s =
     bindr (uart_print_u8_hex hex_value s) (\<lambda>(_, s). uart_print_char 10 s)"

text \<open>
  The digit buffer of \<open>uart_print_u64\<close>: the loop runs \<open>i\<close> from 19 down to 0 and stops at the
  digit after which nothing is left, which is \<open>bottom\<close>.
\<close>

primrec u64_digits :: "nat \<Rightarrow> u64 \<Rightarrow> u8 list \<Rightarrow> u8 list \<times> nat" where
  "u64_digits 0 num digits = (digits, 0)"
| "u64_digits (Suc i) num digits =
     (let digits = digits[i := ucast (num mod 10)]; num = num div 10
      in if num = 0 then (digits, i) else u64_digits i num digits)"

primrec uart_print_digits :: "u8 list \<Rightarrow> 'a uart_scheme \<Rightarrow> (unit \<times> 'a uart_scheme) run" where
  "uart_print_digits [] s = ret ((), s)"
| "uart_print_digits (d # ds) s =
     bindr (uart_print_entry dec_list (unat d) s) (\<lambda>(_, s). uart_print_digits ds s)"

definition uart_print_u64 :: "u64 \<Rightarrow> 'a uart_scheme \<Rightarrow> (unit \<times> 'a uart_scheme) run" where
  "uart_print_u64 num s =
     (let (digits, bottom) = u64_digits 20 num (replicate 20 0)
      in uart_print_digits (drop bottom digits) s)"

definition uart_println_u64 :: "u64 \<Rightarrow> 'a uart_scheme \<Rightarrow> (unit \<times> 'a uart_scheme) run" where
  "uart_println_u64 num s = bindr (uart_print_u64 num s) (\<lambda>(_, s). uart_print_char 10 s)"

text \<open>
  The signed variant negates in \<open>s64\<close>, which has no meaning in C for the smallest number, and divides
  with C's truncating division; the remainder is stored into a \<open>u8\<close>.
\<close>

primrec s64_digits :: "nat \<Rightarrow> int \<Rightarrow> u8 list \<Rightarrow> u8 list \<times> nat" where
  "s64_digits 0 num digits = (digits, 0)"
| "s64_digits (Suc i) num digits =
     (let digits = digits[i := word_of_int (num smod 10)]; num = num sdiv 10
      in if num = 0 then (digits, i) else s64_digits i num digits)"

definition uart_print_s64 :: "u64 \<Rightarrow> 'a uart_scheme \<Rightarrow> (unit \<times> 'a uart_scheme) run" where
  "uart_print_s64 num s =
     bindr (if sint num < 0 then
              bindr (uart_print_char 0x2D s) (\<lambda>(_, s).
                if sint num = - (2 ^ 63) then undef ''signed overflow'' else ret (- num, s))
            else ret (num, s)) (\<lambda>(num, s).
       let (digits, bottom) = s64_digits 20 (sint num) (replicate 20 0)
       in uart_print_digits (drop bottom digits) s)"

definition uart_println_s64 :: "u64 \<Rightarrow> 'a uart_scheme \<Rightarrow> (unit \<times> 'a uart_scheme) run" where
  "uart_println_s64 num s = bindr (uart_print_s64 num s) (\<lambda>(_, s). uart_print_char 10 s)"

section \<open>What is printed\<close>

text \<open>The device reports "ready to send" again and again.\<close>

definition uart_ready :: "'a uart_scheme \<Rightarrow> bool" where
  "uart_ready s \<longleftrightarrow> (\<forall>n. \<exists>m\<ge>n. uart_dev s m (5 * uart_reg_size s) AND 32 \<noteq> 0)"

text \<open>
  The operation returns, has sent exactly the bytes \<open>bs\<close>, and has changed nothing but the device
  log: some status reads and the writes of \<open>bs\<close>.
\<close>

definition prints ::
  "'a uart_scheme \<Rightarrow> u8 list \<Rightarrow> (unit \<times> 'a uart_scheme) run \<Rightarrow> bool" where
  "prints s bs r \<longleftrightarrow>
     (\<exists>k. r = ret ((), s\<lparr>uart_reads := k, uart_writes := uart_writes s @ map (Pair 0) bs\<rparr>))"

lemma prints_nil [simp]: "prints s [] (ret ((), s))"
  by (auto simp: prints_def intro: exI [of _ "uart_reads s"])

lemma prints_bind:
  assumes "prints s bs r"
    and "\<And>k. prints (s\<lparr>uart_reads := k, uart_writes := uart_writes s @ map (Pair 0) bs\<rparr>) cs
           (f (s\<lparr>uart_reads := k, uart_writes := uart_writes s @ map (Pair 0) bs\<rparr>))"
  shows "prints s (bs @ cs) (bindr r (\<lambda>(_, s). f s))"
  using assms unfolding prints_def by fastforce

lemma uart_ready_frame [simp]:
  "uart_ready (s\<lparr>uart_reads := k, uart_writes := w\<rparr>) \<longleftrightarrow> uart_ready s"
  "uart_ready (s\<lparr>uart_reads := k\<rparr>) \<longleftrightarrow> uart_ready s"
  by (simp_all add: uart_ready_def)

lemma output_u8_after:
  assumes "uart_dev s (uart_reads s + n) (5 * uart_reg_size s) AND 32 \<noteq> 0"
  shows "prints s [b] (uart_16550_output_u8 b s)"
  using assms
proof (induction n arbitrary: s)
  case 0
  then show ?case
    by (subst uart_16550_output_u8.simps)
      (auto simp: prints_def uart_load_def uart_store_def intro: exI [of _ "Suc (uart_reads s)"])
next
  case (Suc n)
  let ?s = "s\<lparr>uart_reads := Suc (uart_reads s)\<rparr>"
  have "prints ?s [b] (uart_16550_output_u8 b ?s)"
    using Suc.prems by (intro Suc.IH) simp
  then show ?case
    by (subst uart_16550_output_u8.simps)
      (auto simp: prints_def uart_load_def uart_store_def intro: exI [of _ "Suc (uart_reads s)"])
qed

lemma output_u8_prints: "uart_ready s \<Longrightarrow> prints s [b] (uart_16550_output_u8 b s)"
proof -
  assume "uart_ready s"
  then obtain m where "uart_reads s \<le> m" "uart_dev s m (5 * uart_reg_size s) AND 32 \<noteq> 0"
    unfolding uart_ready_def by blast
  then show ?thesis
    by (intro output_u8_after [of _ "m - uart_reads s"]) simp
qed

lemma print_char_prints:
  "uart_ready s \<Longrightarrow> prints s (if c = 10 then [10, 13] else [c]) (uart_print_char c s)"
  using prints_bind [OF output_u8_prints, of s c "if c = 10 then [13] else []"
      "\<lambda>s. if c = 10 then uart_16550_output_u8 13 s else ret ((), s)"]
  by (auto simp: uart_print_char_def output_u8_prints split: if_splits)

lemma print_entry_prints:
  assumes "uart_ready s" and "i < length table" and "table ! i \<noteq> 10"
  shows "prints s [table ! i] (uart_print_entry table i s)"
  using print_char_prints [OF assms(1), of "table ! i"] assms(2,3)
  by (simp add: uart_print_entry_def)

subsection \<open>Decimal numbers\<close>

text \<open>The reference: the decimal digits of a number, without leading zeros.\<close>

fun dec_digits :: "nat \<Rightarrow> nat list" where
  "dec_digits n = (if n < 10 then [n] else dec_digits (n div 10) @ [n mod 10])"

declare dec_digits.simps [simp del]

definition dec_value :: "nat list \<Rightarrow> nat" where
  "dec_value ds = foldl (\<lambda>v d. 10 * v + d) 0 ds"

lemma dec_value_digits: "dec_value (dec_digits n) = n"
  by (induction n rule: dec_digits.induct)
    (subst dec_digits.simps, auto simp: dec_value_def)

lemma dec_digits_lt: "\<forall>d \<in> set (dec_digits n). d < 10"
  by (induction n rule: dec_digits.induct) (subst dec_digits.simps, auto)

text \<open>The buffer loop computes the reference digits, right aligned in the buffer.\<close>

lemma s64_digits_eq:
  assumes "n < 10 ^ i" and "i \<le> length D" and "0 < i"
  shows "\<exists>D' b. s64_digits i (int n) D = (D', b) \<and> drop b D' = map of_nat (dec_digits n) @ drop i D"
  using assms
proof (induction i arbitrary: n D)
  case 0
  then show ?case by simp
next
  case (Suc i)
  let ?D = "D[i := word_of_int (int n smod 10)]"
  have dD: "drop i ?D = of_nat (n mod 10) # drop (Suc i) D"
    using Suc.prems(2) by (simp add: Cons_nth_drop_Suc [symmetric])
  show ?case
  proof (cases "n < 10")
    case True
    then have "dec_digits n = [n]" by (subst dec_digits.simps) simp
    with True dD show ?thesis by (auto simp: Let_def)
  next
    case False
    then have "n div 10 < 10 ^ i" and "0 < i"
      using Suc.prems(1) by (auto simp: less_mult_imp_div_less mult.commute intro: Nat.gr0I)
    moreover have "i \<le> length ?D" using Suc.prems(2) by simp
    ultimately obtain D' b where rec: "s64_digits i (int (n div 10)) ?D = (D', b)"
      and d: "drop b D' = map of_nat (dec_digits (n div 10)) @ drop i ?D"
      using Suc.IH [of "n div 10" ?D] by auto
    have "dec_digits n = dec_digits (n div 10) @ [n mod 10]"
      using False by (subst dec_digits.simps) simp
    moreover have "n div 10 \<noteq> 0" using False by auto
    ultimately show ?thesis using rec d dD by (simp add: Let_def)
  qed
qed

lemma u64_digits_as_s64: "u64_digits i num D = s64_digits i (int (unat num)) D"
proof (induction i arbitrary: num D)
  case 0
  then show ?case by simp
next
  case (Suc i)
  have "ucast (num mod 10) = (of_nat (unat (num mod 10)) :: u8)" by simp
  also have "unat (num mod 10) = unat num mod 10" by (simp add: unat_mod)
  finally have r: "ucast (num mod 10) = (of_nat (unat num mod 10) :: u8)" .
  have q: "unat (num div 10) = unat num div 10" by (simp add: unat_div)
  then have z: "num div 10 = 0 \<longleftrightarrow> unat num div 10 = 0" by (metis unat_eq_0)
  show ?case
    unfolding u64_digits.simps s64_digits.simps Let_def int_sdiv_numeral int_smod_numeral r z
    using Suc.IH [of "num div 10"] q by simp
qed

lemma dec_list_entry:
  assumes "d < 10"
  shows "d < length dec_list" and "dec_list ! d = of_nat (48 + d)" and "dec_list ! d \<noteq> 10"
proof -
  from assms have "d \<in> {0, 1, 2, 3, 4, 5, 6, 7, 8, 9}" by auto
  then have "d < length dec_list \<and> dec_list ! d = of_nat (48 + d) \<and> dec_list ! d \<noteq> 10"
    by (elim insertE emptyE) (simp_all add: dec_list_def)
  then show "d < length dec_list" and "dec_list ! d = of_nat (48 + d)" and "dec_list ! d \<noteq> 10"
    by blast+
qed

lemma print_digits_prints:
  assumes "uart_ready s" and "\<forall>d \<in> set ds. d < 10"
  shows "prints s (map (\<lambda>d. of_nat (48 + d)) ds) (uart_print_digits (map of_nat ds) s)"
  using assms
proof (induction ds arbitrary: s)
  case Nil
  then show ?case by simp
next
  case (Cons d ds)
  have "d < 10" using Cons.prems by simp
  then have d: "unat (of_nat d :: u8) = d" by (simp add: unat_of_nat)
  have "prints s [of_nat (48 + d)] (uart_print_entry dec_list d s)"
    using print_entry_prints [OF Cons.prems(1), of d dec_list] dec_list_entry [OF \<open>d < 10\<close>] by simp
  moreover have "prints (s\<lparr>uart_reads := k, uart_writes := w\<rparr>) (map (\<lambda>d. of_nat (48 + d)) ds)
      (uart_print_digits (map of_nat ds) (s\<lparr>uart_reads := k, uart_writes := w\<rparr>))" for k w
    using Cons.prems by (intro Cons.IH) auto
  ultimately show ?case
    using prints_bind [of s "[of_nat (48 + d)]" "uart_print_entry dec_list d s"] d by simp
qed

lemma print_dec_prints:
  assumes "uart_ready s" and "n < 10 ^ 20"
  shows "prints s (map (\<lambda>d. of_nat (48 + d)) (dec_digits n))
    (let (digits, bottom) = s64_digits 20 (int n) (replicate 20 0)
     in uart_print_digits (drop bottom digits) s)"
proof -
  obtain D b where "s64_digits 20 (int n) (replicate 20 0) = (D, b)"
    and "drop b D = map of_nat (dec_digits n)"
    using s64_digits_eq [of n 20 "replicate 20 0"] assms(2) by auto
  then show ?thesis
    using print_digits_prints [OF assms(1) dec_digits_lt] by simp
qed

lemma print_u64_prints:
  assumes "uart_ready s"
  shows "prints s (map (\<lambda>d. of_nat (48 + d)) (dec_digits (unat n))) (uart_print_u64 n s)"
proof -
  have "unat n < 10 ^ 20" using unsigned_less [where ?'a = nat, of n] by simp
  from print_dec_prints [OF assms this] show ?thesis
    by (simp add: uart_print_u64_def u64_digits_as_s64)
qed

subsection \<open>Hexadecimal numbers\<close>

definition hex_digits :: "nat \<Rightarrow> u64 \<Rightarrow> nat list" where
  "hex_digits n w = map (\<lambda>i. unat w div 16 ^ i mod 16) (rev [0..<n])"

lemma hex_digit_unat: "unat (drop_bit (i * 4) w AND 0xF) = unat w div 16 ^ i mod 16" for w :: u64
proof -
  have "(0xF :: u64) = mask 4" by (simp add: mask_eq_exp_minus_1)
  then have "drop_bit (i * 4) w AND 0xF = take_bit 4 (drop_bit (i * 4) w)"
    by (simp only: take_bit_eq_mask)
  then have "unat (drop_bit (i * 4) w AND 0xF) = take_bit 4 (drop_bit (i * 4) (take_bit 64 (unat w)))"
    by (simp add: unsigned_take_bit_eq unsigned_drop_bit_eq)
  also have "take_bit 64 (unat w) = unat w"
    using unsigned_less [where ?'a = nat, of w] by (simp add: take_bit_nat_eq_self)
  also have "take_bit 4 (drop_bit (i * 4) (unat w)) = unat w div 16 ^ i mod 16"
    by (simp add: take_bit_eq_mod drop_bit_eq_div power_mult mult.commute [of i])
  finally show ?thesis .
qed

lemma hex_value_digits:
  "foldl (\<lambda>v d. 16 * v + d) a (hex_digits n w) = 16 ^ n * a + unat w mod 16 ^ n"
proof (induction n arbitrary: a)
  case 0
  then show ?case by (simp add: hex_digits_def)
next
  case (Suc n)
  have "foldl (\<lambda>v d. 16 * v + d) a (hex_digits (Suc n) w)
      = 16 ^ n * (16 * a + unat w div 16 ^ n mod 16) + unat w mod 16 ^ n"
    using Suc.IH by (simp add: hex_digits_def)
  moreover have "unat w mod 16 ^ Suc n = 16 ^ n * (unat w div 16 ^ n mod 16) + unat w mod 16 ^ n"
    by (simp add: mod_mult2_eq mult.commute [of 16])
  ultimately show ?case by (simp add: algebra_simps)
qed

lemma hex_list_entry:
  assumes "d < 16"
  shows "d < length hex_list" and "hex_list ! d \<noteq> 10"
proof -
  from assms have "d \<in> {0, 1, 2, 3, 4, 5, 6, 7, 8, 9, 10, 11, 12, 13, 14, 15}"
    unfolding insert_iff empty_iff by arith
  then have "d < length hex_list \<and> hex_list ! d \<noteq> 10"
    by (elim insertE emptyE) (simp_all add: hex_list_def)
  then show "d < length hex_list" and "hex_list ! d \<noteq> 10" by blast+
qed

lemma print_hex_prints:
  "uart_ready s \<Longrightarrow> prints s (map ((!) hex_list) (hex_digits n w)) (uart_print_hex n w s)"
proof (induction n arbitrary: s)
  case 0
  then show ?case by (simp add: hex_digits_def)
next
  case (Suc n)
  let ?d = "unat w div 16 ^ n mod 16"
  have "prints s [hex_list ! ?d] (uart_print_entry hex_list ?d s)"
    by (rule print_entry_prints [OF Suc.prems]) (simp_all add: hex_list_entry)
  moreover have "prints (s\<lparr>uart_reads := k, uart_writes := v\<rparr>) (map ((!) hex_list) (hex_digits n w))
      (uart_print_hex n w (s\<lparr>uart_reads := k, uart_writes := v\<rparr>))" for k v
    using Suc.prems by (intro Suc.IH) simp
  ultimately show ?case
    using prints_bind [of s "[hex_list ! ?d]" "uart_print_entry hex_list ?d s"]
    by (simp add: hex_digits_def hex_digit_unat)
qed

subsection \<open>Signed numbers\<close>

lemma sint_uminus:
  fixes n :: u64
  assumes "sint n < 0" and "sint n \<noteq> - (2 ^ 63)"
  shows "sint (- n) = - sint n"
proof -
  have "- (2 ^ 63) \<le> sint n" using sint_ge [of n] by simp
  with assms have "signed_take_bit 63 (- sint n) = - sint n"
    by (simp add: signed_take_bit_int_eq_self)
  moreover have "sint (word_of_int (- sint n) :: u64) = signed_take_bit 63 (- sint n)"
    by (simp only: signed_of_int) simp
  moreover have "- n = word_of_int (- sint n)" by simp
  ultimately show ?thesis by metis
qed

lemma print_s64_prints:
  assumes "uart_ready s" and "sint n \<noteq> - (2 ^ 63)"
  shows "prints s ((if sint n < 0 then [0x2D] else [])
    @ map (\<lambda>d. of_nat (48 + d)) (dec_digits (nat \<bar>sint n\<bar>))) (uart_print_s64 n s)"
proof -
  have "nat \<bar>sint n\<bar> < 10 ^ 20"
    using sint_ge [of n] sint_lt [of n] by (simp add: nat_less_iff)
  then have dec: "prints t (map (\<lambda>d. of_nat (48 + d)) (dec_digits (nat \<bar>sint n\<bar>)))
    (let (digits, bottom) = s64_digits 20 \<bar>sint n\<bar> (replicate 20 0)
     in uart_print_digits (drop bottom digits) t)" if "uart_ready t" for t :: "'a uart_scheme"
    using print_dec_prints [OF that, of "nat \<bar>sint n\<bar>"] by simp
  show ?thesis
  proof (cases "sint n < 0")
    case True
    then have abs: "sint (- n) = \<bar>sint n\<bar>" using sint_uminus [OF _ assms(2)] by simp
    show ?thesis
      using True prints_bind [OF print_char_prints [OF assms(1), where c = "0x2D"] dec]
        assms by (simp add: uart_print_s64_def bindr_assoc abs case_prod_unfold)
  next
    case False
    then show ?thesis
      using dec [OF assms(1)] by (simp add: uart_print_s64_def)
  qed
qed

lemma print_s64_min:
  assumes "uart_ready s"
  shows "uart_print_s64 0x8000000000000000 s = undef ''signed overflow''"
proof -
  obtain s' where "uart_print_char 0x2D s = ret ((), s')"
    using print_char_prints [OF assms, where c = "0x2D"] by (auto simp: prints_def)
  then show ?thesis by (simp add: uart_print_s64_def sint_uint)
qed

lemma dec_digits_hd: "length (dec_digits n) = 1 \<or> hd (dec_digits n) \<noteq> 0"
proof (induction n rule: dec_digits.induct)
  case (1 n)
  have "dec_digits m \<noteq> []" for m by (subst dec_digits.simps) simp
  moreover have "hd (dec_digits m) \<noteq> 0" if "0 < m" "length (dec_digits m) = 1" for m
    using that by (subst (asm) dec_digits.simps, subst dec_digits.simps)
      (auto simp: calculation split: if_splits)
  ultimately show ?case
    using "1.IH" by (subst (1 2) dec_digits.simps) (auto simp: hd_append)
qed

section \<open>Log lines\<close>

lemma print_lit_prints: "uart_ready s \<Longrightarrow> prints s (map of_char str) (uart_print_lit str s)"
proof (induction str arbitrary: s)
  case Nil
  show ?case by (simp add: uart_print_lit_def)
next
  case (Cons c str)
  have "prints s ([of_char c] @ map of_char str) (bindr (uart_16550_output_u8 (of_char c) s) (\<lambda>(_, s). uart_print_lit str s))"
    by (rule prints_bind [OF output_u8_prints [OF Cons.prems]]) (use Cons in simp)
  then show ?case by (simp add: uart_print_lit_def)
qed

lemma println_lit_prints: "uart_ready s \<Longrightarrow> prints s (map of_char str @ [10, 13]) (uart_println_lit str s)"
  unfolding uart_println_lit_def
  by (rule prints_bind [OF print_lit_prints]) (simp_all add: print_char_prints [where c = 10, simplified])

text \<open>An operation that returns and has changed nothing but the device log.\<close>

definition logs :: "'a uart_scheme \<Rightarrow> (unit \<times> 'a uart_scheme) run \<Rightarrow> bool" where
  "logs s r \<longleftrightarrow> (\<exists>k w. r = ret ((), s\<lparr>uart_reads := k, uart_writes := w\<rparr>))"

lemma prints_logs: "prints s bs r \<Longrightarrow> logs s r"
  by (auto simp: prints_def logs_def)

lemma logs_bind:
  assumes "logs s r" and "\<And>k w. logs (s\<lparr>uart_reads := k, uart_writes := w\<rparr>) (f (s\<lparr>uart_reads := k, uart_writes := w\<rparr>))"
  shows "logs s (bindr r (\<lambda>(_, s). f s))"
proof -
  obtain k w where r: "r = ret ((), s\<lparr>uart_reads := k, uart_writes := w\<rparr>)" using assms(1) by (auto simp: logs_def)
  from assms(2) [where k = k and w = w] show ?thesis by (auto simp: logs_def r)
qed

lemma logs_for_each:
  assumes "uart_ready s" and "\<And>x s :: 'a uart_scheme. uart_ready s \<Longrightarrow> logs s (f x s)"
  shows "logs s (for_each xs f s)"
  using assms(1)
proof (induction xs arbitrary: s)
  case (Cons x xs)
  then show ?case by (auto intro!: logs_bind assms(2))
qed (auto intro!: prints_logs [OF prints_nil])

lemma logs_print:
  assumes "uart_ready s"
  shows "logs s (uart_print_lit str s)" "logs s (uart_println_lit str s)" "logs s (uart_print_u64_hex x s)"
    "logs s (uart_print_u64 x s)" "logs s (uart_print_char 10 s)"
  using print_lit_prints [OF assms] println_lit_prints [OF assms] print_hex_prints [OF assms] print_u64_prints [OF assms]
    print_char_prints [OF assms]
  by (auto intro!: prints_logs simp: uart_print_u64_hex_def)

section \<open>Properties\<close>

text \<open>A device that is always ready, for the witnesses.\<close>

definition ready_uart :: uart where
  "ready_uart = \<lparr>kmem = (\<lambda>_. 0), uart_reg_size = 1, uart_dev = (\<lambda>_ _. 0x20), uart_reads = 0,
     uart_writes = []\<rparr>"

lemma ready_uart_ready: "uart_ready ready_uart"
  by (auto simp: uart_ready_def ready_uart_def)

text \<open>
  C31. \<open>uart_print_u64\<close> on a device that keeps becoming ready returns after sending exactly the
  ASCII decimal digits of the number, most significant first and without leading zeros.
\<close>

theorem uart_print_u64_sound:
  assumes "uart_ready s"
  shows "\<exists>ds. prints s (map (\<lambda>d. of_nat (48 + d)) ds) (uart_print_u64 n s)
    \<and> (\<forall>d \<in> set ds. d < 10) \<and> dec_value ds = unat n \<and> (length ds = 1 \<or> hd ds \<noteq> 0)"
  using print_u64_prints [OF assms] dec_digits_lt dec_value_digits dec_digits_hd by blast

theorem uart_print_u64_sound_witness:
  "\<exists>ds. prints ready_uart (map (\<lambda>d. of_nat (48 + d)) ds) (uart_print_u64 U64_MAX ready_uart)
     \<and> dec_value ds = 18446744073709551615"
  using uart_print_u64_sound [OF ready_uart_ready, of U64_MAX] by auto

text \<open>
  \<open>uart_print_s64\<close> sends a minus sign exactly for a negative number and then the decimal
  digits of its absolute value, for every number but the smallest one.
\<close>

theorem uart_print_s64_sound:
  assumes "uart_ready s" and "sint n \<noteq> - (2 ^ 63)"
  shows "\<exists>ds. prints s ((if sint n < 0 then [0x2D] else []) @ map (\<lambda>d. of_nat (48 + d)) ds)
      (uart_print_s64 n s)
    \<and> (\<forall>d \<in> set ds. d < 10) \<and> int (dec_value ds) = \<bar>sint n\<bar> \<and> (length ds = 1 \<or> hd ds \<noteq> 0)"
proof -
  have "int (dec_value (dec_digits (nat \<bar>sint n\<bar>))) = \<bar>sint n\<bar>" by (simp add: dec_value_digits)
  then show ?thesis using print_s64_prints [OF assms] dec_digits_lt dec_digits_hd by blast
qed

theorem uart_print_s64_sound_witness:
  "\<exists>ds. prints ready_uart (0x2D # map (\<lambda>d. of_nat (48 + d)) ds) (uart_print_s64 (- 42) ready_uart)
     \<and> dec_value ds = 42"
proof -
  have "sint (- 42 :: u64) = - 42" by (simp add: sint_uint)
  then show ?thesis using uart_print_s64_sound [OF ready_uart_ready, of "- 42"] by auto
qed

text \<open>
  For the smallest 64-bit number \<open>uart_print_s64\<close> sends a minus sign and then negates a number whose
  negation does not fit into 64 bits, which is undefined in C.
\<close>

theorem uart_print_s64_min:
  assumes "uart_ready s"
  shows "uart_print_s64 0x8000000000000000 s = undef ''signed overflow''"
  by (rule print_s64_min [OF assms])

theorem uart_print_s64_min_witness:
  "uart_print_s64 0x8000000000000000 ready_uart = undef ''signed overflow''"
  by (rule uart_print_s64_min [OF ready_uart_ready])

text \<open>
  \<open>uart_print_u64_hex\<close> sends exactly sixteen hexadecimal digits, whose value is the number.
\<close>

theorem uart_print_u64_hex_sound:
  assumes "uart_ready s"
  shows "\<exists>ds. prints s (map ((!) hex_list) ds) (uart_print_u64_hex w s) \<and> length ds = 16
    \<and> (\<forall>d \<in> set ds. d < 16) \<and> foldl (\<lambda>v d. 16 * v + d) 0 ds = unat w"
proof -
  have "foldl (\<lambda>v d. 16 * v + d) 0 (hex_digits 16 w) = unat w"
    using hex_value_digits [of 0 16 w] unsigned_less [where ?'a = nat, of w] by simp
  moreover have "length (hex_digits 16 w) = 16" "\<forall>d \<in> set (hex_digits 16 w). d < 16"
    by (auto simp: hex_digits_def)
  moreover have "prints s (map ((!) hex_list) (hex_digits 16 w)) (uart_print_u64_hex w s)"
    using print_hex_prints [OF assms] by (simp add: uart_print_u64_hex_def)
  ultimately show ?thesis by blast
qed

theorem uart_print_u64_hex_sound_witness:
  "\<exists>ds. prints ready_uart (map ((!) hex_list) ds) (uart_print_u64_hex 0xDEADBEEF ready_uart)
     \<and> foldl (\<lambda>v d. 16 * v + d) 0 ds = 0xDEADBEEF"
  using uart_print_u64_hex_sound [OF ready_uart_ready, of "0xDEADBEEF"] by auto

end
