(* ===== verification/Page_Source.thy ===== *)
theory Page_Source
  imports Kernel_Prelude
begin

text \<open>
  The contract between the physical page allocator and the components that take pages from it. A
  page source hands out zeroed pages that are not in use, touches nothing but the page and its own
  bookkeeping cells, takes pages back, and does not mind what its clients write elsewhere.

  The lemmas of the locale are what the clients need: two calls give two different pages, the
  contents of a page a client holds survive every other call, and a write into a held page is seen
  by no other page.
\<close>

locale page_source =
  fixes alloc :: "'s \<Rightarrow> (u64 \<times> 's) run"
    and release :: "u64 \<Rightarrow> 's \<Rightarrow> (unit \<times> 's) run"
    and inv :: "'s \<Rightarrow> bool"
    and pool :: "'s \<Rightarrow> u64 set"
    and live :: "'s \<Rightarrow> u64 set"
    and meta :: "'s \<Rightarrow> u64 set"
    and rd :: "'s \<Rightarrow> mem"
    and upd :: "mem \<Rightarrow> 's \<Rightarrow> 's"
  assumes alloc_total: "inv s \<Longrightarrow> p \<in> pool s \<Longrightarrow> p \<notin> live s \<Longrightarrow> \<exists>q s'. alloc s = ret (q, s')"
    and alloc_fresh: "inv s \<Longrightarrow> alloc s = ret (p, s') \<Longrightarrow> p \<in> pool s \<and> p \<notin> live s"
    and alloc_inv: "inv s \<Longrightarrow> alloc s = ret (p, s') \<Longrightarrow>
      inv s' \<and> pool s' = pool s \<and> meta s' = meta s \<and> live s' = insert p (live s)"
    and alloc_zero: "inv s \<Longrightarrow> alloc s = ret (p, s') \<Longrightarrow> x \<in> page_cells p \<Longrightarrow> rd s' x = 0"
    and alloc_frame: "inv s \<Longrightarrow> alloc s = ret (p, s') \<Longrightarrow> x \<notin> page_cells p \<Longrightarrow> x \<notin> meta s \<Longrightarrow>
      rd s' x = rd s x"
    and release_total: "inv s \<Longrightarrow> p \<in> live s \<Longrightarrow> \<exists>s'. release p s = ret ((), s')"
    and release_inv: "inv s \<Longrightarrow> p \<in> live s \<Longrightarrow> release p s = ret ((), s') \<Longrightarrow>
      inv s' \<and> pool s' = pool s \<and> meta s' = meta s \<and> live s' = live s - {p}"
    and release_frame: "inv s \<Longrightarrow> p \<in> live s \<Longrightarrow> release p s = ret ((), s') \<Longrightarrow> x \<notin> meta s \<Longrightarrow>
      rd s' x = rd s x"
    and pages_apart: "inv s \<Longrightarrow> p \<in> live s \<Longrightarrow> q \<in> live s \<Longrightarrow> p \<noteq> q \<Longrightarrow>
      page_cells p \<inter> page_cells q = {}"
    and page_meta: "inv s \<Longrightarrow> p \<in> live s \<Longrightarrow> page_cells p \<inter> meta s = {}"
    and page_aligned: "inv s \<Longrightarrow> p \<in> live s \<Longrightarrow>
      p \<noteq> 0 \<and> unat p mod 4096 = 0 \<and> unat p + 8 * 512 \<le> 2 ^ 64"
    and rd_upd: "rd (upd m s) = m"
    and upd_inv: "inv s \<Longrightarrow> \<forall>x \<in> meta s. m x = rd s x \<Longrightarrow>
      inv (upd m s) \<and> pool (upd m s) = pool s \<and> meta (upd m s) = meta s \<and> live (upd m s) = live s"
begin

lemma alloc_live: "inv s \<Longrightarrow> alloc s = ret (p, s') \<Longrightarrow> p \<in> live s'"
  using alloc_inv by blast

text \<open>What a client keeps in a page it holds is still there after another allocation.\<close>

lemma alloc_keeps:
  assumes "inv s" and "alloc s = ret (p, s')" and "q \<in> live s" and "x \<in> page_cells q"
  shows "rd s' x = rd s x"
proof -
  have "q \<noteq> p" using alloc_fresh [OF assms(1,2)] assms(3) by blast
  moreover have "q \<in> live s'" "p \<in> live s'" "inv s'" using alloc_inv [OF assms(1,2)] assms(3) by auto
  ultimately have "x \<notin> page_cells p" using pages_apart [of s' q p] assms(4) by blast
  moreover have "x \<notin> meta s" using page_meta [OF assms(1,3)] assms(4) by blast
  ultimately show ?thesis by (rule alloc_frame [OF assms(1,2)])
qed

lemma release_keeps:
  assumes "inv s" and "p \<in> live s" and "release p s = ret ((), s')" and "q \<in> live s"
    and "x \<in> page_cells q"
  shows "rd s' x = rd s x"
  using release_frame [OF assms(1-3)] page_meta [OF assms(1,4)] assms(5) by blast

text \<open>Writing inside a held page.\<close>

lemma write_inv:
  assumes "inv s" and "p \<in> live s" and "x \<in> page_cells p"
  shows "inv (upd ((rd s)(x := v)) s)" and "pool (upd ((rd s)(x := v)) s) = pool s"
    and "meta (upd ((rd s)(x := v)) s) = meta s" and "live (upd ((rd s)(x := v)) s) = live s"
proof -
  have "\<forall>y \<in> meta s. ((rd s)(x := v)) y = rd s y" using page_meta [OF assms(1,2)] assms(3) by auto
  from upd_inv [OF assms(1) this]
  show "inv (upd ((rd s)(x := v)) s)" and "pool (upd ((rd s)(x := v)) s) = pool s"
    and "meta (upd ((rd s)(x := v)) s) = meta s" and "live (upd ((rd s)(x := v)) s) = live s"
    by blast+
qed

text \<open>Words of held pages: equal addresses mean the same word of the same page.\<close>

lemma same_page_index:
  assumes "inv s" and "a \<in> live s" and "i < 512" and "j < 512"
  shows "a + 8 * of_nat i = a + 8 * of_nat j \<longleftrightarrow> i = j"
  using page_aligned [OF assms(1,2)] cell_index_inj [OF _ assms(3,4)] by auto

lemma other_page_index:
  assumes "inv s" and "a \<in> live s" and "b \<in> live s" and "a \<noteq> b" and "i < 512" and "j < 512"
  shows "a + 8 * of_nat i \<noteq> b + 8 * of_nat j"
  using pages_apart [OF assms(1-4)] assms(5,6) unfolding cells_def by blast

text \<open>Allocating and giving back leaves the pages in use, and every page held, as they were.\<close>

lemma alloc_release:
  assumes "inv s" and "alloc s = ret (p, s')"
  shows "\<exists>s''. release p s' = ret ((), s'') \<and> inv s'' \<and> live s'' = live s
    \<and> (\<forall>q \<in> live s. \<forall>x \<in> page_cells q. rd s'' x = rd s x)"
proof -
  have s': "inv s'" "live s' = insert p (live s)" "p \<in> live s'"
    using alloc_inv [OF assms] by auto
  obtain s'' where r: "release p s' = ret ((), s'')" using release_total [OF s'(1,3)] by blast
  have "live s'' = live s"
    using release_inv [OF s'(1,3) r] alloc_fresh [OF assms] s'(2) by auto
  moreover have "rd s'' x = rd s x" if "q \<in> live s" "x \<in> page_cells q" for q x
    using release_keeps [OF s'(1,3) r, of q x] alloc_keeps [OF assms that] that s'(2) by simp
  ultimately show ?thesis using r release_inv [OF s'(1,3) r] by blast
qed

end

end
