(* ===== verification/Pager.thy ===== *)
theory Pager
  imports Uart Page_Source
begin

text \<open>
  The physical page allocator, \<^verbatim>\<open>src/src/kernel/memory/pager.c\<close>: the trimming of the memory
  regions, the layout of the region descriptors and bitmaps, \<open>pg_alloc\<close> and \<open>pg_free\<close>.

  The descriptors and the bitmaps live in kernel memory, as in the code: \<open>pager_bitmap_list\<close>
  points at a count followed by three words per region (page count, bitmap address, address of the
  first page), and a set bit of a bitmap is a page in use. The pages themselves are cells of the
  same memory, so that an overlap between a bitmap and a page is visible in the model.

  The lemmas show that, for descriptors that satisfy \<open>pager_wf\<close>, \<open>pg_alloc\<close> hands out the
  first free page, zeroed, and changes no other cell than the page and one bitmap word; that the
  search hint never hides a free page, so that the allocator runs out only when every page it can
  hand out is in use; and that \<open>pg_free\<close> undoes it and refuses everything else.
\<close>

record pager = uart +
  pager_bitmap_list :: u64
  last_free_bitmap :: int
  last_free_page_num :: int

section \<open>Memory regions\<close>

record memory_region =
  rgn_start :: u64
  rgn_size :: u64

definition MAX_MEMORY_REGIONS :: nat where
  "MAX_MEMORY_REGIONS = 32"

text \<open>
  The inner loop of \<open>remove_reserved_memory_regions\<close> for one reserved region. The active part of
  the array \<open>free_regions\<close> is a list; a store past the array's 32 entries has no meaning in C.
\<close>

partial_function (option) remove_reserved_region ::
  "memory_region \<Rightarrow> nat \<Rightarrow> memory_region list \<Rightarrow> memory_region list run" where
  "remove_reserved_region reserved j free_regions =
     (if j < length free_regions then
        let free = free_regions ! j;
            reserved_end = rgn_start reserved + rgn_size reserved;
            free_end = rgn_start free + rgn_size free
        in
        if rgn_start reserved \<le> rgn_start free \<and> reserved_end \<ge> free_end then
          remove_reserved_region reserved j (butlast (free_regions[j := last free_regions]))
        else if rgn_start reserved \<le> rgn_start free \<and> reserved_end < free_end then
          let free = free\<lparr>rgn_start := reserved_end\<rparr>;
              free = free\<lparr>rgn_size := rgn_size free - (reserved_end - rgn_start free)\<rparr>
          in remove_reserved_region reserved (j + 1) (free_regions[j := free])
        else if rgn_start reserved > rgn_start free \<and> reserved_end \<ge> free_end then
          let free = free\<lparr>rgn_size := rgn_size free - (rgn_start free - rgn_start reserved)\<rparr>
          in remove_reserved_region reserved (j + 1) (free_regions[j := free])
        else if length free_regions < MAX_MEMORY_REGIONS then
          let free = free\<lparr>rgn_size := rgn_size free - (free_end - rgn_start reserved)\<rparr>;
              upper = \<lparr>rgn_start = reserved_end, rgn_size = free_end - reserved_end\<rparr>
          in remove_reserved_region reserved j (free_regions[j := free] @ [upper])
        else undef ''free_regions index''
      else ret free_regions)"

primrec remove_reserved_memory_regions ::
  "memory_region list \<Rightarrow> memory_region list \<Rightarrow> memory_region list run" where
  "remove_reserved_memory_regions [] free_regions = ret free_regions"
| "remove_reserved_memory_regions (r # rs) free_regions =
     bindr (remove_reserved_region r 0 free_regions) (remove_reserved_memory_regions rs)"

section \<open>Region descriptors\<close>

text \<open>\<open>pager_bitmap_list[k]\<close>\<close>

definition pbl_addr :: "'a pager_scheme \<Rightarrow> nat \<Rightarrow> u64" where
  "pbl_addr s k = pager_bitmap_list s + 8 * of_nat k"

definition pbl :: "'a pager_scheme \<Rightarrow> nat \<Rightarrow> u64" where
  "pbl s k = kmem s (pbl_addr s k)"

text \<open>
  The set-up loop at the end of \<open>pager_init\<close>: the descriptor of region \<open>i\<close> and its cleared
  bitmap. A region smaller than the pages it gives up for its bitmap makes \<open>page_cnt\<close> wrap. The
  \<open>s32\<close> counter of the loop over the bitmap is in \<open>clear_bitmap\<close> of \<open>Pager_Boot\<close>, which \<open>pager_init\<close> runs;
  \<open>set_region\<close> is what it stores when the counter does not overflow.
\<close>

definition region_page_start :: "memory_region \<Rightarrow> u64" where
  "region_page_start r = (rgn_start r div KERNEL_PAGE_SIZE + 1) * KERNEL_PAGE_SIZE"

definition region_page_cnt :: "memory_region \<Rightarrow> u64" where
  "region_page_cnt r =
     (let page_cnt = rgn_size r div KERNEL_PAGE_SIZE;
          page_offset = s32 (uint ((page_cnt div 8) div KERNEL_PAGE_SIZE + 2))
      in page_cnt - word_of_int page_offset)"

definition set_region :: "nat \<Rightarrow> memory_region \<Rightarrow> 'a pager_scheme \<Rightarrow> 'a pager_scheme" where
  "set_region i r s =
     (let m = (kmem s)(pbl_addr s (1 + i * 3) := region_page_cnt r,
                       pbl_addr s (2 + i * 3) := rgn_start r,
                       pbl_addr s (3 + i * 3) := region_page_start r)
      in s\<lparr>kmem := zero_cells (unat ((region_page_cnt r + 63) div 64)) (rgn_start r) m\<rparr>)"

primrec set_regions :: "nat \<Rightarrow> memory_region list \<Rightarrow> 'a pager_scheme \<Rightarrow> 'a pager_scheme" where
  "set_regions i [] s = s"
| "set_regions i (r # rs) s = set_regions (Suc i) rs (set_region i r s)"

definition pager_publish :: "memory_region list \<Rightarrow> 'a pager_scheme \<Rightarrow> 'a pager_scheme" where
  "pager_publish free_regions s =
     set_regions 0 free_regions
       (s\<lparr>kmem := (kmem s)(pbl_addr s 0 := of_nat (length free_regions))\<rparr>)"

section \<open>Allocating a page\<close>

text \<open>The inner loop of \<open>pg_alloc\<close>: the first word of the bitmap that is not full.\<close>

function find_word :: "mem \<Rightarrow> u64 \<Rightarrow> int \<Rightarrow> int \<Rightarrow> int option" where
  "find_word m bitmap j limit =
     (if j < limit then
        if m (bitmap + 8 * word_of_int j) \<noteq> U64_MAX then Some j
        else find_word m bitmap (j + 1) limit
      else None)"
  by pat_completeness auto
termination
  by (relation "measure (\<lambda>(m, bitmap, j, limit). nat (limit - j))") auto

text \<open>The outer loop: regions from the hint on, the hint's own region from the hint's word on.\<close>

function find_region :: "'a pager_scheme \<Rightarrow> int \<Rightarrow> (int \<times> int) option" where
  "find_region s i =
     (if i < sint (pbl s 0) then
        let page_cnt = sint (pbl s (nat (1 + i * 3)));
            bitmap = pbl s (nat (2 + i * 3));
            page_start = (if i = last_free_bitmap s then last_free_page_num s sdiv 64 else 0)
        in case find_word (kmem s) bitmap page_start (page_cnt sdiv 64) of
             Some j \<Rightarrow> Some (i, j)
           | None \<Rightarrow> find_region s (i + 1)
      else None)"
  by pat_completeness auto
termination
  by (relation "measure (\<lambda>(s, i). nat (sint (pbl s 0) - i))") auto

declare find_word.simps [simp del] find_region.simps [simp del]

text \<open>
  Taking the first free page of word \<open>j\<close> of region \<open>i\<close>. The product
  \<open>free_page * KERNEL_PAGE_SIZE\<close> is a product of two \<open>int\<close>s in C, hence \<open>s32\<close>.
\<close>

definition take_page :: "int \<Rightarrow> int \<Rightarrow> 'a pager_scheme \<Rightarrow> u64 \<times> 'a pager_scheme" where
  "take_page i j s =
     (let bitmap = pbl s (nat (2 + i * 3));
          base_page = pbl s (nat (3 + i * 3));
          word = bitmap + 8 * word_of_int j;
          b = ctzl (NOT (kmem s word));
          free_page = s32 (j * 64 + int b);
          s = s\<lparr>last_free_bitmap := i, last_free_page_num := free_page,
                kmem := (kmem s)(word := kmem s word OR BIT b)\<rparr>;
          page_location = base_page + word_of_int (s32 (free_page * 4096))
      in (page_location, s\<lparr>kmem := zero_cells 512 page_location (kmem s)\<rparr>))"

definition pg_alloc :: "'a pager_scheme \<Rightarrow> (u64 \<times> 'a pager_scheme) run" where
  "pg_alloc s =
     (case find_region s (last_free_bitmap s) of
        None \<Rightarrow> panic ''OUT_OF_FREE_PAGES'' 0 0 0
      | Some (i, j) \<Rightarrow> ret (take_page i j s))"

section \<open>Freeing a page\<close>

text \<open>
  The search of \<open>pg_free\<close> after \<open>n\<close> regions: the page count, bitmap, first page and number of
  the region with the highest first page at or below the address; null pointers when there is none.
\<close>

primrec closest_region :: "'a pager_scheme \<Rightarrow> u64 \<Rightarrow> nat \<Rightarrow> u64 \<times> u64 \<times> u64 \<times> nat" where
  "closest_region s location 0 = (0, 0, 0, 0)"
| "closest_region s location (Suc i) =
     (case closest_region s location i of (cnt, bitmap, page_list, num) \<Rightarrow>
        let base_page = pbl s (3 + i * 3)
        in if base_page > page_list \<and> location \<ge> base_page
           then (pbl s (1 + i * 3), pbl s (2 + i * 3), base_page, i)
           else (cnt, bitmap, page_list, num))"

definition pg_free :: "u64 \<Rightarrow> 'a pager_scheme \<Rightarrow> (unit \<times> 'a pager_scheme) run" where
  "pg_free location s =
     (case closest_region s location (nat (sint (pbl s 0))) of (cnt, bitmap, page_list, num) \<Rightarrow>
        let page_num = sint (location - page_list) sdiv 4096;
            word = bitmap + 8 * word_of_int (page_num sdiv 64);
            b = nat (page_num smod 64)
        in
        if bitmap = 0 then panic ''PAGE_REMOVE_NO_OVERRIDE'' location cnt page_list
        else if page_num < 0 \<or> page_num \<ge> sint cnt then
          panic ''ATTEMPT_REMOVE_PAGE_OUT_OF_RANGE'' (word_of_int page_num) cnt page_list
        else if NOT (kmem s word) AND BIT b \<noteq> 0 then
          panic ''DOUBLE_FREE_PAGE'' location (word_of_int page_num) bitmap
        else
          let s = s\<lparr>kmem := (kmem s)(word := kmem s word AND NOT (BIT b))\<rparr>
          in if last_free_bitmap s > int num
                \<or> (last_free_page_num s > page_num \<and> last_free_bitmap s = int num)
             then ret ((), s\<lparr>last_free_bitmap := int num, last_free_page_num := s32 page_num\<rparr>)
             else ret ((), s))"

section \<open>The layout invariant\<close>

definition rcnt :: "'a pager_scheme \<Rightarrow> nat" where
  "rcnt s = nat (sint (pbl s 0))"

definition rpages :: "'a pager_scheme \<Rightarrow> nat \<Rightarrow> nat" where
  "rpages s i = nat (sint (pbl s (1 + i * 3)))"

definition rbitmap :: "'a pager_scheme \<Rightarrow> nat \<Rightarrow> u64" where
  "rbitmap s i = pbl s (2 + i * 3)"

definition rbase :: "'a pager_scheme \<Rightarrow> nat \<Rightarrow> u64" where
  "rbase s i = pbl s (3 + i * 3)"

definition rwords :: "'a pager_scheme \<Rightarrow> nat \<Rightarrow> nat" where
  "rwords s i = (rpages s i + 63) div 64"

definition page_addr :: "'a pager_scheme \<Rightarrow> nat \<Rightarrow> nat \<Rightarrow> u64" where
  "page_addr s i k = rbase s i + 4096 * of_nat k"

definition page_word :: "'a pager_scheme \<Rightarrow> nat \<Rightarrow> nat \<Rightarrow> u64" where
  "page_word s i k = rbitmap s i + 8 * of_nat (k div 64)"

definition page_used :: "'a pager_scheme \<Rightarrow> nat \<Rightarrow> nat \<Rightarrow> bool" where
  "page_used s i k \<longleftrightarrow> bit (kmem s (page_word s i k)) (k mod 64)"

text \<open>
  The pages of the descriptors, and those \<open>pg_alloc\<close> looks at: it leaves out the last
  \<open>page_cnt mod 64\<close> pages of a region.
\<close>

definition managed :: "'a pager_scheme \<Rightarrow> nat \<Rightarrow> nat \<Rightarrow> bool" where
  "managed s i k \<longleftrightarrow> i < rcnt s \<and> k < rpages s i"

definition allocatable :: "'a pager_scheme \<Rightarrow> nat \<Rightarrow> nat \<Rightarrow> bool" where
  "allocatable s i k \<longleftrightarrow> i < rcnt s \<and> k < 64 * (rpages s i div 64)"

text \<open>
  A region's descriptor: a positive page count small enough for the 32-bit product of
  \<open>pg_alloc\<close>, an aligned bitmap, aligned pages, and none of the three areas meeting another.
\<close>

definition region_wf :: "'a pager_scheme \<Rightarrow> nat \<Rightarrow> bool" where
  "region_wf s i \<longleftrightarrow>
     0 < sint (pbl s (1 + i * 3)) \<and> rpages s i \<le> 2 ^ 19
     \<and> rbitmap s i \<noteq> 0 \<and> unat (rbitmap s i) mod 8 = 0
     \<and> unat (rbitmap s i) + 8 * rwords s i \<le> 2 ^ 64
     \<and> rbase s i \<noteq> 0 \<and> unat (rbase s i) mod 4096 = 0
     \<and> unat (rbase s i) + 4096 * rpages s i \<le> 2 ^ 64
     \<and> apart (unat (pager_bitmap_list s)) (8 * (1 + 3 * rcnt s))
             (unat (rbitmap s i)) (8 * rwords s i)
     \<and> apart (unat (pager_bitmap_list s)) (8 * (1 + 3 * rcnt s))
             (unat (rbase s i)) (4096 * rpages s i)"

definition regions_apart :: "'a pager_scheme \<Rightarrow> nat \<Rightarrow> nat \<Rightarrow> bool" where
  "regions_apart s i j \<longleftrightarrow>
     (i \<noteq> j \<longrightarrow> apart (unat (rbitmap s i)) (8 * rwords s i) (unat (rbitmap s j)) (8 * rwords s j)
            \<and> apart (unat (rbase s i)) (4096 * rpages s i) (unat (rbase s j)) (4096 * rpages s j))
     \<and> apart (unat (rbitmap s i)) (8 * rwords s i) (unat (rbase s j)) (4096 * rpages s j)"

definition pager_wf :: "'a pager_scheme \<Rightarrow> bool" where
  "pager_wf s \<longleftrightarrow>
     0 \<le> sint (pbl s 0) \<and> rcnt s \<le> MAX_MEMORY_REGIONS
     \<and> unat (pager_bitmap_list s) mod 8 = 0
     \<and> unat (pager_bitmap_list s) + 8 * (1 + 3 * rcnt s) \<le> 2 ^ 64
     \<and> (\<forall>i<rcnt s. region_wf s i) \<and> (\<forall>i<rcnt s. \<forall>j<rcnt s. regions_apart s i j)"

text \<open>The hint: every page before it that could be handed out is in use.\<close>

definition before :: "nat \<Rightarrow> nat \<Rightarrow> int \<Rightarrow> int \<Rightarrow> bool" where
  "before i k i' k' \<longleftrightarrow> int i < i' \<or> (int i = i' \<and> int k < k')"

definition hint_ok :: "'a pager_scheme \<Rightarrow> bool" where
  "hint_ok s \<longleftrightarrow> 0 \<le> last_free_bitmap s \<and> 0 \<le> last_free_page_num s
     \<and> (\<forall>i k. allocatable s i k \<longrightarrow> before i k (last_free_bitmap s) (last_free_page_num s)
              \<longrightarrow> page_used s i k)"

subsection \<open>Consequences of the layout\<close>

lemma pager_wf_region: "pager_wf s \<Longrightarrow> i < rcnt s \<Longrightarrow> region_wf s i"
  by (simp add: pager_wf_def)

lemma pager_wf_apart: "pager_wf s \<Longrightarrow> i < rcnt s \<Longrightarrow> j < rcnt s \<Longrightarrow> regions_apart s i j"
  by (simp add: pager_wf_def)

lemma allocatable_managed: "allocatable s i k \<Longrightarrow> managed s i k"
  unfolding allocatable_def managed_def
  by (meson div_times_less_eq_dividend less_le_trans mult.commute order.trans times_div_less_eq_dividend)

lemma unat_page_addr:
  assumes "region_wf s i" and "k < rpages s i"
  shows "unat (page_addr s i k) = unat (rbase s i) + 4096 * k"
proof -
  have b: "unat (rbase s i) + 4096 * rpages s i \<le> 2 ^ 64" using assms(1) by (simp add: region_wf_def)
  with assms(2) have "4096 * k < 2 ^ 64" by linarith
  then have "unat (4096 * of_nat k :: u64) = 4096 * k"
    by (simp add: unat_word_ariths unat_of_nat)
  with b assms(2) show ?thesis by (simp add: page_addr_def unat_word_ariths)
qed

lemma page_word_lt: "k < rpages s i \<Longrightarrow> k div 64 < rwords s i"
  by (simp add: rwords_def)

lemma page_word_in_bitmap: "k < rpages s i \<Longrightarrow> page_word s i k \<in> cells (rbitmap s i) (rwords s i)"
  using page_word_lt [of k s i] by (auto simp: page_word_def cells_def)

definition desc_cells :: "'a pager_scheme \<Rightarrow> u64 set" where
  "desc_cells s = cells (pager_bitmap_list s) (1 + 3 * rcnt s)"

lemma pbl_addr_in_desc: "k < 1 + 3 * rcnt s \<Longrightarrow> pbl_addr s k \<in> desc_cells s"
  by (auto simp: pbl_addr_def desc_cells_def cells_def)

lemma page_cells_range:
  assumes "region_wf s i" and "k < rpages s i" and "x \<in> page_cells (page_addr s i k)"
  shows "unat (rbase s i) + 4096 * k \<le> unat x" and "unat x < unat (rbase s i) + 4096 * (k + 1)"
proof -
  have "unat (rbase s i) + 4096 * rpages s i \<le> 2 ^ 64" using assms(1) by (simp add: region_wf_def)
  then have "unat (page_addr s i k) + 8 * 512 \<le> 2 ^ 64"
    using assms(2) unat_page_addr [OF assms(1,2)] by linarith
  from in_cells_iff [OF this, of x] assms(3)
  show "unat (rbase s i) + 4096 * k \<le> unat x" and "unat x < unat (rbase s i) + 4096 * (k + 1)"
    by (simp_all add: unat_page_addr [OF assms(1,2)])
qed

lemma page_cells_in_region:
  assumes "region_wf s i" and "k < rpages s i" and "x \<in> page_cells (page_addr s i k)"
  shows "unat (rbase s i) \<le> unat x" and "unat x < unat (rbase s i) + 4096 * rpages s i"
  using page_cells_range [OF assms] assms(2) by (auto intro: less_le_trans)

lemma bitmap_range:
  assumes "region_wf s i" and "x \<in> cells (rbitmap s i) (rwords s i)"
  shows "unat (rbitmap s i) \<le> unat x" and "unat x < unat (rbitmap s i) + 8 * rwords s i"
proof -
  have "unat (rbitmap s i) + 8 * rwords s i \<le> 2 ^ 64" using assms(1) by (simp add: region_wf_def)
  from in_cells_iff [OF this, of x] assms(2)
  show "unat (rbitmap s i) \<le> unat x" and "unat x < unat (rbitmap s i) + 8 * rwords s i" by simp_all
qed

lemma desc_range:
  assumes "pager_wf s" and "x \<in> desc_cells s"
  shows "unat (pager_bitmap_list s) \<le> unat x"
    and "unat x < unat (pager_bitmap_list s) + 8 * (1 + 3 * rcnt s)"
proof -
  have "unat (pager_bitmap_list s) + 8 * (1 + 3 * rcnt s) \<le> 2 ^ 64"
    using assms(1) unfolding pager_wf_def by blast
  from in_cells_iff [OF this, of x] assms(2)
  show "unat (pager_bitmap_list s) \<le> unat x"
    and "unat x < unat (pager_bitmap_list s) + 8 * (1 + 3 * rcnt s)"
    unfolding desc_cells_def by blast+
qed

lemma page_not_desc:
  assumes "pager_wf s" and "managed s i k" and "x \<in> page_cells (page_addr s i k)"
  shows "x \<notin> desc_cells s"
proof
  assume x: "x \<in> desc_cells s"
  from assms(2) have k: "k < rpages s i" and wf: "region_wf s i"
    using pager_wf_region [OF assms(1)] by (auto simp: managed_def)
  show False
    using page_cells_in_region [OF wf k assms(3)] desc_range [OF assms(1) x] wf
    unfolding region_wf_def apart_def by linarith
qed

lemma page_not_bitmap:
  assumes "pager_wf s" and "managed s i k" and "j < rcnt s" and "x \<in> page_cells (page_addr s i k)"
  shows "x \<notin> cells (rbitmap s j) (rwords s j)"
proof
  assume x: "x \<in> cells (rbitmap s j) (rwords s j)"
  from assms(2) have k: "k < rpages s i" and i: "i < rcnt s" by (auto simp: managed_def)
  have "regions_apart s j i" by (rule pager_wf_apart [OF assms(1,3) i])
  then show False
    using page_cells_in_region [OF pager_wf_region [OF assms(1) i] k assms(4)]
      bitmap_range [OF pager_wf_region [OF assms(1,3)] x]
    unfolding regions_apart_def apart_def by linarith
qed

lemma bitmap_not_desc:
  assumes "pager_wf s" and "j < rcnt s" and "x \<in> cells (rbitmap s j) (rwords s j)"
  shows "x \<notin> desc_cells s"
proof
  assume x: "x \<in> desc_cells s"
  show False
    using bitmap_range [OF pager_wf_region [OF assms(1,2)] assms(3)] desc_range [OF assms(1) x]
      pager_wf_region [OF assms(1,2)]
    unfolding region_wf_def apart_def by linarith
qed

lemma page_word_eq:
  assumes "pager_wf s" and "managed s i k" and "managed s j l" and "page_word s i k = page_word s j l"
  shows "i = j" and "k div 64 = l div 64"
proof -
  from assms(2,3) have k: "k < rpages s i" "i < rcnt s" and l: "l < rpages s j" "j < rcnt s"
    by (auto simp: managed_def)
  note wi = pager_wf_region [OF assms(1) k(2)] and wj = pager_wf_region [OF assms(1) l(2)]
  show ij: "i = j"
  proof (rule ccontr)
    assume "i \<noteq> j"
    then show False
      using bitmap_range [OF wi page_word_in_bitmap [OF k(1)]]
        bitmap_range [OF wj page_word_in_bitmap [OF l(1)]] assms(4)
        pager_wf_apart [OF assms(1) k(2) l(2)]
      unfolding regions_apart_def apart_def by (metis leD le_trans)
  qed
  have "unat (rbitmap s i) + 8 * rwords s i \<le> 2 ^ 64" using wi by (simp add: region_wf_def)
  then show "k div 64 = l div 64"
    using cell_index_inj [OF _ page_word_lt [OF k(1)] page_word_lt] l(1) assms(4) ij
    by (metis page_word_def)
qed

lemma page_cells_disjoint:
  assumes "pager_wf s" and "managed s i k" and "managed s j l"
    and "x \<in> page_cells (page_addr s i k)" and "x \<in> page_cells (page_addr s j l)"
  shows "i = j \<and> k = l"
proof -
  from assms(2,3) have k: "k < rpages s i" "i < rcnt s" and l: "l < rpages s j" "j < rcnt s"
    by (auto simp: managed_def)
  note wi = pager_wf_region [OF assms(1) k(2)] and wj = pager_wf_region [OF assms(1) l(2)]
  have ij: "i = j"
  proof (rule ccontr)
    assume "i \<noteq> j"
    then show False
      using page_cells_in_region [OF wi k(1) assms(4)] page_cells_in_region [OF wj l(1) assms(5)]
        pager_wf_apart [OF assms(1) k(2) l(2)]
      unfolding regions_apart_def apart_def by linarith
  qed
  show ?thesis
    using page_cells_range [OF wi k(1) assms(4)] page_cells_range [OF wj l(1) assms(5)] ij by auto
qed

lemma page_addr_in_cells: "p \<in> page_cells p"
  by (auto simp: cells_def intro: exI [of _ 0])

lemma page_addr_inj:
  assumes "pager_wf s" and "managed s i k" and "managed s j l" and "page_addr s i k = page_addr s j l"
  shows "i = j \<and> k = l"
  using page_cells_disjoint [OF assms(1-3), of "page_addr s i k"] page_addr_in_cells assms(4) by auto

subsection \<open>The descriptors decide the layout\<close>

text \<open>Two states with the same descriptors have the same layout, whatever the rest of memory.\<close>

definition same_desc :: "'a pager_scheme \<Rightarrow> 'a pager_scheme \<Rightarrow> bool" where
  "same_desc s s' \<longleftrightarrow> pager_bitmap_list s' = pager_bitmap_list s
     \<and> (\<forall>x \<in> desc_cells s. kmem s' x = kmem s x)"

lemma same_desc_pbl: "same_desc s s' \<Longrightarrow> k < 1 + 3 * rcnt s \<Longrightarrow> pbl s' k = pbl s k"
  using pbl_addr_in_desc [of k s] by (simp add: same_desc_def pbl_def pbl_addr_def)

lemma same_desc_rcnt: "same_desc s s' \<Longrightarrow> rcnt s' = rcnt s"
  using same_desc_pbl [of s s' 0] by (simp add: rcnt_def)

lemma same_desc_region:
  assumes "same_desc s s'" and "i < rcnt s"
  shows "rpages s' i = rpages s i" and "rbitmap s' i = rbitmap s i" and "rbase s' i = rbase s i"
  using same_desc_pbl [OF assms(1), of "1 + i * 3"] same_desc_pbl [OF assms(1), of "2 + i * 3"]
    same_desc_pbl [OF assms(1), of "3 + i * 3"] assms(2)
  by (simp_all add: rpages_def rbitmap_def rbase_def)

lemma same_desc_page:
  assumes "same_desc s s'" and "i < rcnt s"
  shows "page_addr s' i k = page_addr s i k" and "page_word s' i k = page_word s i k"
    and "managed s' i k = managed s i k" and "allocatable s' i k = allocatable s i k"
  using same_desc_region [OF assms] same_desc_rcnt [OF assms(1)]
  by (simp_all add: page_addr_def page_word_def managed_def allocatable_def)

lemma same_desc_wf:
  assumes "same_desc s s'" and "pager_wf s"
  shows "pager_wf s'"
proof -
  have region: "region_wf s' i" if "i < rcnt s" for i
    using same_desc_region [OF assms(1) that] pager_wf_region [OF assms(2) that]
      same_desc_pbl [OF assms(1), of "1 + i * 3"] same_desc_rcnt [OF assms(1)] assms(1) that
    by (simp add: region_wf_def rwords_def same_desc_def)
  have ap: "regions_apart s' i j" if "i < rcnt s" "j < rcnt s" for i j
    using same_desc_region [OF assms(1) that(1)] same_desc_region [OF assms(1) that(2)]
      pager_wf_apart [OF assms(2) that]
    by (simp add: regions_apart_def rwords_def)
  have "sint (pbl s' 0) = sint (pbl s 0)"
    using same_desc_pbl [OF assms(1), of 0] by simp
  then show ?thesis
    using assms region ap same_desc_rcnt [OF assms(1)]
    by (simp add: pager_wf_def same_desc_def)
qed

section \<open>Allocation\<close>

subsection \<open>The search\<close>

lemma find_word_Some:
  "find_word m bm j lim = Some r \<Longrightarrow>
     j \<le> r \<and> r < lim \<and> m (bm + 8 * word_of_int r) \<noteq> U64_MAX
     \<and> (\<forall>x. j \<le> x \<and> x < r \<longrightarrow> m (bm + 8 * word_of_int x) = U64_MAX)"
proof (induction m bm j lim rule: find_word.induct)
  case (1 m bm j lim)
  show ?case
  proof (cases "j < lim \<and> m (bm + 8 * word_of_int j) = U64_MAX")
    case True
    with "1.prems" have rec: "find_word m bm (j + 1) lim = Some r"
      by (simp add: find_word.simps [of m bm j lim])
    from "1.IH" [OF _ _ rec] True
    have IH: "j + 1 \<le> r" "r < lim" "m (bm + 8 * word_of_int r) \<noteq> U64_MAX"
      "\<forall>x. j + 1 \<le> x \<and> x < r \<longrightarrow> m (bm + 8 * word_of_int x) = U64_MAX" by auto
    have "m (bm + 8 * word_of_int x) = U64_MAX" if "j \<le> x \<and> x < r" for x
      using IH(4) True that by (cases "x = j") auto
    with IH show ?thesis by auto
  next
    case False
    with "1.prems" show ?thesis by (auto simp: find_word.simps [of m bm j lim] split: if_splits)
  qed
qed

lemma find_word_None:
  "find_word m bm j lim = None \<Longrightarrow> j \<le> x \<Longrightarrow> x < lim \<Longrightarrow> m (bm + 8 * word_of_int x) = U64_MAX"
proof (induction m bm j lim rule: find_word.induct)
  case (1 m bm j lim)
  have full: "m (bm + 8 * word_of_int j) = U64_MAX"
    using "1.prems" by (simp add: find_word.simps [of m bm j lim] split: if_splits)
  then have "find_word m bm (j + 1) lim = None"
    using "1.prems" by (simp add: find_word.simps [of m bm j lim])
  with "1.IH" [OF _ _ this] "1.prems" full show ?case by (cases "x = j") auto
qed

text \<open>The first word \<open>pg_alloc\<close> looks at in a region, and the number of words it looks at.\<close>

definition scan_from :: "'a pager_scheme \<Rightarrow> nat \<Rightarrow> nat" where
  "scan_from s i = (if int i = last_free_bitmap s then nat (last_free_page_num s) div 64 else 0)"

abbreviation scan_word :: "'a pager_scheme \<Rightarrow> nat \<Rightarrow> nat \<Rightarrow> u64" where
  "scan_word s i w \<equiv> kmem s (rbitmap s i + 8 * of_nat w)"

lemma sdiv_64: "0 \<le> n \<Longrightarrow> n sdiv 64 = int (nat n div 64)" for n :: int
  by (cases n) simp_all

lemma find_region_step:
  assumes "pager_wf s" and "0 \<le> last_free_page_num s" and "i < rcnt s"
  shows "find_region s (int i) =
    (case find_word (kmem s) (rbitmap s i) (int (scan_from s i)) (int (rpages s i div 64)) of
       Some j \<Rightarrow> Some (int i, j) | None \<Rightarrow> find_region s (int (Suc i)))"
proof -
  have "int i < sint (pbl s 0)" using assms(1,3) by (simp add: pager_wf_def rcnt_def)
  moreover have "sint (pbl s (1 + i * 3)) sdiv 64 = int (rpages s i div 64)"
    using pager_wf_region [OF assms(1,3)] by (simp add: sdiv_64 rpages_def region_wf_def)
  moreover have "(if int i = last_free_bitmap s then last_free_page_num s sdiv 64 else 0)
      = int (scan_from s i)"
    using assms(2) by (simp add: scan_from_def sdiv_64)
  moreover have "nat (1 + int i * 3) = 1 + i * 3" "nat (2 + int i * 3) = 2 + i * 3" by auto
  moreover have "int i + 1 = int (Suc i)" by simp
  ultimately show ?thesis
    by (subst find_region.simps) (simp only: Let_def if_True rbitmap_def)
qed

lemma find_region_end: "pager_wf s \<Longrightarrow> rcnt s \<le> i \<Longrightarrow> find_region s (int i) = None"
  by (subst find_region.simps) (auto simp: rcnt_def pager_wf_def)

lemma find_region_Some:
  assumes "pager_wf s" and "0 \<le> last_free_page_num s" and "find_region s (int i) = Some (r, j)"
  shows "\<exists>r' j'. r = int r' \<and> j = int j' \<and> i \<le> r' \<and> r' < rcnt s
    \<and> scan_from s r' \<le> j' \<and> j' < rpages s r' div 64 \<and> scan_word s r' j' \<noteq> U64_MAX
    \<and> (\<forall>w. scan_from s r' \<le> w \<and> w < j' \<longrightarrow> scan_word s r' w = U64_MAX)
    \<and> (\<forall>x w. i \<le> x \<and> x < r' \<and> scan_from s x \<le> w \<and> w < rpages s x div 64
         \<longrightarrow> scan_word s x w = U64_MAX)"
  using assms(3)
proof (induction "rcnt s - i" arbitrary: i)
  case 0
  with find_region_end [OF assms(1), of i] show ?case by simp
next
  case (Suc n)
  then have i: "i < rcnt s" by simp
  let ?find = "find_word (kmem s) (rbitmap s i) (int (scan_from s i)) (int (rpages s i div 64))"
  show ?case
  proof (cases ?find)
    case None
    then have "find_region s (int (Suc i)) = Some (r, j)"
      using Suc.prems find_region_step [OF assms(1,2) i] by simp
    with Suc.hyps(1) [of "Suc i"] Suc.hyps(2) obtain r' j' where
      *: "r = int r'" "j = int j'" "Suc i \<le> r'" "r' < rcnt s" "scan_from s r' \<le> j'"
      "j' < rpages s r' div 64" "scan_word s r' j' \<noteq> U64_MAX"
      "\<forall>w. scan_from s r' \<le> w \<and> w < j' \<longrightarrow> scan_word s r' w = U64_MAX"
      "\<forall>x w. Suc i \<le> x \<and> x < r' \<and> scan_from s x \<le> w \<and> w < rpages s x div 64
         \<longrightarrow> scan_word s x w = U64_MAX" by fastforce
    have "scan_word s i w = U64_MAX" if "scan_from s i \<le> w" "w < rpages s i div 64" for w
      using find_word_None [OF None, of "int w"] that by simp
    then have "\<forall>x w. i \<le> x \<and> x < r' \<and> scan_from s x \<le> w \<and> w < rpages s x div 64
         \<longrightarrow> scan_word s x w = U64_MAX"
      using *(9) by (metis Suc_leI le_neq_implies_less)
    with * show ?thesis by (intro exI [of _ r'] exI [of _ j']) simp
  next
    case (Some j0)
    then have rj: "r = int i" "j = j0"
      using Suc.prems find_region_step [OF assms(1,2) i] by auto
    note f = find_word_Some [OF Some]
    then obtain j' where j': "j0 = int j'" by (metis int_nat_eq of_nat_0_le_iff order.trans)
    have "scan_word s i w = U64_MAX" if "scan_from s i \<le> w" "w < j'" for w
      using f that j' by (metis of_int_of_nat_eq of_nat_le_iff of_nat_less_iff)
    with f rj j' i show ?thesis by (intro exI [of _ i] exI [of _ j']) auto
  qed
qed

lemma find_region_None:
  assumes "pager_wf s" and "0 \<le> last_free_page_num s" and "find_region s (int i) = None"
    and "i \<le> x" and "x < rcnt s" and "scan_from s x \<le> w" and "w < rpages s x div 64"
  shows "scan_word s x w = U64_MAX"
  using assms(3,4)
proof (induction "x - i" arbitrary: i)
  case 0
  then have "x = i" by simp
  with 0 have "find_word (kmem s) (rbitmap s x) (int (scan_from s x)) (int (rpages s x div 64)) = None"
    using find_region_step [OF assms(1,2,5)] by (auto split: option.splits)
  from find_word_None [OF this, of "int w"] assms(6,7) show ?case by simp
next
  case (Suc n)
  then have "i < rcnt s" using assms(5) by simp
  from Suc.prems(1) find_region_step [OF assms(1,2) this]
  have "find_region s (int (Suc i)) = None" by (auto split: option.splits)
  then show ?case
    using Suc.hyps by (intro Suc.hyps(1) [of "Suc i"]) auto
qed

subsection \<open>Taking a page\<close>

definition grab :: "'a pager_scheme \<Rightarrow> nat \<Rightarrow> nat \<Rightarrow> 'a pager_scheme" where
  "grab s i k = s\<lparr>last_free_bitmap := int i, last_free_page_num := int k,
     kmem := zero_cells 512 (page_addr s i k)
       ((kmem s)(page_word s i k := kmem s (page_word s i k) OR BIT (k mod 64)))\<rparr>"

lemma take_page_grab:
  assumes "pager_wf s" and "i < rcnt s" and "j < rpages s i div 64" and "scan_word s i j \<noteq> U64_MAX"
  defines "k \<equiv> 64 * j + ctzl (NOT (scan_word s i j))"
  shows "take_page (int i) (int j) s = (page_addr s i k, grab s i k)"
    and "allocatable s i k" and "\<not> page_used s i k"
    and "l < k \<Longrightarrow> l div 64 = j \<Longrightarrow> page_used s i l"
proof -
  note c = ctzl_not [OF assms(4)]
  have kd: "k div 64 = j" and km: "k mod 64 = ctzl (NOT (scan_word s i j))"
    using c(1) by (simp_all add: k_def)
  have "64 * (j + 1) \<le> 64 * (rpages s i div 64)" using assms(3) by simp
  then have klt: "k < 64 * (rpages s i div 64)" using c(1) by (simp add: k_def)
  with assms(2) show alloc: "allocatable s i k" by (simp add: allocatable_def)
  have "rpages s i \<le> 2 ^ 19" using pager_wf_region [OF assms(1,2)] by (simp add: region_wf_def)
  with klt have k19: "k < 2 ^ 19" by (meson less_le_trans times_div_less_eq_dividend)
  then have "s32 (int k) = int k" and "s32 (int k * 4096) = int k * 4096" by simp_all
  moreover have "int j * 64 + int (ctzl (NOT (scan_word s i j))) = int k" by (simp add: k_def)
  moreover have "nat (2 + int i * 3) = 2 + i * 3" "nat (3 + int i * 3) = 3 + i * 3" by auto
  moreover have "pbl s (2 + i * 3) = rbitmap s i" "pbl s (3 + i * 3) = rbase s i"
    by (simp_all add: rbitmap_def rbase_def)
  moreover have "page_word s i k = rbitmap s i + 8 * of_nat j" by (simp add: page_word_def kd)
  ultimately show "take_page (int i) (int j) s = (page_addr s i k, grab s i k)"
    by (simp add: take_page_def Let_def grab_def page_addr_def km mult.commute [of _ "4096 :: u64"])
  show "\<not> page_used s i k"
    using c(2) by (simp add: page_used_def page_word_def kd km)
  assume "l < k" "l div 64 = j"
  then have "l mod 64 < k mod 64" using kd by (metis add_less_cancel_left mult_div_mod_eq)
  then show "page_used s i l"
    using c(3) [of "l mod 64"] \<open>l div 64 = j\<close> km by (simp add: page_used_def page_word_def)
qed

lemma kmem_grab:
  "kmem (grab s i k) x = (if x \<in> page_cells (page_addr s i k) then 0
     else if x = page_word s i k then kmem s x OR BIT (k mod 64) else kmem s x)"
  by (simp add: grab_def zero_cells_apply)

lemma grab_same_desc:
  assumes "pager_wf s" and "managed s i k"
  shows "same_desc s (grab s i k)"
proof -
  have "kmem (grab s i k) x = kmem s x" if "x \<in> desc_cells s" for x
  proof -
    have "i < rcnt s" and "k < rpages s i" using assms(2) by (simp_all add: managed_def)
    then have "x \<noteq> page_word s i k"
      using bitmap_not_desc [OF assms(1) _ page_word_in_bitmap] that by blast
    moreover have "x \<notin> page_cells (page_addr s i k)"
      using page_not_desc [OF assms] that by blast
    ultimately show ?thesis by (simp add: kmem_grab)
  qed
  moreover have "pager_bitmap_list (grab s i k) = pager_bitmap_list s" by (simp add: grab_def)
  ultimately show ?thesis by (simp add: same_desc_def)
qed

lemma grab_used:
  assumes "pager_wf s" and "managed s i k" and "managed s j l"
  shows "page_used (grab s i k) j l \<longleftrightarrow> page_used s j l \<or> (i = j \<and> k = l)"
proof -
  have j: "j < rcnt s" and l: "l < rpages s j" using assms(3) by (simp_all add: managed_def)
  have w: "page_word (grab s i k) j l = page_word s j l"
    by (rule same_desc_page(2) [OF grab_same_desc [OF assms(1,2)] j])
  have "page_word s j l \<notin> page_cells (page_addr s i k)"
    using page_not_bitmap [OF assms(1,2) j] page_word_in_bitmap [OF l] by blast
  then have m: "kmem (grab s i k) (page_word s j l) =
      (if page_word s j l = page_word s i k then kmem s (page_word s j l) OR BIT (k mod 64)
       else kmem s (page_word s j l))"
    by (simp add: kmem_grab)
  show ?thesis
  proof (cases "page_word s i k = page_word s j l")
    case True
    then have "i = j" and "k div 64 = l div 64" using page_word_eq [OF assms(1-3)] by auto
    moreover have "k mod 64 = l mod 64 \<longleftrightarrow> k = l"
      using \<open>k div 64 = l div 64\<close> by (metis mult_div_mod_eq)
    ultimately show ?thesis using True unfolding page_used_def w m by (auto simp: bits)
  next
    case False
    then show ?thesis unfolding page_used_def w m by auto
  qed
qed

text \<open>What \<open>pg_alloc\<close> returns: the first page that is free, and the state with it taken.\<close>

lemma pg_alloc_grab:
  assumes "pager_wf s" and "hint_ok s" and "find_region s (last_free_bitmap s) = Some (r, j)"
  shows "\<exists>i k. pg_alloc s = ret (page_addr s i k, grab s i k)
    \<and> allocatable s i k \<and> \<not> page_used s i k
    \<and> (\<forall>i' k'. allocatable s i' k' \<longrightarrow> before i' k' (int i) (int k) \<longrightarrow> page_used s i' k')"
proof -
  have h: "0 \<le> last_free_page_num s" "0 \<le> last_free_bitmap s"
    and hint: "\<And>i k. allocatable s i k \<Longrightarrow> before i k (last_free_bitmap s) (last_free_page_num s)
      \<Longrightarrow> page_used s i k"
    using assms(2) by (auto simp: hint_ok_def)
  define h0 where "h0 = nat (last_free_bitmap s)"
  then have h0: "last_free_bitmap s = int h0" using h(2) by simp
  from find_region_Some [OF assms(1) h(1), of h0 r j] assms(3) h0 obtain i w where
    rj: "r = int i" "j = int w" and i: "h0 \<le> i" "i < rcnt s"
    and w: "scan_from s i \<le> w" "w < rpages s i div 64" "scan_word s i w \<noteq> U64_MAX"
    and full: "\<And>v. scan_from s i \<le> v \<Longrightarrow> v < w \<Longrightarrow> scan_word s i v = U64_MAX"
    and fulls: "\<And>x v. h0 \<le> x \<Longrightarrow> x < i \<Longrightarrow> scan_from s x \<le> v \<Longrightarrow> v < rpages s x div 64
      \<Longrightarrow> scan_word s x v = U64_MAX" by auto
  define k where "k = 64 * w + ctzl (NOT (scan_word s i w))"
  note t = take_page_grab [OF assms(1) i(2) w(2,3), folded k_def]
  have used: "page_used s x l" if "scan_word s x (l div 64) = U64_MAX" for x l
    using that full_word_bit [THEN iffD1] by (simp add: page_used_def page_word_def)
  have "page_used s i' k'" if a: "allocatable s i' k'" and b: "before i' k' (int i) (int k)" for i' k'
  proof (cases "before i' k' (last_free_bitmap s) (last_free_page_num s)")
    case True
    with hint a show ?thesis by blast
  next
    case False
    then have ge: "h0 < i' \<or> (h0 = i' \<and> last_free_page_num s \<le> int k')"
      by (auto simp: before_def h0)
    then have from_hint: "scan_from s i' \<le> k' div 64"
      by (auto simp: scan_from_def h0 intro!: div_le_mono)
    have kw: "k' div 64 < rpages s i' div 64" and i': "i' < rcnt s"
      using a by (auto simp: allocatable_def less_mult_imp_div_less mult.commute)
    show ?thesis
    proof (cases "i' = i")
      case same: True
      with b have "k' < k" by (simp add: before_def)
      show ?thesis
      proof (cases "k' div 64 = w")
        case True
        with t(4) [OF \<open>k' < k\<close>] same show ?thesis by simp
      next
        case False
        have "k div 64 = w" using ctzl_not(1) [OF w(3)] by (simp add: k_def)
        with \<open>k' < k\<close> False have "k' div 64 < w" by (metis div_le_mono le_neq_implies_less less_imp_le)
        with full from_hint same show ?thesis by (intro used) simp
      qed
    next
      case False
      with b have "i' < i" by (auto simp: before_def)
      with fulls ge from_hint kw show ?thesis by (intro used) auto
    qed
  qed
  moreover have "pg_alloc s = ret (page_addr s i k, grab s i k)"
    using assms(3) rj t(1) by (simp add: pg_alloc_def)
  ultimately show ?thesis using t(2,3) by blast
qed

lemma grab_hint_ok:
  assumes "pager_wf s" and "allocatable s i k"
    and "\<And>i' k'. allocatable s i' k' \<Longrightarrow> before i' k' (int i) (int k) \<Longrightarrow> page_used s i' k'"
  shows "hint_ok (grab s i k)"
proof -
  note man = allocatable_managed [OF assms(2)]
  note same = grab_same_desc [OF assms(1) man]
  have "page_used (grab s i k) i' k'"
    if a: "allocatable (grab s i k) i' k'" and b: "before i' k' (int i) (int k)" for i' k'
  proof -
    have "i' < rcnt s" using a same_desc_rcnt [OF same] by (simp add: allocatable_def)
    with a have a': "allocatable s i' k'" using same_desc_page(4) [OF same] by blast
    with assms(3) b grab_used [OF assms(1) man allocatable_managed] show ?thesis by blast
  qed
  then show ?thesis by (simp add: hint_ok_def) (simp add: grab_def)
qed

lemma pg_alloc_ret:
  assumes "pager_wf s" and "hint_ok s" and "pg_alloc s = ret (p, s')"
  obtains i k where "p = page_addr s i k" and "s' = grab s i k" and "allocatable s i k"
    and "\<not> page_used s i k" and "pager_wf s'" and "hint_ok s'"
    and "\<And>i' k'. allocatable s i' k' \<Longrightarrow> before i' k' (int i) (int k) \<Longrightarrow> page_used s i' k'"
proof -
  from assms(3) obtain r j where f: "find_region s (last_free_bitmap s) = Some (r, j)"
    by (auto simp: pg_alloc_def split: option.splits)
  from pg_alloc_grab [OF assms(1,2) f] assms(3) obtain i k where
    *: "p = page_addr s i k" "s' = grab s i k" "allocatable s i k" "\<not> page_used s i k"
    "\<And>i' k'. allocatable s i' k' \<Longrightarrow> before i' k' (int i) (int k) \<Longrightarrow> page_used s i' k'" by auto
  moreover have "pager_wf s'"
    using same_desc_wf [OF grab_same_desc [OF assms(1) allocatable_managed] assms(1)] * by blast
  moreover have "hint_ok s'"
    using grab_hint_ok [OF assms(1) *(3,5)] *(2) by blast
  ultimately show ?thesis using that by blast
qed

lemma pg_alloc_cases:
  assumes "pager_wf s" and "hint_ok s"
  obtains p s' where "pg_alloc s = ret (p, s')"
  | "pg_alloc s = panic ''OUT_OF_FREE_PAGES'' 0 0 0" and "\<And>i k. allocatable s i k \<Longrightarrow> page_used s i k"
proof (cases "find_region s (last_free_bitmap s)")
  case (Some rj)
  then have "\<exists>p s'. pg_alloc s = ret (p, s')"
    by (cases rj) (auto simp: pg_alloc_def intro: prod.exhaust)
  then show ?thesis using that(1) by blast
next
  case None
  have h: "0 \<le> last_free_page_num s" "0 \<le> last_free_bitmap s"
    using assms(2) by (auto simp: hint_ok_def)
  define h0 where "h0 = nat (last_free_bitmap s)"
  then have h0: "last_free_bitmap s = int h0" using h(2) by simp
  have "page_used s i k" if a: "allocatable s i k" for i k
  proof (cases "before i k (last_free_bitmap s) (last_free_page_num s)")
    case True
    with assms(2) a show ?thesis by (simp add: hint_ok_def)
  next
    case False
    then have "h0 \<le> i" and "scan_from s i \<le> k div 64"
      by (auto simp: before_def h0 scan_from_def intro!: div_le_mono)
    moreover have "k div 64 < rpages s i div 64" "i < rcnt s"
      using a by (auto simp: allocatable_def less_mult_imp_div_less mult.commute)
    ultimately have "scan_word s i (k div 64) = U64_MAX"
      using find_region_None [OF assms(1) h(1), of h0 i] None h0 by simp
    then show ?thesis
      using full_word_bit [THEN iffD1] by (simp add: page_used_def page_word_def)
  qed
  with None show ?thesis using that(2) by (simp add: pg_alloc_def)
qed

section \<open>Freeing\<close>

definition in_page :: "'a pager_scheme \<Rightarrow> nat \<Rightarrow> nat \<Rightarrow> u64 \<Rightarrow> bool" where
  "in_page s i k location \<longleftrightarrow> managed s i k
     \<and> unat (rbase s i) + 4096 * k \<le> unat location \<and> unat location < unat (rbase s i) + 4096 * (k + 1)"

definition drop_page :: "'a pager_scheme \<Rightarrow> nat \<Rightarrow> nat \<Rightarrow> 'a pager_scheme" where
  "drop_page s i k =
     (let s' = s\<lparr>kmem := (kmem s)(page_word s i k := kmem s (page_word s i k) AND NOT (BIT (k mod 64)))\<rparr>
      in if before i k (last_free_bitmap s) (last_free_page_num s)
         then s'\<lparr>last_free_bitmap := int i, last_free_page_num := int k\<rparr> else s')"

lemma page_addr_in_page: "pager_wf s \<Longrightarrow> managed s i k \<Longrightarrow> in_page s i k (page_addr s i k)"
  using unat_page_addr [of s i k] pager_wf_region [of s i] by (simp add: in_page_def managed_def)

lemma in_page_base_lt:
  assumes "pager_wf s" and "in_page s i k location" and "x < rcnt s" and "x \<noteq> i"
    and "rbase s x \<le> location"
  shows "rbase s x < rbase s i"
proof -
  have i: "i < rcnt s" "k < rpages s i" using assms(2) by (auto simp: in_page_def managed_def)
  then have "4096 * (k + 1) \<le> 4096 * rpages s i" by simp
  moreover have "0 < rpages s x"
    using pager_wf_region [OF assms(1,3)] by (simp add: region_wf_def rpages_def)
  ultimately show ?thesis
    using pager_wf_apart [OF assms(1,3) i(1)] assms(2,4,5)
    unfolding regions_apart_def apart_def in_page_def word_less_nat_alt word_le_nat_alt by linarith
qed

lemma closest_region_in_page:
  assumes "pager_wf s" and "in_page s i k location" and "n \<le> rcnt s"
  shows "(n \<le> i \<longrightarrow> fst (snd (snd (closest_region s location n))) < rbase s i)
    \<and> (i < n \<longrightarrow> closest_region s location n = (pbl s (1 + i * 3), rbitmap s i, rbase s i, i))"
  using assms(3)
proof (induction n)
  case 0
  have "rbase s i \<noteq> 0"
    using assms(2) pager_wf_region [OF assms(1)] by (auto simp: in_page_def managed_def region_wf_def)
  then show ?case by (simp add: word_neq_0_conv)
next
  case (Suc n)
  have "rbase s i \<le> location" using assms(2) by (simp add: in_page_def word_le_nat_alt)
  moreover have "rbase s n \<le> location \<Longrightarrow> n \<noteq> i \<Longrightarrow> rbase s n < rbase s i"
    using in_page_base_lt [OF assms(1,2)] Suc.prems by simp
  ultimately show ?case
    using Suc.IH Suc.prems
    by (cases "n = i") (auto simp: rbase_def rbitmap_def Let_def split: prod.splits)
qed

lemma page_num_in_page:
  assumes "pager_wf s" and "in_page s i k location"
  shows "sint (location - rbase s i) sdiv 4096 = int k"
proof -
  have i: "i < rcnt s" "k < rpages s i" using assms(2) by (auto simp: in_page_def managed_def)
  have k: "k < 2 ^ 19"
    using pager_wf_region [OF assms(1) i(1)] i(2) by (simp add: region_wf_def)
  define d where "d = unat location - unat (rbase s i)"
  have d: "4096 * k \<le> d" "d < 4096 * (k + 1)"
    using assms(2) unfolding d_def in_page_def by linarith+
  have "unat (location - rbase s i) = d"
    using assms(2) unfolding d_def in_page_def by (intro unat_sub) (simp add: word_le_nat_alt)
  then have "uint (location - rbase s i) = int d" by (metis uint_nat)
  moreover have "int d < 2 ^ 63" using d k by simp
  ultimately have "sint (location - rbase s i) = int d"
    by (simp add: sint_uint signed_take_bit_int_eq_self)
  moreover have "d div 4096 = k" using d by (intro div_nat_eqI) auto
  ultimately show ?thesis by simp
qed

lemma pg_free_in_page:
  assumes "pager_wf s" and "0 \<le> last_free_bitmap s" and "in_page s i k location"
  shows "pg_free location s =
    (if page_used s i k then ret ((), drop_page s i k)
     else panic ''DOUBLE_FREE_PAGE'' location (of_nat k) (rbitmap s i))"
proof -
  have i: "i < rcnt s" "k < rpages s i" using assms(3) by (auto simp: in_page_def managed_def)
  note wf = pager_wf_region [OF assms(1) i(1)]
  have c: "closest_region s location (nat (sint (pbl s 0))) =
      (pbl s (1 + i * 3), rbitmap s i, rbase s i, i)"
    using closest_region_in_page [OF assms(1,3), of "rcnt s"] i(1) by (simp add: rcnt_def)
  have cnt: "\<not> (int k < 0 \<or> int k \<ge> sint (pbl s (1 + i * 3)))"
    using i(2) wf by (simp add: rpages_def region_wf_def)
  have w: "rbitmap s i + 8 * word_of_int (int k sdiv 64) = page_word s i k"
    by (simp add: page_word_def)
  have b: "nat (int k smod 64) = k mod 64"
    by simp
  have k: "s32 (int k) = int k" using wf i(2) by (simp add: region_wf_def)
  have used: "NOT (kmem s (page_word s i k)) AND BIT (k mod 64) \<noteq> 0 \<longleftrightarrow> \<not> page_used s i k"
    using BIT_and_eq_0 [of "k mod 64" "NOT (kmem s (page_word s i k))"]
    by (simp add: page_used_def bit_not_iff)
  have bm: "rbitmap s i \<noteq> 0" using wf by (simp add: region_wf_def)
  show ?thesis
    unfolding pg_free_def c prod.case Let_def page_num_in_page [OF assms(1,3)] w b used
    using bm cnt k by (auto simp: drop_page_def before_def Let_def)
qed

lemma kmem_drop_page:
  "kmem (drop_page s i k) x =
     (if x = page_word s i k then kmem s x AND NOT (BIT (k mod 64)) else kmem s x)"
  by (simp add: drop_page_def Let_def)

lemma drop_page_same_desc:
  assumes "pager_wf s" and "managed s i k"
  shows "same_desc s (drop_page s i k)"
proof -
  have "i < rcnt s" and "k < rpages s i" using assms(2) by (simp_all add: managed_def)
  then have "kmem (drop_page s i k) x = kmem s x" if "x \<in> desc_cells s" for x
    using bitmap_not_desc [OF assms(1) _ page_word_in_bitmap] that by (auto simp: kmem_drop_page)
  moreover have "pager_bitmap_list (drop_page s i k) = pager_bitmap_list s"
    by (simp add: drop_page_def Let_def)
  ultimately show ?thesis by (simp add: same_desc_def)
qed

lemma drop_page_used:
  assumes "pager_wf s" and "managed s i k" and "managed s j l"
  shows "page_used (drop_page s i k) j l \<longleftrightarrow> page_used s j l \<and> \<not> (i = j \<and> k = l)"
proof -
  have j: "j < rcnt s" using assms(3) by (simp add: managed_def)
  have w: "page_word (drop_page s i k) j l = page_word s j l"
    by (rule same_desc_page(2) [OF drop_page_same_desc [OF assms(1,2)] j])
  show ?thesis
  proof (cases "page_word s i k = page_word s j l")
    case True
    then have "i = j" and "k div 64 = l div 64" using page_word_eq [OF assms(1-3)] by auto
    moreover have "k mod 64 = l mod 64 \<longleftrightarrow> k = l"
      using \<open>k div 64 = l div 64\<close> by (metis mult_div_mod_eq)
    ultimately show ?thesis using True unfolding page_used_def w kmem_drop_page by (auto simp: bits)
  next
    case False
    then show ?thesis unfolding page_used_def w kmem_drop_page by auto
  qed
qed

lemma drop_page_hint_ok:
  assumes "pager_wf s" and "managed s i k" and "hint_ok s"
  shows "hint_ok (drop_page s i k)"
proof -
  note same = drop_page_same_desc [OF assms(1,2)]
  have "page_used (drop_page s i k) i' k'"
    if a: "allocatable (drop_page s i k) i' k'"
      and b: "before i' k' (last_free_bitmap (drop_page s i k)) (last_free_page_num (drop_page s i k))"
    for i' k'
  proof -
    have "i' < rcnt s" using a same_desc_rcnt [OF same] by (simp add: allocatable_def)
    with a have a': "allocatable s i' k'" using same_desc_page(4) [OF same] by blast
    have "before i' k' (last_free_bitmap s) (last_free_page_num s) \<and> \<not> (i = i' \<and> k = k')"
      using b by (auto simp: drop_page_def Let_def before_def split: if_splits)
    with a' assms(3) drop_page_used [OF assms(1,2) allocatable_managed [OF a']]
    show ?thesis by (auto simp: hint_ok_def)
  qed
  moreover have "0 \<le> last_free_bitmap (drop_page s i k)" "0 \<le> last_free_page_num (drop_page s i k)"
    using assms(3) by (simp_all add: drop_page_def Let_def hint_ok_def)
  ultimately show ?thesis by (simp add: hint_ok_def)
qed

subsection \<open>Addresses that are not pages of the allocator\<close>

lemma closest_region_cases:
  assumes "n \<le> rcnt s"
  shows "closest_region s location n = (0, 0, 0, 0)
    \<or> (\<exists>i<n. closest_region s location n = (pbl s (1 + i * 3), rbitmap s i, rbase s i, i)
         \<and> rbase s i \<le> location)"
  using assms
  by (induction n) (auto simp: Let_def rbase_def rbitmap_def less_Suc_eq)

lemma foreign_page_num:
  assumes "pager_wf s" and "i < rcnt s" and "rbase s i \<le> location"
    and "\<And>k. \<not> in_page s i k location"
  shows "sint (location - rbase s i) sdiv 4096 < 0
    \<or> int (rpages s i) \<le> sint (location - rbase s i) sdiv 4096"
proof -
  define d where "d = unat location - unat (rbase s i)"
  have le: "unat (rbase s i) \<le> unat location" using assms(3) by (simp add: word_le_nat_alt)
  have ud: "unat (location - rbase s i) = d" unfolding d_def by (rule unat_sub [OF assms(3)])
  then have uint: "uint (location - rbase s i) = int d" by (metis uint_nat)
  have base: "rbase s i \<noteq> 0" "unat (rbase s i) mod 4096 = 0"
    using pager_wf_region [OF assms(1,2)] by (auto simp: region_wf_def)
  then have "4096 \<le> unat (rbase s i)" by (metis mod_less not_less unat_eq_0)
  then have big: "d + 4096 < 2 ^ 64" unfolding d_def using unsigned_less [where ?'a = nat, of location] le
    by simp
  show ?thesis
  proof (cases "d < 2 ^ 63")
    case True
    then have s: "sint (location - rbase s i) = int d"
      using uint by (simp add: sint_uint signed_take_bit_int_eq_self)
    have "rpages s i \<le> d div 4096"
    proof (rule ccontr)
      assume "\<not> rpages s i \<le> d div 4096"
      then have "managed s i (d div 4096)" using assms(2) by (simp add: managed_def)
      moreover have "unat location = unat (rbase s i) + d" using le by (simp add: d_def)
      moreover have "4096 * (d div 4096) \<le> d" "d < 4096 * (d div 4096 + 1)" by simp_all
      ultimately have "in_page s i (d div 4096) location" by (simp add: in_page_def)
      with assms(4) show False by blast
    qed
    then show ?thesis unfolding s by simp
  next
    case False
    define x where "x = sint (location - rbase s i)"
    have "(int d + 2 ^ 63) mod 2 ^ 64 = (int d - 2 ^ 63 + 1 * 2 ^ 64) mod 2 ^ 64"
      by (simp add: add.commute)
    also have "\<dots> = int d - 2 ^ 63"
      using False big by (subst mod_mult_self1) (rule mod_pos_pos_trivial, simp_all)
    finally have "x = int d - 2 ^ 64"
      unfolding x_def sint_uint signed_take_bit_eq_take_bit_shift uint take_bit_eq_mod by simp
    moreover have "int d + 4096 < 2 ^ 64" using big by simp
    ultimately have "x < 0" and "4096 \<le> \<bar>x\<bar>" by linarith+
    from \<open>x < 0\<close> have "x sdiv 4096 = - (\<bar>x\<bar> div 4096)"
      by (simp add: signed_divide_int_def sgn_if)
    moreover have "4096 div 4096 \<le> \<bar>x\<bar> div 4096" using \<open>4096 \<le> \<bar>x\<bar>\<close> by (rule zdiv_mono1) simp
    ultimately show ?thesis by (simp add: x_def)
  qed
qed

lemma pg_free_foreign:
  assumes "pager_wf s" and "\<And>i k. \<not> in_page s i k location"
  shows "\<exists>a b c. pg_free location s = panic ''PAGE_REMOVE_NO_OVERRIDE'' a b c
    \<or> pg_free location s = panic ''ATTEMPT_REMOVE_PAGE_OUT_OF_RANGE'' a b c"
  using closest_region_cases [OF order.refl, of s location]
proof (elim disjE exE conjE, simp_all)
  assume "closest_region s location (rcnt s) = (0, 0, 0, 0)"
  then show ?thesis by (simp add: pg_free_def rcnt_def Let_def)
next
  fix i
  assume i: "i < rcnt s" and le: "rbase s i \<le> location"
    and c: "closest_region s location (rcnt s) = (pbl s (Suc (i * 3)), rbitmap s i, rbase s i, i)"
  note wf = pager_wf_region [OF assms(1) i]
  have "sint (pbl s (Suc (i * 3))) = int (rpages s i)"
    using wf by (simp add: region_wf_def rpages_def)
  then have "sint (location - rbase s i) sdiv 4096 < 0
      \<or> sint (location - rbase s i) sdiv 4096 \<ge> sint (pbl s (Suc (i * 3)))"
    using foreign_page_num [OF assms(1) i le assms(2)] by simp
  moreover have "rbitmap s i \<noteq> 0" using wf by (simp add: region_wf_def)
  ultimately show ?thesis using c by (simp add: pg_free_def rcnt_def Let_def)
qed

section \<open>The allocator as a page source\<close>

definition pager_inv :: "'a pager_scheme \<Rightarrow> bool" where
  "pager_inv s \<longleftrightarrow> pager_wf s \<and> hint_ok s"

definition pager_pool :: "'a pager_scheme \<Rightarrow> u64 set" where
  "pager_pool s = {page_addr s i k | i k. allocatable s i k}"

definition pager_live :: "'a pager_scheme \<Rightarrow> u64 set" where
  "pager_live s = {page_addr s i k | i k. managed s i k \<and> page_used s i k}"

definition pager_meta :: "'a pager_scheme \<Rightarrow> u64 set" where
  "pager_meta s = desc_cells s \<union> (\<Union>i<rcnt s. cells (rbitmap s i) (rwords s i))"

lemma same_desc_sets:
  assumes "same_desc s s'"
  shows "pager_pool s' = pager_pool s" and "pager_meta s' = pager_meta s"
proof -
  have al: "allocatable s' i k = allocatable s i k" for i k
    using same_desc_page(4) [OF assms] same_desc_rcnt [OF assms] by (metis allocatable_def)
  moreover have "page_addr s' i k = page_addr s i k" if "allocatable s i k" for i k
    using same_desc_page(1) [OF assms] that by (simp add: allocatable_def)
  ultimately show "pager_pool s' = pager_pool s" unfolding pager_pool_def by (metis (no_types, lifting))
  have "desc_cells s' = desc_cells s"
    using assms same_desc_rcnt [OF assms] by (simp add: desc_cells_def same_desc_def)
  then show "pager_meta s' = pager_meta s"
    using same_desc_region [OF assms] same_desc_rcnt [OF assms] by (simp add: pager_meta_def rwords_def)
qed

lemma same_desc_live:
  assumes "same_desc s s'"
    and "\<And>i k. managed s i k \<Longrightarrow> page_used s' i k \<longleftrightarrow> Q i k"
  shows "pager_live s' = {page_addr s i k | i k. managed s i k \<and> Q i k}"
proof -
  have man: "managed s' i k = managed s i k" for i k
    using same_desc_page(3) [OF assms(1)] same_desc_rcnt [OF assms(1)] by (metis managed_def)
  have "page_addr s' i k = page_addr s i k" if "managed s i k" for i k
    using same_desc_page(1) [OF assms(1)] that by (simp add: managed_def)
  then show ?thesis unfolding pager_live_def man using assms(2) by (metis (no_types, lifting))
qed

lemma page_word_meta: "managed s i k \<Longrightarrow> page_word s i k \<in> pager_meta s"
  using page_word_in_bitmap [of k s i] by (auto simp: pager_meta_def managed_def)

lemma in_pager_live:
  assumes "pager_wf s" and "managed s i k"
  shows "page_addr s i k \<in> pager_live s \<longleftrightarrow> page_used s i k"
  using page_addr_inj [OF assms] assms(2) unfolding pager_live_def by blast

lemma page_not_meta:
  assumes "pager_wf s" and "managed s i k"
  shows "page_cells (page_addr s i k) \<inter> pager_meta s = {}"
  using page_not_desc [OF assms] page_not_bitmap [OF assms] unfolding pager_meta_def by blast

text \<open>Anything that keeps the bookkeeping cells and the hint keeps the allocator as it is.\<close>

definition pager_same :: "'a pager_scheme \<Rightarrow> 'a pager_scheme \<Rightarrow> bool" where
  "pager_same s s' \<longleftrightarrow> pager_bitmap_list s' = pager_bitmap_list s
     \<and> last_free_bitmap s' = last_free_bitmap s \<and> last_free_page_num s' = last_free_page_num s
     \<and> (\<forall>x \<in> pager_meta s. kmem s' x = kmem s x)"

lemma pager_same_desc: "pager_same s s' \<Longrightarrow> same_desc s s'"
  by (auto simp: pager_same_def same_desc_def pager_meta_def)

lemma pager_same_used:
  assumes "pager_same s s'" and "managed s i k"
  shows "page_used s' i k = page_used s i k"
proof -
  have "i < rcnt s" using assms(2) by (simp add: managed_def)
  then show ?thesis
    using page_word_meta [OF assms(2)] same_desc_page(2) [OF pager_same_desc [OF assms(1)]] assms(1)
    by (simp add: page_used_def pager_same_def)
qed

lemma pager_same_inv:
  assumes "pager_same s s'" and "pager_inv s"
  shows "pager_inv s'" and "pager_pool s' = pager_pool s" and "pager_meta s' = pager_meta s"
    and "pager_live s' = pager_live s"
proof -
  note same = pager_same_desc [OF assms(1)]
  have "page_used s' i k" if "allocatable s' i k"
    "before i k (last_free_bitmap s') (last_free_page_num s')" for i k
  proof -
    have a: "allocatable s i k"
      using same_desc_page(4) [OF same] same_desc_rcnt [OF same] that(1) by (metis allocatable_def)
    then show ?thesis
      using that(2) assms pager_same_used [OF assms(1) allocatable_managed [OF a]]
      by (simp add: pager_inv_def hint_ok_def pager_same_def)
  qed
  then show "pager_inv s'"
    using same_desc_wf [OF same] assms by (auto simp: pager_inv_def hint_ok_def pager_same_def)
  show "pager_pool s' = pager_pool s" "pager_meta s' = pager_meta s"
    by (rule same_desc_sets [OF same])+
  show "pager_live s' = pager_live s"
    using same_desc_live [OF same pager_same_used [OF assms(1)]] by (simp add: pager_live_def)
qed

lemma pg_alloc_source:
  assumes "pager_inv s" and "pg_alloc s = ret (p, s')"
  shows "p \<in> pager_pool s \<and> p \<notin> pager_live s"
    and "pager_inv s' \<and> pager_pool s' = pager_pool s \<and> pager_meta s' = pager_meta s
      \<and> pager_live s' = insert p (pager_live s)"
    and "x \<in> page_cells p \<Longrightarrow> kmem s' x = 0"
    and "x \<notin> page_cells p \<Longrightarrow> x \<notin> pager_meta s \<Longrightarrow> kmem s' x = kmem s x"
proof -
  from assms(1) have wf: "pager_wf s" and h: "hint_ok s" by (auto simp: pager_inv_def)
  from pg_alloc_ret [OF wf h assms(2)] obtain i k where
    p: "p = page_addr s i k" and s': "s' = grab s i k" and a: "allocatable s i k"
    and u: "\<not> page_used s i k" and inv: "pager_wf s'" "hint_ok s'" by metis
  note man = allocatable_managed [OF a]
  note same = grab_same_desc [OF wf man]
  show "p \<in> pager_pool s \<and> p \<notin> pager_live s"
    using a u in_pager_live [OF wf man] by (auto simp: p pager_pool_def)
  have "pager_live s' = insert p (pager_live s)"
    unfolding s' using same_desc_live [OF same grab_used [OF wf man]] man u
    by (auto simp: p pager_live_def)
  then show "pager_inv s' \<and> pager_pool s' = pager_pool s \<and> pager_meta s' = pager_meta s
      \<and> pager_live s' = insert p (pager_live s)"
    using inv same_desc_sets [OF same] by (simp add: s' pager_inv_def)
  show "x \<in> page_cells p \<Longrightarrow> kmem s' x = 0" by (simp add: s' p kmem_grab)
  show "x \<notin> page_cells p \<Longrightarrow> x \<notin> pager_meta s \<Longrightarrow> kmem s' x = kmem s x"
    using page_word_meta [OF man] by (auto simp: s' p kmem_grab)
qed

lemma pg_alloc_total:
  assumes "pager_inv s" and "p \<in> pager_pool s" and "p \<notin> pager_live s"
  shows "\<exists>q s'. pg_alloc s = ret (q, s')"
proof -
  from assms obtain i k where a: "allocatable s i k" and "p = page_addr s i k"
    by (auto simp: pager_pool_def)
  then have "\<not> page_used s i k"
    using in_pager_live [OF _ allocatable_managed [OF a]] assms by (simp add: pager_inv_def)
  with a assms(1) show ?thesis using pg_alloc_cases [of s] by (metis pager_inv_def)
qed

lemma pg_free_source:
  assumes "pager_inv s" and "p \<in> pager_live s"
  obtains i k where "p = page_addr s i k" and "managed s i k" and "page_used s i k"
    and "pg_free p s = ret ((), drop_page s i k)" and "pager_inv (drop_page s i k)"
    and "pager_live (drop_page s i k) = pager_live s - {p}"
proof -
  from assms(1) have wf: "pager_wf s" and h: "hint_ok s" by (auto simp: pager_inv_def)
  from assms(2) obtain i k where p: "p = page_addr s i k" and man: "managed s i k"
    and u: "page_used s i k" by (auto simp: pager_live_def)
  have "pg_free p s = ret ((), drop_page s i k)"
    using pg_free_in_page [OF wf _ page_addr_in_page [OF wf man]] h u by (simp add: p hint_ok_def)
  moreover have "pager_inv (drop_page s i k)"
    using same_desc_wf [OF drop_page_same_desc [OF wf man] wf] drop_page_hint_ok [OF wf man h]
    by (simp add: pager_inv_def)
  moreover have "pager_live (drop_page s i k) = pager_live s - {p}"
    using same_desc_live [OF drop_page_same_desc [OF wf man] drop_page_used [OF wf man]]
      page_addr_inj [OF wf man] by (auto simp: p pager_live_def)
  ultimately show ?thesis using that p man u by blast
qed

lemma live_page_aligned:
  assumes "pager_inv s" and "p \<in> pager_live s"
  shows "p \<noteq> 0 \<and> unat p mod 4096 = 0 \<and> unat p + 8 * 512 \<le> 2 ^ 64"
proof -
  from assms obtain i k where p: "p = page_addr s i k" and i: "i < rcnt s" and k: "k < rpages s i"
    by (auto simp: pager_live_def managed_def)
  have r: "region_wf s i" using assms(1) i by (simp add: pager_inv_def pager_wf_region)
  then have b: "unat (rbase s i) mod 4096 = 0" "unat (rbase s i) + 4096 * rpages s i \<le> 2 ^ 64"
    "rbase s i \<noteq> 0"
    by (simp_all add: region_wf_def)
  have u: "unat p = unat (rbase s i) + 4096 * k" using unat_page_addr [OF r k] by (simp add: p)
  then have "unat p mod 4096 = 0" using b(1) by simp
  moreover have "unat p + 8 * 512 \<le> 2 ^ 64" using u b(2) k by simp
  moreover have "p \<noteq> 0" using u b(3) by (metis add_is_0 unat_0 unat_eq_0)
  ultimately show ?thesis by blast
qed

interpretation pager: page_source pg_alloc pg_free pager_inv pager_pool pager_live pager_meta kmem
  "\<lambda>m s. s\<lparr>kmem := m\<rparr>"
proof
  fix s :: "'a pager_scheme" and p q :: u64
  assume inv: "pager_inv s"
  then have wf: "pager_wf s" by (simp add: pager_inv_def)
  { assume "p \<in> pager_live s"
    then show "p \<noteq> 0 \<and> unat p mod 4096 = 0 \<and> unat p + 8 * 512 \<le> 2 ^ 64"
      by (rule live_page_aligned [OF inv])
    from \<open>p \<in> pager_live s\<close> show "\<exists>s'. pg_free p s = ret ((), s')" using pg_free_source [OF inv] by metis
    show "page_cells p \<inter> pager_meta s = {}"
      using \<open>p \<in> pager_live s\<close> page_not_meta [OF wf] by (auto simp: pager_live_def)
    assume "q \<in> pager_live s" "p \<noteq> q"
    then show "page_cells p \<inter> page_cells q = {}"
      using \<open>p \<in> pager_live s\<close> page_cells_disjoint [OF wf] unfolding pager_live_def by blast }
  fix s'
  assume live: "p \<in> pager_live s" and "pg_free p s = ret ((), s')"
  then obtain i k where s': "s' = drop_page s i k" and man: "managed s i k"
    and r: "pager_inv s'" "pager_live s' = pager_live s - {p}"
    using pg_free_source [OF inv live] by (metis option.inject prod.inject res.inject(1))
  show "pager_inv s' \<and> pager_pool s' = pager_pool s \<and> pager_meta s' = pager_meta s
      \<and> pager_live s' = pager_live s - {p}"
    using r same_desc_sets [OF drop_page_same_desc [OF wf man]] by (simp add: s')
  show "kmem s' x = kmem s x" if "x \<notin> pager_meta s" for x
    using that page_word_meta [OF man] by (auto simp: s' kmem_drop_page)
next
  fix s :: "'a pager_scheme" and m
  assume inv: "pager_inv s" and "\<forall>x \<in> pager_meta s. m x = kmem s x"
  then have "pager_same s (s\<lparr>kmem := m\<rparr>)" by (simp add: pager_same_def)
  from pager_same_inv [OF this inv]
  show "pager_inv (s\<lparr>kmem := m\<rparr>) \<and> pager_pool (s\<lparr>kmem := m\<rparr>) = pager_pool s
      \<and> pager_meta (s\<lparr>kmem := m\<rparr>) = pager_meta s \<and> pager_live (s\<lparr>kmem := m\<rparr>) = pager_live s"
    by blast
qed (simp_all add: pg_alloc_total pg_alloc_source)

section \<open>Words of held pages\<close>

lemma set_at_inv:
  assumes "pager_inv s" and "a \<in> pager_live s" and "i < 512"
  shows "pager_inv (set_at a (of_nat i) v s)" and "pager_live (set_at a (of_nat i) v s) = pager_live s"
    and "pager_pool (set_at a (of_nat i) v s) = pager_pool s"
proof -
  have "a + 8 * of_nat i \<in> page_cells a" using assms(3) unfolding cells_def by blast
  from pager.write_inv [OF assms(1,2) this, of v]
  show "pager_inv (set_at a (of_nat i) v s)" and "pager_live (set_at a (of_nat i) v s) = pager_live s"
    and "pager_pool (set_at a (of_nat i) v s) = pager_pool s"
    by (simp_all add: set_at_def)
qed

lemma at_set_at:
  assumes "pager_inv s" and "a \<in> pager_live s" and "b \<in> pager_live s" and "i < 512" and "j < 512"
  shows "at (set_at a (of_nat i) v s) b (of_nat j) = (if a = b \<and> i = j then v else at s b (of_nat j))"
proof (cases "a = b")
  case True
  then show ?thesis using pager.same_page_index [OF assms(1,2,5,4)] by (auto simp: at_def set_at_def)
next
  case False
  then show ?thesis
    using pager.other_page_index [OF assms(1,3,2) _ assms(5,4)] by (auto simp: at_def set_at_def)
qed

lemma at_pg_alloc:
  assumes "pager_inv s" and "pg_alloc s = ret (p, s')" and "j < 512"
  shows "at s' p (of_nat j) = 0" and "a \<in> pager_live s \<Longrightarrow> at s' a (of_nat j) = at s a (of_nat j)"
proof -
  have "a + 8 * of_nat j \<in> page_cells a" for a :: u64 using assms(3) unfolding cells_def by blast
  then show "at s' p (of_nat j) = 0" and "a \<in> pager_live s \<Longrightarrow> at s' a (of_nat j) = at s a (of_nat j)"
    using pager.alloc_zero [OF assms(1,2)] pager.alloc_keeps [OF assms(1,2)] by (simp_all add: at_def)
qed

end
