(* ===== verification/Pager_Init.thy ===== *)
theory Pager_Init
  imports Pager
begin

text \<open>
  What the set-up loop of \<open>pager_init\<close> establishes: for regions that do not meet each other or
  the descriptor table, and whose bitmap fits in front of their first page, the descriptors it
  publishes satisfy the invariant of the page allocator and every page is free.
\<close>

section \<open>Regions the set-up loop can publish\<close>

definition bitmap_words :: "memory_region \<Rightarrow> nat" where
  "bitmap_words r = unat ((region_page_cnt r + 63) div 64)"

text \<open>
  Eight-byte aligned, within the address space, below a tebibyte, large enough for one page beside the two the code
  sets aside, and with a bitmap that ends before the first page. The bitmap starts at the start of
  the region and the first page at the next page boundary, so the last condition bounds the region
  by 128 MiB when the start is page aligned, and by less otherwise.
\<close>

definition region_ok :: "memory_region \<Rightarrow> bool" where
  "region_ok r \<longleftrightarrow> unat (rgn_start r) mod 8 = 0 \<and> rgn_start r \<noteq> 0
     \<and> unat (rgn_start r) + unat (rgn_size r) \<le> 2 ^ 64 \<and> 3 * 4096 \<le> unat (rgn_size r)
     \<and> unat (rgn_size r) < 2 ^ 40
     \<and> unat (rgn_start r) + 8 * bitmap_words r \<le> unat (region_page_start r)"

definition region_apart :: "memory_region \<Rightarrow> memory_region \<Rightarrow> bool" where
  "region_apart r q \<longleftrightarrow>
     apart (unat (rgn_start r)) (unat (rgn_size r)) (unat (rgn_start q)) (unat (rgn_size q))"

text \<open>The table of descriptors for \<open>n\<close> regions at \<open>a\<close>.\<close>

definition table_ok :: "u64 \<Rightarrow> memory_region list \<Rightarrow> bool" where
  "table_ok a rs \<longleftrightarrow> unat a mod 8 = 0 \<and> unat a + 8 * (1 + 3 * length rs) \<le> 2 ^ 64
     \<and> length rs \<le> MAX_MEMORY_REGIONS
     \<and> (\<forall>r \<in> set rs. region_ok r
          \<and> apart (unat a) (8 * (1 + 3 * length rs)) (unat (rgn_start r)) (unat (rgn_size r)))
     \<and> (\<forall>i<length rs. \<forall>j<length rs. i \<noteq> j \<longrightarrow> region_apart (rs ! i) (rs ! j))"

section \<open>The arithmetic of one region\<close>

lemma region_page_cnt_unat:
  assumes "region_ok r"
  shows "unat (region_page_cnt r)
    = unat (rgn_size r) div 4096 - (unat (rgn_size r) div 4096 div 8 div 4096 + 2)"
    and "0 < unat (region_page_cnt r)"
proof -
  define c where "c = unat (rgn_size r) div 4096"
  define off where "off = c div 8 div 4096 + 2"
  have c3: "3 \<le> c" using assms by (simp add: region_ok_def c_def less_eq_div_iff_mult_less_eq)
  have "c < 2 ^ 28"
    using assms by (simp add: region_ok_def c_def div_less_iff_less_mult)
  moreover have "c div 8 div 4096 = c div 32768" by (simp add: div_mult2_eq [symmetric])
  ultimately have off_lt: "off < 2 ^ 14" "off < c" "off < 2 ^ 31"
    using c3 by (simp_all add: off_def div_less_iff_less_mult)
  have "uint ((rgn_size r div KERNEL_PAGE_SIZE) div 8 div KERNEL_PAGE_SIZE + 2) = int off"
    using off_lt(1) by (simp add: uint_nat unat_word_ariths unat_div c_def off_def)
  then have "region_page_cnt r = rgn_size r div KERNEL_PAGE_SIZE - of_nat off"
    using off_lt(3) by (simp add: region_page_cnt_def Let_def)
  also have "unat \<dots> = c - off"
    using off_lt by (subst unat_sub) (simp_all add: word_le_nat_alt unat_of_nat unat_div c_def)
  finally have "unat (region_page_cnt r) = c - off" .
  then show "unat (region_page_cnt r)
    = unat (rgn_size r) div 4096 - (unat (rgn_size r) div 4096 div 8 div 4096 + 2)"
    and "0 < unat (region_page_cnt r)"
    using off_lt(2) by (simp_all add: c_def off_def)
qed

lemma region_page_start_unat:
  assumes "region_ok r"
  shows "unat (region_page_start r) = (unat (rgn_start r) div 4096 + 1) * 4096"
proof -
  have "(unat (rgn_start r) div 4096 + 1) * 4096 \<le> unat (rgn_start r) + 4096" by simp
  also have "\<dots> < 2 ^ 64" using assms by (simp add: region_ok_def)
  finally show ?thesis
    by (simp add: region_page_start_def unat_word_ariths unat_div)
qed

text \<open>The bitmap has a bit for every page, and the pages end inside the region.\<close>

lemma region_layout:
  assumes "region_ok r"
  defines "n \<equiv> unat (region_page_cnt r)"
  shows "bitmap_words r = (n + 63) div 64" and "n \<le> 2 ^ 19"
    and "unat (rgn_start r) < unat (region_page_start r)"
    and "unat (region_page_start r) + 4096 * n \<le> unat (rgn_start r) + unat (rgn_size r)"
    and "sint (region_page_cnt r) = int n"
proof -
  note start = region_page_start_unat [OF assms(1)]
  have n: "n + 2 \<le> unat (rgn_size r) div 4096"
    unfolding n_def using region_page_cnt_unat [OF assms(1)] by linarith
  have n_lt: "n < 2 ^ 28"
    using n assms(1) by (simp add: region_ok_def less_mult_imp_div_less) linarith
  then show words: "bitmap_words r = (n + 63) div 64"
    by (simp add: bitmap_words_def n_def unat_div unat_word_ariths)
  show "unat (rgn_start r) < unat (region_page_start r)"
    unfolding start by (simp add: dividend_less_div_times)
  have "unat (region_page_start r) \<le> unat (rgn_start r) + 4096" unfolding start by simp
  moreover have "unat (rgn_start r) + 8 * bitmap_words r \<le> unat (region_page_start r)"
    using assms(1) by (simp add: region_ok_def)
  ultimately have "8 * ((n + 63) div 64) \<le> 4096" unfolding words by linarith
  then show "n \<le> 2 ^ 19" by simp
  have "(n + 2) * 4096 \<le> unat (rgn_size r)"
    using n by (simp add: less_eq_div_iff_mult_less_eq)
  with \<open>unat (region_page_start r) \<le> unat (rgn_start r) + 4096\<close>
  show "unat (region_page_start r) + 4096 * n \<le> unat (rgn_start r) + unat (rgn_size r)"
    by simp
  have "uint (region_page_cnt r) = int n" unfolding n_def by (rule uint_nat)
  moreover have "signed_take_bit 63 (int n) = int n"
    using n_lt by (intro signed_take_bit_int_eq_self) simp_all
  ultimately show "sint (region_page_cnt r) = int n" by (simp add: sint_uint)
qed

section \<open>The set-up loop\<close>

lemma pbl_addr_set_region [simp]: "pbl_addr (set_region i r s) k = pbl_addr s k"
  by (simp add: pbl_addr_def set_region_def Let_def)

lemma set_region_kept [simp]:
  "pager_bitmap_list (set_region i r s) = pager_bitmap_list s"
  "last_free_bitmap (set_region i r s) = last_free_bitmap s"
  "last_free_page_num (set_region i r s) = last_free_page_num s"
  by (simp_all add: set_region_def Let_def)

lemma set_regions_kept [simp]:
  "pager_bitmap_list (set_regions i rs s) = pager_bitmap_list s"
  "last_free_bitmap (set_regions i rs s) = last_free_bitmap s"
  "last_free_page_num (set_regions i rs s) = last_free_page_num s"
  by (induction rs arbitrary: i s) simp_all

text \<open>The bitmaps of the regions to be published do not meet the first \<open>n\<close> words of the table.\<close>

definition off_table :: "'a pager_scheme \<Rightarrow> nat \<Rightarrow> memory_region \<Rightarrow> bool" where
  "off_table s n r \<longleftrightarrow>
     cells (rgn_start r) (bitmap_words r) \<inter> cells (pager_bitmap_list s) n = {}"

lemma set_region_pbl:
  assumes "unat (pager_bitmap_list s) + 8 * n \<le> 2 ^ 64" and "off_table s n r" and "k < n"
    and "3 + i * 3 < n"
  shows "pbl (set_region i r s) k =
    (if k = 1 + i * 3 then region_page_cnt r else if k = 2 + i * 3 then rgn_start r
     else if k = 3 + i * 3 then region_page_start r else pbl s k)"
proof -
  have eq: "pbl_addr s k = pbl_addr s j \<longleftrightarrow> k = j" if "j < n" for j
    using cell_index_inj [OF assms(1,3) that] by (auto simp: pbl_addr_def)
  have "1 + i * 3 < n" "2 + i * 3 < n" using assms(4) by linarith+
  note eq1 = eq [OF this(1)] and eq2 = eq [OF this(2)] and eq3 = eq [OF assms(4)]
  have "pbl_addr s k \<notin> cells (rgn_start r) (bitmap_words r)"
    using assms(2,3) by (auto simp: off_table_def pbl_addr_def cells_def)
  then have "pbl (set_region i r s) k = ((kmem s)(pbl_addr s (1 + i * 3) := region_page_cnt r,
      pbl_addr s (2 + i * 3) := rgn_start r, pbl_addr s (3 + i * 3) := region_page_start r)) (pbl_addr s k)"
    by (simp add: pbl_def set_region_def Let_def zero_cells_apply bitmap_words_def pbl_addr_def)
  also have "\<dots> = (if k = 3 + i * 3 then region_page_start r else if k = 2 + i * 3 then rgn_start r
      else if k = 1 + i * 3 then region_page_cnt r else pbl s k)"
    unfolding fun_upd_apply eq1 eq2 eq3 pbl_def ..
  finally show ?thesis by auto
qed

lemma third: "m < 3 \<Longrightarrow> (m + j * 3) div 3 = j" "m < 3 \<Longrightarrow> (m + j * 3) mod 3 = m" for m j :: nat
  by simp_all

definition region_desc :: "memory_region \<Rightarrow> nat \<Rightarrow> u64" where
  "region_desc r m =
     (if m = 0 then region_page_cnt r else if m = 1 then rgn_start r else region_page_start r)"

lemma set_regions_pbl:
  assumes "unat (pager_bitmap_list s) + 8 * n \<le> 2 ^ 64" and "\<forall>r \<in> set rs. off_table s n r"
    and "1 + (i + length rs) * 3 \<le> n" and "k < 1 + (i + length rs) * 3"
  shows "pbl (set_regions i rs s) k =
    (if k < 1 + i * 3 then pbl s k else region_desc (rs ! ((k - 1) div 3 - i)) ((k - 1) mod 3))"
  using assms
proof (induction rs arbitrary: i s)
  case (Cons r rs)
  let ?s = "set_region i r s"
  have off: "off_table s n r" "\<forall>r \<in> set rs. off_table ?s n r"
    using Cons.prems(2) by (simp_all add: off_table_def)
  have all: "pbl (set_regions i (r # rs) s) k = (if k < 4 + i * 3 then pbl ?s k
      else region_desc (rs ! ((k - 1) div 3 - Suc i)) ((k - 1) mod 3))"
    using Cons.IH [of ?s "Suc i"] Cons.prems off(2) by simp
  have one: "pbl ?s k =
    (if k = 1 + i * 3 then region_page_cnt r else if k = 2 + i * 3 then rgn_start r
     else if k = 3 + i * 3 then region_page_start r else pbl s k)"
    using Cons.prems(3,4) by (intro set_region_pbl [OF Cons.prems(1) off(1)]) simp_all
  have rest: "rs ! ((k - 1) div 3 - Suc i) = (r # rs) ! ((k - 1) div 3 - i)" if "\<not> k < 4 + i * 3"
  proof -
    have "Suc i \<le> (k - 1) div 3" using that by (simp add: less_eq_div_iff_mult_less_eq)
    then have "(k - 1) div 3 - i = Suc ((k - 1) div 3 - Suc i)" by simp
    then show ?thesis by simp
  qed
  have "k < 1 + i * 3 \<or> (\<exists>m<3. k = 1 + (m + i * 3)) \<or> \<not> k < 4 + i * 3"
  proof (cases "k < 1 + i * 3")
    case False
    then have "k = 1 + (k - 1 - i * 3 + i * 3)" by simp
    moreover have "k - 1 - i * 3 < 3 \<or> \<not> k < 4 + i * 3" by linarith
    ultimately show ?thesis by blast
  qed simp
  then consider "k < 1 + i * 3" | m where "m < 3" "k = 1 + (m + i * 3)" | "\<not> k < 4 + i * 3" by blast
  then show ?case
  proof cases
    case m: (2 m)
    then have "m = 0 \<or> m = 1 \<or> m = 2" by auto
    then show ?thesis
      using all one third [OF m(1), of i] m(2)
      by (auto simp: region_desc_def)
  qed (use all one rest in auto)
qed simp

corollary published_desc:
  assumes "unat (pager_bitmap_list s) + 8 * n \<le> 2 ^ 64" and "\<forall>r \<in> set rs. off_table s n r"
    and "1 + length rs * 3 \<le> n" and "j < length rs"
  shows "pbl (set_regions 0 rs s) (1 + j * 3) = region_page_cnt (rs ! j)"
    and "pbl (set_regions 0 rs s) (2 + j * 3) = rgn_start (rs ! j)"
    and "pbl (set_regions 0 rs s) (3 + j * 3) = region_page_start (rs ! j)"
    and "pbl (set_regions 0 rs s) 0 = pbl s 0"
proof -
  have "1 + j * 3 - 1 = 0 + j * 3" "2 + j * 3 - 1 = 1 + j * 3" "3 + j * 3 - 1 = 2 + j * 3" by simp_all
  then show "pbl (set_regions 0 rs s) (1 + j * 3) = region_page_cnt (rs ! j)"
    and "pbl (set_regions 0 rs s) (2 + j * 3) = rgn_start (rs ! j)"
    and "pbl (set_regions 0 rs s) (3 + j * 3) = region_page_start (rs ! j)"
    and "pbl (set_regions 0 rs s) 0 = pbl s 0"
    using set_regions_pbl [OF assms(1,2), of 0 "1 + j * 3"] set_regions_pbl [OF assms(1,2), of 0 "2 + j * 3"]
      set_regions_pbl [OF assms(1,2), of 0 "3 + j * 3"] set_regions_pbl [OF assms(1,2), of 0 0]
      third [of 0 j] third [of 1 j] third [of 2 j] assms(3,4)
    by (simp_all add: region_desc_def)
qed

lemma set_regions_bitmap:
  assumes "\<forall>r \<in> set rs. off_table s n r" and "1 + (i + length rs) * 3 \<le> n"
    and "x \<notin> cells (pager_bitmap_list s) n"
  shows "kmem (set_regions i rs s) x =
    (if \<exists>r \<in> set rs. x \<in> cells (rgn_start r) (bitmap_words r) then 0 else kmem s x)"
  using assms
proof (induction rs arbitrary: i s)
  case (Cons r rs)
  have "x \<noteq> pbl_addr s k" if "k < n" for k
    using Cons.prems(3) that by (auto simp: cells_def pbl_addr_def)
  then have "kmem (set_region i r s) x =
      (if x \<in> cells (rgn_start r) (bitmap_words r) then 0 else kmem s x)"
    using Cons.prems(2) by (simp add: set_region_def Let_def zero_cells_apply bitmap_words_def)
  with Cons.IH [of "set_region i r s" "Suc i"] Cons.prems show ?case by (simp add: off_table_def)
qed simp

section \<open>The published allocator\<close>

lemma table_ok_region:
  assumes "table_ok a rs" and "r \<in> set rs"
  shows "region_ok r" and "apart (unat a) (8 * (1 + 3 * length rs)) (unat (rgn_start r)) (unat (rgn_size r))"
  using assms by (auto simp: table_ok_def)

lemma bitmap_inside:
  assumes "region_ok r"
  shows "unat (rgn_start r) + 8 * bitmap_words r \<le> unat (rgn_start r) + unat (rgn_size r)"
  using assms region_layout(3,4) [OF assms] by (simp add: region_ok_def)

lemma table_off:
  assumes "table_ok (pager_bitmap_list s) rs" and "r \<in> set rs"
  shows "off_table s (1 + 3 * length rs) r"
proof -
  note ok = table_ok_region [OF assms]
  have "unat (rgn_start r) + 8 * bitmap_words r \<le> 2 ^ 64"
    using bitmap_inside [OF ok(1)] ok(1) by (simp add: region_ok_def)
  moreover have "unat (pager_bitmap_list s) + 8 * (1 + 3 * length rs) \<le> 2 ^ 64"
    using assms(1) by (simp add: table_ok_def)
  moreover have "apart (unat (rgn_start r)) (8 * bitmap_words r) (unat (pager_bitmap_list s))
      (8 * (1 + 3 * length rs))"
    using ok(2) bitmap_inside [OF ok(1)] unfolding apart_def by linarith
  ultimately show ?thesis unfolding off_table_def by (rule cells_apart)
qed

lemma publish_kept [simp]:
  "pager_bitmap_list (pager_publish rs s) = pager_bitmap_list s"
  "last_free_bitmap (pager_publish rs s) = last_free_bitmap s"
  "last_free_page_num (pager_publish rs s) = last_free_page_num s"
  by (simp_all add: pager_publish_def)

lemma publish_layout:
  assumes "table_ok (pager_bitmap_list s) rs"
  shows "rcnt (pager_publish rs s) = length rs" and "sint (pbl (pager_publish rs s) 0) = int (length rs)"
    and "i < length rs \<Longrightarrow> sint (pbl (pager_publish rs s) (1 + i * 3)) = int (unat (region_page_cnt (rs ! i)))"
    and "i < length rs \<Longrightarrow> rpages (pager_publish rs s) i = unat (region_page_cnt (rs ! i))"
    and "i < length rs \<Longrightarrow> rbitmap (pager_publish rs s) i = rgn_start (rs ! i)"
    and "i < length rs \<Longrightarrow> rbase (pager_publish rs s) i = region_page_start (rs ! i)"
    and "i < length rs \<Longrightarrow> rwords (pager_publish rs s) i = bitmap_words (rs ! i)"
proof -
  let ?s = "s\<lparr>kmem := (kmem s)(pbl_addr s 0 := of_nat (length rs))\<rparr>"
  let ?p = "pager_publish rs s"
  have fits: "unat (pager_bitmap_list ?s) + 8 * (1 + 3 * length rs) \<le> 2 ^ 64"
    and len: "length rs \<le> 32"
    using assms by (simp_all add: table_ok_def MAX_MEMORY_REGIONS_def)
  have off: "\<forall>r \<in> set rs. off_table ?s (1 + 3 * length rs) r"
    using table_off [OF assms] by (simp add: off_table_def)
  have p0: "pbl ?p 0 = of_nat (length rs)"
    using set_regions_pbl [OF fits off, of 0 0] by (simp add: pager_publish_def pbl_def pbl_addr_def)
  have "uint (of_nat (length rs) :: u64) = int (length rs)"
    using len by (simp add: uint_nat unat_of_nat)
  with len show c: "sint (pbl ?p 0) = int (length rs)"
    unfolding p0 sint_uint by (simp add: signed_take_bit_int_eq_self)
  then show "rcnt ?p = length rs" by (simp add: rcnt_def)
  assume i: "i < length rs"
  then have r: "region_ok (rs ! i)" using table_ok_region(1) [OF assms] by simp
  note d = published_desc [OF fits off _ i]
  show cnt: "sint (pbl ?p (1 + i * 3)) = int (unat (region_page_cnt (rs ! i)))"
    using d(1) region_layout(5) [OF r] by (simp add: pager_publish_def)
  then show pg: "rpages ?p i = unat (region_page_cnt (rs ! i))" by (simp add: rpages_def)
  show "rbitmap ?p i = rgn_start (rs ! i)" "rbase ?p i = region_page_start (rs ! i)"
    using d(2,3) by (simp_all add: pager_publish_def rbitmap_def rbase_def)
  show "rwords ?p i = bitmap_words (rs ! i)"
    using pg region_layout(1) [OF r] by (simp add: rwords_def)
qed

lemma publish_region_wf:
  assumes "table_ok (pager_bitmap_list s) rs" and "i < length rs"
  shows "region_wf (pager_publish rs s) i"
proof -
  let ?r = "rs ! i"
  have r: "region_ok ?r" and a: "apart (unat (pager_bitmap_list s)) (8 * (1 + 3 * length rs))
      (unat (rgn_start ?r)) (unat (rgn_size ?r))"
    using table_ok_region [OF assms(1)] assms(2) by simp_all
  note l = region_layout [OF r] and b = bitmap_inside [OF r]
  have "region_page_start ?r \<noteq> 0" using l(3) by (metis not_less_zero unat_0)
  moreover have "unat (region_page_start ?r) mod 4096 = 0"
    unfolding region_page_start_unat [OF r] by simp
  moreover have "apart (unat (pager_bitmap_list s)) (8 * (1 + 3 * length rs))
      (unat (rgn_start ?r)) (8 * bitmap_words ?r)"
    using a b unfolding apart_def by linarith
  moreover have "apart (unat (pager_bitmap_list s)) (8 * (1 + 3 * length rs))
      (unat (region_page_start ?r)) (4096 * unat (region_page_cnt ?r))"
    using a l(3,4) unfolding apart_def by linarith
  moreover have "0 < uint (region_page_cnt ?r)" using region_page_cnt_unat(2) [OF r]
    by (metis of_nat_0_less_iff uint_nat)
  ultimately show ?thesis
    using r l b publish_layout [OF assms(1)] assms(2)
    by (simp add: region_wf_def region_ok_def)
qed

lemma publish_regions_apart:
  assumes "table_ok (pager_bitmap_list s) rs" and "i < length rs" and "j < length rs"
  shows "regions_apart (pager_publish rs s) i j"
proof -
  have r: "region_ok (rs ! i)" "region_ok (rs ! j)"
    using table_ok_region(1) [OF assms(1)] assms(2,3) by simp_all
  note l = region_layout [OF r(1)] region_layout [OF r(2)]
    and b = bitmap_inside [OF r(1)] bitmap_inside [OF r(2)]
  note p = publish_layout [OF assms(1)]
  have ap: "i \<noteq> j \<Longrightarrow> region_apart (rs ! i) (rs ! j)" using assms by (simp add: table_ok_def)
  show ?thesis
  proof (cases "i = j")
    case True
    then show ?thesis
      using r(2) p(4-7) [OF assms(3)] by (simp add: regions_apart_def apart_def region_ok_def)
  next
    case False
    with ap have "region_apart (rs ! i) (rs ! j)" by blast
    with b l(3,4,8,9) show ?thesis
      unfolding regions_apart_def region_apart_def apart_def p(4-7) [OF assms(2)] p(4-7) [OF assms(3)]
      by (intro conjI impI; linarith)
  qed
qed

lemma publish_wf:
  assumes "table_ok (pager_bitmap_list s) rs"
  shows "pager_wf (pager_publish rs s)"
  using publish_region_wf [OF assms] publish_regions_apart [OF assms] publish_layout(1,2) [OF assms] assms
  by (simp add: pager_wf_def table_ok_def)

lemma publish_free:
  assumes "table_ok (pager_bitmap_list s) rs" and "managed (pager_publish rs s) i k"
  shows "\<not> page_used (pager_publish rs s) i k"
proof -
  let ?s = "s\<lparr>kmem := (kmem s)(pbl_addr s 0 := of_nat (length rs))\<rparr>"
  let ?w = "page_word (pager_publish rs s) i k"
  have i: "i < length rs" using assms publish_layout(1) [OF assms(1)] by (simp add: managed_def)
  have off: "\<forall>r \<in> set rs. off_table ?s (1 + 3 * length rs) r"
    using table_off [OF assms(1)] by (simp add: off_table_def)
  have w: "?w \<in> cells (rgn_start (rs ! i)) (bitmap_words (rs ! i))"
    using page_word_in_bitmap [of k "pager_publish rs s" i] assms(2) publish_layout [OF assms(1)] i
    by (simp add: managed_def)
  then have "?w \<notin> cells (pager_bitmap_list s) (1 + 3 * length rs)"
    using table_off [OF assms(1), of "rs ! i"] i by (auto simp: off_table_def)
  then have "kmem (pager_publish rs s) ?w = 0"
    using set_regions_bitmap [OF off, of 0 ?w] w i by (auto simp: pager_publish_def)
  then show ?thesis by (simp add: page_used_def)
qed

lemma publish_inv:
  assumes "table_ok (pager_bitmap_list s) rs" and "last_free_bitmap s = 0" and "last_free_page_num s = 0"
  shows "pager_inv (pager_publish rs s)" and "pager_live (pager_publish rs s) = {}"
proof -
  show "pager_inv (pager_publish rs s)"
    using publish_wf [OF assms(1)] assms(2,3) by (simp add: pager_inv_def hint_ok_def before_def)
  show "pager_live (pager_publish rs s) = {}"
    using publish_free [OF assms(1)] by (auto simp: pager_live_def)
qed

lemma publish_pool:
  assumes "table_ok (pager_bitmap_list s) rs" and "p \<in> pager_pool (pager_publish rs s)"
  shows "\<exists>r \<in> set rs. unat (rgn_start r) + 8 * bitmap_words r \<le> unat p
    \<and> unat p + 4096 \<le> unat (rgn_start r) + unat (rgn_size r)"
proof -
  let ?p = "pager_publish rs s"
  from assms(2) obtain i k where "allocatable ?p i k" and p: "p = page_addr ?p i k"
    by (auto simp: pager_pool_def)
  then have "managed ?p i k" by (blast intro: allocatable_managed)
  then have i: "i < length rs" and k: "k < rpages ?p i"
    using publish_layout(1) [OF assms(1)] by (simp_all add: managed_def)
  have r: "region_ok (rs ! i)" using table_ok_region(1) [OF assms(1)] i by simp
  have "unat p = unat (region_page_start (rs ! i)) + 4096 * k"
    using unat_page_addr [OF publish_region_wf [OF assms(1) i] k] publish_layout(6) [OF assms(1) i]
    by (simp add: p)
  moreover have "4096 * k + 4096 \<le> 4096 * unat (region_page_cnt (rs ! i))"
    using k publish_layout(4) [OF assms(1) i] by simp
  ultimately have "unat (rgn_start (rs ! i)) + 8 * bitmap_words (rs ! i) \<le> unat p
    \<and> unat p + 4096 \<le> unat (rgn_start (rs ! i)) + unat (rgn_size (rs ! i))"
    using r region_layout(4) [OF r] by (auto simp: region_ok_def)
  then show ?thesis using i nth_mem by blast
qed

text \<open>The pages a region gives to the pool: whole words of its bitmap, from its first page on.\<close>

definition region_pages :: "memory_region \<Rightarrow> u64 set" where
  "region_pages r = {p. \<exists>k < 64 * (unat (region_page_cnt r) div 64). unat p = unat (region_page_start r) + 4096 * k}"

lemma publish_pool_eq:
  assumes "table_ok (pager_bitmap_list s) rs"
  shows "pager_pool (pager_publish rs s) = (\<Union>r \<in> set rs. region_pages r)"
proof -
  let ?p = "pager_publish rs s"
  have addr: "unat (page_addr ?p i k) = unat (region_page_start (rs ! i)) + 4096 * k" if "allocatable ?p i k" for i k
  proof -
    have m: "managed ?p i k" using that by (rule allocatable_managed)
    then have i: "i < length rs" using publish_layout(1) [OF assms] by (simp add: managed_def)
    show ?thesis using unat_page_addr [OF publish_region_wf [OF assms i]] m publish_layout(6) [OF assms i]
      by (simp add: managed_def)
  qed
  have alloc: "allocatable ?p i k \<longleftrightarrow> i < length rs \<and> k < 64 * (unat (region_page_cnt (rs ! i)) div 64)" for i k
    using publish_layout(1,4) [OF assms] by (auto simp: allocatable_def)
  show ?thesis
  proof (intro equalityI subsetI)
    fix p assume "p \<in> pager_pool ?p"
    then obtain i k where p: "p = page_addr ?p i k" "allocatable ?p i k" by (auto simp: pager_pool_def)
    then have "p \<in> region_pages (rs ! i)" using addr [OF p(2)] alloc by (auto simp: region_pages_def)
    then show "p \<in> (\<Union>r \<in> set rs. region_pages r)" using p(2) alloc by auto
  next
    fix p assume "p \<in> (\<Union>r \<in> set rs. region_pages r)"
    then obtain i k where i: "i < length rs" "k < 64 * (unat (region_page_cnt (rs ! i)) div 64)"
      "unat p = unat (region_page_start (rs ! i)) + 4096 * k" by (auto simp: region_pages_def in_set_conv_nth)
    then have "allocatable ?p i k" using alloc by simp
    moreover from this have "p = page_addr ?p i k" using addr i(3) by (simp add: word_unat_eq_iff)
    ultimately show "p \<in> pager_pool ?p" by (auto simp: pager_pool_def)
  qed
qed

lemma publish_frame:
  assumes "table_ok (pager_bitmap_list s) rs" and "x \<notin> cells (pager_bitmap_list s) (1 + 3 * length rs)"
    and "\<And>r. r \<in> set rs \<Longrightarrow> x \<notin> cells (rgn_start r) (bitmap_words r)"
  shows "kmem (pager_publish rs s) x = kmem s x"
proof -
  let ?s = "s\<lparr>kmem := (kmem s)(pbl_addr s 0 := of_nat (length rs))\<rparr>"
  have "\<forall>r \<in> set rs. off_table ?s (1 + 3 * length rs) r" using table_off [OF assms(1)] by (simp add: off_table_def)
  then have "kmem (pager_publish rs s) x = kmem ?s x"
    using set_regions_bitmap [of rs ?s "1 + 3 * length rs" 0 x] assms(2,3) by (simp add: pager_publish_def)
  moreover have "x \<noteq> pbl_addr s 0" using assms(2) by (auto simp: cells_def pbl_addr_def dest: spec [of _ 0])
  ultimately show ?thesis by simp
qed

section \<open>Properties\<close>

text \<open>A one-megabyte region and a descriptor table in front of it, for the witnesses.\<close>

definition demo_region :: memory_region where
  "demo_region = \<lparr>rgn_start = 0xffffffc080300000, rgn_size = 0x100000\<rparr>"

definition blank_pager :: pager where
  "blank_pager = \<lparr>kmem = (\<lambda>_. 0), uart_reg_size = 1, uart_dev = (\<lambda>_ _. 0x20), uart_reads = 0,
     uart_writes = [], pager_bitmap_list = 0xffffffc080280000, last_free_bitmap = 0,
     last_free_page_num = 0\<rparr>"

definition demo_pager :: pager where
  "demo_pager = pager_publish [demo_region] blank_pager"

lemma demo_table: "table_ok (pager_bitmap_list blank_pager) [demo_region]"
  by (simp add: table_ok_def region_ok_def demo_region_def blank_pager_def bitmap_words_def
      region_page_cnt_def region_page_start_def MAX_MEMORY_REGIONS_def apart_def)

lemma demo_inv: "pager_inv demo_pager" "pager_live demo_pager = {}"
  using publish_inv [OF demo_table] by (simp_all add: demo_pager_def blank_pager_def)

text \<open>
  The set-up loop of \<open>pager_init\<close>, run over regions that do not meet each other or the
  descriptor table and whose bitmaps end before their first page, with the search hint at its
  initial value, establishes the allocator's invariant with no page in use, and every page that can
  be handed out lies inside one of the regions, behind that region's bitmap.
\<close>

theorem pager_publish_sound:
  assumes "table_ok (pager_bitmap_list s) rs" and "last_free_bitmap s = 0" and "last_free_page_num s = 0"
  shows "pager_inv (pager_publish rs s) \<and> pager_live (pager_publish rs s) = {}
    \<and> (\<forall>p \<in> pager_pool (pager_publish rs s). \<exists>r \<in> set rs.
         unat (rgn_start r) + 8 * bitmap_words r \<le> unat p
         \<and> unat p + 4096 \<le> unat (rgn_start r) + unat (rgn_size r))"
  using publish_inv [OF assms] publish_pool [OF assms(1)] by blast

theorem pager_publish_sound_witness:
  "table_ok (pager_bitmap_list blank_pager) [demo_region] \<and> pager_inv demo_pager
   \<and> pager_live demo_pager = {}"
  using pager_publish_sound [OF demo_table] demo_table by (simp add: demo_pager_def blank_pager_def)

text \<open>
  C5. When \<open>pg_alloc\<close> returns a page, the page was free and one of the allocator's; it is now in
  use and nothing else changed in the set of pages in use; all its 512 words are zero; and no cell
  outside the page and the allocator's own tables was touched.
\<close>

theorem pg_alloc_sound:
  assumes "pager_inv s" and "pg_alloc s = ret (p, s')"
  shows "p \<in> pager_pool s \<and> p \<notin> pager_live s \<and> pager_inv s' \<and> pager_live s' = insert p (pager_live s)
    \<and> (\<forall>x \<in> page_cells p. kmem s' x = 0)
    \<and> (\<forall>x. x \<notin> page_cells p \<longrightarrow> x \<notin> pager_meta s \<longrightarrow> kmem s' x = kmem s x)"
  using pg_alloc_source [OF assms] by blast

text \<open>The first allocation of the demonstration state, computed.\<close>

lemma demo_desc:
  "pbl demo_pager 0 = 1" "pbl demo_pager (Suc 0) = 254" "pbl demo_pager 2 = 0xffffffc080300000"
  "pbl demo_pager 3 = 0xffffffc080301000" "kmem demo_pager 0xffffffc080300000 = 0"
  "last_free_bitmap demo_pager = 0" "last_free_page_num demo_pager = 0"
  by (simp_all add: demo_pager_def pager_publish_def set_region_def pbl_def pbl_addr_def Let_def
      zero_cells_apply demo_region_def blank_pager_def region_page_cnt_def region_page_start_def
      in_cells_iff)

lemma ctzl_minus_1: "ctzl (- 1) = 0"
  by (simp add: ctzl_def upt_rec)

lemma demo_alloc: "pg_alloc demo_pager = ret (0xffffffc080301000, snd (take_page 0 0 demo_pager))"
proof -
  have "find_region demo_pager 0 = Some (0, 0)"
    by (subst find_region.simps)
      (simp add: demo_desc find_word.simps Let_def signed_divide_int_def sint_uint)
  then show ?thesis
    by (simp add: pg_alloc_def demo_desc take_page_def Let_def ctzl_minus_1)
qed

theorem pg_alloc_sound_witness:
  "\<exists>s'. pg_alloc demo_pager = ret (0xffffffc080301000, s') \<and> pager_inv s'
     \<and> pager_live s' = {0xffffffc080301000}"
  using pg_alloc_sound [OF demo_inv(1) demo_alloc] demo_alloc demo_inv(2) by simp

text \<open>
  C29. First fit: every page that could be handed out and lies before the page \<open>pg_alloc\<close> returns,
  in an earlier region or at a lower number in the same one, is in use. The search hint hides none.
\<close>

theorem pg_alloc_first_fit:
  assumes "pager_inv s" and "pg_alloc s = ret (p, s')"
  shows "\<exists>i k. p = page_addr s i k \<and> allocatable s i k
    \<and> (\<forall>i' k'. allocatable s i' k' \<longrightarrow> i' < i \<or> (i' = i \<and> k' < k) \<longrightarrow> page_used s i' k')"
proof -
  have "pager_wf s" "hint_ok s" using assms(1) by (auto simp: pager_inv_def)
  from pg_alloc_ret [OF this assms(2)] obtain i k where "p = page_addr s i k" "allocatable s i k"
    and "\<And>i' k'. allocatable s i' k' \<Longrightarrow> before i' k' (int i) (int k) \<Longrightarrow> page_used s i' k'"
    by metis
  then show ?thesis by (intro exI [of _ i] exI [of _ k]) (auto simp: before_def)
qed

theorem pg_alloc_first_fit_witness:
  "pager_inv demo_pager \<and> pg_alloc demo_pager \<noteq> None
   \<and> (\<exists>i k. (0xffffffc080301000 :: u64) = page_addr demo_pager i k \<and> allocatable demo_pager i k)"
  using pg_alloc_first_fit [OF demo_inv(1) demo_alloc] demo_inv(1) demo_alloc by auto

text \<open>
  C27. \<open>pg_alloc\<close> always ends, and it panics with \<open>OUT_OF_FREE_PAGES\<close> exactly when every page
  it can hand out is in use.
\<close>

theorem pg_alloc_exhausted:
  assumes "pager_inv s"
  shows "(if pager_pool s \<subseteq> pager_live s then pg_alloc s = panic ''OUT_OF_FREE_PAGES'' 0 0 0
          else \<exists>p s'. pg_alloc s = ret (p, s'))"
proof (cases "pager_pool s \<subseteq> pager_live s")
  case True
  have "pg_alloc s \<noteq> ret (p, s')" for p s' using True pg_alloc_source(1) [OF assms] by blast
  then show ?thesis using True pg_alloc_cases [of s] assms by (metis pager_inv_def)
next
  case False
  then show ?thesis using pg_alloc_total [OF assms] by auto
qed

theorem pg_alloc_exhausted_witness:
  "pager_inv demo_pager \<and> \<not> pager_pool demo_pager \<subseteq> pager_live demo_pager"
proof -
  have "\<not> pg_alloc demo_pager = panic ''OUT_OF_FREE_PAGES'' 0 0 0" by (simp add: demo_alloc)
  with pg_alloc_exhausted [OF demo_inv(1)] show ?thesis
    using demo_inv(1) by (auto split: if_splits)
qed

text \<open>
  C19. \<open>pg_free\<close> of any address inside a page of the allocator: if the page is in use it becomes
  free and only it does, the invariant is kept and no cell outside the allocator's tables changes;
  if it is not in use the kernel panics with \<open>DOUBLE_FREE_PAGE\<close>.
\<close>

theorem pg_free_sound:
  assumes "pager_inv s" and "in_page s i k location"
  shows "if page_used s i k
    then \<exists>s'. pg_free location s = ret ((), s') \<and> pager_inv s'
           \<and> pager_live s' = pager_live s - {page_addr s i k}
           \<and> (\<forall>x. x \<notin> pager_meta s \<longrightarrow> kmem s' x = kmem s x)
    else pg_free location s = panic ''DOUBLE_FREE_PAGE'' location (of_nat k) (rbitmap s i)"
proof (cases "page_used s i k")
  case True
  have wf: "pager_wf s" "hint_ok s" using assms(1) by (auto simp: pager_inv_def)
  have man: "managed s i k" using assms(2) by (simp add: in_page_def)
  have "page_addr s i k \<in> pager_live s" using True in_pager_live [OF wf(1) man] by simp
  from pg_free_source [OF assms(1) this] page_addr_inj [OF wf(1) man]
  have "pager_inv (drop_page s i k) \<and> pager_live (drop_page s i k) = pager_live s - {page_addr s i k}"
    by metis
  moreover have "pg_free location s = ret ((), drop_page s i k)"
    using pg_free_in_page [OF wf(1) _ assms(2)] wf(2) True by (simp add: hint_ok_def)
  moreover have "kmem (drop_page s i k) x = kmem s x" if "x \<notin> pager_meta s" for x
    using that page_word_meta [OF man] by (auto simp: kmem_drop_page)
  ultimately show ?thesis using True by auto
next
  case False
  then show ?thesis
    using pg_free_in_page [OF _ _ assms(2)] assms(1) by (simp add: pager_inv_def hint_ok_def)
qed

lemma demo_in_page: "in_page demo_pager 0 0 0xffffffc080301008" "\<not> page_used demo_pager 0 0"
  by (simp_all add: in_page_def managed_def rcnt_def rpages_def rbase_def page_used_def page_word_def
      rbitmap_def demo_desc sint_uint)

theorem pg_free_sound_witness:
  "pg_free 0xffffffc080301008 demo_pager
   = panic ''DOUBLE_FREE_PAGE'' 0xffffffc080301008 0 0xffffffc080300000"
  using pg_free_sound [OF demo_inv(1) demo_in_page(1)] demo_in_page(2) by (simp add: rbitmap_def demo_desc)

text \<open>
  \<open>pg_free\<close> of an address in no page of the allocator panics, with
  \<open>PAGE_REMOVE_NO_OVERRIDE\<close> or \<open>ATTEMPT_REMOVE_PAGE_OUT_OF_RANGE\<close>.
\<close>

theorem pg_free_refuses:
  assumes "pager_inv s" and "\<forall>i k. \<not> in_page s i k location"
  shows "\<exists>a b c. pg_free location s = panic ''PAGE_REMOVE_NO_OVERRIDE'' a b c
    \<or> pg_free location s = panic ''ATTEMPT_REMOVE_PAGE_OUT_OF_RANGE'' a b c"
  using pg_free_foreign [of s location] assms by (simp add: pager_inv_def)

theorem pg_free_refuses_witness:
  "(\<forall>i k. \<not> in_page demo_pager i k 0x1000)
   \<and> (\<exists>a b c. pg_free 0x1000 demo_pager = panic ''PAGE_REMOVE_NO_OVERRIDE'' a b c
        \<or> pg_free 0x1000 demo_pager = panic ''ATTEMPT_REMOVE_PAGE_OUT_OF_RANGE'' a b c)"
proof -
  have "\<forall>i k. \<not> in_page demo_pager i k 0x1000"
    by (auto simp: in_page_def managed_def rcnt_def rbase_def demo_desc sint_uint)
  then show ?thesis using pg_free_refuses [OF demo_inv(1)] by blast
qed

text \<open>
  C28. Giving back the page that \<open>pg_alloc\<close> just returned succeeds, restores the set of pages in
  use and leaves the contents of every page that was in use as they were.
\<close>

theorem pg_alloc_free_roundtrip:
  assumes "pager_inv s" and "pg_alloc s = ret (p, s')"
  shows "\<exists>s''. pg_free p s' = ret ((), s'') \<and> pager_inv s'' \<and> pager_live s'' = pager_live s
    \<and> (\<forall>q \<in> pager_live s. \<forall>x \<in> page_cells q. kmem s'' x = kmem s x)"
  by (rule pager.alloc_release [OF assms])

theorem pg_alloc_free_roundtrip_witness:
  "\<exists>s' s''. pg_alloc demo_pager = ret (0xffffffc080301000, s')
     \<and> pg_free 0xffffffc080301000 s' = ret ((), s'') \<and> pager_live s'' = {}"
  using pg_alloc_free_roundtrip [OF demo_inv(1) demo_alloc] demo_alloc demo_inv(2) by auto

end
