(* ===== verification/Stack.thy ===== *)
theory Stack
  imports Pager_Init
begin

text \<open>
  The kernel stacks of the harts, \<^verbatim>\<open>src/src/kernel/memory/stack.c\<close>: a page that holds the
  addresses of the stack pages, four per hart. It is the first client of the page source, and the
  lemma on its loop is proved from the laws of that contract alone.
\<close>

record kstacks = pager +
  hart_stacks_list :: u64

abbreviation (input) STACK_PAGES :: u64 where
  "STACK_PAGES \<equiv> 4"

text \<open>The loop, \<open>n\<close> iterations from index \<open>i\<close> on.\<close>

primrec stack_fill :: "nat \<Rightarrow> nat \<Rightarrow> 'a kstacks_scheme \<Rightarrow> (unit \<times> 'a kstacks_scheme) run" where
  "stack_fill 0 i s = ret ((), s)"
| "stack_fill (Suc n) i s =
     bindr (pg_alloc s) (\<lambda>(p, s).
       stack_fill n (Suc i) (s\<lparr>kmem := (kmem s)(hart_stacks_list s + 8 * of_nat i := p)\<rparr>))"

definition stack_init :: "u64 \<Rightarrow> 'a kstacks_scheme \<Rightarrow> (unit \<times> 'a kstacks_scheme) run" where
  "stack_init hart_cnt s =
     bindr (pg_alloc s) (\<lambda>(p, s).
       stack_fill (unat (hart_cnt * STACK_PAGES)) 0 (s\<lparr>hart_stacks_list := p\<rparr>))"

lemma pg_alloc_keeps_stacks:
  assumes "pg_alloc s = ret (p, s')"
  shows "hart_stacks_list s' = hart_stacks_list s"
  using assms by (auto simp: pg_alloc_def take_page_def Let_def split: option.splits)

lemma hart_stacks_list_same [simp]: "pager_same s (s\<lparr>hart_stacks_list := p\<rparr>)"
  by (simp add: pager_same_def)

lemma finite_pool: "finite (pager_pool s)"
proof -
  have "pager_pool s \<subseteq> (\<Union>i<rcnt s. page_addr s i ` {..<64 * (rpages s i div 64)})"
    by (auto simp: pager_pool_def allocatable_def)
  then show ?thesis by (rule finite_subset) simp
qed

lemma alloc_enough:
  assumes "pager_inv s" and "n < card (pager_pool s - pager_live s)"
  obtains p s' where "pg_alloc s = ret (p, s')" and "pager_inv s'"
    and "p \<in> pager_pool s" and "p \<notin> pager_live s" and "pager_live s' = insert p (pager_live s)"
    and "n \<le> card (pager_pool s' - pager_live s')"
proof -
  obtain q where "q \<in> pager_pool s - pager_live s"
    using assms(2) by (metis card.empty equals0I not_less_zero)
  then obtain p s' where a: "pg_alloc s = ret (p, s')" using pg_alloc_total [OF assms(1)] by blast
  note l = pg_alloc_source [OF assms(1) a]
  then have "pager_pool s' - pager_live s' = (pager_pool s - pager_live s) - {p}" by blast
  moreover have "p \<in> pager_pool s - pager_live s" using l(1) by blast
  ultimately have "card (pager_pool s - pager_live s) = Suc (card (pager_pool s' - pager_live s'))"
    using finite_pool by (metis card_Suc_Diff1 finite_Diff)
  then show ?thesis using that [OF a] l(1,2) assms(2) by simp
qed

text \<open>What the loop leaves: \<open>n\<close> new pages, entered in the table, zeroed, everything else kept.\<close>

definition filled :: "'a kstacks_scheme \<Rightarrow> 'a kstacks_scheme \<Rightarrow> nat \<Rightarrow> u64 list \<Rightarrow> bool" where
  "filled s s' i ps \<longleftrightarrow> pager_inv s' \<and> hart_stacks_list s' = hart_stacks_list s
     \<and> distinct ps \<and> set ps \<inter> pager_live s = {} \<and> pager_live s' = pager_live s \<union> set ps
     \<and> (\<forall>k<length ps. kmem s' (hart_stacks_list s + 8 * of_nat (i + k)) = ps ! k)
     \<and> (\<forall>p \<in> set ps. \<forall>x \<in> page_cells p. kmem s' x = 0)
     \<and> (\<forall>q \<in> pager_live s. \<forall>x \<in> page_cells q.
          x \<notin> cells (hart_stacks_list s + 8 * of_nat i) (length ps) \<longrightarrow> kmem s' x = kmem s x)"

lemma cells_sub_page:
  assumes "i + n \<le> 512"
  shows "cells (t + 8 * of_nat i) n \<subseteq> page_cells t"
proof
  fix x assume "x \<in> cells (t + 8 * of_nat i) n"
  then obtain k where "k < n" "x = t + 8 * of_nat (i + k)" by (auto simp: cells_def algebra_simps)
  then show "x \<in> page_cells t" using assms unfolding cells_def by (intro CollectI exI [of _ "i + k"]) simp
qed

lemma cells_Suc: "cells (t + 8 * of_nat i) (Suc n) =
    insert (t + 8 * of_nat i) (cells (t + 8 * of_nat (Suc i)) n)" for t :: u64
proof -
  have "{..<Suc n} = insert 0 (Suc ` {..<n})" by (rule lessThan_Suc_eq_insert_0)
  moreover have "cells b m = (\<lambda>k. b + 8 * of_nat k) ` {..<m}" for b :: u64 and m
    by (auto simp: cells_def)
  ultimately show ?thesis by (simp add: image_image algebra_simps)
qed

lemma page_index_fresh:
  fixes t :: u64
  assumes "unat t + 8 * 512 \<le> 2 ^ 64" and "Suc i + n \<le> 512"
  shows "t + 8 * of_nat i \<notin> cells (t + 8 * of_nat (Suc i)) n"
proof
  assume "t + 8 * of_nat i \<in> cells (t + 8 * of_nat (Suc i)) n"
  then obtain k where "k < n" "t + 8 * of_nat i = t + 8 * of_nat (Suc i + k)"
    by (auto simp: cells_def algebra_simps)
  with cell_index_inj [OF assms(1), of i "Suc i + k"] assms(2) show False by simp
qed

lemma filled_keep:
  assumes "filled s s' i ps" and "q \<in> pager_live s" and "x \<in> page_cells q"
    and "x \<notin> cells (hart_stacks_list s + 8 * of_nat i) (length ps)"
  shows "kmem s' x = kmem s x"
  using assms unfolding filled_def by blast

lemma filled_step:
  assumes inv: "pager_inv s" and t: "hart_stacks_list s \<in> pager_live s"
    and a: "pg_alloc s = ret (p, s1)" and n: "Suc i + length ps \<le> 512"
    and f: "filled (s1\<lparr>kmem := (kmem s1)(hart_stacks_list s1 + 8 * of_nat i := p)\<rparr>) s' (Suc i) ps"
  shows "filled s s' i (p # ps)"
proof -
  let ?t = "hart_stacks_list s" and ?e = "hart_stacks_list s + 8 * of_nat i"
  let ?s2 = "s1\<lparr>kmem := (kmem s1)(?e := p)\<rparr>"
  have t1: "hart_stacks_list s1 = ?t" using pg_alloc_keeps_stacks [OF a] .
  note fresh = pager.alloc_fresh [OF inv a] and s1 = pager.alloc_inv [OF inv a]
  have e: "?e \<in> page_cells ?t" using n by (auto simp: cells_def)
  have live2: "pager_live ?s2 = insert p (pager_live s)" "pager_inv ?s2"
    using pager.write_inv [of s1 ?t ?e p] s1 t e by auto
  have neq: "p \<noteq> ?t" using fresh t by auto
  have sub: "cells (?t + 8 * of_nat (Suc i)) (length ps) \<subseteq> page_cells ?t"
    by (rule cells_sub_page [OF n])
  have disj: "page_cells p \<inter> page_cells ?t = {}"
    using pager.pages_apart [OF live2(2), of p ?t] live2(1) t neq by auto
  from f have g: "pager_inv s'" "hart_stacks_list s' = ?t" "distinct ps"
    "set ps \<inter> insert p (pager_live s) = {}" "pager_live s' = insert p (pager_live s) \<union> set ps"
    "\<forall>k<length ps. kmem s' (?t + 8 * of_nat (Suc i + k)) = ps ! k"
    "\<forall>p \<in> set ps. \<forall>x \<in> page_cells p. kmem s' x = 0"
    unfolding filled_def t1 live2(1) by (simp_all add: t1)
  have keep: "kmem s' x = kmem ?s2 x" if "q \<in> insert p (pager_live s)" "x \<in> page_cells q"
      "x \<notin> cells (?t + 8 * of_nat (Suc i)) (length ps)" for q x
    using filled_keep [OF f, of q x] that live2(1) by (simp add: t1)
  have "kmem s' ?e = p"
    using keep [of ?t ?e] t e page_index_fresh [OF _ n] pager.page_aligned [OF inv t] by simp
  then have tab: "\<forall>k<length (p # ps). kmem s' (?t + 8 * of_nat (i + k)) = (p # ps) ! k"
    using g(6) by (auto simp: less_Suc_eq_0_disj add.left_commute)
  have "kmem s' x = 0" if "x \<in> page_cells p" for x
  proof -
    have "x \<noteq> ?e" "x \<notin> cells (?t + 8 * of_nat (Suc i)) (length ps)" using that sub disj e by blast+
    then show ?thesis using keep [of p x] that pager.alloc_zero [OF inv a that] by simp
  qed
  then have zero: "\<forall>q \<in> set (p # ps). \<forall>x \<in> page_cells q. kmem s' x = 0" using g(7) by simp
  have "kmem s' x = kmem s x" if "q \<in> pager_live s" "x \<in> page_cells q" "x \<notin> cells ?e (length (p # ps))" for q x
    using keep [of q x] that pager.alloc_keeps [OF inv a that(1,2)]
    unfolding length_Cons cells_Suc by simp
  then show ?thesis unfolding filled_def using g tab zero fresh by simp
qed

lemma stack_fill_ok:
  assumes "pager_inv s" and "hart_stacks_list s \<in> pager_live s" and "i + n \<le> 512"
    and "n \<le> card (pager_pool s - pager_live s)"
  shows "\<exists>s' ps. stack_fill n i s = ret ((), s') \<and> length ps = n \<and> filled s s' i ps"
  using assms
proof (induction n arbitrary: i s)
  case 0
  then show ?case by (intro exI [of _ s] exI [of _ "[]"]) (simp add: filled_def)
next
  case (Suc n)
  from alloc_enough [OF Suc.prems(1), of n] Suc.prems(4) obtain p s1 where
    a: "pg_alloc s = ret (p, s1)" and s1: "pager_inv s1" "pager_live s1 = insert p (pager_live s)"
    and card: "n \<le> card (pager_pool s1 - pager_live s1)" by (metis Suc_le_eq)
  let ?t = "hart_stacks_list s" let ?e = "?t + 8 * of_nat i"
  let ?s2 = "s1\<lparr>kmem := (kmem s1)(hart_stacks_list s1 + 8 * of_nat i := p)\<rparr>"
  have t1: "hart_stacks_list s1 = ?t" using pg_alloc_keeps_stacks [OF a] .
  have e: "?e \<in> page_cells ?t" using Suc.prems(3) by (auto simp: cells_def)
  have "?t \<in> pager_live s1" using s1 Suc.prems(2) by simp
  note w = pager.write_inv [OF s1(1) this e, of p]
  have "\<exists>s' ps. stack_fill n (Suc i) ?s2 = ret ((), s') \<and> length ps = n \<and> filled ?s2 s' (Suc i) ps"
    using Suc.prems(2,3) card s1 w t1 by (intro Suc.IH) simp_all
  then obtain s' ps where r: "stack_fill n (Suc i) ?s2 = ret ((), s')" "length ps = n"
    "filled ?s2 s' (Suc i) ps" by blast
  have "filled s s' i (p # ps)"
    using Suc.prems(3) r by (intro filled_step [OF Suc.prems(1,2) a]) simp_all
  then show ?case using a r by (intro exI [of _ s'] exI [of _ "p # ps"]) simp
qed

section \<open>Properties\<close>

text \<open>
  C30. \<open>stack_init\<close> for up to 128 harts, with enough free pages: it returns, and the table page it
  allocates lists four stack pages per hart, all different from each other, from the table and from
  every page that was in use, all zeroed; what the pages in use held before is unchanged.
\<close>

theorem stack_init_sound:
  assumes "pager_inv s" and "unat hart_cnt \<le> 128"
    and "4 * unat hart_cnt < card (pager_pool s - pager_live s)"
  shows "\<exists>s' t ps. stack_init hart_cnt s = ret ((), s') \<and> hart_stacks_list s' = t
    \<and> length ps = 4 * unat hart_cnt \<and> distinct (t # ps) \<and> set (t # ps) \<inter> pager_live s = {}
    \<and> pager_inv s' \<and> pager_live s' = pager_live s \<union> set (t # ps)
    \<and> (\<forall>k<length ps. kmem s' (t + 8 * of_nat k) = ps ! k)
    \<and> (\<forall>p \<in> set ps. \<forall>x \<in> page_cells p. kmem s' x = 0)
    \<and> (\<forall>q \<in> pager_live s. \<forall>x \<in> page_cells q. kmem s' x = kmem s x)"
proof -
  from alloc_enough [OF assms(1,3)] obtain t s1 where a: "pg_alloc s = ret (t, s1)"
    and s1: "pager_inv s1" "t \<notin> pager_live s" "pager_live s1 = insert t (pager_live s)"
    and card: "4 * unat hart_cnt \<le> card (pager_pool s1 - pager_live s1)" by metis
  let ?s1 = "s1\<lparr>hart_stacks_list := t\<rparr>"
  note same = pager_same_inv [OF hart_stacks_list_same s1(1), of t]
  have n: "unat (hart_cnt * STACK_PAGES) = 4 * unat hart_cnt"
    using assms(2) by (simp add: unat_word_ariths)
  have "\<exists>s' ps. stack_fill (4 * unat hart_cnt) 0 ?s1 = ret ((), s') \<and> length ps = 4 * unat hart_cnt
      \<and> filled ?s1 s' 0 ps"
    using same s1 card assms(2) by (intro stack_fill_ok) simp_all
  then obtain s' ps where r: "stack_fill (4 * unat hart_cnt) 0 ?s1 = ret ((), s')"
    "length ps = 4 * unat hart_cnt" and f: "filled ?s1 s' 0 ps" by blast
  have keep: "kmem s' x = kmem s x" if q: "q \<in> pager_live s" "x \<in> page_cells q" for q x
  proof -
    have "x \<notin> page_cells t" using pager.pages_apart [OF s1(1), of q t] s1(2,3) q by auto
    then have "x \<notin> cells (t + 8 * of_nat 0) (length ps)"
      using cells_sub_page [of 0 "length ps" t] r(2) assms(2) by auto
    then show ?thesis
      using filled_keep [OF f, of q x] q same(4) s1(3) pager.alloc_keeps [OF assms(1) a q] by simp
  qed
  have "stack_init hart_cnt s = ret ((), s')" using a r(1) n by (simp add: stack_init_def)
  moreover have "hart_stacks_list s' = t" "distinct (t # ps)" "set (t # ps) \<inter> pager_live s = {}"
    "pager_inv s'" "pager_live s' = pager_live s \<union> set (t # ps)"
    "\<forall>k<length ps. kmem s' (t + 8 * of_nat k) = ps ! k" "\<forall>p \<in> set ps. \<forall>x \<in> page_cells p. kmem s' x = 0"
    using f same(4) s1(2,3) by (auto simp: filled_def)
  ultimately show ?thesis using r(2) keep by blast
qed

lemma pool_card_ge:
  assumes "pager_wf s" and "i < rcnt s"
  shows "64 * (rpages s i div 64) \<le> card (pager_pool s)"
proof -
  let ?K = "{..<64 * (rpages s i div 64)}"
  have al: "allocatable s i k" if "k \<in> ?K" for k using that assms(2) by (simp add: allocatable_def)
  then have "inj_on (page_addr s i) ?K"
    using page_addr_inj [OF assms(1)] allocatable_managed by (intro inj_onI) blast
  then have "card (page_addr s i ` ?K) = 64 * (rpages s i div 64)" by (simp add: card_image)
  moreover have "page_addr s i ` ?K \<subseteq> pager_pool s" using al by (auto simp: pager_pool_def)
  ultimately show ?thesis using card_mono [OF finite_pool] by metis
qed

definition blank_kstacks :: kstacks where
  "blank_kstacks = pager.extend blank_pager \<lparr>hart_stacks_list = 0\<rparr>"

definition demo_kstacks :: kstacks where
  "demo_kstacks = pager_publish [demo_region] blank_kstacks"

lemma blank_kstacks_fields [simp]:
  "pager_bitmap_list blank_kstacks = pager_bitmap_list blank_pager"
  "last_free_bitmap blank_kstacks = 0" "last_free_page_num blank_kstacks = 0"
  by (simp_all add: blank_kstacks_def blank_pager_def pager.defs)

lemma demo_kstacks_inv: "pager_inv demo_kstacks" "pager_live demo_kstacks = {}"
  using publish_inv [of blank_kstacks] demo_table by (simp_all add: demo_kstacks_def)

lemma demo_kstacks_pool: "192 \<le> card (pager_pool demo_kstacks)"
proof -
  have t: "table_ok (pager_bitmap_list blank_kstacks) [demo_region]" using demo_table by simp
  have "region_page_cnt demo_region = 254" by (simp add: demo_region_def region_page_cnt_def)
  then have "rpages demo_kstacks 0 = 254" "rcnt demo_kstacks = 1"
    using publish_layout(1,4) [OF t] by (simp_all add: demo_kstacks_def)
  then show ?thesis using pool_card_ge [of demo_kstacks 0] demo_kstacks_inv(1) by (simp add: pager_inv_def)
qed

theorem stack_init_sound_witness:
  "\<exists>s' t ps. stack_init 2 demo_kstacks = ret ((), s') \<and> hart_stacks_list s' = t \<and> length ps = 8
     \<and> distinct (t # ps) \<and> pager_live s' = set (t # ps)"
proof -
  have "4 * unat (2 :: u64) < card (pager_pool demo_kstacks - pager_live demo_kstacks)"
    using demo_kstacks_pool demo_kstacks_inv(2) by simp
  from stack_init_sound [OF demo_kstacks_inv(1) _ this] show ?thesis
    using demo_kstacks_inv(2) by simp metis
qed

end
