(* ===== verification/Endian.thy ===== *)
theory Endian
  imports Kernel_Prelude
begin

text \<open>
  Byte order conversion, \<^verbatim>\<open>src/src/include/endian.c\<close>. The three widths of the conversion share one
  contract, the locale \<open>byte_order\<close>: reversing the bytes of a word. Its lemmas show that, once
  \<open>init_endian_conversion\<close> has looked at the machine, a word loaded from a sequence of bytes is
  converted to the number the bytes denote, on machines of either byte order.
\<close>

section \<open>The conversions\<close>

definition flip_u64 :: "u64 \<Rightarrow> u64" where
  "flip_u64 input =
     push_bit 56 (0xFF AND input) OR push_bit 40 (0xFF00 AND input)
     OR push_bit 24 (0xFF0000 AND input) OR push_bit 8 (0xFF000000 AND input)
     OR drop_bit 8 (0xFF00000000 AND input) OR drop_bit 24 (0xFF0000000000 AND input)
     OR drop_bit 40 (0xFF000000000000 AND input) OR drop_bit 56 (0xFF00000000000000 AND input)"

definition flip_u32 :: "u32 \<Rightarrow> u32" where
  "flip_u32 input =
     push_bit 24 (0xFF AND input) OR push_bit 8 (0xFF00 AND input)
     OR drop_bit 8 (0xFF0000 AND input) OR drop_bit 24 (0xFF000000 AND input)"

definition flip_u16 :: "u16 \<Rightarrow> u16" where
  "flip_u16 input = push_bit 8 (0xFF AND input) OR drop_bit 8 (0xFF00 AND input)"

abbreviation BIG_ENDIAN :: u16 where
  "BIG_ENDIAN \<equiv> 0"

abbreviation LITTLE_ENDIAN :: u16 where
  "LITTLE_ENDIAN \<equiv> 1"

text \<open>The global \<open>endian_type\<close> is the first argument of each conversion.\<close>

definition big_endian_u64_to_host :: "u16 \<Rightarrow> u64 \<Rightarrow> u64" where
  "big_endian_u64_to_host endian_type x = (if endian_type = BIG_ENDIAN then x else flip_u64 x)"

definition little_endian_u64_to_host :: "u16 \<Rightarrow> u64 \<Rightarrow> u64" where
  "little_endian_u64_to_host endian_type x = (if endian_type = LITTLE_ENDIAN then x else flip_u64 x)"

definition big_endian_u32_to_host :: "u16 \<Rightarrow> u32 \<Rightarrow> u32" where
  "big_endian_u32_to_host endian_type x = (if endian_type = BIG_ENDIAN then x else flip_u32 x)"

definition little_endian_u32_to_host :: "u16 \<Rightarrow> u32 \<Rightarrow> u32" where
  "little_endian_u32_to_host endian_type x = (if endian_type = LITTLE_ENDIAN then x else flip_u32 x)"

definition big_endian_u16_to_host :: "u16 \<Rightarrow> u16 \<Rightarrow> u16" where
  "big_endian_u16_to_host endian_type x = (if endian_type = BIG_ENDIAN then x else flip_u16 x)"

definition little_endian_u16_to_host :: "u16 \<Rightarrow> u16 \<Rightarrow> u16" where
  "little_endian_u16_to_host endian_type x = (if endian_type = LITTLE_ENDIAN then x else flip_u16 x)"

text \<open>
  The machine's byte order, and the byte a machine stores first of a 16-bit word.
  \<open>init_endian_conversion\<close> returns the new \<open>endian_type\<close>.
\<close>

datatype host = Big_Host | Little_Host

fun first_byte :: "host \<Rightarrow> u16 \<Rightarrow> u8" where
  "first_byte Big_Host w = ucast (drop_bit 8 w)"
| "first_byte Little_Host w = ucast w"

definition init_endian_conversion :: "host \<Rightarrow> u16" where
  "init_endian_conversion h =
     (let endian_type = 1 in if first_byte h endian_type = 0 then BIG_ENDIAN else LITTLE_ENDIAN)"

section \<open>Words and bytes\<close>

text \<open>The number a sequence of bytes denotes, most significant first, and what a load gives.\<close>

definition of_bytes :: "u8 list \<Rightarrow> 'w::len word" where
  "of_bytes bs = foldl (\<lambda>v b. push_bit 8 v OR ucast b) 0 bs"

fun load :: "host \<Rightarrow> u8 list \<Rightarrow> 'w::len word" where
  "load Big_Host bs = of_bytes bs"
| "load Little_Host bs = of_bytes (rev bs)"

lemma bit_of_bytes:
  "bit (of_bytes bs :: 'w::len word) n \<longleftrightarrow>
     n < LENGTH('w) \<and> n div 8 < length bs \<and> bit (rev bs ! (n div 8)) (n mod 8)"
proof (induction bs arbitrary: n rule: rev_induct)
  case Nil
  then show ?case by (simp add: of_bytes_def)
next
  case (snoc b bs)
  have "(of_bytes (bs @ [b]) :: 'w word) = push_bit 8 (of_bytes bs) OR ucast b"
    by (simp add: of_bytes_def)
  moreover have "n < 8 \<Longrightarrow> n div 8 = 0" "n < 8 \<Longrightarrow> n mod 8 = n" by simp_all
  moreover have "n div 8 = Suc ((n - 8) div 8)" "n mod 8 = (n - 8) mod 8" if "8 \<le> n"
    using that by (simp_all add: le_div_geq le_mod_geq)
  moreover have "\<not> bit b n" if "8 \<le> n" using that by (auto dest: bit_imp_le_length)
  ultimately show ?case using snoc.IH [of "n - 8"]
    by (cases "n < 8") (auto simp: bit_or_iff bit_push_bit_iff bit_unsigned_iff)
qed

section \<open>The contract\<close>

locale byte_order =
  fixes flip :: "'w::len word \<Rightarrow> 'w word"
    and big :: "u16 \<Rightarrow> 'w word \<Rightarrow> 'w word"
    and little :: "u16 \<Rightarrow> 'w word \<Rightarrow> 'w word"
    and width :: nat
  assumes width: "LENGTH('w) = 8 * width"
    and flip_bit: "k < width \<Longrightarrow> m < 8 \<Longrightarrow> bit (flip x) (8 * k + m) = bit x (8 * (width - 1 - k) + m)"
    and big_conv: "big endian_type x = (if endian_type = BIG_ENDIAN then x else flip x)"
    and little_conv: "little endian_type x = (if endian_type = LITTLE_ENDIAN then x else flip x)"
begin

lemma byte_eqI:
  fixes x y :: "'w word"
  assumes "\<And>k m. k < width \<Longrightarrow> m < 8 \<Longrightarrow> bit x (8 * k + m) = bit y (8 * k + m)"
  shows "x = y"
proof (rule bit_word_eqI)
  fix n
  assume "n < LENGTH('w)"
  then have "n div 8 < width" by (simp add: width less_mult_imp_div_less mult.commute)
  with assms [of "n div 8" "n mod 8"] show "bit x n = bit y n" by simp
qed

lemma flip_flip: "flip (flip x) = x"
  by (rule byte_eqI) (simp add: flip_bit)

lemma flip_of_bytes:
  assumes "length bs = width"
  shows "flip (of_bytes bs) = of_bytes (rev bs)"
proof (rule byte_eqI)
  fix k m :: nat
  assume k: "k < width" and m: "m < 8"
  then have "8 * (width - 1 - k) + m < LENGTH('w)" "8 * k + m < LENGTH('w)" by (simp_all add: width)
  then show "bit (flip (of_bytes bs)) (8 * k + m) = bit (of_bytes (rev bs) :: 'w word) (8 * k + m)"
    using k m assms by (simp add: flip_bit bit_of_bytes rev_nth)
qed

text \<open>Bytes in either order, loaded by a machine of either order, denote the number they should.\<close>

lemma big_load:
  assumes "length bs = width"
  shows "big (init_endian_conversion h) (load h bs) = of_bytes bs"
  using flip_of_bytes [of "rev bs"] assms
  by (cases h) (simp_all add: big_conv init_endian_conversion_def)

lemma little_load:
  assumes "length bs = width"
  shows "little (init_endian_conversion h) (load h bs) = of_bytes (rev bs)"
  using flip_of_bytes [of bs] assms
  by (cases h) (simp_all add: little_conv init_endian_conversion_def)

lemma big_big: "big e (big e x) = x"
  by (simp add: big_conv flip_flip)

lemma little_little: "little e (little e x) = x"
  by (simp add: little_conv flip_flip)

end

section \<open>The three widths\<close>

lemma bit_FF_32: "bit (0xFF :: u32) i \<longleftrightarrow> i < 8"
proof -
  have "(0xFF :: u32) = mask 8" by (simp add: mask_eq_exp_minus_1)
  then show ?thesis by (simp only: bit_mask_iff) auto
qed

lemma bit_FF_16: "bit (0xFF :: u16) i \<longleftrightarrow> i < 8"
proof -
  have "(0xFF :: u16) = mask 8" by (simp add: mask_eq_exp_minus_1)
  then show ?thesis by (simp only: bit_mask_iff) auto
qed

lemma masks:
  "(0xFF00 :: u64) = push_bit 8 0xFF" "(0xFF0000 :: u64) = push_bit 16 0xFF"
  "(0xFF000000 :: u64) = push_bit 24 0xFF" "(0xFF00000000 :: u64) = push_bit 32 0xFF"
  "(0xFF0000000000 :: u64) = push_bit 40 0xFF" "(0xFF000000000000 :: u64) = push_bit 48 0xFF"
  "(0xFF00000000000000 :: u64) = push_bit 56 0xFF"
  "(0xFF00 :: u32) = push_bit 8 0xFF" "(0xFF0000 :: u32) = push_bit 16 0xFF"
  "(0xFF000000 :: u32) = push_bit 24 0xFF" "(0xFF00 :: u16) = push_bit 8 0xFF"
  by simp_all

lemmas bit_bytes = bit_or_iff bit_and_iff bit_push_bit_iff bit_drop_bit_eq comp_def

lemma bit_flip_u64:
  assumes "m < 8"
  shows "bit (flip_u64 x) m = bit x (56 + m)" and "bit (flip_u64 x) (8 + m) = bit x (48 + m)"
    and "bit (flip_u64 x) (16 + m) = bit x (40 + m)" and "bit (flip_u64 x) (24 + m) = bit x (32 + m)"
    and "bit (flip_u64 x) (32 + m) = bit x (24 + m)" and "bit (flip_u64 x) (40 + m) = bit x (16 + m)"
    and "bit (flip_u64 x) (48 + m) = bit x (8 + m)" and "bit (flip_u64 x) (56 + m) = bit x m"
  unfolding flip_u64_def masks bit_bytes bit_FF using assms by simp_all

lemma bit_flip_u32:
  assumes "m < 8"
  shows "bit (flip_u32 x) m = bit x (24 + m)" and "bit (flip_u32 x) (8 + m) = bit x (16 + m)"
    and "bit (flip_u32 x) (16 + m) = bit x (8 + m)" and "bit (flip_u32 x) (24 + m) = bit x m"
  unfolding flip_u32_def masks bit_bytes bit_FF_32 using assms by simp_all

lemma bit_flip_u16:
  assumes "m < 8"
  shows "bit (flip_u16 x) m = bit x (8 + m)" and "bit (flip_u16 x) (8 + m) = bit x m"
  unfolding flip_u16_def masks bit_bytes bit_FF_16 using assms by simp_all

lemma less_8_cases:
  "k < (8 :: nat) \<Longrightarrow> k = 0 \<or> k = 1 \<or> k = 2 \<or> k = 3 \<or> k = 4 \<or> k = 5 \<or> k = 6 \<or> k = 7"
  by arith

interpretation e64: byte_order flip_u64 big_endian_u64_to_host little_endian_u64_to_host 8
proof
  show "bit (flip_u64 x) (8 * k + m) = bit x (8 * (8 - 1 - k) + m)" if "k < 8" "m < 8" for k m x
    using less_8_cases [OF that(1)] bit_flip_u64 [OF that(2), of x] by (elim disjE) simp_all
qed (simp_all add: big_endian_u64_to_host_def little_endian_u64_to_host_def)

interpretation e32: byte_order flip_u32 big_endian_u32_to_host little_endian_u32_to_host 4
proof
  show "bit (flip_u32 x) (8 * k + m) = bit x (8 * (4 - 1 - k) + m)" if "k < 4" "m < 8" for k m x
  proof -
    have "k < 8" using that(1) by simp
    from less_8_cases [OF this] that(1) bit_flip_u32 [OF that(2), of x] show ?thesis
      by (elim disjE) simp_all
  qed
qed (simp_all add: big_endian_u32_to_host_def little_endian_u32_to_host_def)

interpretation e16: byte_order flip_u16 big_endian_u16_to_host little_endian_u16_to_host 2
proof
  show "bit (flip_u16 x) (8 * k + m) = bit x (8 * (2 - 1 - k) + m)" if "k < 2" "m < 8" for k m x
  proof -
    have "k < 8" using that(1) by simp
    from less_8_cases [OF this] that(1) bit_flip_u16 [OF that(2), of x] show ?thesis
      by (elim disjE) simp_all
  qed
qed (simp_all add: big_endian_u16_to_host_def little_endian_u16_to_host_def)

section \<open>Properties\<close>

text \<open>
  C35. After \<open>init_endian_conversion\<close>, on a machine of either byte order, the conversions of a 64-bit, a
  32-bit and a 16-bit word loaded from a sequence of bytes give the number the bytes denote, most
  significant byte first for the big-endian conversions and last for the little-endian ones.
\<close>

theorem endian_conversion_sound:
  assumes "length bs = 8" and "length cs = 4" and "length ds = 2"
  shows "big_endian_u64_to_host (init_endian_conversion h) (load h bs) = of_bytes bs
    \<and> little_endian_u64_to_host (init_endian_conversion h) (load h bs) = of_bytes (rev bs)
    \<and> big_endian_u32_to_host (init_endian_conversion h) (load h cs) = of_bytes cs
    \<and> little_endian_u32_to_host (init_endian_conversion h) (load h cs) = of_bytes (rev cs)
    \<and> big_endian_u16_to_host (init_endian_conversion h) (load h ds) = of_bytes ds
    \<and> little_endian_u16_to_host (init_endian_conversion h) (load h ds) = of_bytes (rev ds)"
  using e64.big_load e64.little_load e32.big_load e32.little_load e16.big_load e16.little_load assms by blast

theorem endian_conversion_sound_witness:
  "big_endian_u64_to_host (init_endian_conversion Little_Host) (load Little_Host [0, 0, 0, 0, 0, 0, 1, 2]) = 258
   \<and> big_endian_u16_to_host (init_endian_conversion Little_Host) (load Little_Host [1, 2]) = 258"
  using endian_conversion_sound [of "[0, 0, 0, 0, 0, 0, 1, 2]" "[0, 0, 0, 1]" "[1, 2]" Little_Host]
  by (simp add: of_bytes_def)

end
