(* ===== verification/Kstring.thy ===== *)
theory Kstring
  imports Endian "HOL-Library.Sublist"
begin

text \<open>
  The memory and string routines of \<^verbatim>\<open>src/src/kernel/memory/string.c\<close>, over the byte view of
  kernel memory. Loops that stop at a zero byte may run forever and are \<open>partial_function\<close>s; the
  lemmas show that they return on zero-terminated strings and what they return. \<open>char\<close> is unsigned
  on RISC-V.
\<close>

section \<open>The routines\<close>

text \<open>Iterations \<open>0\<close> to \<open>n - 1\<close> of the two loops of \<open>memcpy\<close>, in this order.\<close>

primrec copy_bytes :: "nat \<Rightarrow> u64 \<Rightarrow> u64 \<Rightarrow> mem \<Rightarrow> mem" where
  "copy_bytes 0 dst src m = m"
| "copy_bytes (Suc i) dst src m =
     (let m = copy_bytes i dst src m in st8 m (dst + of_nat i) (ld8 m (src + of_nat i)))"

primrec copy_words :: "nat \<Rightarrow> u64 \<Rightarrow> u64 \<Rightarrow> mem \<Rightarrow> mem" where
  "copy_words 0 dst src m = m"
| "copy_words (Suc i) dst src m =
     (let m = copy_words i dst src m in m(dst + 8 * of_nat i := m (src + 8 * of_nat i)))"

definition memcpy :: "u64 \<Rightarrow> u64 \<Rightarrow> u64 \<Rightarrow> mem \<Rightarrow> mem" where
  "memcpy dst src sz m =
     (if ROUND_MOD_DOWN dst 8 \<noteq> dst \<or> ROUND_MOD_DOWN src 8 \<noteq> src \<or> ROUND_MOD_DOWN sz 8 \<noteq> sz
      then copy_bytes (unat sz) dst src m
      else copy_words (unat (sz div 8)) dst src m)"

text \<open>A 64-bit load from any address, little endian as RISC-V is.\<close>

definition ld64 :: "mem \<Rightarrow> u64 \<Rightarrow> u64" where
  "ld64 m a = load Little_Host (map (\<lambda>i. ld8 m (a + of_nat i)) [0..<8])"

text \<open>The two loops of \<open>memcmp\<close>; the first ends with the index it reached.\<close>

function memcmp_words :: "mem \<Rightarrow> u64 \<Rightarrow> u64 \<Rightarrow> u64 \<Rightarrow> u64 \<Rightarrow> u64 option" where
  "memcmp_words m sz src_a src_b i =
     (if sz - i \<ge> 4 then
        if ld64 m (src_a + 8 * (i div 4)) \<noteq> ld64 m (src_b + 8 * (i div 4)) then None
        else memcmp_words m sz src_a src_b (i + 4)
      else Some i)"
  by pat_completeness auto
termination
proof (relation "measure (\<lambda>(m, sz, a, b, i). unat (sz - i))")
  fix sz i :: u64
  assume "4 \<le> sz - i"
  then have "unat (sz - i - 4) = unat (sz - i) - 4" "4 \<le> unat (sz - i)"
    by (simp_all add: unat_sub word_le_nat_alt)
  then have "unat (sz - i - 4) < unat (sz - i)" by simp
  then show "((m, sz, a, b, i + 4), (m, sz, a, b, i)) \<in> measure (\<lambda>(m, sz, a, b, i). unat (sz - i))"
    for m :: mem and a b :: u64
    by (simp add: diff_diff_eq)
qed simp

function memcmp_bytes :: "mem \<Rightarrow> u64 \<Rightarrow> u64 \<Rightarrow> u64 \<Rightarrow> u64 \<Rightarrow> int" where
  "memcmp_bytes m sz src_a src_b i =
     (if sz - i > 0 then
        if ld8 m (src_a + i) \<noteq> ld8 m (src_b + i) then 1
        else memcmp_bytes m sz src_a src_b (i + 1)
      else 0)"
  by pat_completeness auto
termination
proof (relation "measure (\<lambda>(m, sz, a, b, i). unat (sz - i))")
  fix sz i :: u64
  assume "0 < sz - i"
  then have "sz - i \<noteq> 0" "0 < unat (sz - i)" by (auto simp: word_less_nat_alt)
  then have "unat (sz - i - 1) = unat (sz - i) - 1" using unat_minus_one by blast
  with \<open>0 < unat (sz - i)\<close> have "unat (sz - i - 1) < unat (sz - i)" by simp
  then show "((m, sz, a, b, i + 1), (m, sz, a, b, i)) \<in> measure (\<lambda>(m, sz, a, b, i). unat (sz - i))"
    for m :: mem and a b :: u64
    by (simp add: diff_diff_eq)
qed simp

declare memcmp_words.simps [simp del] memcmp_bytes.simps [simp del]

definition memcmp :: "u64 \<Rightarrow> u64 \<Rightarrow> u64 \<Rightarrow> mem \<Rightarrow> int" where
  "memcmp sz src_a src_b m =
     (case memcmp_words m sz src_a src_b 0 of
        None \<Rightarrow> 1
      | Some i \<Rightarrow> memcmp_bytes m sz src_a src_b i)"

partial_function (option) strcmp_from :: "mem \<Rightarrow> u64 \<Rightarrow> u64 \<Rightarrow> u64 \<Rightarrow> int run" where
  "strcmp_from m src_a src_b i =
     (let a = ld8 m (src_a + i); b = ld8 m (src_b + i)
      in if a = 0 \<or> b = 0 \<or> a \<noteq> b then
           if a \<noteq> b then if a > b then ret 1 else ret (- 1)
           else ret 0
         else strcmp_from m src_a src_b (i + 1))"

definition strcmp :: "u64 \<Rightarrow> u64 \<Rightarrow> mem \<Rightarrow> int run" where
  "strcmp src_a src_b m = strcmp_from m src_a src_b 0"

text \<open>The loop of \<open>strncpy\<close> up to iteration \<open>i\<close>: the mask and the memory.\<close>

primrec strncpy_loop :: "nat \<Rightarrow> u64 \<Rightarrow> u64 \<Rightarrow> mem \<Rightarrow> u8 \<times> mem" where
  "strncpy_loop 0 dest src m = (255, m)"
| "strncpy_loop (Suc i) dest src m =
     (case strncpy_loop i dest src m of (msk, m) \<Rightarrow>
        let c = ld8 m (src + of_nat i);
            msk = (c OR - c) AND msk
        in (msk, st8 m (dest + of_nat i) (c AND msk)))"

definition strncpy :: "u64 \<Rightarrow> u64 \<Rightarrow> u64 \<Rightarrow> mem \<Rightarrow> mem" where
  "strncpy dest src sz m = snd (strncpy_loop (unat sz) dest src m)"

text \<open>\<open>n\<close> iterations are left at index \<open>i\<close>; the index the loop ended at is returned.\<close>

primrec strscpy_loop :: "nat \<Rightarrow> u64 \<Rightarrow> u64 \<Rightarrow> u64 \<Rightarrow> mem \<Rightarrow> u64 \<times> mem" where
  "strscpy_loop 0 i dest src m = (i, m)"
| "strscpy_loop (Suc n) i dest src m =
     (if ld8 m (src + i) \<noteq> 0
      then strscpy_loop n (i + 1) dest src (st8 m (dest + i) (ld8 m (src + i)))
      else (i, m))"

definition strscpy :: "u64 \<Rightarrow> u64 \<Rightarrow> u64 \<Rightarrow> mem \<Rightarrow> mem" where
  "strscpy dest src sz m =
     (case strscpy_loop (unat sz) 0 dest src m of (i, m) \<Rightarrow>
        if i = sz then st8 m (dest + (sz - 1)) 0 else st8 m (dest + i) 0)"

partial_function (option) str_starts_with :: "u64 \<Rightarrow> u64 \<Rightarrow> mem \<Rightarrow> bool run" where
  "str_starts_with str pre m =
     (if ld8 m pre \<noteq> 0 then
        if ld8 m pre \<noteq> ld8 m str then ret False
        else str_starts_with (str + 1) (pre + 1) m
      else ret True)"

partial_function (option) strchr :: "u64 \<Rightarrow> u8 \<Rightarrow> mem \<Rightarrow> u64 run" where
  "strchr str c m =
     (if ld8 m str \<noteq> 0 then
        if ld8 m str = c then ret str else strchr (str + 1) c m
      else ret 0)"

partial_function (option) strlen_from :: "mem \<Rightarrow> u64 \<Rightarrow> u64 \<Rightarrow> u64 run" where
  "strlen_from m i len =
     (if ld8 m i \<noteq> 0 then strlen_from m (i + 1) (len + 1) else ret len)"

definition strlen :: "u64 \<Rightarrow> mem \<Rightarrow> u64 run" where
  "strlen str m = strlen_from m str 0"

section \<open>Zero-terminated strings\<close>

fun cstr :: "mem \<Rightarrow> u64 \<Rightarrow> u8 list \<Rightarrow> bool" where
  "cstr m a [] \<longleftrightarrow> ld8 m a = 0"
| "cstr m a (c # cs) \<longleftrightarrow> c \<noteq> 0 \<and> ld8 m a = c \<and> cstr m (a + 1) cs"

lemma cstr_nth: "cstr m a cs \<Longrightarrow> i < length cs \<Longrightarrow> ld8 m (a + of_nat i) = cs ! i \<and> cs ! i \<noteq> 0"
proof (induction cs arbitrary: a i)
  case (Cons c cs)
  then show ?case
    using Cons.IH [of "a + 1" "i - 1"] by (cases i) (auto simp: algebra_simps)
qed simp

lemma cstr_end: "cstr m a cs \<Longrightarrow> ld8 m (a + of_nat (length cs)) = 0"
proof (induction cs arbitrary: a)
  case (Cons c cs)
  then show ?case using Cons.IH [of "a + 1"] by (simp add: algebra_simps)
qed simp

lemma cstrI:
  assumes "\<And>i. i < length cs \<Longrightarrow> ld8 m (a + of_nat i) = cs ! i \<and> cs ! i \<noteq> 0"
    and "ld8 m (a + of_nat (length cs)) = 0"
  shows "cstr m a cs"
  using assms
proof (induction cs arbitrary: a)
  case (Cons c cs)
  have "cstr m (a + 1) cs"
  proof (rule Cons.IH)
    show "ld8 m (a + 1 + of_nat i) = cs ! i \<and> cs ! i \<noteq> 0" if "i < length cs" for i
      using Cons.prems(1) [of "Suc i"] that by (simp add: algebra_simps)
    show "ld8 m (a + 1 + of_nat (length cs)) = 0" using Cons.prems(2) by (simp add: algebra_simps)
  qed
  then show ?case using Cons.prems(1) [of 0] by simp
qed simp

lemma strlen_from_cstr: "cstr m a cs \<Longrightarrow> strlen_from m a n = ret (n + of_nat (length cs))"
  by (induction cs arbitrary: a n) (auto simp: strlen_from.simps algebra_simps)

lemma str_starts_with_cstr:
  "cstr m a cs \<Longrightarrow> cstr m b ps \<Longrightarrow> str_starts_with a b m = ret (prefix ps cs)"
proof (induction ps arbitrary: a b cs)
  case Nil
  then show ?case by (simp add: str_starts_with.simps)
next
  case (Cons p ps)
  then show ?case
    by (cases cs) (auto simp: str_starts_with.simps [of a b])
qed

lemma strchr_cstr:
  "cstr m a cs \<Longrightarrow> strchr a c m =
     ret (if c \<in> set cs then a + of_nat (length (takeWhile (\<lambda>x. x \<noteq> c) cs)) else 0)"
  by (induction cs arbitrary: a) (auto simp: strchr.simps algebra_simps)

text \<open>The reference order of strings: lexicographic, a shorter string first.\<close>

fun lex_cmp :: "u8 list \<Rightarrow> u8 list \<Rightarrow> int" where
  "lex_cmp [] [] = 0"
| "lex_cmp [] (y # ys) = - 1"
| "lex_cmp (x # xs) [] = 1"
| "lex_cmp (x # xs) (y # ys) = (if x = y then lex_cmp xs ys else if x > y then 1 else - 1)"

lemma lex_cmp_eq_0: "lex_cmp xs ys = 0 \<longleftrightarrow> xs = ys"
  by (induction xs ys rule: lex_cmp.induct) auto

lemma lex_cmp_swap: "lex_cmp ys xs = - lex_cmp xs ys"
  by (induction xs ys rule: lex_cmp.induct) auto

lemma strcmp_from_cstr:
  "cstr m (a + i) xs \<Longrightarrow> cstr m (b + i) ys \<Longrightarrow> strcmp_from m a b i = ret (lex_cmp xs ys)"
proof (induction xs ys arbitrary: i rule: lex_cmp.induct)
  case (4 x xs y ys)
  then show ?case
    by (subst strcmp_from.simps) (auto simp: Let_def algebra_simps)
qed (subst strcmp_from.simps, auto simp: Let_def word_neq_0_conv)+

section \<open>Copying\<close>

definition bytes :: "u64 \<Rightarrow> nat \<Rightarrow> u64 set" where
  "bytes a n = {a + of_nat i | i. i < n}"

lemma byte_index_inj:
  fixes a :: u64
  assumes "a + of_nat i = a + of_nat j" and "i < 2 ^ 64" and "j < 2 ^ 64"
  shows "i = j"
proof -
  have "unat (of_nat i :: u64) = unat (of_nat j :: u64)" using assms(1) by simp
  then show ?thesis using assms(2,3) by (simp add: unat_of_nat)
qed

lemma bytes_apart:
  assumes "unat a + n \<le> unat b" and "unat b + k \<le> 2 ^ 64"
  shows "bytes a n \<inter> bytes b k = {}"
proof -
  have "unat (c + of_nat i) = unat c + i" if "unat c + i < 2 ^ 64" for c :: u64 and i
    using that by (simp add: unat_word_ariths unat_of_nat)
  note u = this
  have "a + of_nat i \<noteq> b + of_nat j" if "i < n" "j < k" for i j
  proof -
    have "unat (a + of_nat i) = unat a + i" "unat (b + of_nat j) = unat b + j"
      using assms that by (auto intro!: u)
    then have "unat (a + of_nat i) < unat (b + of_nat j)" using assms that by linarith
    then show ?thesis by auto
  qed
  then show ?thesis by (fastforce simp: bytes_def)
qed

lemma copy_bytes_ld8:
  assumes "bytes dst n \<inter> bytes src n = {}" and "n \<le> 2 ^ 64"
  shows "i < n \<Longrightarrow> ld8 (copy_bytes n dst src m) (dst + of_nat i) = ld8 m (src + of_nat i)"
    and "x \<notin> bytes dst n \<Longrightarrow> ld8 (copy_bytes n dst src m) x = ld8 m x"
proof -
  have *: "(\<forall>i<k. ld8 (copy_bytes k dst src m) (dst + of_nat i) = ld8 m (src + of_nat i))
      \<and> (\<forall>x. x \<notin> bytes dst k \<longrightarrow> ld8 (copy_bytes k dst src m) x = ld8 m x)" if "k \<le> n" for k
    using that
  proof (induction k)
    case (Suc k)
    have "src + of_nat k \<in> bytes src n" using Suc.prems by (auto simp: bytes_def)
    then have "src + of_nat k \<notin> bytes dst k"
      using assms(1) Suc.prems by (fastforce simp: bytes_def)
    moreover have "dst + of_nat i \<noteq> dst + of_nat k" if "i < k" for i
      using byte_index_inj [of dst i k] that Suc.prems assms(2) by auto
    ultimately show ?case
      using Suc by (auto simp: Let_def ld8_st8 less_Suc_eq bytes_def)
  qed simp
  show "i < n \<Longrightarrow> ld8 (copy_bytes n dst src m) (dst + of_nat i) = ld8 m (src + of_nat i)"
    and "x \<notin> bytes dst n \<Longrightarrow> ld8 (copy_bytes n dst src m) x = ld8 m x"
    using * [of n] by auto
qed

subsection \<open>Bytes of aligned words\<close>

lemma unat_cell_of: "unat (cell_of a) = 8 * (unat a div 8)"
proof -
  have "cell_of a = push_bit 3 (drop_bit 3 a)"
    by (rule word64_eqI) (auto simp: bit_cell_of bit_push_bit_iff bit_drop_bit_eq)
  then have "unat (cell_of a) = take_bit 64 (push_bit 3 (drop_bit 3 (unat a)))"
    using unsigned_less [where ?'a = nat, of a]
    by (simp add: unsigned_push_bit_eq unsigned_drop_bit_eq take_bit_nat_eq_self)
  also have "\<dots> = (8 * (unat a div 8)) mod 2 ^ 64"
    by (simp add: take_bit_eq_mod push_bit_eq_mult drop_bit_eq_div mult.commute)
  finally have "unat (cell_of a) = (8 * (unat a div 8)) mod 2 ^ 64" .
  moreover have "8 * (unat a div 8) < 2 ^ 64"
    using unsigned_less [where ?'a = nat, of a] by (simp add: le_less_trans [OF times_div_less_eq_dividend])
  ultimately show ?thesis by simp
qed

lemma lane_of_unat: "lane_of a = 8 * (unat a mod 8)"
proof -
  have "(7 :: u64) = mask 3" by (simp add: mask_eq_exp_minus_1)
  then have "a AND 7 = take_bit 3 a" by (simp only: take_bit_eq_mask)
  then show ?thesis by (simp add: lane_of_def take_bit_eq_mod unat_mod)
qed

lemma round_down_8: "ROUND_MOD_DOWN a 8 = a \<longleftrightarrow> unat a mod 8 = 0"
proof -
  have "unat (ROUND_MOD_DOWN a 8) = 8 * (unat a div 8)"
    using unsigned_less [where ?'a = nat, of a]
    by (simp add: ROUND_MOD_DOWN_def unat_word_ariths unat_div mult.commute
        le_less_trans [OF times_div_less_eq_dividend])
  moreover have "8 * (n div 8) = n \<longleftrightarrow> n mod 8 = 0" for n :: nat by presburger
  ultimately show ?thesis by (simp add: word_unat_eq_iff)
qed

text \<open>Byte \<open>j\<close> behind an aligned address.\<close>

lemma aligned_byte:
  fixes a :: u64
  assumes "unat a mod 8 = 0"
  shows "cell_of (a + of_nat j) = a + 8 * of_nat (j div 8)" and "lane_of (a + of_nat j) = 8 * (j mod 8)"
proof -
  define A where "A = unat a div 8 + j div 8"
  have a8: "unat a = 8 * (unat a div 8)" using assms by presburger
  have j8: "j = 8 * (j div 8) + j mod 8" by simp
  have "unat (a + of_nat j) = (unat a + j) mod 2 ^ 64"
    by (simp add: unat_word_ariths unat_of_nat mod_simps)
  also have "unat a + j = 8 * A + j mod 8" using a8 j8 by (simp add: A_def)
  also have "(8 * A + j mod 8) mod 2 ^ 64 = 8 * (A mod 2 ^ 61) + j mod 8"
    using mod_mult2_eq [of "8 * A + j mod 8" 8 "2 ^ 61"] by simp
  finally have u: "unat (a + of_nat j) = 8 * (A mod 2 ^ 61) + j mod 8" .
  then show "lane_of (a + of_nat j) = 8 * (j mod 8)" by (simp add: lane_of_unat)
  have "unat (a + 8 * of_nat (j div 8)) = (unat a + 8 * (j div 8)) mod 2 ^ 64"
    by (simp add: unat_word_ariths unat_of_nat mod_simps)
  also have "unat a + 8 * (j div 8) = 8 * A" using a8 by (simp add: A_def)
  also have "8 * A mod 2 ^ 64 = 8 * (A mod 2 ^ 61)" using mod_mult2_eq [of "8 * A" 8 "2 ^ 61"] by simp
  finally have "unat (a + 8 * of_nat (j div 8)) = unat (cell_of (a + of_nat j))"
    using u by (simp add: unat_cell_of)
  then show "cell_of (a + of_nat j) = a + 8 * of_nat (j div 8)" by (simp add: word_unat_eq_iff)
qed

lemma copy_words_apply:
  assumes "cells dst n \<inter> cells src n = {}" and "n \<le> 2 ^ 61"
  shows "i < n \<Longrightarrow> copy_words n dst src m (dst + 8 * of_nat i) = m (src + 8 * of_nat i)"
    and "x \<notin> cells dst n \<Longrightarrow> copy_words n dst src m x = m x"
proof -
  have inj: "dst + 8 * of_nat i \<noteq> dst + 8 * of_nat j" if "i < j" "j < n" for i j
    using byte_index_inj [of dst "8 * i" "8 * j"] that assms(2) by auto
  have *: "(\<forall>i<k. copy_words k dst src m (dst + 8 * of_nat i) = m (src + 8 * of_nat i))
      \<and> (\<forall>x. x \<notin> cells dst k \<longrightarrow> copy_words k dst src m x = m x)" if "k \<le> n" for k
    using that
  proof (induction k)
    case (Suc k)
    have "src + 8 * of_nat k \<in> cells src n" using Suc.prems by (auto simp: cells_def)
    then have "src + 8 * of_nat k \<notin> cells dst k"
      using assms(1) Suc.prems by (fastforce simp: cells_def)
    then show ?case
      using Suc inj [of _ k] by (auto simp: Let_def less_Suc_eq cells_def)
  qed simp
  show "i < n \<Longrightarrow> copy_words n dst src m (dst + 8 * of_nat i) = m (src + 8 * of_nat i)"
    and "x \<notin> cells dst n \<Longrightarrow> copy_words n dst src m x = m x"
    using * [of n] by auto
qed

lemma cells_bytes: "cells a n \<subseteq> bytes a (8 * n)"
proof
  fix x assume "x \<in> cells a n"
  then obtain k where "k < n" "x = a + of_nat (8 * k)" by (auto simp: cells_def)
  then show "x \<in> bytes a (8 * n)" unfolding bytes_def by (intro CollectI exI [of _ "8 * k"]) simp
qed

lemma copy_words_ld8:
  assumes "unat dst mod 8 = 0" and "unat src mod 8 = 0" and "n \<le> 2 ^ 61"
    and "bytes dst (8 * n) \<inter> bytes src (8 * n) = {}"
  shows "j < 8 * n \<Longrightarrow> ld8 (copy_words n dst src m) (dst + of_nat j) = ld8 m (src + of_nat j)"
    and "x \<notin> bytes dst (8 * n) \<Longrightarrow> ld8 (copy_words n dst src m) x = ld8 m x"
proof -
  have "cells dst n \<inter> cells src n = {}" using assms(4) cells_bytes by blast
  note c = copy_words_apply [OF this assms(3)]
  show "ld8 (copy_words n dst src m) (dst + of_nat j) = ld8 m (src + of_nat j)" if "j < 8 * n"
    using that c(1) [of "j div 8"] by (simp add: ld8_def aligned_byte [OF assms(1)] aligned_byte [OF assms(2)])
  assume x: "x \<notin> bytes dst (8 * n)"
  have "cell_of x \<notin> cells dst n"
  proof
    assume "cell_of x \<in> cells dst n"
    then obtain k where k: "k < n" "cell_of x = dst + 8 * of_nat k" by (auto simp: cells_def)
    define r where "r = unat x mod 8"
    have "unat x = unat (cell_of x) + r" by (simp add: unat_cell_of r_def)
    then have "of_nat (unat x) = (of_nat (unat (cell_of x) + r) :: u64)" by (rule arg_cong)
    then have "x = cell_of x + of_nat r" by simp
    then have "x = dst + of_nat (8 * k + r)" using k(2) by simp
    moreover have "8 * k + r < 8 * n" using k(1) by (simp add: r_def)
    ultimately show False using x unfolding bytes_def by blast
  qed
  then show "ld8 (copy_words n dst src m) x = ld8 m x" using c(2) by (simp add: ld8_def)
qed

lemma memcpy_ld8:
  assumes "bytes dst (unat n) \<inter> bytes src (unat n) = {}"
  shows "i < unat n \<Longrightarrow> ld8 (memcpy dst src n m) (dst + of_nat i) = ld8 m (src + of_nat i)"
    and "x \<notin> bytes dst (unat n) \<Longrightarrow> ld8 (memcpy dst src n m) x = ld8 m x"
proof -
  have n: "unat n \<le> 2 ^ 64" using unsigned_less [where ?'a = nat, of n] by simp
  have "(i < unat n \<longrightarrow> ld8 (memcpy dst src n m) (dst + of_nat i) = ld8 m (src + of_nat i))
      \<and> (x \<notin> bytes dst (unat n) \<longrightarrow> ld8 (memcpy dst src n m) x = ld8 m x)"
  proof (cases "ROUND_MOD_DOWN dst 8 \<noteq> dst \<or> ROUND_MOD_DOWN src 8 \<noteq> src \<or> ROUND_MOD_DOWN n 8 \<noteq> n")
    case True
    then show ?thesis using copy_bytes_ld8 [OF assms n] by (simp add: memcpy_def)
  next
    case False
    then have al: "unat dst mod 8 = 0" "unat src mod 8 = 0" "unat n mod 8 = 0"
      by (simp_all add: round_down_8)
    define w where "w = unat (n div 8)"
    have w: "unat n = 8 * w" "w \<le> 2 ^ 61"
      using al(3) n by (auto simp: w_def unat_div)
    then show ?thesis
      using False copy_words_ld8 [OF al(1,2) w(2)] assms by (simp add: memcpy_def w_def [symmetric])
  qed
  then show "i < unat n \<Longrightarrow> ld8 (memcpy dst src n m) (dst + of_nat i) = ld8 m (src + of_nat i)"
    and "x \<notin> bytes dst (unat n) \<Longrightarrow> ld8 (memcpy dst src n m) x = ld8 m x" by blast+
qed

section \<open>Comparing memory\<close>

lemma unat_of_nat_le: "k \<le> unat (n :: u64) \<Longrightarrow> unat (of_nat k :: u64) = k"
  using unsigned_less [where ?'a = nat, of n] by (simp add: unat_of_nat)

lemma bit_ld64: "n < 64 \<Longrightarrow> bit (ld64 m a) n = bit (ld8 m (a + of_nat (n div 8))) (n mod 8)"
  by (simp add: ld64_def bit_of_bytes less_mult_imp_div_less)

lemma ld64_eq_bytes:
  assumes "ld64 m a = ld64 m b" and "i < 8"
  shows "ld8 m (a + of_nat i) = ld8 m (b + of_nat i)"
proof (rule bit_word_eqI)
  fix n assume "n < LENGTH(8)"
  then have n: "n < 8" by simp
  have "bit (ld64 m a) (8 * i + n) = bit (ld64 m b) (8 * i + n)" using assms(1) by simp
  then show "bit (ld8 m (a + of_nat i)) n = bit (ld8 m (b + of_nat i)) n"
    using n assms(2) by (simp add: bit_ld64)
qed

lemma ld64_aligned:
  assumes "unat a mod 8 = 0"
  shows "ld64 m a = m a"
proof (rule word64_eqI)
  fix n :: nat assume n: "n < 64"
  have "n div 8 < 8" using n by (simp add: less_mult_imp_div_less)
  then show "bit (ld64 m a) n = bit (m a) n"
    using n aligned_byte [OF assms, of "n div 8"] by (simp add: bit_ld64 bit_ld8)
qed

lemma memcmp_words_Some:
  assumes "memcmp_words m sz a b (of_nat (4 * q)) = Some k" and "4 * q \<le> unat sz"
  shows "\<exists>r. k = of_nat (4 * r) \<and> 4 * r \<le> unat sz
    \<and> (\<forall>j. 8 * q \<le> j \<longrightarrow> j < 8 * r \<longrightarrow> ld8 m (a + of_nat j) = ld8 m (b + of_nat j))"
  using assms
proof (induction "unat sz - 4 * q" arbitrary: q rule: less_induct)
  case less
  have u: "unat (of_nat (4 * q) :: u64) = 4 * q"
    by (rule unat_of_nat_le [OF less.prems(2)])
  then have le: "of_nat (4 * q) \<le> sz" using less.prems(2) by (simp add: word_le_nat_alt)
  have un: "unat (sz - of_nat (4 * q)) = unat sz - 4 * q" unfolding unat_sub [OF le] u ..
  have qq: "(of_nat (4 * q) :: u64) div 4 = of_nat q"
    unfolding word_unat_eq_iff unat_div u using less.prems(2) unsigned_less [where ?'a = nat, of sz]
    by (simp add: unat_of_nat)
  show ?case
  proof (cases "4 \<le> unat sz - 4 * q")
    case True
    then have ge: "4 \<le> sz - of_nat (4 * q)" using un by (simp add: word_le_nat_alt)
    have ld: "ld64 m (a + 8 * of_nat q) = ld64 m (b + 8 * of_nat q)"
      and rec: "memcmp_words m sz a b (of_nat (4 * Suc q)) = Some k"
      using less.prems(1) ge unfolding memcmp_words.simps [of m sz a b "of_nat (4 * q)"] qq
      by (auto split: if_splits simp: algebra_simps)
    have "\<exists>r. k = of_nat (4 * r) \<and> 4 * r \<le> unat sz
      \<and> (\<forall>j. 8 * Suc q \<le> j \<longrightarrow> j < 8 * r \<longrightarrow> ld8 m (a + of_nat j) = ld8 m (b + of_nat j))"
      using less.hyps [OF _ rec] True by simp
    moreover have "ld8 m (a + of_nat j) = ld8 m (b + of_nat j)" if "8 * q \<le> j" "j < 8 * Suc q" for j
      using ld64_eq_bytes [OF ld, of "j - 8 * q"] that by (simp add: of_nat_diff algebra_simps)
    ultimately show ?thesis by (metis not_less)
  next
    case False
    then have "\<not> 4 \<le> sz - of_nat (4 * q)" using un by (simp add: word_le_nat_alt)
    then have "k = of_nat (4 * q)"
      using less.prems(1) unfolding memcmp_words.simps [of m sz a b "of_nat (4 * q)"] by simp
    then show ?thesis using less.prems(2) by (intro exI [of _ q]) simp
  qed
qed

lemma memcmp_bytes_0:
  assumes "memcmp_bytes m sz a b (of_nat k) = 0" and "k \<le> unat sz" and "k \<le> j" and "j < unat sz"
  shows "ld8 m (a + of_nat j) = ld8 m (b + of_nat j)"
  using assms
proof (induction "unat sz - k" arbitrary: k rule: less_induct)
  case less
  have u: "unat (of_nat k :: u64) = k"
    by (rule unat_of_nat_le [OF less.prems(2)])
  then have "of_nat k \<le> sz" using less.prems(2) by (simp add: word_le_nat_alt)
  then have "unat (sz - of_nat k) = unat sz - k" using unat_sub u by metis
  then have "sz - of_nat k > 0" using less.prems(3,4) by (simp add: word_less_nat_alt)
  then have "ld8 m (a + of_nat k) = ld8 m (b + of_nat k)"
    and "memcmp_bytes m sz a b (of_nat (Suc k)) = 0"
    using less.prems(1) unfolding memcmp_bytes.simps [of m sz a b "of_nat k"]
    by (auto split: if_splits simp: add.commute)
  then show ?case
    using less.hyps [of "Suc k"] less.prems(3,4) by (cases "j = k") auto
qed

lemma memcmp_0_bytes:
  assumes "memcmp sz a b m = 0" and "j < unat sz"
  shows "ld8 m (a + of_nat j) = ld8 m (b + of_nat j)"
proof -
  from assms(1) obtain k where w: "memcmp_words m sz a b (of_nat (4 * 0)) = Some k"
    and bt: "memcmp_bytes m sz a b k = 0"
    by (auto simp: memcmp_def split: option.splits)
  from memcmp_words_Some [OF w] obtain r where k: "k = of_nat (4 * r)" "4 * r \<le> unat sz"
    and eq: "\<forall>j<8 * r. ld8 m (a + of_nat j) = ld8 m (b + of_nat j)" by auto
  show ?thesis
  proof (cases "j < 8 * r")
    case False
    then show ?thesis using memcmp_bytes_0 [OF bt [unfolded k(1)] k(2) _ assms(2)] by simp
  qed (use eq in blast)
qed

section \<open>Copying strings\<close>

lemma cstr_cong:
  assumes "\<And>i. i \<le> length cs \<Longrightarrow> ld8 m' (a + of_nat i) = ld8 m (a + of_nat i)"
  shows "cstr m' a cs = cstr m a cs"
  using assms
proof (induction cs arbitrary: a)
  case Nil
  then show ?case using Nil.prems [of 0] by simp
next
  case (Cons c cs)
  have "cstr m' (a + 1) cs = cstr m (a + 1) cs"
    using Cons.prems [of "Suc _"] by (intro Cons.IH) (simp add: algebra_simps)
  then show ?case using Cons.prems [of 0] by simp
qed

lemma strscpy_loop_cstr:
  assumes "cstr m (src + of_nat i) cs"
    and "bytes (dest + of_nat i) n \<inter> bytes (src + of_nat i) (length cs + 1) = {}" and "i + n \<le> 2 ^ 63"
  shows "\<exists>m'. strscpy_loop n (of_nat i) dest src m = (of_nat (i + min n (length cs)), m')
    \<and> (\<forall>k<min n (length cs). ld8 m' (dest + of_nat (i + k)) = cs ! k)
    \<and> (\<forall>x. x \<notin> bytes (dest + of_nat i) n \<longrightarrow> ld8 m' x = ld8 m x)"
  using assms
proof (induction n arbitrary: i cs m)
  case (Suc n)
  show ?case
  proof (cases cs)
    case Nil
    then show ?thesis using Suc.prems(1) by simp
  next
    case (Cons c ds)
    let ?m = "st8 m (dest + of_nat i) c"
    have c: "ld8 m (src + of_nat i) = c" "c \<noteq> 0" and tail: "cstr m (src + of_nat (Suc i)) ds"
      using Suc.prems(1) Cons by (simp_all add: algebra_simps)
    have d0: "dest + of_nat i \<in> bytes (dest + of_nat i) (Suc n)" by (force simp: bytes_def)
    have dsub: "bytes (dest + of_nat (Suc i)) n \<subseteq> bytes (dest + of_nat i) (Suc n)"
      by (auto simp: bytes_def algebra_simps) (metis Suc_less_eq of_nat_Suc add.commute)
    have ssub: "bytes (src + of_nat (Suc i)) (length ds + 1) \<subseteq> bytes (src + of_nat i) (length cs + 1)"
      unfolding Cons by (auto simp: bytes_def algebra_simps) (metis Suc_less_eq of_nat_Suc add.commute)
    have mem: "src + of_nat (Suc i) + of_nat k \<in> bytes (src + of_nat (Suc i)) (length ds + 1)"
      if "k \<le> length ds" for k using that unfolding bytes_def by (intro CollectI exI [of _ k]) simp
    have "dest + of_nat i \<noteq> src + of_nat (Suc i) + of_nat k" if "k \<le> length ds" for k
      using subsetD [OF ssub mem [OF that]] d0 Suc.prems(2) by (metis disjoint_iff)
    then have "ld8 ?m (src + of_nat (Suc i) + of_nat k) = ld8 m (src + of_nat (Suc i) + of_nat k)"
      if "k \<le> length ds" for k
      using that unfolding ld8_st8 by (simp only: if_not_P not_False_eq_True)
    then have "cstr ?m (src + of_nat (Suc i)) ds = cstr m (src + of_nat (Suc i)) ds"
      by (rule cstr_cong)
    moreover have "bytes (dest + of_nat (Suc i)) n \<inter> bytes (src + of_nat (Suc i)) (length ds + 1) = {}"
      using dsub ssub Suc.prems(2) by blast
    ultimately obtain m' where m': "strscpy_loop n (of_nat (Suc i)) dest src ?m
          = (of_nat (Suc i + min n (length ds)), m')"
      and new: "\<forall>k<min n (length ds). ld8 m' (dest + of_nat (Suc i + k)) = ds ! k"
      and old: "\<forall>x. x \<notin> bytes (dest + of_nat (Suc i)) n \<longrightarrow> ld8 m' x = ld8 ?m x"
      using Suc.IH [of ?m "Suc i" ds] tail Suc.prems(3) by auto
    have "dest + of_nat i \<notin> bytes (dest + of_nat (Suc i)) n"
    proof
      assume "dest + of_nat i \<in> bytes (dest + of_nat (Suc i)) n"
      then obtain k where "k < n" "dest + of_nat i = dest + of_nat (Suc i + k)"
        by (auto simp: bytes_def algebra_simps)
      then show False using byte_index_inj [of dest i "Suc i + k"] Suc.prems(3) by simp
    qed
    then have "ld8 m' (dest + of_nat i) = c" using old by (simp add: ld8_st8)
    then have "ld8 m' (dest + of_nat (i + k)) = cs ! k" if "k < min (Suc n) (length cs)" for k
      using new that unfolding Cons by (cases k) (auto simp: algebra_simps)
    moreover have "ld8 m' x = ld8 m x" if "x \<notin> bytes (dest + of_nat i) (Suc n)" for x
      using old dsub d0 that by (auto simp: ld8_st8)
    moreover have "strscpy_loop (Suc n) (of_nat i) dest src m = (of_nat (i + min (Suc n) (length cs)), m')"
      using c m' unfolding Cons by (simp add: add.commute)
    ultimately show ?thesis by blast
  qed
qed simp

lemma strscpy_cstr:
  assumes "cstr m src cs" and "sz \<noteq> 0" and "unat sz \<le> 2 ^ 63"
    and "bytes dest (unat sz) \<inter> bytes src (length cs + 1) = {}"
  shows "cstr (strscpy dest src sz m) dest (take (unat sz - 1) cs)"
    and "x \<notin> bytes dest (unat sz) \<Longrightarrow> ld8 (strscpy dest src sz m) x = ld8 m x"
proof -
  define n where "n = unat sz"
  have n0: "0 < n" using assms(2) by (simp add: n_def unat_gt_0)
  have szn: "sz = of_nat n" by (simp add: n_def)
  define e where "e = min (n - 1) (length cs)"
  from strscpy_loop_cstr [of m src 0 cs dest n] assms obtain m' where
    l: "strscpy_loop n 0 dest src m = (of_nat (min n (length cs)), m')"
    and new: "\<And>k. k < min n (length cs) \<Longrightarrow> ld8 m' (dest + of_nat k) = cs ! k"
    and old: "\<And>x. x \<notin> bytes dest n \<Longrightarrow> ld8 m' x = ld8 m x"
    by (auto simp: n_def)
  have lt: "(of_nat (min n (length cs)) = sz) \<longleftrightarrow> n \<le> length cs"
  proof -
    have "unat (of_nat (min n (length cs)) :: u64) = min n (length cs)"
      using unat_of_nat_le [of "min n (length cs)" sz] by (simp add: n_def)
    then show ?thesis by (auto simp: word_unat_eq_iff n_def)
  qed
  have "sz - 1 = of_nat (n - 1)" using n0 szn by (simp add: of_nat_diff)
  then have r: "strscpy dest src sz m = st8 m' (dest + of_nat e) 0"
    using l lt n0 unfolding strscpy_def n_def [symmetric] e_def
    by (cases "n \<le> length cs") (simp_all add: min_absorb1 min_absorb2)
  have "e < n" using n0 by (simp add: e_def)
  then have ne: "dest + of_nat k \<noteq> dest + of_nat e" if "k < e" for k
    using byte_index_inj [of dest k e] that assms(3) by (auto simp: n_def)
  have len: "length (take (n - 1) cs) = e" by (simp add: e_def)
  have "cstr (st8 m' (dest + of_nat e) 0) dest (take (n - 1) cs)"
  proof (rule cstrI, unfold len)
    show "ld8 (st8 m' (dest + of_nat e) 0) (dest + of_nat k) = take (n - 1) cs ! k
        \<and> take (n - 1) cs ! k \<noteq> 0" if "k < e" for k
    proof -
      have "k < min n (length cs)" "k < length cs" using that by (simp_all add: e_def) linarith
      then show ?thesis
        using ne [OF that] new [of k] cstr_nth [OF assms(1), of k] that by (simp add: ld8_st8 e_def)
    qed
  qed (simp add: ld8_st8)
  then show "cstr (strscpy dest src sz m) dest (take (unat sz - 1) cs)" by (simp add: r n_def)
  show "ld8 (strscpy dest src sz m) x = ld8 m x" if "x \<notin> bytes dest (unat sz)"
  proof -
    have "x \<noteq> dest + of_nat e" using that \<open>e < n\<close> by (auto simp: bytes_def n_def)
    then show ?thesis using old [of x] that by (simp add: r ld8_st8 n_def)
  qed
qed

section \<open>Properties\<close>

text \<open>The strings "ba" at 4096 and "bab" at 8192, for the witnesses.\<close>

definition demo_mem :: mem where
  "demo_mem = (\<lambda>_. 0)(4096 := 0x6162, 8192 := 0x626162)"

lemma demo_ld8:
  "ld8 demo_mem 4096 = 0x62" "ld8 demo_mem 4097 = 0x61" "ld8 demo_mem 4098 = 0"
  "ld8 demo_mem 8192 = 0x62" "ld8 demo_mem 8193 = 0x61" "ld8 demo_mem 8194 = 0x62"
  "ld8 demo_mem 8195 = 0"
  by (simp_all add: ld8_def cell_of_def lane_of_def demo_mem_def)

lemma demo_cstr: "cstr demo_mem 4096 [0x62, 0x61]" "cstr demo_mem 8192 [0x62, 0x61, 0x62]"
  by (simp_all add: demo_ld8)

text \<open>
  C22. \<open>memcpy\<close> between ranges that do not overlap copies every byte and changes no other byte,
  whether it copies by words or by bytes.
\<close>

theorem memcpy_sound:
  assumes "bytes dst (unat n) \<inter> bytes src (unat n) = {}"
  shows "(\<forall>i<unat n. ld8 (memcpy dst src n m) (dst + of_nat i) = ld8 m (src + of_nat i))
    \<and> (\<forall>x. x \<notin> bytes dst (unat n) \<longrightarrow> ld8 (memcpy dst src n m) x = ld8 m x)"
  using memcpy_ld8 [OF assms] by blast

theorem memcpy_sound_witness: "ld8 (memcpy 5000 8192 3 demo_mem) 5002 = 0x62"
proof -
  have "bytes 5000 (unat (3 :: u64)) \<inter> bytes 8192 (unat (3 :: u64)) = {}"
    by (rule bytes_apart) simp_all
  note apart = this
  have two: "2 < unat (3 :: u64)" by simp
  from memcpy_sound [OF apart, of demo_mem]
  have "ld8 (memcpy 5000 8192 3 demo_mem) (5000 + of_nat 2) = ld8 demo_mem (8192 + of_nat 2)"
    using two by blast
  then show ?thesis by (simp add: demo_ld8)
qed

text \<open>
  When \<open>memcmp\<close> returns 0 the two ranges hold the same bytes. (The converse fails: it compares
  eight bytes for every four.)
\<close>

theorem memcmp_sound:
  assumes "memcmp n a b m = 0" and "j < unat n"
  shows "ld8 m (a + of_nat j) = ld8 m (b + of_nat j)"
  by (rule memcmp_0_bytes [OF assms])

theorem memcmp_sound_witness:
  "memcmp 2 4096 8192 demo_mem = 0 \<and> ld8 demo_mem (4096 + of_nat 1) = ld8 demo_mem (8192 + of_nat 1)"
proof -
  have "memcmp 2 4096 8192 demo_mem = 0"
    by (simp add: memcmp_def memcmp_words.simps memcmp_bytes.simps demo_ld8)
  then show ?thesis using memcmp_sound [of 2 4096 8192 demo_mem 1] by simp
qed

text \<open>
  \<open>memcmp\<close> of four bytes compares the eight bytes at both addresses, so ranges with equal
  bytes can compare as different.
\<close>

theorem memcmp_overreads:
  "(memcmp 4 a b m = 0 \<longleftrightarrow> ld64 m a = ld64 m b)
   \<and> (\<exists>m a b. (\<forall>i<4. ld8 m (a + of_nat i) = ld8 m (b + of_nat i)) \<and> memcmp 4 a b m = 1)"
proof
  have "memcmp 4 a b m = (if ld64 m a = ld64 m b then 0 else 1)" for a b m
    by (simp add: memcmp_def memcmp_words.simps [of _ _ _ _ 0] memcmp_words.simps [of _ _ _ _ 4]
        memcmp_bytes.simps [of _ _ _ _ 4])
  note four = this
  show "memcmp 4 a b m = 0 \<longleftrightarrow> ld64 m a = ld64 m b" by (simp add: four)
  let ?m = "(\<lambda>_. 0)(4096 := 0x100000000) :: mem"
  have "ld8 ?m (4096 + of_nat i) = ld8 ?m (8192 + of_nat i)" if "i < 4" for i
  proof -
    have "i = 0 \<or> i = 1 \<or> i = 2 \<or> i = 3" using that by auto
    then show ?thesis by (elim disjE) (simp_all add: ld8_def cell_of_def lane_of_def)
  qed
  moreover have "memcmp 4 4096 8192 ?m = 1" by (simp add: four ld64_aligned)
  ultimately show "\<exists>m a b. (\<forall>i<4. ld8 m (a + of_nat i) = ld8 m (b + of_nat i)) \<and> memcmp 4 a b m = 1"
    by blast
qed

text \<open>
  \<open>strcmp\<close> on two zero-terminated strings returns, and returns their lexicographic order: 0
  exactly for equal strings, and the opposite sign when the arguments are swapped.
\<close>

theorem strcmp_sound:
  assumes "cstr m a xs" and "cstr m b ys"
  shows "\<exists>r. strcmp a b m = ret r \<and> r = lex_cmp xs ys \<and> (r = 0 \<longleftrightarrow> xs = ys)
    \<and> strcmp b a m = ret (- r)"
  using strcmp_from_cstr [of m a 0 xs b ys] strcmp_from_cstr [of m b 0 ys a xs] assms
    lex_cmp_eq_0 [of xs ys] lex_cmp_swap [of ys xs]
  by (simp add: strcmp_def)

theorem strcmp_sound_witness: "strcmp 4096 8192 demo_mem = ret (- 1)"
  using strcmp_sound [OF demo_cstr] by simp

text \<open>
  C33. \<open>strlen\<close>, \<open>str_starts_with\<close> and \<open>strchr\<close> on zero-terminated strings return the length,
  whether the second string is a prefix of the first, and the address of the first occurrence of
  the character or null.
\<close>

theorem string_search_sound:
  assumes "cstr m a cs" and "cstr m b ps"
  shows "strlen a m = ret (of_nat (length cs)) \<and> str_starts_with a b m = ret (prefix ps cs)
    \<and> strchr a c m =
        ret (if c \<in> set cs then a + of_nat (length (takeWhile (\<lambda>x. x \<noteq> c) cs)) else 0)"
  using strlen_from_cstr [OF assms(1), of 0] str_starts_with_cstr [OF assms] strchr_cstr [OF assms(1)]
  by (simp add: strlen_def)

theorem string_search_sound_witness:
  "strlen 8192 demo_mem = ret 3 \<and> str_starts_with 8192 4096 demo_mem = ret True
   \<and> strchr 8192 0x61 demo_mem = ret 8193"
  using string_search_sound [OF demo_cstr(2,1), of "0x61"] by simp

text \<open>
  C34. \<open>strscpy\<close> of a zero-terminated string into a buffer of nonzero size that does not overlap
  it leaves a zero-terminated string in the buffer, the source cut to fit, and changes nothing
  outside the buffer.
\<close>

theorem strscpy_sound:
  assumes "cstr m src cs" and "n \<noteq> 0" and "unat n \<le> 2 ^ 63"
    and "bytes dest (unat n) \<inter> bytes src (length cs + 1) = {}"
  shows "cstr (strscpy dest src n m) dest (take (unat n - 1) cs)
    \<and> (\<forall>x. x \<notin> bytes dest (unat n) \<longrightarrow> ld8 (strscpy dest src n m) x = ld8 m x)"
  using strscpy_cstr [OF assms] by blast

theorem strscpy_sound_witness: "cstr (strscpy 5000 8192 3 demo_mem) 5000 [0x62, 0x61]"
proof -
  have "bytes 5000 (unat (3 :: u64)) \<inter> bytes 8192 (length [0x62 :: u8, 0x61, 0x62] + 1) = {}"
    by (rule bytes_apart) simp_all
  from strscpy_sound [OF demo_cstr(2) _ _ this] show ?thesis by simp
qed

text \<open>
  \<open>strncpy\<close> does not copy: the mask it keeps for every character is not all ones unless the
  character is odd, and it is applied to all later characters. The string "ba" becomes "b`".
\<close>

theorem strncpy_corrupts:
  "ld8 demo_mem 4097 = 0x61 \<and> ld8 (strncpy 5000 4096 2 demo_mem) 5000 = 0x62
   \<and> ld8 (strncpy 5000 4096 2 demo_mem) 5001 = 0x60"
proof -
  have two: "unat (2 :: u64) = 2" by simp
  have "strncpy 5000 4096 2 demo_mem = snd (strncpy_loop (Suc (Suc 0)) 5000 4096 demo_mem)"
    unfolding strncpy_def by (simp only: two numeral_2_eq_2)
  then show ?thesis by (simp add: Let_def ld8_st8 demo_ld8)
qed

end
