(* ===== verification/Allocator.thy ===== *)
theory Allocator
  imports Stack Kstring
begin

text \<open>
  The block allocator and the bump allocator of \<^verbatim>\<open>src/src/kernel/memory/allocator.c\<close>.

  Blocks are served by size class, the power of two at or above the request. Every class has an
  index page: word 0 links the next index page, and the rows behind it describe data pages, one
  word with the address of the data page and then the bitmap words of its blocks. A data page opens
  with a header of three words (block size, number of the data page, class); the blocks start at
  byte 64. The arrays \<open>root_idx_page\<close> and \<open>lowest_free_entry\<close> are functions on their index,
  guarded where the index is not a constant.
\<close>

record allocator = kstacks +
  bump_page :: u64
  bump_cnt :: u64
  root_idx_page :: "u64 \<Rightarrow> u64"
  lowest_free_entry :: "u64 \<Rightarrow> u64"

definition max_idx_page_bitmap_entrys :: u64 where
  "max_idx_page_bitmap_entrys = (KERNEL_PAGE_SIZE - 8) div 8"

definition max_cnt_per_page :: "u64 \<Rightarrow> u32" where
  "max_cnt_per_page entry_size = ucast ((KERNEL_PAGE_SIZE - 64) div entry_size)"

definition allocator_init :: "'a allocator_scheme \<Rightarrow> (unit \<times> 'a allocator_scheme) run" where
  "allocator_init s =
     (let s = s\<lparr>root_idx_page := (\<lambda>i. if i < 256 then 0 else root_idx_page s i),
                lowest_free_entry := (\<lambda>i. if i < 256 then 0 else lowest_free_entry s i),
                bump_cnt := 0\<rparr>
      in bindr (pg_alloc s) (\<lambda>(p, s). ret ((), s\<lparr>bump_page := p\<rparr>)))"

definition new_idx_page :: "'a allocator_scheme \<Rightarrow> (u64 \<times> 'a allocator_scheme) run" where
  "new_idx_page s = pg_alloc s"

definition new_data_page :: "'a allocator_scheme \<Rightarrow> (u64 \<times> 'a allocator_scheme) run" where
  "new_data_page s = pg_alloc s"

definition fetch_and_confirm_data_page ::
  "u64 \<Rightarrow> u64 \<Rightarrow> u64 \<Rightarrow> u64 \<Rightarrow> u64 \<Rightarrow> 'a allocator_scheme \<Rightarrow> (u64 \<times> 'a allocator_scheme) run" where
  "fetch_and_confirm_data_page current_idx_page current_idx_entry pow2_size compressed_size
       current_page_data_num s =
     (if at s current_idx_page current_idx_entry = 0 then
        bindr (new_data_page s) (\<lambda>(p, s).
          let s = set_at current_idx_page current_idx_entry p s;
              data_page = at s current_idx_page current_idx_entry;
              s = set_at data_page 0 pow2_size s;
              s = set_at data_page 1 current_page_data_num s;
              s = set_at data_page 2 compressed_size s
          in ret (at s current_idx_page current_idx_entry, s))
      else ret (at s current_idx_page current_idx_entry, s))"

text \<open>Returns the new values of \<open>*current_idx_entry\<close> and \<open>*current_idx_page\<close>.\<close>

definition confirm_idx_page ::
  "u64 \<Rightarrow> u64 \<Rightarrow> 'a allocator_scheme \<Rightarrow> ((u64 \<times> u64) \<times> 'a allocator_scheme) run" where
  "confirm_idx_page current_idx_entry current_idx_page s =
     (if current_idx_entry \<ge> max_idx_page_bitmap_entrys then
        bindr (if at s current_idx_page 0 = 0 then
                 bindr (new_idx_page s) (\<lambda>(p, s). ret ((), set_at current_idx_page 0 p s))
               else ret ((), s))
          (\<lambda>(_, s). ret ((1, at s current_idx_page 0), s))
      else ret ((current_idx_entry, current_idx_page), s))"

text \<open>The walk to index page \<open>idx_entry\<close>, \<open>n\<close> steps to go.\<close>

primrec skip_idx_pages :: "nat \<Rightarrow> u64 \<Rightarrow> 'a allocator_scheme \<Rightarrow> (u64 \<times> 'a allocator_scheme) run" where
  "skip_idx_pages 0 current_idx_page s = ret (current_idx_page, s)"
| "skip_idx_pages (Suc n) current_idx_page s =
     bindr (confirm_idx_page 999999999 current_idx_page s) (\<lambda>((_, page), s). skip_idx_pages n page s)"

text \<open>
  The loop over the bitmap words of one data page, \<open>n\<close> iterations to go at index \<open>i\<close>: the address
  of a block, or the entry and index page the search goes on from.
\<close>

primrec scan_bitmap ::
  "nat \<Rightarrow> nat \<Rightarrow> u64 \<Rightarrow> u64 \<Rightarrow> u64 \<Rightarrow> u64 \<Rightarrow> u64 \<Rightarrow> u64 \<Rightarrow> u64 \<Rightarrow> 'a allocator_scheme \<Rightarrow>
     ((u64 + u64 \<times> u64) \<times> 'a allocator_scheme) run" where
  "scan_bitmap 0 i bitmap_entry_cnt pow2_size compressed_size data_page num entry page s =
     ret (Inr (entry, page), s)"
| "scan_bitmap (Suc n) i bitmap_entry_cnt pow2_size compressed_size data_page num entry page s =
     bindr (confirm_idx_page entry page s) (\<lambda>((entry, page), s).
       if at s page entry = U64_MAX then
         scan_bitmap n (Suc i) bitmap_entry_cnt pow2_size compressed_size data_page num (entry + 1) page s
       else
         let b = (if at s page entry = 0 then 0 else ctzl (NOT (at s page entry)));
             local_page_num = of_nat (i * 64 + b)
         in if local_page_num \<ge> bitmap_entry_cnt then
              scan_bitmap n (Suc i) bitmap_entry_cnt pow2_size compressed_size data_page num (entry + 1) page s
            else if at s page entry AND BIT b \<noteq> 0 then
              panic ''DOUBLE_ACQUIRE_PAGE'' entry pow2_size page
            else
              let s = set_at page entry (at s page entry OR BIT b) s;
                  global_num = bitmap_entry_cnt * num + local_page_num;
                  s = (if lowest_free_entry s compressed_size < global_num
                       then s\<lparr>lowest_free_entry := (lowest_free_entry s)(compressed_size := global_num)\<rparr>
                       else s)
              in ret (Inl (data_page + pow2_size * local_page_num + 64), s))"

partial_function (option) mem_alloc_loop ::
  "u64 \<Rightarrow> u64 \<Rightarrow> u64 \<Rightarrow> u64 \<Rightarrow> u64 \<Rightarrow> u64 \<Rightarrow> 'a allocator_scheme \<Rightarrow> (u64 \<times> 'a allocator_scheme) run" where
  "mem_alloc_loop bitmap_entry_cnt pow2_size compressed_size num entry page s =
     bindr (confirm_idx_page entry page s) (\<lambda>((entry, page), s).
     bindr (fetch_and_confirm_data_page page entry pow2_size compressed_size num s) (\<lambda>(data_page, s).
     bindr (scan_bitmap (unat bitmap_entry_cnt) 0 bitmap_entry_cnt pow2_size compressed_size data_page num
              (entry + 1) page s) (\<lambda>(r, s).
       case r of
         Inl location \<Rightarrow> ret (location, s)
       | Inr (entry, page) \<Rightarrow>
           mem_alloc_loop bitmap_entry_cnt pow2_size compressed_size (num + 1) entry page s)))"

text \<open>The class of a request: the power of two and its exponent.\<close>

definition alloc_class :: "u64 \<Rightarrow> u64 \<times> u64" where
  "alloc_class size_bytes =
     (let compressed_size = 63 - of_nat (clzl size_bytes);
          pow2_size = push_bit (unat compressed_size) 1
      in if pow2_size \<noteq> size_bytes then (push_bit 1 pow2_size, compressed_size + 1)
         else (pow2_size, compressed_size))"

definition mem_alloc :: "u64 \<Rightarrow> 'a allocator_scheme \<Rightarrow> (u64 \<times> 'a allocator_scheme) run" where
  "mem_alloc size_bytes s =
     (if size_bytes = 0 then panic ''ATTEMPT_ALLOCATE_ZERO_BYTES'' 0 0 0
      else case alloc_class size_bytes of (pow2_size, compressed_size) \<Rightarrow>
        if pow2_size \<ge> KERNEL_PAGE_SIZE then panic ''ATTEMPT_ALLOCATE_LARGER_THEN_PAGE'' pow2_size 0 0
        else
          bindr (if root_idx_page s compressed_size = 0 then
                   bindr (new_idx_page s) (\<lambda>(p, s).
                     ret ((), s\<lparr>root_idx_page := (root_idx_page s)(compressed_size := p)\<rparr>))
                 else ret ((), s)) (\<lambda>(_, s).
          if pow2_size = 0 then undef ''division by zero'' else
          let bitmap_entry_cnt = ucast (max_cnt_per_page pow2_size);
              bitmap_size = ROUND_MOD_UP bitmap_entry_cnt 64 div 8 + 1;
              bitmap_num = lowest_free_entry s compressed_size div bitmap_entry_cnt;
              bitmap_location = bitmap_num * bitmap_size;
              idx_entry = bitmap_location div max_idx_page_bitmap_entrys
          in bindr (skip_idx_pages (unat idx_entry) (root_idx_page s compressed_size) s) (\<lambda>(page, s).
               mem_alloc_loop bitmap_entry_cnt pow2_size compressed_size bitmap_num
                 (idx_entry mod max_idx_page_bitmap_entrys + 1) page s)))"

text \<open>The walk of \<open>mem_free\<close> along the index pages, from step \<open>i\<close> on.\<close>

primrec find_idx_table :: "nat \<Rightarrow> nat \<Rightarrow> u64 \<Rightarrow> u64 \<Rightarrow> u64 \<Rightarrow> 'a allocator_scheme \<Rightarrow> u64 run" where
  "find_idx_table 0 i idx_table_num location bitmap s = ret bitmap"
| "find_idx_table (Suc n) i idx_table_num location bitmap s =
     (if at s bitmap 0 = 0 then
        panic ''ALLOCATOR_RELEASE_NO_idx_TABLE_LEAF'' (of_nat i) idx_table_num location
      else find_idx_table n (Suc i) idx_table_num location (at s bitmap 0) s)"

definition mem_free :: "u64 \<Rightarrow> 'a allocator_scheme \<Rightarrow> (unit \<times> 'a allocator_scheme) run" where
  "mem_free location s =
     (let header = ROUND_MOD_DOWN location KERNEL_PAGE_SIZE;
          entry_size = at s header 0;
          page_num = at s header 1;
          compressed_size = at s header 2
      in if entry_size = 0 then undef ''division by zero''
      else if compressed_size \<ge> 256 then undef ''root_idx_page index''
      else
        let max_per_page = ucast (max_cnt_per_page entry_size) :: u64;
            page_entry_num = (location - header - 64) div entry_size;
            data_page_row_size = ROUND_MOD_UP max_per_page 64 div 8 + 1;
            bitmap_entry_num = page_entry_num div 64 + page_num * data_page_row_size + 1;
            bitmap_entry_bit = unat (page_entry_num mod 64);
            idx_table_num = bitmap_entry_num div max_idx_page_bitmap_entrys;
            idx_table_postion = bitmap_entry_num mod max_idx_page_bitmap_entrys + 1
        in if root_idx_page s compressed_size = 0 then panic ''ALLOCATOR_RELEASE_NO_IDX_TABLE'' 0 0 0
        else bindr (find_idx_table (unat idx_table_num) 0 idx_table_num location
                      (root_idx_page s compressed_size) s) (\<lambda>bitmap.
          if at s bitmap idx_table_postion AND BIT bitmap_entry_bit = 0
          then panic ''ALLOCATOR_RELEASE_FREE'' 0 0 0
          else
            let s = set_at bitmap idx_table_postion
                      (at s bitmap idx_table_postion AND NOT (BIT bitmap_entry_bit)) s;
                global_num = max_per_page * page_num + page_entry_num
            in if lowest_free_entry s compressed_size > global_num
               then ret ((), s\<lparr>lowest_free_entry := (lowest_free_entry s)(compressed_size := global_num)\<rparr>)
               else ret ((), s)))"

definition bump_alloc :: "u64 \<Rightarrow> 'a allocator_scheme \<Rightarrow> (u64 \<times> 'a allocator_scheme) run" where
  "bump_alloc n s =
     (if n > KERNEL_PAGE_SIZE then panic ''ALLOCATOR_BUMP_LARGER_THEN_PAGE'' 0 0 0
      else bindr (if bump_cnt s + n \<ge> KERNEL_PAGE_SIZE then
                    bindr (pg_alloc s) (\<lambda>(p, s). ret ((), s\<lparr>bump_page := p, bump_cnt := 0\<rparr>))
                  else ret ((), s)) (\<lambda>(_, s).
        ret (bump_page s + bump_cnt s, s\<lparr>bump_cnt := bump_cnt s + ROUND_MOD_UP n 8\<rparr>)))"

section \<open>Size classes\<close>

lemma bit_exp_le: "bit w k \<Longrightarrow> 2 ^ k \<le> unat w" for w :: u64
proof -
  assume "bit w k"
  then have "bit (unat w) k" by (simp add: bit_unsigned_iff)
  then show ?thesis by (metis bit_iff_odd div_less even_zero not_less)
qed

lemma no_bit_above: "(\<And>i. k < i \<Longrightarrow> \<not> bit w i) \<Longrightarrow> unat w < 2 ^ Suc k" for w :: u64
proof -
  assume "\<And>i. k < i \<Longrightarrow> \<not> bit w i"
  then have "take_bit (Suc k) w = w" by (intro word64_eqI) (metis bit_take_bit_iff less_Suc_eq_le not_less)
  then have "take_bit (Suc k) (unat w) = unat w" by (metis unsigned_take_bit_eq)
  then show ?thesis by (metis take_bit_nat_less_exp)
qed

lemma top_bit_range:
  assumes "w \<noteq> 0"
  shows "2 ^ (63 - clzl w) \<le> unat w" and "unat w < 2 ^ Suc (63 - clzl w)"
  using bit_exp_le [OF clzl_nonzero(2) [OF assms]] no_bit_above [of "63 - clzl w" w]
    clzl_nonzero(3) [OF assms] by blast+

lemma exp_between: "2 ^ c \<le> n \<Longrightarrow> n < 2 ^ Suc d \<Longrightarrow> c \<le> d" for n :: nat
  by (meson le_less_trans less_Suc_eq_le nat_power_less_imp_less zero_less_numeral)

lemma unat_exp:
  assumes "k < 64"
  shows "unat (push_bit k 1 :: u64) = 2 ^ k"
proof -
  have "(push_bit k 1 :: u64) = of_nat (2 ^ k)" by (simp add: push_bit_eq_mult)
  moreover have "(2 :: nat) ^ k < 2 ^ 64" using assms by (intro power_strict_increasing) simp_all
  ultimately show ?thesis by (simp only: unat_of_nat) (simp add: take_bit_nat_eq_self)
qed

text \<open>A request of \<open>n\<close> bytes goes to the class \<open>c\<close> with \<open>2 ^ c\<close> the least power at or above it.\<close>

definition fits_class :: "nat \<Rightarrow> nat \<Rightarrow> bool" where
  "fits_class n c \<longleftrightarrow> n \<le> 2 ^ c \<and> (\<forall>d. n \<le> 2 ^ d \<longrightarrow> c \<le> d)"

lemma fits_class_unique: "fits_class n c \<Longrightarrow> fits_class n d \<Longrightarrow> c = d"
  by (auto simp: fits_class_def intro: antisym)

lemma fits_class_exp: "fits_class (2 ^ c) c"
  by (simp add: fits_class_def)

lemma size_class_fits:
  assumes "n \<noteq> 0" and "unat n \<le> 2 ^ 63"
  shows "\<exists>c \<le> 63. alloc_class n = (2 ^ c, of_nat c) \<and> fits_class (unat n) c"
proof -
  define k where "k = 63 - clzl n"
  have lt: "clzl n < 64" by (rule clzl_nonzero(1) [OF assms(1)])
  have cs: "63 - of_nat (clzl n) = (of_nat k :: u64)" using lt by (simp add: k_def of_nat_diff)
  have k: "k \<le> 63" "unat (of_nat k :: u64) = k" by (simp_all add: k_def unat_of_nat)
  have range: "2 ^ k \<le> unat n" "unat n < 2 ^ Suc k" using top_bit_range [OF assms(1)] by (simp_all add: k_def)
  have p: "unat (push_bit k 1 :: u64) = 2 ^ k" using k(1) by (intro unat_exp) simp
  have sc: "alloc_class n = (if push_bit k 1 \<noteq> n then (push_bit 1 (push_bit k 1), of_nat k + 1)
      else (push_bit k 1, of_nat k))"
    by (simp add: alloc_class_def Let_def cs k(2))
  show ?thesis
  proof (cases "push_bit k 1 = n")
    case True
    then have "unat n = 2 ^ k" using p by simp
    then have "fits_class (unat n) k" by (simp add: fits_class_def)
    then show ?thesis using sc True k(1) by auto
  next
    case False
    then have "unat n \<noteq> 2 ^ k" using p by (metis word_unat_eq_iff)
    then have gt: "2 ^ k < unat n" using range(1) by simp
    then have "k < 63" using assms(2) k(1) by (metis le_neq_implies_less not_less)
    moreover have "fits_class (unat n) (Suc k)"
      using range(2) gt unfolding fits_class_def
      by (auto simp: Suc_le_eq) (metis gt le_trans linorder_not_less not_less power_increasing_iff one_less_numeral_iff semiring_norm(76))
    ultimately show ?thesis using sc False by (intro exI [of _ "Suc k"]) (simp add: push_bit_push_bit)
  qed
qed

definition blocks :: "nat \<Rightarrow> nat" where
  "blocks c = 4032 div 2 ^ c"

lemma upto_11: "c \<le> 11 \<Longrightarrow> c \<in> {0, 1, 2, 3, 4, 5, 6, 7, 8, 9, 10, 11 :: nat}"
  unfolding insert_iff empty_iff by arith

lemma class_numbers:
  assumes "c \<le> 11"
  shows "unat (2 ^ c :: u64) = 2 ^ c" and "\<not> KERNEL_PAGE_SIZE \<le> (2 ^ c :: u64)"
    and "(2 ^ c :: u64) \<noteq> 0" and "unat (ucast (max_cnt_per_page (2 ^ c)) :: u64) = blocks c"
    and "0 < blocks c" and "blocks c \<le> 4032" and "2 ^ c * blocks c \<le> 4032"
proof -
  have "unat (2 ^ c :: u64) = 2 ^ c \<and> \<not> KERNEL_PAGE_SIZE \<le> (2 ^ c :: u64)
    \<and> (2 ^ c :: u64) \<noteq> 0 \<and> unat (ucast (max_cnt_per_page (2 ^ c)) :: u64) = blocks c
    \<and> 0 < blocks c \<and> blocks c \<le> 4032 \<and> 2 ^ c * blocks c \<le> 4032"
    using upto_11 [OF assms] by (auto simp: max_cnt_per_page_def blocks_def word_le_nat_alt)
  then show "unat (2 ^ c :: u64) = 2 ^ c" and "\<not> KERNEL_PAGE_SIZE \<le> (2 ^ c :: u64)"
    and "(2 ^ c :: u64) \<noteq> 0" and "unat (ucast (max_cnt_per_page (2 ^ c)) :: u64) = blocks c"
    and "0 < blocks c" and "blocks c \<le> 4032" and "2 ^ c * blocks c \<le> 4032" by blast+
qed

section \<open>The first data page of a class\<close>

abbreviation idx_page :: "'a allocator_scheme \<Rightarrow> nat \<Rightarrow> u64" where
  "idx_page s c \<equiv> root_idx_page s (of_nat c)"

abbreviation data_page :: "'a allocator_scheme \<Rightarrow> nat \<Rightarrow> u64" where
  "data_page s c \<equiv> at s (idx_page s c) 1"

abbreviation block_word :: "nat \<Rightarrow> u64" where
  "block_word b \<equiv> of_nat (2 + b div 64)"

definition block_used :: "'a allocator_scheme \<Rightarrow> nat \<Rightarrow> nat \<Rightarrow> bool" where
  "block_used s c b \<longleftrightarrow> bit (at s (idx_page s c) (block_word b)) (b mod 64)"

definition block_addr :: "'a allocator_scheme \<Rightarrow> nat \<Rightarrow> nat \<Rightarrow> u64" where
  "block_addr s c b = data_page s c + of_nat (64 + 2 ^ c * b)"

text \<open>
  The class has an index page and a first data page with its header, both held from the page
  source, and its search still starts in the first data page.
\<close>

definition slab :: "'a allocator_scheme \<Rightarrow> nat \<Rightarrow> bool" where
  "slab s c \<longleftrightarrow> c \<le> 11 \<and> pager_inv s
     \<and> idx_page s c \<in> pager_live s \<and> data_page s c \<in> pager_live s \<and> data_page s c \<noteq> idx_page s c
     \<and> at s (data_page s c) 0 = 2 ^ c \<and> at s (data_page s c) 1 = 0
     \<and> at s (data_page s c) 2 = of_nat c \<and> unat (lowest_free_entry s (of_nat c)) < blocks c"

lemma idx_entries [simp]: "max_idx_page_bitmap_entrys = 511"
  by (simp add: max_idx_page_bitmap_entrys_def)

lemma confirm_idx_page_below [simp]:
  "entry < 511 \<Longrightarrow> confirm_idx_page entry page s = ret ((entry, page), s)"
  using leD [of 511 entry] by (auto simp: confirm_idx_page_def)

lemma block_word_lt: "b < 4032 \<Longrightarrow> unat (block_word b) = 2 + b div 64 \<and> 2 + b div 64 < 65"
  by (subst unat_small) auto

definition take_block :: "'a allocator_scheme \<Rightarrow> nat \<Rightarrow> nat \<Rightarrow> 'a allocator_scheme" where
  "take_block s c b =
     (let s' = set_at (idx_page s c) (block_word b)
                 (at s (idx_page s c) (block_word b) OR BIT (b mod 64)) s
      in if lowest_free_entry s (of_nat c) < of_nat b
         then s'\<lparr>lowest_free_entry := (lowest_free_entry s)(of_nat c := of_nat b)\<rparr> else s')"

lemma scan_bitmap_finds:
  assumes "c \<le> 11" and "b < blocks c" and "\<not> block_used s c b"
    and "\<And>a. a < b \<Longrightarrow> 64 * i \<le> a \<Longrightarrow> block_used s c a" and "64 * i \<le> b" and "b div 64 < i + n"
  shows "scan_bitmap n i (of_nat (blocks c)) (2 ^ c) (of_nat c) (data_page s c) 0
      (of_nat (2 + i)) (idx_page s c) s = ret (Inl (block_addr s c b), take_block s c b)"
  using assms(4-6)
proof (induction n arbitrary: i)
  case 0
  then show ?case by (simp add: less_eq_div_iff_mult_less_eq mult.commute leD)
next
  case (Suc n)
  note cl = class_numbers [OF assms(1)]
  have "i \<le> b div 64" using Suc.prems(2) by (simp add: less_eq_div_iff_mult_less_eq mult.commute)
  then have "i \<le> 62" using assms(2) cl(6) by simp
  then have lt: "of_nat (2 + i) < (511 :: u64)"
    unfolding word_less_nat_alt by (subst unat_small) simp_all
  let ?w = "at s (idx_page s c) (of_nat (2 + i))"
  show ?case
  proof (cases "i = b div 64")
    case False
    with \<open>i \<le> b div 64\<close> have lt_b: "64 * Suc i \<le> b" by (simp add: less_eq_div_iff_mult_less_eq mult.commute)
    have "bit ?w k" if "k < 64" for k
      using Suc.prems(1) [of "64 * i + k"] that lt_b by (simp add: block_used_def)
    then have full: "?w = U64_MAX" by (simp add: full_word_bit)
    have "scan_bitmap n (Suc i) (of_nat (blocks c)) (2 ^ c) (of_nat c) (data_page s c) 0
        (of_nat (2 + Suc i)) (idx_page s c) s = ret (Inl (block_addr s c b), take_block s c b)"
      using lt_b Suc.prems(1,3) by (intro Suc.IH) simp_all
    then show ?thesis using lt full by (simp add: add.commute)
  next
    case True
    let ?k = "b mod 64"
    have b: "b = 64 * i + ?k" using True by simp
    have free: "\<not> bit ?w ?k" using assms(3) True by (simp add: block_used_def)
    have below: "bit ?w j" if "j < ?k" for j
    proof -
      have "64 * i + j < b" "j < 64" using that b by linarith+
      then show ?thesis using Suc.prems(1) [of "64 * i + j"] by (simp add: block_used_def)
    qed
    note ctz = ctzl_not_eq [OF _ free below]
    have k: "(if ?w = 0 then 0 else ctzl (NOT ?w)) = ?k" using ctz below by (cases "?k = 0") auto
    have n: "of_nat (i * 64 + ?k) = (of_nat b :: u64)" using b by (metis mult.commute)
    have "b < 4032" using assms(2) cl(6) by linarith
    then have small: "\<not> (of_nat b :: u64) \<ge> of_nat (blocks c)"
      using assms(2) cl(6) by (simp add: word_le_nat_alt unat_of_nat)
    have clear: "?w AND BIT ?k = 0" using free by (simp add: bits)
    have addr: "data_page s c + 2 ^ c * of_nat b + 64 = block_addr s c b"
      by (simp add: block_addr_def push_bit_eq_mult algebra_simps)
    show ?thesis
      using lt ctz(2) small clear addr
      unfolding scan_bitmap.simps confirm_idx_page_below [OF lt] bindr_simps prod.case Let_def k n
      by (simp add: take_block_def Let_def set_at_def at_def True)
  qed
qed

lemma size_class_of:
  assumes "n \<noteq> 0" and "fits_class (unat n) c" and "c \<le> 11"
  shows "alloc_class n = (2 ^ c, of_nat c)"
proof -
  have "(2 :: nat) ^ c \<le> 2 ^ 63" using assms(3) by (intro power_increasing) simp_all
  then have "unat n \<le> 2 ^ 63" using assms(2) by (simp add: fits_class_def)
  from size_class_fits [OF assms(1) this] show ?thesis using fits_class_unique [OF assms(2)] by auto
qed

lemma mem_alloc_slab:
  assumes "slab s c" and "n \<noteq> 0" and "fits_class (unat n) c"
    and "b < blocks c" and "\<not> block_used s c b" and "\<And>a. a < b \<Longrightarrow> block_used s c a"
  shows "mem_alloc n s = ret (block_addr s c b, take_block s c b)"
proof -
  have c: "c \<le> 11" and inv: "pager_inv s" and idx: "idx_page s c \<in> pager_live s"
    and data: "data_page s c \<in> pager_live s" and low: "unat (lowest_free_entry s (of_nat c)) < blocks c"
    using assms(1) by (simp_all add: slab_def)
  note cl = class_numbers [OF c]
  have cnt: "ucast (max_cnt_per_page (2 ^ c)) = (of_nat (blocks c) :: u64)"
    using cl(4) by (metis of_nat_unat ucast_id)
  have "unat (of_nat (blocks c) :: u64) = blocks c" using cl(6) by (intro unat_small) simp
  then have num: "lowest_free_entry s (of_nat c) div of_nat (blocks c) = 0"
    using low by (simp add: word_unat_eq_iff unat_div)
  have nz: "idx_page s c \<noteq> 0" "data_page s c \<noteq> 0"
    using pager.page_aligned [OF inv idx] pager.page_aligned [OF inv data] by simp_all
  have "b div 64 < 0 + blocks c" using assms(4) by (simp add: div_less_iff_less_mult)
  from scan_bitmap_finds [OF c assms(4,5) assms(6), of 0, OF _ _ this]
  have scan: "scan_bitmap (unat (of_nat (blocks c) :: u64)) 0 (of_nat (blocks c)) (2 ^ c) (of_nat c)
      (data_page s c) 0 2 (idx_page s c) s = ret (Inl (block_addr s c b), take_block s c b)"
    using \<open>unat (of_nat (blocks c) :: u64) = blocks c\<close> by simp
  have "mem_alloc_loop (of_nat (blocks c)) (2 ^ c) (of_nat c) 0 1 (idx_page s c) s
      = ret (block_addr s c b, take_block s c b)"
    by (subst mem_alloc_loop.simps) (use scan nz in \<open>simp add: fetch_and_confirm_data_page_def\<close>)
  then show ?thesis
    using cl(2,3) nz assms(2) size_class_of [OF assms(2,3) c]
    by (simp add: mem_alloc_def cnt num Let_def leD)
qed

text \<open>An allocation takes the first free block of its class.\<close>

lemma mem_alloc_block:
  assumes "slab s c" and "n \<noteq> 0" and "fits_class (unat n) c" and ex: "\<exists>b<blocks c. \<not> block_used s c b"
  obtains b where "b < blocks c" and "\<not> block_used s c b"
    and "mem_alloc n s = ret (block_addr s c b, take_block s c b)"
proof -
  define b where "b = (LEAST b. b < blocks c \<and> \<not> block_used s c b)"
  have b: "b < blocks c" "\<not> block_used s c b" using LeastI_ex [OF ex] by (simp_all add: b_def)
  have "block_used s c a" if "a < b" for a
    using not_less_Least [of a "\<lambda>b. b < blocks c \<and> \<not> block_used s c b"] that b(1) by (auto simp: b_def)
  then show ?thesis using that b mem_alloc_slab [OF assms(1-3) b] by blast
qed

text \<open>Changes of one bitmap word and of the lowest free entry keep everything else.\<close>

lemma slab_update:
  fixes v :: u64
  assumes "slab s c" and "b < blocks c" and "unat l < blocks c"
  defines "s' \<equiv> (set_at (idx_page s c) (block_word b) v s)\<lparr>lowest_free_entry := (lowest_free_entry s)(of_nat c := l)\<rparr>"
  shows "slab s' c" and "data_page s' c = data_page s c" and "idx_page s' c = idx_page s c"
    and "pager_live s' = pager_live s"
    and "a < blocks c \<Longrightarrow> block_used s' c a =
      (if a div 64 = b div 64 then bit v (a mod 64) else block_used s c a)"
    and "page \<in> pager_live s \<Longrightarrow> page \<noteq> idx_page s c \<Longrightarrow> x \<in> page_cells page \<Longrightarrow> kmem s' x = kmem s x"
    and "pager_pool s' = pager_pool s"
    and "j < 512 \<Longrightarrow> at s' (idx_page s c) (of_nat j) =
      (if j = 2 + b div 64 then v else at s (idx_page s c) (of_nat j))"
proof -
  have c: "c \<le> 11" and inv: "pager_inv s" and idx: "idx_page s c \<in> pager_live s"
    and data: "data_page s c \<in> pager_live s" "data_page s c \<noteq> idx_page s c"
    and hd: "at s (data_page s c) 0 = 2 ^ c" "at s (data_page s c) 1 = 0"
      "at s (data_page s c) 2 = of_nat c"
    using assms(1) by (simp_all add: slab_def)
  have w: "2 + a div 64 < 512" if "a < blocks c" for a using that class_numbers(6) [OF c] by simp
  let ?x = "idx_page s c + 8 * block_word b"
  have k: "kmem s' = (kmem s)(?x := v)" by (simp add: s'_def set_at_def)
  have x: "?x \<in> page_cells (idx_page s c)" using w [OF assms(2)] unfolding cells_def by blast
  have same: "pager_same ((s\<lparr>kmem := (kmem s)(?x := v)\<rparr>)) s'"
    by (simp add: pager_same_def s'_def set_at_def)
  note wr = pager.write_inv [OF inv idx x, of v]
  note p = pager_same_inv [OF same wr(1)]
  show idx': "idx_page s' c = idx_page s c" by (simp add: s'_def set_at_def)
  show live: "pager_live s' = pager_live s" using p(4) wr(4) by simp
  show "pager_pool s' = pager_pool s" using p(2) wr(2) by simp
  show at_idx: "at s' (idx_page s c) (of_nat j) =
      (if j = 2 + b div 64 then v else at s (idx_page s c) (of_nat j))" if "j < 512" for j
    using pager.same_page_index [OF inv idx that w [OF assms(2)]] by (simp add: at_def k del: of_nat_add)
  show page: "kmem s' x = kmem s x" if "page \<in> pager_live s" "page \<noteq> idx_page s c" "x \<in> page_cells page" for page x
    using pager.pages_apart [OF inv that(1) idx that(2)] x that(3) by (auto simp: k)
  show dp: "data_page s' c = data_page s c" using at_idx [of 1] idx' by simp
  have at_data: "at s' (data_page s c) (of_nat j) = at s (data_page s c) (of_nat j)" if "j < 512" for j
    unfolding at_def [of _ "data_page s c"] using that by (intro page [OF data]) (auto simp: cells_def)
  have low: "lowest_free_entry s' (of_nat c) = l" by (simp add: s'_def)
  show "slab s' c"
    unfolding slab_def idx' dp [unfolded idx'] live low
    using c p(1) idx data hd assms(3) at_data [of 0] at_data [of 1] at_data [of 2] by simp
  show "block_used s' c a = (if a div 64 = b div 64 then bit v (a mod 64) else block_used s c a)"
    if "a < blocks c"
    using at_idx [OF w [OF that]] unfolding block_used_def idx' by simp
qed

lemma mod_div_eq: "a div 64 = b div 64 \<Longrightarrow> a mod 64 = b mod 64 \<longleftrightarrow> a = b" for a b :: nat
  by (metis mult_div_mod_eq)

lemma take_block_update:
  assumes "slab s c" and "b < blocks c"
  shows "\<exists>l. unat l < blocks c \<and> take_block s c b
    = (set_at (idx_page s c) (block_word b) (at s (idx_page s c) (block_word b) OR BIT (b mod 64)) s)
        \<lparr>lowest_free_entry := (lowest_free_entry s)(of_nat c := l)\<rparr>"
proof -
  have "b < 2 ^ 64" using assms class_numbers(6) [of c] by (simp add: slab_def)
  then have "unat (of_nat b :: u64) < blocks c" using assms(2) unat_small [of b] by simp
  moreover have "unat (lowest_free_entry s (of_nat c)) < blocks c" using assms(1) by (simp add: slab_def)
  ultimately show ?thesis
    by (intro exI [of _ "if lowest_free_entry s (of_nat c) < of_nat b then of_nat b
        else lowest_free_entry s (of_nat c)"]) (simp add: take_block_def Let_def set_at_def)
qed

lemma take_block_slab:
  assumes "slab s c" and "b < blocks c"
  shows "slab (take_block s c b) c" and "data_page (take_block s c b) c = data_page s c"
    and "a < blocks c \<Longrightarrow> block_used (take_block s c b) c a \<longleftrightarrow> block_used s c a \<or> a = b"
    and "page \<in> pager_live s \<Longrightarrow> page \<noteq> idx_page s c \<Longrightarrow> x \<in> page_cells page \<Longrightarrow>
      kmem (take_block s c b) x = kmem s x"
    and "pager_live (take_block s c b) = pager_live s"
    and "pager_pool (take_block s c b) = pager_pool s"
    and "j < 512 \<Longrightarrow> j \<noteq> 2 + b div 64 \<Longrightarrow>
      at (take_block s c b) (idx_page s c) (of_nat j) = at s (idx_page s c) (of_nat j)"
    and "idx_page (take_block s c b) c = idx_page s c"
proof -
  from take_block_update [OF assms] obtain l where l: "unat l < blocks c" and t: "take_block s c b
    = (set_at (idx_page s c) (block_word b) (at s (idx_page s c) (block_word b) OR BIT (b mod 64)) s)
        \<lparr>lowest_free_entry := (lowest_free_entry s)(of_nat c := l)\<rparr>" by blast
  note u = slab_update [OF assms l, where v = "at s (idx_page s c) (block_word b) OR BIT (b mod 64)",
    folded t]
  show "slab (take_block s c b) c" "data_page (take_block s c b) c = data_page s c"
    "pager_live (take_block s c b) = pager_live s" "pager_pool (take_block s c b) = pager_pool s"
    "idx_page (take_block s c b) c = idx_page s c" by (rule u)+
  show "at (take_block s c b) (idx_page s c) (of_nat j) = at s (idx_page s c) (of_nat j)"
    if "j < 512" "j \<noteq> 2 + b div 64" using u(8) [OF that(1)] that(2) by simp
  show "block_used (take_block s c b) c a \<longleftrightarrow> block_used s c a \<or> a = b" if "a < blocks c"
    using u(5) [OF that] mod_div_eq [of a b]
    by (auto simp: block_used_def bits split: if_splits)
  show "kmem (take_block s c b) x = kmem s x"
    if "page \<in> pager_live s" "page \<noteq> idx_page s c" "x \<in> page_cells page"
    using u(6) that by blast
qed

section \<open>Freeing a block\<close>

text \<open>An address inside block \<open>b\<close> leads back to the block.\<close>

lemma block_location:
  assumes "slab s c" and "b < blocks c" and "off < 2 ^ c"
  shows "ROUND_MOD_DOWN (block_addr s c b + of_nat off) KERNEL_PAGE_SIZE = data_page s c"
    and "(block_addr s c b + of_nat off - data_page s c - 64) div 2 ^ c = of_nat b"
proof -
  have c: "c \<le> 11" and inv: "pager_inv s" and data: "data_page s c \<in> pager_live s"
    using assms(1) by (simp_all add: slab_def)
  note cl = class_numbers [OF c]
  define n where "n = 2 ^ c * b + off"
  have "n < 2 ^ c * (b + 1)" using assms(3) by (simp add: n_def)
  also have "\<dots> \<le> 2 ^ c * blocks c" using assms(2) by (intro mult_le_mono) simp_all
  finally have n: "n < 4032" using cl(7) by simp
  have al: "unat (data_page s c) mod 4096 = 0" "unat (data_page s c) + 4096 \<le> 2 ^ 64"
    using pager.page_aligned [OF inv data] by auto
  have addr: "block_addr s c b + of_nat off = data_page s c + of_nat (64 + n)"
    by (simp add: block_addr_def n_def)
  have "unat (data_page s c + of_nat (64 + n)) = unat (data_page s c) + (64 + n)"
    using al(2) n unat_small [of "64 + n"] by (simp add: unat_word_ariths del: of_nat_add)
  moreover obtain q where q: "unat (data_page s c) = 4096 * q" using al(1) by auto
  ultimately have "unat (data_page s c + of_nat (64 + n)) div 4096 = q" using n by simp
  then have "unat (ROUND_MOD_DOWN (block_addr s c b + of_nat off) KERNEL_PAGE_SIZE) = unat (data_page s c)"
    unfolding addr unat_round_down using q by simp
  then show "ROUND_MOD_DOWN (block_addr s c b + of_nat off) KERNEL_PAGE_SIZE = data_page s c"
    by (simp add: word_unat_eq_iff)
  have "unat (of_nat n :: u64) = n" "unat (of_nat b :: u64) = b"
    using n assms(2) cl(6) by (auto intro!: unat_small)
  moreover have "n div 2 ^ c = b" using assms(3) by (simp add: n_def)
  ultimately have "(of_nat n :: u64) div 2 ^ c = of_nat b"
    using cl(1) by (simp add: word_unat_eq_iff unat_div)
  then show "(block_addr s c b + of_nat off - data_page s c - 64) div 2 ^ c = of_nat b"
    unfolding addr by simp
qed

definition drop_block :: "'a allocator_scheme \<Rightarrow> nat \<Rightarrow> nat \<Rightarrow> 'a allocator_scheme" where
  "drop_block s c b =
     (let s' = set_at (idx_page s c) (block_word b)
                 (at s (idx_page s c) (block_word b) AND NOT (BIT (b mod 64))) s
      in if lowest_free_entry s (of_nat c) > of_nat b
         then s'\<lparr>lowest_free_entry := (lowest_free_entry s)(of_nat c := of_nat b)\<rparr> else s')"

lemma mem_free_slab:
  assumes "slab s c" and "b < blocks c" and "off < 2 ^ c"
  shows "mem_free (block_addr s c b + of_nat off) s =
    (if block_used s c b then ret ((), drop_block s c b) else panic ''ALLOCATOR_RELEASE_FREE'' 0 0 0)"
proof -
  have c: "c \<le> 11" and inv: "pager_inv s" and idx: "idx_page s c \<in> pager_live s"
    and hd: "at s (data_page s c) 0 = 2 ^ c" "at s (data_page s c) 1 = 0"
      "at s (data_page s c) 2 = of_nat c"
    using assms(1) by (simp_all add: slab_def)
  note cl = class_numbers [OF c] and loc = block_location [OF assms]
  have b: "b < 4032" "b div 64 < 63" using assms(2) cl(6) by auto
  have nz: "idx_page s c \<noteq> 0" using pager.page_aligned [OF inv idx] by simp
  have c256: "\<not> 256 \<le> (of_nat c :: u64)" using c unat_small [of c] by (simp add: word_le_nat_alt)
  have ub: "unat (of_nat b :: u64) = b" using b by (intro unat_small) simp
  have bm: "unat ((of_nat b :: u64) mod 64) = b mod 64" using ub by (simp add: unat_mod)
  have bd: "(of_nat b :: u64) div 64 = of_nat (b div 64)"
    using ub b by (simp add: word_unat_eq_iff unat_div unat_small)
  have u: "unat (of_nat (b div 64) + 1 :: u64) = b div 64 + 1"
    using unat_small [of "b div 64 + 1"] b by (simp add: add.commute)
  have tab: "(of_nat (b div 64) + 1 :: u64) div 511 = 0"
    "(of_nat (b div 64) + 1 :: u64) mod 511 + 1 = block_word b"
  proof -
    have "unat (of_nat (b div 64) + 1 :: u64) < 511" using u b by simp
    then show "(of_nat (b div 64) + 1 :: u64) div 511 = 0" by (simp add: word_unat_eq_iff unat_div)
    have "(of_nat (b div 64) + 1 :: u64) mod 511 = of_nat (b div 64) + 1"
      using u b by (simp add: word_unat_eq_iff unat_mod)
    then show "(of_nat (b div 64) + 1 :: u64) mod 511 + 1 = block_word b" by simp
  qed
  have used: "at s (idx_page s c) (block_word b) AND BIT (b mod 64) = 0 \<longleftrightarrow> \<not> block_used s c b"
    by (simp add: block_used_def bits)
  show ?thesis
    unfolding mem_free_def Let_def loc hd idx_entries bd bm mult_zero_left add_0_right tab
    using c256 nz cl(3) used by (simp add: drop_block_def Let_def set_at_def)
qed

lemma drop_block_slab:
  assumes "slab s c" and "b < blocks c"
  shows "slab (drop_block s c b) c" and "data_page (drop_block s c b) c = data_page s c"
    and "a < blocks c \<Longrightarrow> block_used (drop_block s c b) c a \<longleftrightarrow> block_used s c a \<and> a \<noteq> b"
    and "page \<in> pager_live s \<Longrightarrow> page \<noteq> idx_page s c \<Longrightarrow> x \<in> page_cells page \<Longrightarrow>
      kmem (drop_block s c b) x = kmem s x"
proof -
  let ?v = "at s (idx_page s c) (block_word b) AND NOT (BIT (b mod 64))"
  have "b < 2 ^ 64" using assms class_numbers(6) [of c] by (simp add: slab_def)
  then have "unat (of_nat b :: u64) < blocks c" using assms(2) unat_small [of b] by simp
  moreover have "unat (lowest_free_entry s (of_nat c)) < blocks c" using assms(1) by (simp add: slab_def)
  ultimately have "\<exists>l. unat l < blocks c \<and> drop_block s c b
      = (set_at (idx_page s c) (block_word b) ?v s)\<lparr>lowest_free_entry := (lowest_free_entry s)(of_nat c := l)\<rparr>"
    by (intro exI [of _ "if lowest_free_entry s (of_nat c) > of_nat b then of_nat b
        else lowest_free_entry s (of_nat c)"]) (simp add: drop_block_def Let_def set_at_def)
  then obtain l where l: "unat l < blocks c" and t: "drop_block s c b
      = (set_at (idx_page s c) (block_word b) ?v s)\<lparr>lowest_free_entry := (lowest_free_entry s)(of_nat c := l)\<rparr>"
    by blast
  note u = slab_update [OF assms l, where v = ?v, folded t]
  show "slab (drop_block s c b) c" "data_page (drop_block s c b) c = data_page s c" by (rule u)+
  show "block_used (drop_block s c b) c a \<longleftrightarrow> block_used s c a \<and> a \<noteq> b" if "a < blocks c"
    using u(5) [OF that] mod_div_eq [of a b]
    by (auto simp: block_used_def bits split: if_splits)
  show "kmem (drop_block s c b) x = kmem s x"
    if "page \<in> pager_live s" "page \<noteq> idx_page s c" "x \<in> page_cells page"
    using u(6) that by blast
qed

section \<open>The first block of a class\<close>

lemma pg_alloc_keeps_allocator:
  assumes "pg_alloc s = ret (p, s')"
  shows "root_idx_page s' = root_idx_page s" and "lowest_free_entry s' = lowest_free_entry s"
    and "bump_page s' = bump_page s" and "bump_cnt s' = bump_cnt s"
  using assms by (auto simp: pg_alloc_def take_page_def Let_def split: option.splits)

lemma pg_alloc_keeps_more:
  assumes "pg_alloc s = ret (p, s')"
  shows "allocator.more s' = allocator.more s"
  using assms by (auto simp: pg_alloc_def take_page_def Let_def split: option.splits)

lemma set_at_keeps_allocator [simp]:
  "root_idx_page (set_at a i v s) = root_idx_page s"
  "lowest_free_entry (set_at a i v s) = lowest_free_entry s"
  "bump_page (set_at a i v s) = bump_page s" "bump_cnt (set_at a i v s) = bump_cnt s"
  by (simp_all add: set_at_def)

lemma root_idx_page_same [simp]: "pager_same s (s\<lparr>root_idx_page := r\<rparr>)"
  by (simp add: pager_same_def)

text \<open>The state after a data page \<open>dp\<close> has been entered at word \<open>e\<close> of the index page.\<close>

definition enter_data_page ::
  "u64 \<Rightarrow> nat \<Rightarrow> u64 \<Rightarrow> nat \<Rightarrow> u64 \<Rightarrow> 'a allocator_scheme \<Rightarrow> 'a allocator_scheme" where
  "enter_data_page ip e dp c num s =
     set_at dp 2 (of_nat c) (set_at dp 1 num (set_at dp 0 (2 ^ c) (set_at ip (of_nat e) dp s)))"

lemma enter_data_page_keeps [simp]:
  "root_idx_page (enter_data_page ip e dp c num s) = root_idx_page s"
  "lowest_free_entry (enter_data_page ip e dp c num s) = lowest_free_entry s"
  by (simp_all add: enter_data_page_def)

lemma enter_data_page_inv:
  assumes "pager_inv s" and "ip \<in> pager_live s" and "dp \<in> pager_live s" and "dp \<noteq> ip" and "e < 512"
  shows "pager_inv (enter_data_page ip e dp c num s)"
    and "pager_live (enter_data_page ip e dp c num s) = pager_live s"
    and "j < 512 \<Longrightarrow> at (enter_data_page ip e dp c num s) ip (of_nat j) =
      (if j = e then dp else at s ip (of_nat j))"
    and "at (enter_data_page ip e dp c num s) dp 0 = 2 ^ c"
    and "at (enter_data_page ip e dp c num s) dp 1 = num"
    and "at (enter_data_page ip e dp c num s) dp 2 = of_nat c"
    and "pager_pool (enter_data_page ip e dp c num s) = pager_pool s"
    and "q \<in> pager_live s \<Longrightarrow> q \<noteq> ip \<Longrightarrow> q \<noteq> dp \<Longrightarrow> j < 512 \<Longrightarrow>
      at (enter_data_page ip e dp c num s) q (of_nat j) = at s q (of_nat j)"
proof -
  define s1 where "s1 = set_at ip (of_nat e) dp s"
  define s2 where "s2 = set_at dp (of_nat 0) (2 ^ c) s1"
  define s3 where "s3 = set_at dp (of_nat 1) num s2"
  have s4: "enter_data_page ip e dp c num s = set_at dp (of_nat 2) (of_nat c) s3"
    by (simp add: enter_data_page_def s1_def s2_def s3_def)
  have i1: "pager_inv s1" "pager_live s1 = pager_live s" "pager_pool s1 = pager_pool s"
    unfolding s1_def by (rule set_at_inv [OF assms(1,2,5)])+
  then have i2: "pager_inv s2" "pager_live s2 = pager_live s" "pager_pool s2 = pager_pool s"
    unfolding s2_def using set_at_inv [of s1 dp 0] assms(3) by simp_all
  then have i3: "pager_inv s3" "pager_live s3 = pager_live s" "pager_pool s3 = pager_pool s"
    unfolding s3_def using set_at_inv [of s2 dp 1] assms(3) by simp_all
  show "pager_inv (enter_data_page ip e dp c num s)"
    "pager_live (enter_data_page ip e dp c num s) = pager_live s"
    "pager_pool (enter_data_page ip e dp c num s) = pager_pool s"
    unfolding s4 using set_at_inv [of s3 dp 2] i3 assms(3) by simp_all
  have r: "at (enter_data_page ip e dp c num s) q (of_nat j) =
      (if dp = q \<and> 2 = j then of_nat c else if dp = q \<and> 1 = j then num
       else if dp = q \<and> 0 = j then 2 ^ c else if ip = q \<and> e = j then dp else at s q (of_nat j))"
    if "q \<in> pager_live s" "j < 512" for q j
  proof -
    have a1: "at s1 q (of_nat j) = (if ip = q \<and> e = j then dp else at s q (of_nat j))"
      unfolding s1_def by (rule at_set_at [OF assms(1,2) that(1) assms(5) that(2)])
    have a2: "at s2 q (of_nat j) = (if dp = q \<and> 0 = j then 2 ^ c else at s1 q (of_nat j))"
      unfolding s2_def using i1 assms(3) that by (intro at_set_at) simp_all
    have a3: "at s3 q (of_nat j) = (if dp = q \<and> 1 = j then num else at s2 q (of_nat j))"
      unfolding s3_def using i2 assms(3) that by (intro at_set_at) simp_all
    have a4: "at (enter_data_page ip e dp c num s) q (of_nat j)
        = (if dp = q \<and> 2 = j then of_nat c else at s3 q (of_nat j))"
      unfolding s4 using i3 assms(3) that by (intro at_set_at) simp_all
    show ?thesis unfolding a4 a3 a2 a1 ..
  qed
  show "j < 512 \<Longrightarrow> at (enter_data_page ip e dp c num s) ip (of_nat j) =
      (if j = e then dp else at s ip (of_nat j))"
    using r [OF assms(2)] assms(4) by auto
  show "q \<in> pager_live s \<Longrightarrow> q \<noteq> ip \<Longrightarrow> q \<noteq> dp \<Longrightarrow> j < 512 \<Longrightarrow>
      at (enter_data_page ip e dp c num s) q (of_nat j) = at s q (of_nat j)"
    using r [of q j] by auto
  show "at (enter_data_page ip e dp c num s) dp 0 = 2 ^ c" using r [OF assms(3), of 0] by simp
  show "at (enter_data_page ip e dp c num s) dp 1 = num" using r [OF assms(3), of 1] by simp
  show "at (enter_data_page ip e dp c num s) dp 2 = of_nat c" using r [OF assms(3), of 2] by simp
qed

lemma fetch_new_data_page:
  assumes "at s ip (of_nat e) = 0" and "pg_alloc s = ret (dp, s')" and "pager_inv s"
    and "ip \<in> pager_live s" and "e < 512"
  shows "fetch_and_confirm_data_page ip (of_nat e) (2 ^ c) (of_nat c) num s
    = ret (dp, enter_data_page ip e dp c num s')"
proof -
  have s': "pager_inv s'" "pager_live s' = insert dp (pager_live s)" "dp \<noteq> ip"
    using pager.alloc_inv [OF assms(3,2)] pager.alloc_fresh [OF assms(3,2)] assms(4) by auto
  have ip: "ip \<in> pager_live s'" "dp \<in> pager_live s'" using s'(2) assms(4) by auto
  have "at (set_at ip (of_nat e) dp s') ip (of_nat e) = dp" by (simp add: at_def set_at_def)
  moreover have "at (enter_data_page ip e dp c num s') ip (of_nat e) = dp"
    using enter_data_page_inv(3) [OF s'(1) ip s'(3) assms(5,5)] by simp
  ultimately show ?thesis
    using assms(1,2) by (simp add: fetch_and_confirm_data_page_def new_data_page_def Let_def enter_data_page_def)
qed

lemma fresh_slab:
  assumes "pager_inv s" and "c \<le> 11" and "idx_page s c \<in> pager_live s" and "at s (idx_page s c) 1 = 0"
    and "pg_alloc s = ret (dp, s')" and "lowest_free_entry s (of_nat c) = 0"
  shows "slab (enter_data_page (idx_page s c) 1 dp c 0 s') c"
    and "data_page (enter_data_page (idx_page s c) 1 dp c 0 s') c = dp"
    and "b < blocks c \<Longrightarrow> block_used (enter_data_page (idx_page s c) 1 dp c 0 s') c b = block_used s c b"
proof -
  let ?ip = "idx_page s c" and ?s = "enter_data_page (idx_page s c) 1 dp c 0 s'"
  have s': "pager_inv s'" "pager_live s' = insert dp (pager_live s)" "dp \<noteq> ?ip"
    using pager.alloc_inv [OF assms(1,5)] pager.alloc_fresh [OF assms(1,5)] assms(3) by auto
  note keep = pg_alloc_keeps_allocator [OF assms(5)]
  have ip: "?ip \<in> pager_live s'" "dp \<in> pager_live s'" using s'(2) assms(3) by auto
  note e = enter_data_page_inv [OF s'(1) ip s'(3), where e = 1 and c = c and num = 0]
  have idx: "idx_page ?s c = ?ip" by (simp add: keep)
  show dp: "data_page ?s c = dp" using e(3) [of 1] unfolding idx by simp
  show "slab ?s c"
    unfolding slab_def idx dp [unfolded idx] using e(1,2,4-6) ip s'(3) assms(2,6) class_numbers(5) [OF assms(2)]
    by (simp add: keep)
  show "block_used ?s c b = block_used s c b" if "b < blocks c"
  proof -
    have w: "2 + b div 64 < 512" using that class_numbers(6) [OF assms(2)] by simp
    have "at ?s ?ip (block_word b) = at s ?ip (block_word b)"
      using e(3) [OF _ w] at_pg_alloc(2) [OF assms(1,5) w assms(3)] by simp
    then show ?thesis unfolding block_used_def idx by simp
  qed
qed

text \<open>The first block of a class whose index page is fresh: the data page is allocated and entered.\<close>

lemma first_block:
  assumes inv: "pager_inv s" and c: "c \<le> 11" and ip: "idx_page s c \<in> pager_live s"
    and z: "\<forall>j<512. at s (idx_page s c) (of_nat j) = 0" and low: "lowest_free_entry s (of_nat c) = 0"
    and a: "pg_alloc s = ret (dp, s3)"
  defines "s4 \<equiv> enter_data_page (idx_page s c) 1 dp c 0 s3"
  shows "slab s4 c" and "data_page s4 c = dp" and "idx_page s4 c = idx_page s c"
    and "\<forall>b<blocks c. \<not> block_used s4 c b"
    and "mem_alloc_loop (of_nat (blocks c)) (2 ^ c) (of_nat c) 0 1 (idx_page s c) s
      = ret (block_addr s4 c 0, take_block s4 c 0)"
proof -
  note fs = fresh_slab [OF inv c ip _ a low, folded s4_def]
  note cl = class_numbers [OF c]
  have z1: "at s (idx_page s c) 1 = 0" using z [rule_format, of 1] by simp
  show slab: "slab s4 c" and dp: "data_page s4 c = dp" using fs z1 by blast+
  show unused: "\<forall>b<blocks c. \<not> block_used s4 c b"
  proof (intro allI impI)
    fix b
    assume b: "b < blocks c"
    then have "2 + b div 64 < 512" using cl(6) by simp
    with z have "at s (idx_page s c) (of_nat (2 + b div 64)) = 0" by blast
    then show "\<not> block_used s4 c b" using fs(3) [OF z1 b] by (simp add: block_used_def)
  qed
  show idx: "idx_page s4 c = idx_page s c" using pg_alloc_keeps_allocator(1) [OF a] by (simp add: s4_def)
  have f: "fetch_and_confirm_data_page (idx_page s c) 1 (2 ^ c) (of_nat c) 0 s = ret (dp, s4)"
    using fetch_new_data_page [OF _ a inv, of "idx_page s c" 1 c 0] z1 ip by (simp add: s4_def)
  have "unat (of_nat (blocks c) :: u64) = blocks c" using cl(6) by (intro unat_small) simp
  then have "scan_bitmap (unat (of_nat (blocks c) :: u64)) 0 (of_nat (blocks c)) (2 ^ c) (of_nat c) dp 0 2 (idx_page s c) s4
      = ret (Inl (block_addr s4 c 0), take_block s4 c 0)"
    using scan_bitmap_finds [OF c cl(5) unused [rule_format, OF cl(5)], of 0 "blocks c"] cl(5) dp idx by simp
  then show "mem_alloc_loop (of_nat (blocks c)) (2 ^ c) (of_nat c) 0 1 (idx_page s c) s
      = ret (block_addr s4 c 0, take_block s4 c 0)" by (subst mem_alloc_loop.simps) (simp add: f)
qed

text \<open>What taking that block leaves alone.\<close>

lemma first_block_frame:
  assumes inv: "pager_inv s" and c: "c \<le> 11" and ip: "idx_page s c \<in> pager_live s"
    and z: "\<forall>j<512. at s (idx_page s c) (of_nat j) = 0" and low: "lowest_free_entry s (of_nat c) = 0"
    and a: "pg_alloc s = ret (dp, s3)" and dp: "dp \<notin> pager_live s"
  defines "s5 \<equiv> take_block (enter_data_page (idx_page s c) 1 dp c 0 s3) c 0"
  shows "pager_live s5 = insert dp (pager_live s)" and "pager_pool s5 = pager_pool s"
    and "\<forall>j<512. 2 < j \<longrightarrow> at s5 (idx_page s c) (of_nat j) = 0"
    and "\<forall>q \<in> pager_live s - {idx_page s c}. \<forall>j<512. at s5 q (of_nat j) = at s q (of_nat j)"
proof -
  let ?ip = "idx_page s c"
  define s4 where "s4 = enter_data_page ?ip 1 dp c 0 s3"
  note fb = first_block [OF inv c ip z low a, folded s4_def]
  have s5: "s5 = take_block s4 c 0" by (simp add: s5_def s4_def)
  note tb = take_block_slab [OF fb(1) class_numbers(5) [OF c], folded s5]
  have s3: "pager_inv s3" "pager_pool s3 = pager_pool s" "pager_live s3 = insert dp (pager_live s)"
    using pager.alloc_inv [OF inv a] pager.alloc_live [OF inv a] by simp_all
  have en: "?ip \<in> pager_live s3" "dp \<in> pager_live s3" "dp \<noteq> ?ip" using s3(3) ip dp by auto
  note e = enter_data_page_inv [OF s3(1) en, where e = 1 and c = c and num = 0, folded s4_def]
  show "pager_live s5 = insert dp (pager_live s)" using e(2) tb(5) s3(3) by simp
  show "pager_pool s5 = pager_pool s" using e(7) tb(6) s3(2) by simp
  show "\<forall>j<512. 2 < j \<longrightarrow> at s5 ?ip (of_nat j) = 0"
    using tb(7) e(3) at_pg_alloc(2) [OF inv a] z ip fb(3) by simp
  show "\<forall>q \<in> pager_live s - {?ip}. \<forall>j<512. at s5 q (of_nat j) = at s q (of_nat j)"
  proof (intro ballI allI impI)
    fix q :: u64 and j :: nat
    assume q: "q \<in> pager_live s - {?ip}" and j: "j < 512"
    then have live: "q \<in> pager_live s" "q \<in> pager_live s3" "q \<in> pager_live s4" and ne: "q \<noteq> ?ip" "q \<noteq> dp"
      using s3(3) e(2) dp by auto
    have "q + 8 * of_nat j \<in> page_cells q" using j unfolding cells_def by blast
    then have "at s5 q (of_nat j) = at s4 q (of_nat j)" using tb(4) [OF live(3)] ne(1) fb(3) by (simp add: at_def)
    then show "at s5 q (of_nat j) = at s q (of_nat j)"
      using e(8) [OF _ live(2) ne j] at_pg_alloc(2) [OF inv a j live(1)] by simp
  qed
qed

lemma mem_alloc_first:
  assumes inv: "pager_inv s" and n: "n \<noteq> 0" "fits_class (unat n) c" and c: "c \<le> 11"
    and root: "idx_page s c = 0" and low: "lowest_free_entry s (of_nat c) = 0"
    and free: "1 < card (pager_pool s - pager_live s)"
  shows "\<exists>s'. mem_alloc n s = ret (block_addr s' c 0, s') \<and> slab s' c
    \<and> idx_page s' c \<notin> pager_live s \<and> data_page s' c \<notin> pager_live s \<and> pager_pool s' = pager_pool s
    \<and> pager_live s' = insert (data_page s' c) (insert (idx_page s' c) (pager_live s))
    \<and> (\<forall>b<blocks c. block_used s' c b \<longleftrightarrow> b = 0)
    \<and> (\<forall>j<512. 2 < j \<longrightarrow> at s' (idx_page s' c) (of_nat j) = 0)
    \<and> (\<forall>q \<in> pager_live s. \<forall>j<512. at s' q (of_nat j) = at s q (of_nat j))
    \<and> root_idx_page s' = (root_idx_page s)(of_nat c := idx_page s' c)
    \<and> lowest_free_entry s' = lowest_free_entry s \<and> allocator.more s' = allocator.more s"
proof -
  from alloc_enough [OF inv free] obtain ip s1 where a1: "pg_alloc s = ret (ip, s1)"
    and i1: "pager_inv s1" "ip \<notin> pager_live s" "pager_live s1 = insert ip (pager_live s)"
    and f1: "0 < card (pager_pool s1 - pager_live s1)" by (metis less_eq_Suc_le One_nat_def)
  define s2 where "s2 = s1\<lparr>root_idx_page := (root_idx_page s1)(of_nat c := ip)\<rparr>"
  have same: "pager_same s1 s2" by (simp add: s2_def)
  note i2 = pager_same_inv [OF same i1(1)]
  from alloc_enough [of s2 0] i2 f1 obtain dp s3 where a2: "pg_alloc s2 = ret (dp, s3)"
    and dp: "dp \<notin> pager_live s2" by metis
  have idx: "idx_page s2 c = ip" by (simp add: s2_def)
  have ip: "idx_page s2 c \<in> pager_live s2" using idx i2(4) i1(3) by simp
  have z: "\<forall>j<512. at s2 (idx_page s2 c) (of_nat j) = 0"
    unfolding idx using at_pg_alloc(1) [OF inv a1] by (simp add: s2_def at_def)
  have low2: "lowest_free_entry s2 (of_nat c) = 0"
    using low pg_alloc_keeps_allocator(2) [OF a1] by (simp add: s2_def)
  define s4 where "s4 = enter_data_page ip 1 dp c 0 s3"
  define s5 where "s5 = take_block s4 c 0"
  note fb = first_block [OF i2(1) c ip z low2 a2, unfolded idx, folded s4_def, folded s5_def]
  note fr = first_block_frame [OF i2(1) c ip z low2 a2 dp, unfolded idx, folded s4_def, folded s5_def]
  note cl = class_numbers [OF c]
  note tb = take_block_slab [OF fb(1) cl(5), folded s5_def]
  have "ucast (max_cnt_per_page (2 ^ c)) = (of_nat (blocks c) :: u64)"
    using cl(4) by (metis of_nat_unat ucast_id)
  moreover have "root_idx_page s1 (of_nat c) = 0" "root_idx_page s (of_nat c) = 0"
    using pg_alloc_keeps_allocator(1) [OF a1] root by simp_all
  ultimately have "mem_alloc n s = ret (block_addr s4 c 0, s5)"
    using fb(5) cl(2,3) n(1) size_class_of [OF n c] a1 low2 idx
    by (simp add: mem_alloc_def new_idx_page_def Let_def s2_def)
  moreover have "block_addr s5 c 0 = block_addr s4 c 0" using tb(2) by (simp add: block_addr_def)
  moreover have "slab s5 c" "data_page s5 c = dp" "\<forall>b<blocks c. block_used s5 c b \<longleftrightarrow> b = 0"
    using tb(1-3) fb(2,4) by auto
  moreover have "idx_page s5 c = ip" using fb(3) tb(8) by simp
  moreover have "dp \<notin> pager_live s" "pager_live s5 = insert dp (insert ip (pager_live s))"
    using dp fr(1) i2(4) i1(3) by simp_all
  moreover have "pager_pool s5 = pager_pool s" using fr(2) i2(2) pager.alloc_inv [OF inv a1] by simp
  moreover have "at s5 q (of_nat j) = at s q (of_nat j)" if q: "q \<in> pager_live s" "j < 512" for q j
  proof -
    have "q \<in> pager_live s2 - {ip}" using q(1) i1(2,3) i2(4) by auto
    then have "at s5 q (of_nat j) = at s2 q (of_nat j)" using fr(4) q(2) by blast
    then show ?thesis using at_pg_alloc(2) [OF inv a1 q(2,1)] by (simp add: s2_def at_def)
  qed
  moreover have "root_idx_page s5 = (root_idx_page s)(of_nat c := ip)" "lowest_free_entry s5 = lowest_free_entry s"
    using pg_alloc_keeps_allocator [OF a1] pg_alloc_keeps_allocator [OF a2]
    by (simp_all add: s5_def take_block_def Let_def s4_def s2_def)
  moreover have "allocator.more s5 = allocator.more s"
    using pg_alloc_keeps_more [OF a1] pg_alloc_keeps_more [OF a2]
    by (simp add: s5_def take_block_def Let_def s4_def s2_def enter_data_page_def set_at_def)
  ultimately show ?thesis using i1(2) fr(3) by (intro exI [of _ s5]) simp
qed

section \<open>The second data page of a class\<close>

lemma scan_full_2048:
  assumes "block_used s 11 0"
  shows "scan_bitmap (Suc 0) 0 1 2048 11 dp num 2 (root_idx_page s 11) s = ret (Inr (3, root_idx_page s 11), s)"
proof -
  let ?w = "at s (root_idx_page s 11) 2"
  have b0: "bit ?w 0" using assms by (simp add: block_used_def)
  then have nz: "?w \<noteq> 0" by auto
  have "1 \<le> (of_nat (ctzl (NOT ?w)) :: u64)" if ne: "?w \<noteq> U64_MAX"
  proof -
    have "ctzl (NOT ?w) \<noteq> 0" using ctzl_not(2) [OF ne] b0 by metis
    then show ?thesis using ctzl_not(1) [OF ne] unat_small [of "ctzl (NOT ?w)"] by (simp add: word_le_nat_alt)
  qed
  then show ?thesis using nz by (simp add: One_nat_def Let_def)
qed

lemma second_page_2048:
  assumes slab: "slab s 11" and full: "block_used s 11 0"
    and zero: "at s (root_idx_page s 11) 3 = 0" "at s (root_idx_page s 11) 4 = 0" "at s (root_idx_page s 11) 11 = 0"
    and free: "0 < card (pager_pool s - pager_live s)"
  shows "\<exists>p s'. mem_alloc 2048 s = ret (p, s') \<and> mem_free p s' = panic ''ALLOCATOR_RELEASE_FREE'' 0 0 0"
proof -
  have inv: "pager_inv s" and idx: "root_idx_page s 11 \<in> pager_live s" and data: "at s (root_idx_page s 11) 1 \<in> pager_live s"
    and low: "unat (lowest_free_entry s 11) < blocks 11"
    using slab by (simp_all add: slab_def)
  let ?ip = "root_idx_page s 11"
  have low0: "lowest_free_entry s 11 = 0" using low by (simp add: blocks_def unat_eq_0)
  from alloc_enough [OF inv free] obtain dp s1 where a: "pg_alloc s = ret (dp, s1)"
    and i1: "pager_inv s1" "dp \<notin> pager_live s" "pager_live s1 = insert dp (pager_live s)" by metis
  define s2 where "s2 = enter_data_page ?ip 3 dp 11 1 s1"
  have live: "?ip \<in> pager_live s1" "dp \<in> pager_live s1" "dp \<noteq> ?ip" using i1 idx by auto
  note e = enter_data_page_inv [OF i1(1) live, where e = 3 and c = 11 and num = 1, folded s2_def]
  have at2: "at s2 ?ip (of_nat j) = at s ?ip (of_nat j)" if "j < 512" "j \<noteq> 3" for j
    using e(3) [OF _ that(1)] that(2) at_pg_alloc(2) [OF inv a that(1) idx] by simp
  have keep: "root_idx_page s2 = root_idx_page s" "lowest_free_entry s2 = lowest_free_entry s"
    using pg_alloc_keeps_allocator [OF a] by (simp_all add: s2_def)
  define s3 where "s3 = (set_at ?ip 4 1 s2)\<lparr>lowest_free_entry := (lowest_free_entry s)(11 := 1)\<rparr>"
  have "BIT 0 = 1" by (simp add: BIT_def)
  have fetch: "fetch_and_confirm_data_page ?ip 3 2048 11 1 s = ret (dp, s2)"
    using fetch_new_data_page [OF _ a inv idx, of 3 11 1] zero(1) by (simp add: s2_def)
  have scan: "scan_bitmap (Suc 0) 0 1 2048 11 dp 1 4 ?ip s2 = ret (Inl (dp + 64), s3)"
    using at2 [of 4] zero(2) low0 \<open>BIT 0 = 1\<close>
    by (simp add: One_nat_def Let_def s3_def keep set_at_def)
  have "mem_alloc_loop 1 2048 11 1 3 ?ip s = ret (dp + 64, s3)"
    by (subst mem_alloc_loop.simps) (simp add: fetch scan del: scan_bitmap.simps bindr_eq_ret)
  moreover have "at s (root_idx_page s 11) 1 \<noteq> 0" using pager.page_aligned [OF inv data] by simp
  ultimately have "mem_alloc_loop 1 2048 11 0 1 ?ip s = ret (dp + 64, s3)"
    using scan_full_2048 [OF full]
    by (subst mem_alloc_loop.simps)
      (simp add: fetch_and_confirm_data_page_def del: scan_bitmap.simps bindr_eq_ret)
  moreover have "alloc_class 2048 = (2048, 11)"
    using size_class_of [of 2048 11] fits_class_exp [of 11] by simp
  moreover have "?ip \<noteq> 0" using pager.page_aligned [OF inv idx] by simp
  ultimately have alloc: "mem_alloc 2048 s = ret (dp + 64, s3)"
    using low0 by (simp add: mem_alloc_def Let_def max_cnt_per_page_def word_le_nat_alt)
  have at3: "at s3 ?ip 11 = 0" "at s3 dp 0 = 2048" "at s3 dp 1 = 1" "at s3 dp 2 = 11"
  proof -
    have *: "at s3 q (of_nat j) = (if ?ip = q \<and> 4 = j then 1 else at s2 q (of_nat j))"
      if "q \<in> pager_live s2" "j < 512" for q j
      using at_set_at [of s2 ?ip q 4 j] that e(1,2) live by (simp add: s3_def at_def)
    show "at s3 ?ip 11 = 0" using * [of ?ip 11] at2 [of 11] zero(3) e(2) live by simp
    show "at s3 dp 0 = 2048" "at s3 dp 1 = 1" "at s3 dp 2 = 11"
      using * [of dp 0] * [of dp 1] * [of dp 2] e(2,4-6) live by simp_all
  qed
  have round: "ROUND_MOD_DOWN (dp + 64) KERNEL_PAGE_SIZE = dp"
  proof -
    have al: "unat dp mod 4096 = 0" "unat dp + 4096 \<le> 2 ^ 64"
      using pager.page_aligned [OF i1(1) live(2)] by auto
    then obtain q where q: "unat dp = 4096 * q" by auto
    have "unat (dp + 64) = unat dp + 64" using al(2) by (simp add: unat_word_ariths)
    then have "unat (ROUND_MOD_DOWN (dp + 64) KERNEL_PAGE_SIZE) = unat dp"
      unfolding unat_round_down using q by simp
    then show ?thesis by (simp add: word_unat_eq_iff)
  qed
  have "root_idx_page s3 11 = ?ip" by (simp add: s3_def keep)
  then have "mem_free (dp + 64) s3 = panic ''ALLOCATOR_RELEASE_FREE'' 0 0 0"
    using at3 \<open>?ip \<noteq> 0\<close>
    by (simp add: mem_free_def Let_def round max_cnt_per_page_def ROUND_MOD_UP_def word_le_nat_alt)
  then show ?thesis using alloc by blast
qed

section \<open>The bump allocator\<close>

text \<open>A page is held, and what has not been handed out of it is zero.\<close>

definition bump_ok :: "'a allocator_scheme \<Rightarrow> bool" where
  "bump_ok s \<longleftrightarrow> pager_inv s \<and> bump_page s \<in> pager_live s \<and> unat (bump_cnt s) \<le> 4096
     \<and> unat (bump_cnt s) mod 8 = 0 \<and> (\<forall>j<512. unat (bump_cnt s) \<le> 8 * j \<longrightarrow> at s (bump_page s) (of_nat j) = 0)"

lemma round_up_8:
  assumes "unat n \<le> 4096"
  shows "unat (ROUND_MOD_UP n 8) = (unat n + 7) div 8 * 8"
  using assms by (simp add: ROUND_MOD_UP_def unat_word_ariths unat_div)

lemma bump_step:
  assumes "bump_ok s" and "unat n \<le> 4096" and "unat (bump_cnt s) + unat n \<le> 4096"
  defines "s' \<equiv> s\<lparr>bump_cnt := bump_cnt s + ROUND_MOD_UP n 8\<rparr>"
  shows "bump_ok s'" and "unat (bump_cnt s) + unat n \<le> unat (bump_cnt s')"
    and "unat (bump_page s + bump_cnt s) mod 8 = 0"
proof -
  have inv: "pager_inv s" and pg: "bump_page s \<in> pager_live s" and c8: "unat (bump_cnt s) mod 8 = 0"
    using assms(1) by (simp_all add: bump_ok_def)
  define c r where "c = unat (bump_cnt s)" and "r = (unat n + 7) div 8 * 8"
  have "r mod 8 = 0" "unat n \<le> r" "r \<le> unat n + 7" unfolding r_def by presburger+
  moreover have "c mod 8 = 0" "c + unat n \<le> 4096" using c8 assms(3) by (simp_all add: c_def)
  ultimately have cr: "(c + r) mod 8 = 0" "c + r \<le> 4096" "c + unat n \<le> c + r" by presburger+
  have u: "unat (bump_cnt s') = c + r"
    using cr(2) round_up_8 [OF assms(2)] by (simp add: s'_def unat_word_ariths c_def r_def)
  have same: "pager_same s s'" by (simp add: pager_same_def s'_def)
  have "at s' (bump_page s') (of_nat j) = 0" if "j < 512" "c + r \<le> 8 * j" for j
    using assms(1) that by (simp add: bump_ok_def s'_def at_def c_def)
  then show "bump_ok s'"
    using pager_same_inv [OF same inv] pg u cr by (simp add: bump_ok_def s'_def)
  show "unat (bump_cnt s) + unat n \<le> unat (bump_cnt s')" using cr u by (simp add: c_def)
  have al: "unat (bump_page s) mod 4096 = 0" using pager.page_aligned [OF inv pg] by blast
  then obtain q where q: "unat (bump_page s) = 8 * (512 * q)" by auto
  obtain k where k: "unat (bump_cnt s) = 8 * k" using c8 by auto
  have "unat (bump_page s + bump_cnt s) = (8 * (512 * q + k)) mod (8 * 2 ^ 61)"
    unfolding unat_word_ariths(1) q k distrib_left by simp
  also have "\<dots> = 8 * ((512 * q + k) mod 2 ^ 61)" by (rule mult_mod_right [symmetric])
  finally show "unat (bump_page s + bump_cnt s) mod 8 = 0" by simp
qed

lemma unat_block_addr:
  assumes "slab s c" and "b < blocks c"
  shows "unat (block_addr s c b) = unat (data_page s c) + 64 + 2 ^ c * b"
    and "64 + 2 ^ c * b + 2 ^ c \<le> 4096"
proof -
  have "c \<le> 11" "pager_inv s" "data_page s c \<in> pager_live s" using assms(1) by (simp_all add: slab_def)
  then have al: "unat (data_page s c) + 4096 \<le> 2 ^ 64" using pager.page_aligned by fastforce
  have "2 ^ c * (b + 1) \<le> 2 ^ c * blocks c" using assms(2) by (intro mult_le_mono) simp_all
  then show le: "64 + 2 ^ c * b + 2 ^ c \<le> 4096" using class_numbers(7) [OF \<open>c \<le> 11\<close>] by simp
  then have "unat (of_nat (64 + 2 ^ c * b) :: u64) = 64 + 2 ^ c * b" by (intro unat_small) simp
  moreover have "unat (data_page s c) + (64 + 2 ^ c * b) < 2 ^ 64"
    using le al zero_less_power [of "2 :: nat" c] by linarith
  ultimately show "unat (block_addr s c b) = unat (data_page s c) + 64 + 2 ^ c * b"
    by (simp add: block_addr_def unat_word_ariths(1) del: of_nat_add of_nat_mult)
qed

section \<open>Writes of the clients\<close>

text \<open>A write outside the index page and the header keeps a class as it is.\<close>

lemma slab_set_at:
  fixes v :: u64
  assumes "slab s c" and "q \<in> pager_live s" and "q \<noteq> idx_page s c" and "j < 512"
    and "q = data_page s c \<Longrightarrow> 3 \<le> j"
  defines "s' \<equiv> set_at q (of_nat j) v s"
  shows "slab s' c" and "idx_page s' c = idx_page s c" and "data_page s' c = data_page s c"
    and "pager_live s' = pager_live s" and "b < blocks c \<Longrightarrow> block_used s' c b = block_used s c b"
    and "p \<in> pager_live s \<Longrightarrow> i < 512 \<Longrightarrow>
      at s' p (of_nat i) = (if q = p \<and> j = i then v else at s p (of_nat i))"
proof -
  have c: "c \<le> 11" and inv: "pager_inv s" and idx: "idx_page s c \<in> pager_live s"
    and data: "data_page s c \<in> pager_live s" "data_page s c \<noteq> idx_page s c"
    and hd: "at s (data_page s c) 0 = 2 ^ c" "at s (data_page s c) 1 = 0" "at s (data_page s c) 2 = of_nat c"
    and low: "unat (lowest_free_entry s (of_nat c)) < blocks c"
    using assms(1) by (simp_all add: slab_def)
  note w = set_at_inv [OF inv assms(2,4), of v, folded s'_def]
  show at: "at s' p (of_nat i) = (if q = p \<and> j = i then v else at s p (of_nat i))"
    if "p \<in> pager_live s" "i < 512" for p i
    unfolding s'_def by (rule at_set_at [OF inv assms(2) that(1) assms(4) that(2)])
  show live: "pager_live s' = pager_live s" by (rule w(2))
  show i': "idx_page s' c = idx_page s c" by (simp add: s'_def)
  show d': "data_page s' c = data_page s c" using at [OF idx, of 1] assms(3) unfolding i' by simp
  have "at s' (data_page s c) (of_nat i) = at s (data_page s c) (of_nat i)" if "i < 3" for i
    using at [OF data(1), of i] assms(5) that by auto
  from this [of 0] this [of 1] this [of 2]
  show "slab s' c"
    unfolding slab_def i' d' [unfolded i'] live using c w(1) idx data hd low by (simp add: s'_def)
  show "block_used s' c b = block_used s c b" if "b < blocks c"
  proof -
    have "2 + b div 64 < 512" using that class_numbers(6) [OF c] by simp
    from at [OF idx this] show ?thesis using assms(3) unfolding block_used_def i' by simp
  qed
qed

section \<open>Properties\<close>

text \<open>
  \<open>mem_alloc\<close> refuses exactly the sizes it cannot serve: zero bytes, and more than 2048 bytes
  (whose power of two is a whole page or more), in each case before touching any state. For sizes
  above half the address space the rounding wraps to zero instead, and it divides by zero.
\<close>

theorem mem_alloc_refuses:
  "(n = 0 \<longrightarrow> mem_alloc n s = panic ''ATTEMPT_ALLOCATE_ZERO_BYTES'' 0 0 0)
   \<and> (2048 < unat n \<and> unat n \<le> 2 ^ 63 \<longrightarrow>
        (\<exists>c. fits_class (unat n) c \<and> mem_alloc n s = panic ''ATTEMPT_ALLOCATE_LARGER_THEN_PAGE'' (2 ^ c) 0 0))
   \<and> (2 ^ 63 < unat n \<and> root_idx_page s 64 \<noteq> 0 \<longrightarrow> mem_alloc n s = undef ''division by zero'')"
proof (intro conjI impI)
  show "mem_alloc n s = panic ''ATTEMPT_ALLOCATE_ZERO_BYTES'' 0 0 0" if "n = 0"
    using that by (simp add: mem_alloc_def)
next
  assume n: "2048 < unat n \<and> unat n \<le> 2 ^ 63"
  then have "n \<noteq> 0" by auto
  from size_class_fits [OF this] n obtain c where c: "c \<le> 63" "alloc_class n = (2 ^ c, of_nat c)"
    "fits_class (unat n) c" by auto
  have "(2 :: nat) ^ 11 < 2 ^ c" using c(3) n by (simp add: fits_class_def)
  then have "12 \<le> c" by (simp only: power_strict_increasing_iff)
  then have "(2 :: nat) ^ 12 \<le> 2 ^ c" by (intro power_increasing) simp_all
  moreover have "unat (2 ^ c :: u64) = 2 ^ c" using unat_exp [of c] c(1) by simp
  ultimately have "KERNEL_PAGE_SIZE \<le> (2 ^ c :: u64)" by (simp add: word_le_nat_alt)
  then show "\<exists>c. fits_class (unat n) c
      \<and> mem_alloc n s = panic ''ATTEMPT_ALLOCATE_LARGER_THEN_PAGE'' (2 ^ c) 0 0"
    using c \<open>n \<noteq> 0\<close> by (auto simp: mem_alloc_def)
next
  assume n: "2 ^ 63 < unat n \<and> root_idx_page s 64 \<noteq> 0"
  then have "n \<noteq> 0" by auto
  have "\<not> unat n < 2 ^ 63" using n by simp
  then have "\<not> 63 - clzl n < 63"
    using top_bit_range(2) [OF \<open>n \<noteq> 0\<close>] power_increasing [of "Suc (63 - clzl n)" 63 "2 :: nat"] by fastforce
  then have "clzl n = 0" by simp
  moreover have "(2 ^ 63 :: u64) \<noteq> n"
  proof
    assume "(2 ^ 63 :: u64) = n"
    then have "unat n = 2 ^ 63" using unat_exp [of 63] by simp
    with n show False by simp
  qed
  ultimately have "alloc_class n = (0, 64)" by (simp add: alloc_class_def Let_def)
  with n \<open>n \<noteq> 0\<close> show "mem_alloc n s = undef ''division by zero''" by (simp add: mem_alloc_def)
qed

text \<open>A kernel whose block allocator has just been initialised, for the witnesses.\<close>

definition demo_allocator :: allocator where
  "demo_allocator = pager_publish [demo_region]
     (kstacks.extend blank_kstacks
        \<lparr>bump_page = 0, bump_cnt = 0, root_idx_page = (\<lambda>_. 0), lowest_free_entry = (\<lambda>_. 0)\<rparr>)"

lemma demo_allocator_inv: "pager_inv demo_allocator" "pager_live demo_allocator = {}"
  "root_idx_page demo_allocator i = 0" "lowest_free_entry demo_allocator i = 0"
  "192 \<le> card (pager_pool demo_allocator)"
proof -
  let ?s = "kstacks.extend blank_kstacks
      \<lparr>bump_page = 0, bump_cnt = 0, root_idx_page = (\<lambda>_. 0), lowest_free_entry = (\<lambda>_. 0)\<rparr>"
  have f: "pager_bitmap_list ?s = pager_bitmap_list blank_pager" "last_free_bitmap ?s = 0"
    "last_free_page_num ?s = 0"
    by (simp_all add: blank_kstacks_def blank_pager_def pager.defs kstacks.defs)
  then have t: "table_ok (pager_bitmap_list ?s) [demo_region]" using demo_table by simp
  show inv: "pager_inv demo_allocator" "pager_live demo_allocator = {}"
    using publish_inv [OF t] f by (simp_all add: demo_allocator_def)
  show "root_idx_page demo_allocator i = 0" "lowest_free_entry demo_allocator i = 0"
    by (simp_all add: demo_allocator_def pager_publish_def set_region_def Let_def kstacks.defs)
  have "region_page_cnt demo_region = 254" by (simp add: demo_region_def region_page_cnt_def)
  then have "rpages demo_allocator 0 = 254" "rcnt demo_allocator = 1"
    using publish_layout(1,4) [OF t] by (simp_all add: demo_allocator_def)
  then show "192 \<le> card (pager_pool demo_allocator)"
    using pool_card_ge [of demo_allocator 0] inv(1) by (simp add: pager_inv_def)
qed

theorem mem_alloc_refuses_witness:
  "mem_alloc 0 demo_allocator = panic ''ATTEMPT_ALLOCATE_ZERO_BYTES'' 0 0 0
   \<and> (\<exists>c. fits_class 5000 c
        \<and> mem_alloc 5000 demo_allocator = panic ''ATTEMPT_ALLOCATE_LARGER_THEN_PAGE'' (2 ^ c) 0 0)"
  using mem_alloc_refuses [of 0 demo_allocator] mem_alloc_refuses [of 5000 demo_allocator] by simp

lemma demo_first:
  assumes "c \<le> 11"
  obtains s :: allocator where "slab s c" and "\<And>b. b < blocks c \<Longrightarrow> block_used s c b \<longleftrightarrow> b = 0"
    and "\<And>j. j < 512 \<Longrightarrow> 2 < j \<Longrightarrow> at s (idx_page s c) (of_nat j) = 0"
    and "190 \<le> card (pager_pool s - pager_live s)"
proof -
  have "1 < card (pager_pool demo_allocator - pager_live demo_allocator)"
    using demo_allocator_inv(2,5) by simp
  moreover have "unat (2 ^ c :: u64) = 2 ^ c" "(2 ^ c :: u64) \<noteq> 0" using class_numbers [OF assms] by simp_all
  ultimately obtain s' :: allocator where s': "slab s' c" "\<forall>b<blocks c. block_used s' c b \<longleftrightarrow> b = 0"
    "\<forall>j<512. 2 < j \<longrightarrow> at s' (idx_page s' c) (of_nat j) = 0" "pager_pool s' = pager_pool demo_allocator"
    "pager_live s' = {data_page s' c, idx_page s' c}"
    using mem_alloc_first [OF demo_allocator_inv(1), of "2 ^ c" c] fits_class_exp [of c] assms
      demo_allocator_inv(2-4) by auto
  have "192 - card (pager_live s') \<le> card (pager_pool s' - pager_live s')"
    using diff_card_le_card_Diff [of "pager_live s'" "pager_pool s'"] demo_allocator_inv(5) s'(4,5) by simp
  moreover have "card (pager_live s') \<le> 2" unfolding s'(5) by (simp add: card_insert_if)
  ultimately show ?thesis using that [of s'] s' by simp
qed

text \<open>
  C11. \<open>mem_alloc\<close> in a class whose first data page has a free block returns its first free block:
  a range of \<open>2 ^ c\<close> bytes inside the data page behind the header, which was not in use. Only this
  block becomes used, and no word of a held page outside the class's index page changes.
\<close>

theorem mem_alloc_sound:
  assumes "slab s c" and "n \<noteq> 0" and "fits_class (unat n) c" and "\<exists>b<blocks c. \<not> block_used s c b"
  shows "\<exists>b s'. mem_alloc n s = ret (block_addr s c b, s') \<and> b < blocks c \<and> \<not> block_used s c b
    \<and> (\<forall>a<b. block_used s c a)
    \<and> unat (block_addr s c b) = unat (data_page s c) + 64 + 2 ^ c * b \<and> 64 + 2 ^ c * b + 2 ^ c \<le> 4096
    \<and> slab s' c \<and> data_page s' c = data_page s c
    \<and> (\<forall>a<blocks c. block_used s' c a \<longleftrightarrow> block_used s c a \<or> a = b)
    \<and> (\<forall>page \<in> pager_live s. page \<noteq> idx_page s c \<longrightarrow> (\<forall>x \<in> page_cells page. kmem s' x = kmem s x))"
proof -
  define b where "b = (LEAST b. b < blocks c \<and> \<not> block_used s c b)"
  have b: "b < blocks c" "\<not> block_used s c b" using LeastI_ex [OF assms(4)] by (simp_all add: b_def)
  have less: "block_used s c a" if "a < b" for a
    using not_less_Least [of a "\<lambda>b. b < blocks c \<and> \<not> block_used s c b"] that b(1) by (auto simp: b_def)
  note t = take_block_slab [OF assms(1) b(1)] and u = unat_block_addr [OF assms(1) b(1)]
  show ?thesis
    using mem_alloc_slab [OF assms(1-3) b less] b less t u
    by (intro exI [of _ b] exI [of _ "take_block s c b"]) auto
qed

theorem mem_alloc_sound_witness:
  "\<exists>(s :: allocator) b s'. slab s 6 \<and> mem_alloc 64 s = ret (block_addr s 6 b, s') \<and> \<not> block_used s 6 b
     \<and> block_used s' 6 b"
proof -
  have "(6 :: nat) \<le> 11" by simp
  from demo_first [OF this] obtain s :: allocator
    where s: "slab s 6" "\<And>b. b < blocks 6 \<Longrightarrow> block_used s 6 b \<longleftrightarrow> b = 0" by metis
  have "1 < blocks 6" by (simp add: blocks_def)
  then have "\<exists>b<blocks 6. \<not> block_used s 6 b" using s(2) [of 1] by auto
  from mem_alloc_sound [OF s(1) _ _ this, of 64] fits_class_exp [of 6] obtain b s' where
    "mem_alloc 64 s = ret (block_addr s 6 b, s')" "\<not> block_used s 6 b" "block_used s' 6 b" by auto
  then show ?thesis using s(1) by blast
qed

text \<open>
  C23. \<open>mem_free\<close> of any address inside a block of a class's first data page: a block in use becomes
  free and only it does, the data page and every other held page keep their contents; a block that
  is not in use is refused with \<open>ALLOCATOR_RELEASE_FREE\<close>.
\<close>

theorem mem_free_sound:
  assumes "slab s c" and "b < blocks c" and "off < 2 ^ c"
  shows "if block_used s c b
    then \<exists>s'. mem_free (block_addr s c b + of_nat off) s = ret ((), s') \<and> slab s' c
      \<and> data_page s' c = data_page s c
      \<and> (\<forall>a<blocks c. block_used s' c a \<longleftrightarrow> block_used s c a \<and> a \<noteq> b)
      \<and> (\<forall>page \<in> pager_live s. page \<noteq> idx_page s c \<longrightarrow> (\<forall>x \<in> page_cells page. kmem s' x = kmem s x))
    else mem_free (block_addr s c b + of_nat off) s = panic ''ALLOCATOR_RELEASE_FREE'' 0 0 0"
  using mem_free_slab [OF assms] drop_block_slab [OF assms(1,2)] by auto

theorem mem_free_sound_witness:
  "\<exists>(s :: allocator) s'. slab s 6 \<and> block_used s 6 0 \<and> mem_free (block_addr s 6 0 + of_nat 5) s = ret ((), s')
     \<and> \<not> block_used s' 6 0"
proof -
  have "(6 :: nat) \<le> 11" by simp
  from demo_first [OF this] obtain s :: allocator
    where s: "slab s 6" "\<And>b. b < blocks 6 \<Longrightarrow> block_used s 6 b \<longleftrightarrow> b = 0" by metis
  have "0 < blocks 6" by (simp add: blocks_def)
  with mem_free_sound [OF s(1), of 0 5] s show ?thesis by auto
qed

text \<open>
  The first allocation of a class, with two free pages left, takes one page for the index and
  one for the blocks, sets the class up and returns its block 0, the only block in use.
\<close>

theorem mem_alloc_first_block:
  assumes "pager_inv s" and "n \<noteq> 0" and "fits_class (unat n) c" and "c \<le> 11"
    and "idx_page s c = 0" and "lowest_free_entry s (of_nat c) = 0"
    and "1 < card (pager_pool s - pager_live s)"
  shows "\<exists>s'. mem_alloc n s = ret (block_addr s' c 0, s') \<and> slab s' c
    \<and> idx_page s' c \<notin> pager_live s \<and> data_page s' c \<notin> pager_live s
    \<and> pager_live s' = insert (data_page s' c) (insert (idx_page s' c) (pager_live s))
    \<and> (\<forall>b<blocks c. block_used s' c b \<longleftrightarrow> b = 0)"
  using mem_alloc_first [OF assms] by blast

theorem mem_alloc_first_block_witness:
  "\<exists>s'. mem_alloc 64 demo_allocator = ret (block_addr s' 6 0, s') \<and> slab s' 6"
proof -
  have "1 < card (pager_pool demo_allocator - pager_live demo_allocator)"
    using demo_allocator_inv(2,5) by simp
  from mem_alloc_first_block [OF demo_allocator_inv(1) _ _ _ _ _ this, of 64 6] fits_class_exp [of 6]
  show ?thesis by (auto simp: demo_allocator_inv)
qed

text \<open>
  A block on a second data page cannot be freed. When the only 2048-byte block of the first data
  page is in use and the index page is otherwise still clear, \<open>mem_alloc\<close> of 2048 bytes succeeds
  from a second data page, and \<open>mem_free\<close> of what it returned panics as if it had never been
  allocated: the two compute the position of the bitmap with different row lengths.
\<close>

theorem mem_free_second_page:
  assumes "slab s 11" and "block_used s 11 0"
    and "at s (root_idx_page s 11) 3 = 0" and "at s (root_idx_page s 11) 4 = 0"
    and "at s (root_idx_page s 11) 11 = 0" and "0 < card (pager_pool s - pager_live s)"
  shows "\<exists>p s'. mem_alloc 2048 s = ret (p, s') \<and> mem_free p s' = panic ''ALLOCATOR_RELEASE_FREE'' 0 0 0"
  by (rule second_page_2048 [OF assms])

theorem mem_free_second_page_witness:
  "\<exists>(s :: allocator) p s'. mem_alloc 2048 s = ret (p, s') \<and> mem_free p s' = panic ''ALLOCATOR_RELEASE_FREE'' 0 0 0"
proof -
  obtain s :: allocator where s: "slab s 11" "\<And>b. b < blocks 11 \<Longrightarrow> block_used s 11 b \<longleftrightarrow> b = 0"
    "\<And>j. j < 512 \<Longrightarrow> 2 < j \<Longrightarrow> at s (idx_page s 11) (of_nat j) = 0"
    "190 \<le> card (pager_pool s - pager_live s)"
    using demo_first [of 11] by blast
  have "block_used s 11 0" using s(2) [of 0] by (simp add: blocks_def)
  from mem_free_second_page [OF s(1) this] s(3) [of 3] s(3) [of 4] s(3) [of 11] s(4) show ?thesis by auto
qed

text \<open>
  C32. \<open>bump_alloc\<close> of at most a page, with a free page left: it returns an eight-byte aligned
  address whose range lies inside one held page, behind everything bump-allocated from that page
  before, and the next range starts behind it. A page it moves to was not in use. The page is zero from
  the address returned on, no other page comes into use, and the pages in use keep their contents.
\<close>

theorem bump_alloc_sound:
  assumes "bump_ok s" and "unat n \<le> 4096" and "\<not> pager_pool s \<subseteq> pager_live s"
  shows "\<exists>off s'. bump_alloc n s = ret (bump_page s' + off, s') \<and> bump_ok s'
    \<and> unat (bump_page s' + off) mod 8 = 0 \<and> unat off + unat n \<le> 4096
    \<and> unat off + unat n \<le> unat (bump_cnt s')
    \<and> (if bump_page s' = bump_page s then unat off = unat (bump_cnt s) else bump_page s' \<notin> pager_live s)
    \<and> (\<forall>j<512. unat off \<le> 8 * j \<longrightarrow> at s' (bump_page s') (of_nat j) = 0)
    \<and> pager_live s' = insert (bump_page s') (pager_live s)
    \<and> (\<forall>q \<in> pager_live s. \<forall>j<512. at s' q (of_nat j) = at s q (of_nat j))"
proof -
  have inv: "pager_inv s" and pg: "bump_page s \<in> pager_live s" and le: "unat (bump_cnt s) \<le> 4096"
    using assms(1) by (simp_all add: bump_ok_def)
  have n: "\<not> n > KERNEL_PAGE_SIZE" using assms(2) by (simp add: word_less_nat_alt)
  have sum: "unat (bump_cnt s + n) = unat (bump_cnt s) + unat n"
    using le assms(2) by (simp add: unat_word_ariths(1))
  show ?thesis
  proof (cases "KERNEL_PAGE_SIZE \<le> bump_cnt s + n")
    case False
    then have "unat (bump_cnt s) + unat n \<le> 4096" using sum by (simp add: word_le_nat_alt)
    note st = bump_step [OF assms(1,2) this]
    let ?t = "s\<lparr>bump_cnt := bump_cnt s + ROUND_MOD_UP n 8\<rparr>"
    have same: "pager_same s ?t" by (simp add: pager_same_def)
    have "\<forall>j<512. unat (bump_cnt s) \<le> 8 * j \<longrightarrow> at ?t (bump_page ?t) (of_nat j) = 0"
      using assms(1) by (simp add: bump_ok_def at_def)
    moreover have "pager_live ?t = insert (bump_page ?t) (pager_live s)"
      using pager_same_inv(4) [OF same inv] pg by (simp add: insert_absorb)
    ultimately show ?thesis using st False n
      by (intro exI [of _ "bump_cnt s"] exI [of _ ?t])
        (simp add: bump_alloc_def at_def \<open>unat (bump_cnt s) + unat n \<le> 4096\<close>)
  next
    case True
    obtain q where "q \<in> pager_pool s" "q \<notin> pager_live s" using assms(3) by blast
    then obtain p s1 where a: "pg_alloc s = ret (p, s1)" using pg_alloc_total [OF inv] by blast
    let ?s = "s1\<lparr>bump_page := p, bump_cnt := 0\<rparr>" and ?t = "s1\<lparr>bump_page := p, bump_cnt := ROUND_MOD_UP n 8\<rparr>"
    have same: "pager_same s1 ?s" "pager_same s1 ?t" by (simp_all add: pager_same_def)
    note i1 = pager.alloc_inv [OF inv a] and f = pager.alloc_fresh [OF inv a] and z = at_pg_alloc [OF inv a]
    have "bump_ok ?s" using pager_same_inv [OF same(1)] i1 z(1) by (simp add: bump_ok_def at_def)
    note st = bump_step [OF this assms(2)]
    have "pager_live ?t = insert p (pager_live s)" using pager_same_inv(4) [OF same(2)] i1 by simp
    moreover have "\<forall>j<512. at ?t p (of_nat j) = 0" "\<forall>q \<in> pager_live s. \<forall>j<512. at ?t q (of_nat j) = at s q (of_nat j)"
      using z by (simp_all add: at_def)
    ultimately show ?thesis using st True n a f pg assms(2)
      by (intro exI [of _ 0] exI [of _ ?t]) (auto simp: bump_alloc_def)
  qed
qed

theorem bump_alloc_sound_witness:
  "\<exists>(s :: allocator) p s'. bump_ok s \<and> bump_alloc 100 s = ret (p, s') \<and> bump_ok s'"
proof -
  have nf: "\<not> pager_pool demo_allocator \<subseteq> pager_live demo_allocator"
    using demo_allocator_inv(2,5) by auto
  then obtain p s1 where a: "pg_alloc demo_allocator = ret (p, s1)"
    using pg_alloc_total [OF demo_allocator_inv(1)] by blast
  let ?s = "s1\<lparr>bump_page := p, bump_cnt := 0\<rparr>"
  have "pager_same s1 ?s" by (simp add: pager_same_def)
  note i = pager_same_inv [OF this] and i1 = pager.alloc_inv [OF demo_allocator_inv(1) a]
  have ok: "bump_ok ?s" using i i1 at_pg_alloc(1) [OF demo_allocator_inv(1) a] by (simp add: bump_ok_def at_def)
  have "pager_live ?s = {p}" using i(4) i1 demo_allocator_inv(2) by simp
  moreover have "pager_pool ?s = pager_pool demo_allocator" using i(2) i1 by simp
  ultimately have "\<not> pager_pool ?s \<subseteq> pager_live ?s"
    using demo_allocator_inv(5) card_mono [of "{p}" "pager_pool demo_allocator"] by auto
  from bump_alloc_sound [OF ok _ this, of 100] show ?thesis using ok by auto
qed

end
