(* ===== verification/Map_Store.thy ===== *)
theory Map_Store
  imports Kernel_Prelude
begin

text \<open>
  The contract of the kernel's keyed stores, the hash map and the radix tree: while there is room, a
  put succeeds, makes the new value visible under its key and changes the value of no other key. The
  locale's lemma lifts it to a sequence of puts, which behaves like the updates of a finite map.
\<close>

text \<open>A sequence of puts, the results thrown away.\<close>

fun puts :: "('k \<Rightarrow> 'v \<Rightarrow> 's \<Rightarrow> ('r \<times> 's) run) \<Rightarrow> ('k \<times> 'v) list \<Rightarrow> 's \<Rightarrow> 's run" where
  "puts put [] s = ret s"
| "puts put ((k, v) # kvs) s = bindr (put k v s) (\<lambda>(_, s). puts put kvs s)"

locale map_store =
  fixes put :: "'k \<Rightarrow> 'v \<Rightarrow> 's \<Rightarrow> ('r \<times> 's) run"
    and get :: "'k \<Rightarrow> 's \<Rightarrow> 'v run"
    and ok :: "'s \<Rightarrow> bool"
    and room :: "'s \<Rightarrow> nat"
    and keys :: "'k set"
  assumes put_get: "ok s \<Longrightarrow> k \<in> keys \<Longrightarrow> 0 < room s \<Longrightarrow>
      \<exists>r s'. put k v s = ret (r, s') \<and> ok s' \<and> room s \<le> Suc (room s')
        \<and> (\<forall>k' \<in> keys. get k' s' = (if k' = k then ret v else get k' s))"
begin

lemma puts_get:
  assumes "ok s" and "fst ` set kvs \<subseteq> keys" and "length kvs \<le> room s"
  shows "\<exists>s'. puts put kvs s = ret s' \<and> ok s'
    \<and> (\<forall>k \<in> keys. get k s' = (case map_of (rev kvs) k of None \<Rightarrow> get k s | Some v \<Rightarrow> ret v))"
  using assms
proof (induction kvs arbitrary: s)
  case Nil
  then show ?case by simp
next
  case (Cons kv kvs)
  obtain k v where kv: "kv = (k, v)" by (cases kv)
  have "k \<in> keys" "0 < room s" using Cons.prems by (auto simp: kv)
  from put_get [OF Cons.prems(1) this, of v] obtain r s1 where
    p: "put k v s = ret (r, s1)" "ok s1" "room s \<le> Suc (room s1)"
    and g: "\<forall>k' \<in> keys. get k' s1 = (if k' = k then ret v else get k' s)" by blast
  have "length kvs \<le> room s1" using Cons.prems(3) p(3) by simp
  with Cons.IH [OF p(2)] Cons.prems(2) obtain s' where
    s': "puts put kvs s1 = ret s'" "ok s'"
    "\<forall>k \<in> keys. get k s' = (case map_of (rev kvs) k of None \<Rightarrow> get k s1 | Some v \<Rightarrow> ret v)" by auto
  then show ?case using p(1) g
    by (auto simp: kv map_add_def split: option.splits)
qed

end

end
