(* ===== verification/Hashmap.thy ===== *)
theory Hashmap
  imports Allocator Map_Store
begin

text \<open>
  The chained hash map of \<^verbatim>\<open>src/src/kernel/memory/hashmap.c\<close>. A bucket of the table holds the
  address of a chain of leaves (next leaf, key, data) that live in blocks of 64 bytes. The function
  pointers of the struct are the constructors of \<open>hash_fn\<close> and \<open>equal_fn\<close>.

  The lemmas abstract a bucket to the list of its leaves and show that \<open>hashmap_get\<close> is a lookup
  in that list, that \<open>hashmap_insert\<close> makes the new pair visible and changes no other key, and that
  \<open>hashmap_remove\<close> leaves the removed leaf in its chain.
\<close>

datatype hash_fn = Builtin_num_hash | Builtin_word_hash

datatype equal_fn = Builtin_num_equal | Builtin_word_equal

datatype hashmap_types = HASHMAP_TYPE_STR | HASHMAP_TYPE_NUMBER

record hashmap =
  hm_start :: u64
  hm_len :: u64
  hm_hash_function :: hash_fn
  hm_equal_function :: equal_fn

section \<open>Built-in hash and equality functions\<close>

definition builtin_num_hash :: "u64 \<Rightarrow> u64" where
  "builtin_num_hash key = key * 0x100000001b3"

definition builtin_num_equal :: "u64 \<Rightarrow> u64 \<Rightarrow> bool" where
  "builtin_num_equal first_key second_keys \<longleftrightarrow> first_key = second_keys"

partial_function (option) word_hash_from :: "mem \<Rightarrow> u64 \<Rightarrow> u64 \<Rightarrow> u64 \<Rightarrow> u64 run" where
  "word_hash_from m key i hash =
     (if ld8 m (key + i) \<noteq> 0
      then word_hash_from m key (i + 1) ((hash XOR ucast (ld8 m (key + i))) * 0x100000001b3)
      else ret hash)"

definition builtin_word_hash :: "mem \<Rightarrow> u64 \<Rightarrow> u64 run" where
  "builtin_word_hash m key = word_hash_from m key 0 0x3E4C3161C5E6354A"

partial_function (option) word_equal_from :: "mem \<Rightarrow> u64 \<Rightarrow> u64 \<Rightarrow> u64 \<Rightarrow> bool run" where
  "word_equal_from m first_key second_key i =
     (if ld8 m (first_key + i) \<noteq> 0 then
        if ld8 m (first_key + i) \<noteq> ld8 m (second_key + i) then ret False
        else word_equal_from m first_key second_key (i + 1)
      else ret (ld8 m (first_key + i) = ld8 m (second_key + i)))"

definition builtin_word_equal :: "mem \<Rightarrow> u64 \<Rightarrow> u64 \<Rightarrow> bool run" where
  "builtin_word_equal m first_key second_key = word_equal_from m first_key second_key 0"

text \<open>Calls through the function pointers of the struct.\<close>

fun call_hash :: "hash_fn \<Rightarrow> mem \<Rightarrow> u64 \<Rightarrow> u64 run" where
  "call_hash Builtin_num_hash m key = ret (builtin_num_hash key)"
| "call_hash Builtin_word_hash m key = builtin_word_hash m key"

fun call_equal :: "equal_fn \<Rightarrow> mem \<Rightarrow> u64 \<Rightarrow> u64 \<Rightarrow> bool run" where
  "call_equal Builtin_num_equal m a b = ret (builtin_num_equal a b)"
| "call_equal Builtin_word_equal m a b = builtin_word_equal m a b"

text \<open>The enumeration has two values, so the \<open>default\<close> branch of the switch is not reached.\<close>

fun hashmap_create :: "hashmap_types \<Rightarrow> hashmap \<Rightarrow> hashmap" where
  "hashmap_create HASHMAP_TYPE_STR h =
     h\<lparr>hm_equal_function := Builtin_word_equal, hm_hash_function := Builtin_word_hash\<rparr>"
| "hashmap_create HASHMAP_TYPE_NUMBER h =
     h\<lparr>hm_equal_function := Builtin_num_equal, hm_hash_function := Builtin_num_hash\<rparr>"

section \<open>Operations\<close>

text \<open>The index of a key; the remainder by an empty table has no meaning in C.\<close>

definition hashmap_index :: "hashmap \<Rightarrow> u64 \<Rightarrow> mem \<Rightarrow> u64 run" where
  "hashmap_index h key m =
     bindr (call_hash (hm_hash_function h) m key) (\<lambda>hash.
       if hm_len h = 0 then undef ''division by zero'' else ret (hash mod hm_len h))"

definition hashmap_insert ::
  "hashmap \<Rightarrow> u64 \<Rightarrow> u64 \<Rightarrow> 'a allocator_scheme \<Rightarrow> (u64 \<times> 'a allocator_scheme) run" where
  "hashmap_insert h key data s =
     bindr (hashmap_index h key (kmem s)) (\<lambda>index.
     bindr (mem_alloc 64 s) (\<lambda>(new_leaf, s).
       let s = set_at new_leaf 2 data s;
           s = set_at new_leaf 1 key s;
           s = set_at new_leaf 0 (at s (hm_start h) index) s;
           s = set_at (hm_start h) index new_leaf s
       in ret (0, s)))"

partial_function (option) hashmap_get_from ::
  "hashmap \<Rightarrow> u64 \<Rightarrow> 'a machine_scheme \<Rightarrow> u64 \<Rightarrow> u64 run" where
  "hashmap_get_from h key s current_leaf =
     (if current_leaf \<noteq> 0 then
        bindr (call_equal (hm_equal_function h) (kmem s) (at s current_leaf 1) key) (\<lambda>eq.
          if eq then ret (at s current_leaf 2) else hashmap_get_from h key s (at s current_leaf 0))
      else ret 0)"

definition hashmap_get :: "hashmap \<Rightarrow> u64 \<Rightarrow> 'a machine_scheme \<Rightarrow> u64 run" where
  "hashmap_get h key s =
     bindr (hashmap_index h key (kmem s)) (\<lambda>index. hashmap_get_from h key s (at s (hm_start h) index))"

partial_function (option) hashmap_remove_from ::
  "hashmap \<Rightarrow> u64 \<Rightarrow> 'a allocator_scheme \<Rightarrow> u64 \<Rightarrow> u64 \<Rightarrow> (u64 \<times> 'a allocator_scheme) run" where
  "hashmap_remove_from h key s current_leaf_parent_ptr current_leaf =
     (if current_leaf \<noteq> 0 then
        bindr (call_equal (hm_equal_function h) (kmem s) (at s current_leaf 1) key) (\<lambda>eq.
          if eq then
            bindr (mem_free current_leaf (set_at current_leaf_parent_ptr 0 (at s current_leaf 0) s))
              (\<lambda>(_, s). ret (at s current_leaf 2, s))
          else hashmap_remove_from h key s (at s current_leaf 0) (at s current_leaf 0))
      else ret (0, s))"

definition hashmap_remove ::
  "hashmap \<Rightarrow> u64 \<Rightarrow> 'a allocator_scheme \<Rightarrow> (u64 \<times> 'a allocator_scheme) run" where
  "hashmap_remove h key s =
     bindr (hashmap_index h key (kmem s)) (\<lambda>index.
       hashmap_remove_from h key s (at s (hm_start h) index) (at s (hm_start h) index))"

section \<open>Buckets as lists\<close>

text \<open>A chain of leaves: the addresses from the head to the null pointer.\<close>

primrec chain :: "'a machine_scheme \<Rightarrow> u64 \<Rightarrow> u64 list \<Rightarrow> bool" where
  "chain s a [] \<longleftrightarrow> a = 0"
| "chain s a (l # ls) \<longleftrightarrow> a = l \<and> l \<noteq> 0 \<and> chain s (at s l 0) ls"

definition leaf_pair :: "'a machine_scheme \<Rightarrow> u64 \<Rightarrow> u64 \<times> u64" where
  "leaf_pair s l = (at s l 1, at s l 2)"

definition leaf_cells :: "u64 \<Rightarrow> u64 set" where
  "leaf_cells l = cells l 3"

lemma leaf_cells_at: "i < 3 \<Longrightarrow> l + 8 * of_nat i \<in> leaf_cells l"
  unfolding leaf_cells_def cells_def by blast

lemma leaf_words:
  assumes "\<And>x. x \<in> leaf_cells l \<Longrightarrow> kmem s' x = kmem s x"
  shows "at s' l 0 = at s l 0" and "at s' l 1 = at s l 1" and "at s' l 2 = at s l 2"
  using assms leaf_cells_at [of 0 l] leaf_cells_at [of 1 l] leaf_cells_at [of 2 l] by (simp_all add: at_def)

lemma chain_cong:
  assumes "\<And>l x. l \<in> set ls \<Longrightarrow> x \<in> leaf_cells l \<Longrightarrow> kmem s' x = kmem s x"
  shows "chain s' a ls = chain s a ls" and "map (leaf_pair s') ls = map (leaf_pair s) ls"
proof -
  have w: "at s' l 0 = at s l 0" "leaf_pair s' l = leaf_pair s l" if "l \<in> set ls" for l
    using leaf_words [of l s' s] assms that by (auto simp: leaf_pair_def)
  then show "map (leaf_pair s') ls = map (leaf_pair s) ls" by simp
  show "chain s' a ls = chain s a ls" using w(1) by (induction ls arbitrary: a) auto
qed

text \<open>Lookup in a bucket of a map with number keys: the data of the first leaf with the key.\<close>

definition bucket_lookup :: "(u64 \<times> u64) list \<Rightarrow> u64 \<Rightarrow> u64" where
  "bucket_lookup ps key = (case map_of ps key of None \<Rightarrow> 0 | Some v \<Rightarrow> v)"

lemma bucket_lookup_Cons:
  "bucket_lookup (map (leaf_pair s) (l # ls)) key =
     (if at s l 1 = key then at s l 2 else bucket_lookup (map (leaf_pair s) ls) key)"
  by (auto simp: bucket_lookup_def leaf_pair_def)

lemma hashmap_get_from_chain:
  assumes "hm_equal_function h = Builtin_num_equal" and "chain s a ls"
  shows "hashmap_get_from h key s a = ret (bucket_lookup (map (leaf_pair s) ls) key)"
  using assms(2)
proof (induction ls arbitrary: a)
  case Nil
  then show ?case by (simp add: hashmap_get_from.simps bucket_lookup_def)
next
  case (Cons l ls)
  then show ?case using assms(1)
    by (subst hashmap_get_from.simps)
      (auto simp: builtin_num_equal_def bucket_lookup_Cons simp del: list.map)
qed

section \<open>Leaves in blocks\<close>

abbreviation leaf_at :: "'a allocator_scheme \<Rightarrow> nat \<Rightarrow> u64" where
  "leaf_at s b \<equiv> block_addr s 6 b"

lemma blocks_6 [simp]: "blocks 6 = 63"
  by (simp add: blocks_def)

lemma leaf_word: "leaf_at s b + 8 * of_nat k = data_page s 6 + 8 * of_nat (8 + 8 * b + k)"
  by (simp add: block_addr_def algebra_simps)

lemma at_leaf:
  fixes s s' :: "'a allocator_scheme"
  shows "at s' (leaf_at s b) (of_nat k) = at s' (data_page s 6) (of_nat (8 + 8 * b + k))"
  unfolding at_def [of s'] leaf_word ..

lemma set_at_leaf:
  fixes s s' :: "'a allocator_scheme"
  shows "set_at (leaf_at s b) (of_nat k) v s' = set_at (data_page s 6) (of_nat (8 + 8 * b + k)) v s'"
  unfolding set_at_def leaf_word ..

lemma unat_leaf_at:
  assumes "slab s 6" and "b < 63"
  shows "unat (leaf_at s b) = unat (data_page s 6) + 64 + 64 * b"
  using unat_block_addr(1) [OF assms(1)] assms(2) by simp

lemma leaf_at_nonzero: "slab s 6 \<Longrightarrow> b < 63 \<Longrightarrow> leaf_at s b \<noteq> 0"
  using unat_leaf_at [of s b] by (metis add_is_0 unat_0 zero_neq_numeral)

lemma leaf_at_inj:
  assumes "slab s 6" and "b < 63" and "b' < 63" and "leaf_at s b = leaf_at s b'"
  shows "b = b'"
proof -
  have "unat (data_page s 6) + 64 + 64 * b = unat (data_page s 6) + 64 + 64 * b'"
    using unat_leaf_at [OF assms(1,2)] unat_leaf_at [OF assms(1,3)] assms(4) by metis
  then show ?thesis by simp
qed

text \<open>A map with number keys whose leaves are blocks in use and whose table is a page of its own.\<close>

definition leaf_chain :: "'a allocator_scheme \<Rightarrow> u64 \<Rightarrow> nat list \<Rightarrow> bool" where
  "leaf_chain s a bs \<longleftrightarrow> chain s a (map (leaf_at s) bs) \<and> (\<forall>b \<in> set bs. b < 63 \<and> block_used s 6 b)"

definition hm_ok :: "hashmap \<Rightarrow> 'a allocator_scheme \<Rightarrow> bool" where
  "hm_ok h s \<longleftrightarrow> hm_hash_function h = Builtin_num_hash \<and> hm_equal_function h = Builtin_num_equal
     \<and> hm_len h = 512 \<and> slab s 6 \<and> hm_start h \<in> pager_live s
     \<and> hm_start h \<noteq> idx_page s 6 \<and> hm_start h \<noteq> data_page s 6
     \<and> (\<forall>i<512. \<exists>bs. leaf_chain s (at s (hm_start h) (of_nat i)) bs)"

text \<open>The four stores of \<open>hashmap_insert\<close> into the new leaf \<open>b\<close> and the bucket \<open>i\<close>.\<close>

definition link_leaf ::
  "hashmap \<Rightarrow> nat \<Rightarrow> u64 \<Rightarrow> u64 \<Rightarrow> u64 \<Rightarrow> 'a allocator_scheme \<Rightarrow> 'a allocator_scheme" where
  "link_leaf h i leaf key data s =
     (let s = set_at leaf 2 data s; s = set_at leaf 1 key s;
          s = set_at leaf 0 (at s (hm_start h) (of_nat i)) s
      in set_at (hm_start h) (of_nat i) leaf s)"

lemma link_leaf_effect:
  fixes key data :: u64
  assumes slab: "slab s 6" and T: "hm_start h \<in> pager_live s" "hm_start h \<noteq> idx_page s 6"
      "hm_start h \<noteq> data_page s 6"
    and b: "b < 63" and i: "i < 512"
  defines "s' \<equiv> link_leaf h i (leaf_at s b) key data s"
  shows "slab s' 6" and "idx_page s' 6 = idx_page s 6" and "data_page s' 6 = data_page s 6"
    and "pager_live s' = pager_live s" and "a < 63 \<Longrightarrow> block_used s' 6 a = block_used s 6 a"
    and "n < 512 \<Longrightarrow> at s' (hm_start h) (of_nat n) =
      (if n = i then leaf_at s b else at s (hm_start h) (of_nat n))"
    and "n < 512 \<Longrightarrow> at s' (data_page s 6) (of_nat n) =
      (if n = 8 + 8 * b then at s (hm_start h) (of_nat i) else if n = 9 + 8 * b then key
       else if n = 10 + 8 * b then data else at s (data_page s 6) (of_nat n))"
proof -
  let ?D = "data_page s 6" and ?T = "hm_start h"
  define s1 where "s1 = set_at ?D (of_nat (10 + 8 * b)) data s"
  define s2 where "s2 = set_at ?D (of_nat (9 + 8 * b)) key s1"
  define s3 where "s3 = set_at ?D (of_nat (8 + 8 * b)) (at s2 ?T (of_nat i)) s2"
  have s': "s' = set_at ?T (of_nat i) (leaf_at s b) s3"
    using set_at_leaf [of s b 2] set_at_leaf [of s b 1] set_at_leaf [of s b 0]
    by (simp add: s'_def link_leaf_def Let_def s1_def s2_def s3_def)
  have D: "?D \<in> pager_live s" "?D \<noteq> idx_page s 6" using slab by (simp_all add: slab_def)
  have j: "10 + 8 * b < 512" "9 + 8 * b < 512" "8 + 8 * b < 512" using b by simp_all
  note e1 = slab_set_at [OF slab D j(1), where v = data, folded s1_def]
  have s1: "slab s1 6" "idx_page s1 6 = idx_page s 6" "data_page s1 6 = ?D" "pager_live s1 = pager_live s"
    using e1 by auto
  note e2 = slab_set_at [of s1 6 ?D "9 + 8 * b", where v = key, folded s2_def]
  have s2: "slab s2 6" "idx_page s2 6 = idx_page s 6" "data_page s2 6 = ?D" "pager_live s2 = pager_live s"
    using e2 s1 D j by auto
  note e3 = slab_set_at [of s2 6 ?D "8 + 8 * b", where v = "at s2 ?T (of_nat i)", folded s3_def]
  have s3: "slab s3 6" "idx_page s3 6 = idx_page s 6" "data_page s3 6 = ?D" "pager_live s3 = pager_live s"
    using e3 s2 D j by auto
  note e4 = slab_set_at [of s3 6 ?T i, where v = "leaf_at s b", folded s']
  show "slab s' 6" "idx_page s' 6 = idx_page s 6" "data_page s' 6 = ?D" "pager_live s' = pager_live s"
    using e4 s3 T i by auto
  show "block_used s' 6 a = block_used s 6 a" if "a < 63"
    using e1(5) e2(5) e3(5) e4(5) s1 s2 s3 D j T i that by auto
  have T2: "at s2 ?T (of_nat n) = at s ?T (of_nat n)" if "n < 512" for n
    using e1(6) [OF _ T(1) that] e2(6) [of ?T n] s1 D j T that by auto
  show "at s' ?T (of_nat n) = (if n = i then leaf_at s b else at s ?T (of_nat n))" if "n < 512"
    using T2 [OF that] e3(6) [of ?T n] e4(6) [of ?T n] s2 s3 D j T i that by auto
  show "at s' ?D (of_nat n) =
      (if n = 8 + 8 * b then at s ?T (of_nat i) else if n = 9 + 8 * b then key
       else if n = 10 + 8 * b then data else at s ?D (of_nat n))" if "n < 512"
    using T2 [OF i] e1(6) [OF _ D(1) that] e2(6) [of ?D n] e3(6) [of ?D n] e4(6) [of ?D n] s1 s2 s3 D j T i that
    by auto
qed

section \<open>Insertion and lookup\<close>

definition bucket :: "u64 \<Rightarrow> nat" where
  "bucket key = unat (builtin_num_hash key) mod 512"

lemma bucket_lt [simp]: "bucket key < 512"
  by (simp add: bucket_def)

lemma hashmap_index_num:
  assumes "hm_hash_function h = Builtin_num_hash" and "hm_len h = 512"
  shows "hashmap_index h key m = ret (of_nat (bucket key))"
proof -
  have "builtin_num_hash key mod 512 = of_nat (bucket key)"
    unfolding word_unat_eq_iff unat_mod using unat_small [of "bucket key"] by (simp add: bucket_def)
  then show ?thesis using assms by (simp add: hashmap_index_def)
qed

definition bucket_pairs :: "'a allocator_scheme \<Rightarrow> nat list \<Rightarrow> (u64 \<times> u64) list" where
  "bucket_pairs s bs = map (leaf_pair s) (map (leaf_at s) bs)"

lemma bucket_pairs_Cons:
  "bucket_lookup (bucket_pairs s (b # bs)) key =
     (if at s (leaf_at s b) 1 = key then at s (leaf_at s b) 2 else bucket_lookup (bucket_pairs s bs) key)"
  using bucket_lookup_Cons [of s "leaf_at s b" "map (leaf_at s) bs" key] by (simp add: bucket_pairs_def)

lemma hashmap_get_bucket:
  assumes "hm_ok h s" and "leaf_chain s (at s (hm_start h) (of_nat (bucket key))) bs"
  shows "hashmap_get h key s = ret (bucket_lookup (bucket_pairs s bs) key)"
proof -
  have "hashmap_get_from h key s (at s (hm_start h) (of_nat (bucket key)))
      = ret (bucket_lookup (map (leaf_pair s) (map (leaf_at s) bs)) key)"
    using assms by (intro hashmap_get_from_chain) (simp_all add: hm_ok_def leaf_chain_def)
  moreover have "hashmap_index h key (kmem s) = ret (of_nat (bucket key))"
    using assms(1) hashmap_index_num by (simp add: hm_ok_def)
  ultimately show ?thesis by (simp add: hashmap_get_def bucket_pairs_def)
qed

lemma leaf_chain_keep:
  fixes s s' :: "'a allocator_scheme"
  assumes "data_page s' 6 = data_page s 6"
    and "\<And>b. b \<in> set bs \<Longrightarrow> block_used s' 6 b"
    and "\<And>b k. b \<in> set bs \<Longrightarrow> k < 3 \<Longrightarrow>
      at s' (data_page s 6) (of_nat (8 + 8 * b + k)) = at s (data_page s 6) (of_nat (8 + 8 * b + k))"
    and "leaf_chain s a bs"
  shows "leaf_chain s' a bs" and "bucket_pairs s' bs = bucket_pairs s bs"
proof -
  have la: "leaf_at s' b = leaf_at s b" for b using assms(1) by (simp add: block_addr_def)
  have w: "at s' (leaf_at s b) (of_nat k) = at s (leaf_at s b) (of_nat k)" if "b \<in> set bs" "k < 3" for b k
    unfolding at_leaf by (rule assms(3) [OF that])
  have "at s' (leaf_at s b) 0 = at s (leaf_at s b) 0" "leaf_pair s' (leaf_at s b) = leaf_pair s (leaf_at s b)"
    if "b \<in> set bs" for b
    using w [OF that, of 0] w [OF that, of 1] w [OF that, of 2] by (simp_all add: leaf_pair_def)
  note words = this
  then show "bucket_pairs s' bs = bucket_pairs s bs" by (simp add: bucket_pairs_def la)
  have "chain s' a (map (leaf_at s) bs)" if "chain s a (map (leaf_at s) bs)"
    using that words(1) by (induction bs arbitrary: a) auto
  then show "leaf_chain s' a bs" using assms(2,4) by (simp add: leaf_chain_def la)
qed

lemma hashmap_insert_link:
  assumes "hm_ok h s" and "b < 63" and "\<not> block_used s 6 b" and "\<And>a. a < b \<Longrightarrow> block_used s 6 a"
  shows "hashmap_insert h key data s =
    ret (0, link_leaf h (bucket key) (leaf_at (take_block s 6 b) b) key data (take_block s 6 b))"
proof -
  have slab: "slab s 6" using assms(1) by (simp add: hm_ok_def)
  have b: "b < blocks 6" using assms(2) by simp
  have "mem_alloc 64 s = ret (block_addr s 6 b, take_block s 6 b)"
    using fits_class_exp [of 6] by (intro mem_alloc_slab [OF slab _ _ b assms(3,4)]) simp_all
  moreover have "leaf_at (take_block s 6 b) b = leaf_at s b"
    using take_block_slab(2) [OF slab b] by (simp add: block_addr_def)
  moreover have "hashmap_index h key (kmem s) = ret (of_nat (bucket key))"
    using assms(1) hashmap_index_num by (simp add: hm_ok_def)
  ultimately show ?thesis by (simp add: hashmap_insert_def link_leaf_def Let_def)
qed

text \<open>The state after an insertion, word by word: the new leaf heads its chain, everything else stays.\<close>

lemma hashmap_insert_words:
  assumes "hm_ok h s" and "\<exists>b<63. \<not> block_used s 6 b"
  obtains b s' where "b < 63" and "\<not> block_used s 6 b" and "hashmap_insert h key data s = ret (0, s')"
    and "slab s' 6" and "data_page s' 6 = data_page s 6" and "idx_page s' 6 = idx_page s 6" and "pager_live s' = pager_live s"
    and "\<And>a. a < 63 \<Longrightarrow> block_used s' 6 a \<longleftrightarrow> block_used s 6 a \<or> a = b"
    and "\<And>n. n < 512 \<Longrightarrow> at s' (hm_start h) (of_nat n) =
      (if n = bucket key then leaf_at s' b else at s (hm_start h) (of_nat n))"
    and "\<And>n. n < 512 \<Longrightarrow> at s' (data_page s 6) (of_nat n) =
      (if n = 8 + 8 * b then at s (hm_start h) (of_nat (bucket key)) else if n = 9 + 8 * b then key
       else if n = 10 + 8 * b then data else at s (data_page s 6) (of_nat n))"
proof -
  define b where "b = (LEAST b. b < 63 \<and> \<not> block_used s 6 b)"
  have b: "b < 63" "\<not> block_used s 6 b" using LeastI_ex [OF assms(2)] by (simp_all add: b_def)
  have less: "block_used s 6 a" if "a < b" for a
    using not_less_Least [of a "\<lambda>b. b < 63 \<and> \<not> block_used s 6 b"] that b(1) by (auto simp: b_def)
  let ?T = "hm_start h" and ?D = "data_page s 6" and ?i = "bucket key"
  have hm: "hm_hash_function h = Builtin_num_hash" "hm_equal_function h = Builtin_num_equal" "hm_len h = 512"
    and slab: "slab s 6" and T: "?T \<in> pager_live s" "?T \<noteq> idx_page s 6" "?T \<noteq> ?D"
    and buckets: "\<And>i. i < 512 \<Longrightarrow> \<exists>bs. leaf_chain s (at s ?T (of_nat i)) bs"
    using assms(1) by (simp_all add: hm_ok_def)
  have D: "?D \<in> pager_live s" "?D \<noteq> idx_page s 6" using slab by (simp_all add: slab_def)
  have b6: "b < blocks 6" using b by simp
  define s1 where "s1 = take_block s 6 b"
  note t = take_block_slab [OF slab b6, folded s1_def]
  have at1: "at s1 q (of_nat n) = at s q (of_nat n)"
    if "q \<in> pager_live s" "q \<noteq> idx_page s 6" "n < 512" for q n
    unfolding at_def using t(4) [OF that(1,2)] that(3) by (auto simp: cells_def)
  define s' where "s' = link_leaf h ?i (leaf_at s1 b) key data s1"
  have ins: "hashmap_insert h key data s = ret (0, s')"
    using hashmap_insert_link [OF assms(1) b less] by (simp add: s'_def s1_def)
  have T1: "?T \<in> pager_live s1" "?T \<noteq> idx_page s1 6" "?T \<noteq> data_page s1 6" using T t(2,5,8) by simp_all
  note l = link_leaf_effect [OF t(1) T1 b(1) bucket_lt [of key], where key = key and data = data, folded s'_def]
  have used: "block_used s' 6 a \<longleftrightarrow> block_used s 6 a \<or> a = b" if "a < 63" for a
    using l(5) [OF that] t(3) [of a] that by simp
  have D': "data_page s' 6 = ?D" using l(3) t(2) by simp
  have T': "at s' ?T (of_nat n) = (if n = ?i then leaf_at s' b else at s ?T (of_nat n))" if "n < 512" for n
    using l(6) [OF that] at1 [OF T(1,2) that] D' t(2) by (simp add: block_addr_def)
  have Dw: "at s' ?D (of_nat n) = (if n = 8 + 8 * b then at s ?T (of_nat ?i) else if n = 9 + 8 * b then key
      else if n = 10 + 8 * b then data else at s ?D (of_nat n))" if "n < 512" for n
    using l(7) [OF that] at1 [OF T(1,2) bucket_lt] at1 [OF D that] t(2) by simp
  have l': "slab s' 6" "idx_page s' 6 = idx_page s 6" "pager_live s' = pager_live s" using l(1-4) t(5,8) by simp_all
  show thesis by (rule that [OF b ins l'(1) D' l'(2,3)]) (fact used T' Dw)+
qed

text \<open>The chains that were there keep their leaves.\<close>

lemma old_chain:
  fixes s s' :: "'a allocator_scheme"
  assumes c: "leaf_chain s a bs" and b: "b < 63" "\<not> block_used s 6 b" and D': "data_page s' 6 = data_page s 6"
    and used: "\<And>a. a < 63 \<Longrightarrow> block_used s' 6 a \<longleftrightarrow> block_used s 6 a \<or> a = b"
    and Dw: "\<And>n. n < 512 \<Longrightarrow> n \<notin> {8 + 8 * b, 9 + 8 * b, 10 + 8 * b} \<Longrightarrow>
      at s' (data_page s 6) (of_nat n) = at s (data_page s 6) (of_nat n)"
  shows "leaf_chain s' a bs \<and> bucket_pairs s' bs = bucket_pairs s bs"
proof -
  let ?D = "data_page s 6"
  have bs: "b' < 63 \<and> block_used s 6 b' \<and> b' \<noteq> b" if "b' \<in> set bs" for b'
    using c that b(2) by (auto simp: leaf_chain_def)
  have "at s' ?D (of_nat (8 + 8 * b' + k)) = at s ?D (of_nat (8 + 8 * b' + k))"
    if "b' \<in> set bs" "k < 3" for b' k
  proof (rule Dw)
    show "8 + 8 * b' + k < 512" using bs [OF that(1)] that(2) by simp
    have "b' < b \<or> b < b'" using bs [OF that(1)] by linarith
    then show "8 + 8 * b' + k \<notin> {8 + 8 * b, 9 + 8 * b, 10 + 8 * b}" using that(2) by (elim disjE) simp_all
  qed
  then show ?thesis using leaf_chain_keep [OF D' _ _ c] used bs by blast
qed

lemma hashmap_insert_get:
  assumes "hm_ok h s" and "\<exists>b<63. \<not> block_used s 6 b"
  shows "\<exists>s'. hashmap_insert h key data s = ret (0, s') \<and> hm_ok h s'
    \<and> (\<forall>k. hashmap_get h k s' = (if k = key then ret data else hashmap_get h k s))
    \<and> (\<exists>b<63. \<not> block_used s 6 b \<and> (\<forall>a<63. block_used s' 6 a \<longleftrightarrow> block_used s 6 a \<or> a = b))"
proof -
  let ?T = "hm_start h" and ?D = "data_page s 6" and ?i = "bucket key"
  have hm: "hm_hash_function h = Builtin_num_hash" "hm_equal_function h = Builtin_num_equal" "hm_len h = 512"
    and T: "?T \<in> pager_live s" "?T \<noteq> idx_page s 6" "?T \<noteq> ?D"
    and buckets: "\<And>i. i < 512 \<Longrightarrow> \<exists>bs. leaf_chain s (at s ?T (of_nat i)) bs"
    using assms(1) by (simp_all add: hm_ok_def)
  obtain b s' where b: "b < 63" "\<not> block_used s 6 b" and ins: "hashmap_insert h key data s = ret (0, s')"
    and s': "slab s' 6" and D': "data_page s' 6 = ?D" and idx: "idx_page s' 6 = idx_page s 6" "pager_live s' = pager_live s"
    and used: "\<And>a. a < 63 \<Longrightarrow> block_used s' 6 a \<longleftrightarrow> block_used s 6 a \<or> a = b"
    and T': "\<And>n. n < 512 \<Longrightarrow> at s' ?T (of_nat n) = (if n = ?i then leaf_at s' b else at s ?T (of_nat n))"
    and Dw: "\<And>n. n < 512 \<Longrightarrow> at s' ?D (of_nat n) = (if n = 8 + 8 * b then at s ?T (of_nat ?i) else if n = 9 + 8 * b then key
      else if n = 10 + 8 * b then data else at s ?D (of_nat n))"
    by (rule hashmap_insert_words [OF assms, of key data]) (rule that)
  have old: "leaf_chain s' a bs \<and> bucket_pairs s' bs = bucket_pairs s bs" if "leaf_chain s a bs" for a bs
    by (rule old_chain [OF that b D' used]) (use Dw in simp_all)
  have wb: "at s' (leaf_at s' b) 0 = at s ?T (of_nat ?i)" "at s' (leaf_at s' b) 1 = key"
    "at s' (leaf_at s' b) 2 = data"
    using Dw [of "8 + 8 * b"] Dw [of "9 + 8 * b"] Dw [of "10 + 8 * b"] b(1) D'
      at_leaf [of s' s' b 0] at_leaf [of s' s' b 1] at_leaf [of s' s' b 2] by simp_all
  have nz: "leaf_at s' b \<noteq> 0" using leaf_at_nonzero [OF s' b(1)] .
  obtain bs0 where bs0: "leaf_chain s (at s ?T (of_nat ?i)) bs0" using buckets bucket_lt by blast
  have new: "leaf_chain s' (at s' ?T (of_nat ?i)) (b # bs0)"
    using old [OF bs0] T' [OF bucket_lt, of key] wb(1) nz b(1) used [OF b(1)]
    by (simp add: leaf_chain_def)
  have "\<exists>bs. leaf_chain s' (at s' ?T (of_nat i)) bs" if "i < 512" for i
    using new old buckets [OF that] T' [OF that] by (cases "i = ?i") auto
  then have ok: "hm_ok h s'"
    using hm s' D' idx T by (simp add: hm_ok_def)
  have "hashmap_get h k s' = (if k = key then ret data else hashmap_get h k s)" for k
  proof (cases "bucket k = ?i")
    case True
    have "hashmap_get h k s' = ret (bucket_lookup (bucket_pairs s' (b # bs0)) k)"
      using hashmap_get_bucket [OF ok] new True by simp
    also have "bucket_lookup (bucket_pairs s' (b # bs0)) k
        = (if key = k then data else bucket_lookup (bucket_pairs s bs0) k)"
      using old [OF bs0] wb by (simp add: bucket_pairs_Cons)
    finally show ?thesis using hashmap_get_bucket [OF assms(1), of k bs0] bs0 True by simp
  next
    case False
    obtain bs where "leaf_chain s (at s ?T (of_nat (bucket k))) bs" using buckets bucket_lt by blast
    then show ?thesis
      using old hashmap_get_bucket [OF ok, of k bs] hashmap_get_bucket [OF assms(1), of k bs]
        T' [OF bucket_lt, of k] False by auto
  qed
  then show ?thesis using ins ok b used by blast
qed

text \<open>The number of leaves that still fit, and the map as a keyed store.\<close>

definition leaf_room :: "'a allocator_scheme \<Rightarrow> nat" where
  "leaf_room s = card {b. b < 63 \<and> \<not> block_used s 6 b}"

lemma leaf_room_pos: "0 < leaf_room s \<longleftrightarrow> (\<exists>b<63. \<not> block_used s 6 b)"
  by (auto simp: leaf_room_def card_gt_0_iff)

interpretation number_map: map_store "hashmap_insert h" "hashmap_get h" "hm_ok h" leaf_room UNIV for h
proof
  fix s :: "'a allocator_scheme" and k v
  assume ok: "hm_ok h s" and "0 < leaf_room s"
  then obtain s' b where s': "hashmap_insert h k v s = ret (0, s')" "hm_ok h s'"
    "\<forall>k'. hashmap_get h k' s' = (if k' = k then ret v else hashmap_get h k' s)"
    and b: "b < 63" "\<not> block_used s 6 b" "\<forall>a<63. block_used s' 6 a \<longleftrightarrow> block_used s 6 a \<or> a = b"
    using hashmap_insert_get [OF ok] leaf_room_pos [of s] by blast
  have "{b. b < 63 \<and> \<not> block_used s 6 b} = insert b {b. b < 63 \<and> \<not> block_used s' 6 b}" using b by auto
  then have "leaf_room s \<le> Suc (leaf_room s')"
    unfolding leaf_room_def by (simp add: card_insert_le_m1 card_insert_if)
  then show "\<exists>r s'. hashmap_insert h k v s = ret (r, s') \<and> hm_ok h s' \<and> leaf_room s \<le> Suc (leaf_room s')
      \<and> (\<forall>k' \<in> UNIV. hashmap_get h k' s' = (if k' = k then ret v else hashmap_get h k' s))"
    using s' by blast
qed

section \<open>Removal\<close>

text \<open>
  The pointer that \<open>hashmap_remove\<close> takes for the parent's link is the leaf itself, so the unlinking
  store writes a leaf's own link back, and the chain still starts at the leaf it has just freed.
\<close>

lemma hashmap_remove_head:
  assumes "hm_ok h s" and "leaf_chain s (at s (hm_start h) (of_nat (bucket key))) (b # bs)"
    and "at s (leaf_at s b) 1 = key"
  shows "hashmap_remove h key s = ret (at s (leaf_at s b) 2, drop_block s 6 b)"
    and "at (drop_block s 6 b) (hm_start h) (of_nat (bucket key)) = leaf_at s b"
    and "\<not> block_used (drop_block s 6 b) 6 b"
proof -
  have hm: "hm_hash_function h = Builtin_num_hash" "hm_equal_function h = Builtin_num_equal" "hm_len h = 512"
    and slab: "slab s 6" and T: "hm_start h \<in> pager_live s" "hm_start h \<noteq> idx_page s 6"
    using assms(1) by (simp_all add: hm_ok_def)
  have b: "b < blocks 6" "block_used s 6 b" "leaf_at s b \<noteq> 0"
    and head: "at s (hm_start h) (of_nat (bucket key)) = leaf_at s b"
    using assms(2) by (simp_all add: leaf_chain_def)
  have free: "mem_free (leaf_at s b) s = ret ((), drop_block s 6 b)"
    using mem_free_slab [OF slab b(1), of 0] b(2) by simp
  have "set_at (leaf_at s b) 0 (at s (leaf_at s b) 0) s = s"
    by (simp add: set_at_def at_def)
  note self = this
  note d = drop_block_slab [OF slab b(1)]
  have D: "data_page s 6 \<in> pager_live s" "data_page s 6 \<noteq> idx_page s 6" using slab by (simp_all add: slab_def)
  have keep: "at (drop_block s 6 b) q (of_nat n) = at s q (of_nat n)"
    if "q \<in> pager_live s" "q \<noteq> idx_page s 6" "n < 512" for q n
    unfolding at_def using d(4) [OF that(1,2)] that(3) by (auto simp: cells_def)
  have "8 + 8 * b + 2 < 512" using b(1) by simp
  from keep [OF D this] have data: "at (drop_block s 6 b) (leaf_at s b) 2 = at s (leaf_at s b) 2"
    using at_leaf [of "drop_block s 6 b" s b 2] at_leaf [of s s b 2] by simp
  have "hashmap_remove_from h key s (leaf_at s b) (leaf_at s b) = ret (at s (leaf_at s b) 2, drop_block s 6 b)"
    by (subst hashmap_remove_from.simps)
      (simp add: b(3) hm assms(3) builtin_num_equal_def self free data)
  then show "hashmap_remove h key s = ret (at s (leaf_at s b) 2, drop_block s 6 b)"
    using hashmap_index_num [OF hm(1,3), of key] head by (simp add: hashmap_remove_def)
  show "at (drop_block s 6 b) (hm_start h) (of_nat (bucket key)) = leaf_at s b"
    using keep [OF T bucket_lt] head by simp
  show "\<not> block_used (drop_block s 6 b) 6 b" using d(3) [OF b(1)] by simp
qed

section \<open>Properties\<close>

text \<open>
  C12. A sequence of \<open>hashmap_insert\<close>s into a map with number keys, no longer than the free blocks in
  the first data page of the leaf class: every insertion returns, the map stays well formed, and
  \<open>hashmap_get\<close> then returns, for every key, the data inserted last under it, or what it returned
  before when the key was not inserted.
\<close>

theorem hashmap_insert_sound:
  assumes "hm_ok h s" and "length kvs \<le> leaf_room s"
  shows "\<exists>s'. puts (hashmap_insert h) kvs s = ret s' \<and> hm_ok h s'
    \<and> (\<forall>k. hashmap_get h k s' = (case map_of (rev kvs) k of None \<Rightarrow> hashmap_get h k s | Some v \<Rightarrow> ret v))"
  using number_map.puts_get [OF assms(1) _ assms(2)] by simp

text \<open>An empty map: the 64-byte class after its first allocation, and a fresh page as table.\<close>

lemma demo_hashmap:
  obtains h :: hashmap and s :: allocator where "hm_ok h s" and "\<exists>b<63. \<not> block_used s 6 b"
proof -
  have "(6 :: nat) \<le> 11" by simp
  from demo_first [OF this] obtain s :: allocator
    where slab: "slab s 6" and used: "\<And>b. b < blocks 6 \<Longrightarrow> block_used s 6 b \<longleftrightarrow> b = 0"
      and free: "190 \<le> card (pager_pool s - pager_live s)" by metis
  have inv: "pager_inv s" and idx: "idx_page s 6 \<in> pager_live s" and D: "data_page s 6 \<in> pager_live s"
    "data_page s 6 \<noteq> idx_page s 6"
    using slab by (simp_all add: slab_def)
  have "0 < card (pager_pool s - pager_live s)" using free by simp
  from alloc_enough [OF inv this] obtain T s1 where a: "pg_alloc s = ret (T, s1)" and i1: "pager_inv s1"
    and T: "T \<notin> pager_live s" "pager_live s1 = insert T (pager_live s)" by metis
  note keep = pg_alloc_keeps_allocator [OF a]
  have at1: "at s1 q (of_nat n) = at s q (of_nat n)" if "q \<in> pager_live s" "n < 512" for q n
    by (rule at_pg_alloc(2) [OF inv a that(2,1)])
  have idx1: "idx_page s1 6 = idx_page s 6" by (simp add: keep)
  have D1: "data_page s1 6 = data_page s 6" using at1 [OF idx, of 1] unfolding idx1 by simp
  have "slab s1 6"
    using slab at1 [OF D(1), of 0] at1 [OF D(1), of 1] at1 [OF D(1), of 2] i1 T(2)
    unfolding slab_def idx1 D1 [unfolded idx1] by (simp add: keep)
  moreover have "leaf_chain s1 (at s1 T (of_nat i)) []" if "i < 512" for i
    using at_pg_alloc(1) [OF inv a that] by (simp add: leaf_chain_def)
  ultimately have "hm_ok \<lparr>hm_start = T, hm_len = 512, hm_hash_function = Builtin_num_hash,
      hm_equal_function = Builtin_num_equal\<rparr> s1"
    using T idx D(1) idx1 D1 by (auto simp: hm_ok_def)
  moreover have "\<not> block_used s1 6 1"
    using used [of 1] at1 [OF idx, of 2] unfolding block_used_def idx1 by simp
  ultimately show ?thesis using that [of _ s1] by (metis one_less_numeral_iff semiring_norm(77))
qed

theorem hashmap_insert_sound_witness:
  "\<exists>h (s :: allocator) s'. hm_ok h s \<and> puts (hashmap_insert h) [(7, 42)] s = ret s'
     \<and> hashmap_get h 7 s' = ret 42"
proof -
  obtain h and s :: allocator where hs: "hm_ok h s" "\<exists>b<63. \<not> block_used s 6 b"
    by (rule demo_hashmap)
  have "length [(7 :: u64, 42 :: u64)] \<le> leaf_room s" using leaf_room_pos [of s] hs(2) by simp
  from hashmap_insert_sound [OF hs(1) this] obtain s' where
    "puts (hashmap_insert h) [(7, 42)] s = ret s'" "hashmap_get h 7 s' = ret 42" by auto
  then show ?thesis using hs(1) by blast
qed

text \<open>
  Removing the key at the head of a bucket returns its data and frees its block, but the bucket
  still starts at the freed leaf: the map keeps a dangling pointer.
\<close>

theorem hashmap_remove_dangles:
  assumes "hm_ok h s" and "leaf_chain s (at s (hm_start h) (of_nat (bucket key))) (b # bs)"
    and "at s (leaf_at s b) 1 = key"
  shows "\<exists>s'. hashmap_remove h key s = ret (at s (leaf_at s b) 2, s')
    \<and> at s' (hm_start h) (of_nat (bucket key)) = leaf_at s b \<and> \<not> block_used s' 6 b"
  using hashmap_remove_head [OF assms] by blast

end
