(* ===== verification/Radix.thy ===== *)
theory Radix
  imports Allocator Map_Store
begin

text \<open>
  The radix tree of \<^verbatim>\<open>src/src/kernel/memory/radix.c\<close>: nodes of \<open>2 ^ depth_size\<close> words in blocks of
  the block allocator, \<open>depth\<close> levels, a null word for a missing subtree. Shifts by the width of the
  type or more have no meaning in C.

  That a tree whose nodes are blocks of one class without sharing behaves as a map is shown in
  \<open>Radix_Map\<close>.
\<close>

definition radix_mask :: "nat \<Rightarrow> u64" where
  "radix_mask depth_size = push_bit depth_size 1 - 1"

text \<open>The loop of \<open>radix_get\<close> with \<open>d\<close> levels to go.\<close>

primrec radix_get_from :: "nat \<Rightarrow> nat \<Rightarrow> u64 \<Rightarrow> u64 \<Rightarrow> 'a machine_scheme \<Rightarrow> u64" where
  "radix_get_from 0 depth_size key addr_table s = addr_table"
| "radix_get_from (Suc d) depth_size key addr_table s =
     (let level_postion = drop_bit (d * depth_size) key AND radix_mask depth_size;
          next = at s addr_table level_postion
      in if next = 0 then 0 else radix_get_from d depth_size key next s)"

definition radix_get :: "u64 \<Rightarrow> u64 \<Rightarrow> nat \<Rightarrow> nat \<Rightarrow> 'a machine_scheme \<Rightarrow> u64 run" where
  "radix_get addr key depth depth_size s =
     (if depth_size \<ge> 64 \<or> (depth - 1) * depth_size \<ge> 64 then undef ''shift''
      else ret (radix_get_from depth depth_size key addr s))"

text \<open>A cleared node.\<close>

definition radix_new_node :: "nat \<Rightarrow> 'a allocator_scheme \<Rightarrow> (u64 \<times> 'a allocator_scheme) run" where
  "radix_new_node depth_size s =
     (let node_size = push_bit depth_size 1 * 8
      in bindr (mem_alloc node_size s) (\<lambda>(new_node, s).
           ret (new_node, s\<lparr>kmem := zero_cells (unat (node_size div 8)) new_node (kmem s)\<rparr>)))"

text \<open>The descent of \<open>radix_insert\<close> with \<open>d\<close> levels to go, creating the nodes on the way.\<close>

primrec radix_descend ::
  "nat \<Rightarrow> nat \<Rightarrow> u64 \<Rightarrow> u64 \<Rightarrow> 'a allocator_scheme \<Rightarrow> (u64 \<times> 'a allocator_scheme) run" where
  "radix_descend 0 depth_size key addr_table s = ret (addr_table, s)"
| "radix_descend (Suc d) depth_size key addr_table s =
     (let idx = drop_bit (Suc d * depth_size) key AND radix_mask depth_size
      in bindr (if at s addr_table idx = 0 then
                  bindr (radix_new_node depth_size s) (\<lambda>(new_node, s).
                    ret ((), set_at addr_table idx new_node s))
                else ret ((), s)) (\<lambda>(_, s).
         radix_descend d depth_size key (at s addr_table idx) s))"

definition radix_insert ::
  "u64 \<Rightarrow> u64 \<Rightarrow> u64 \<Rightarrow> nat \<Rightarrow> nat \<Rightarrow> 'a allocator_scheme \<Rightarrow> (u64 \<times> 'a allocator_scheme) run" where
  "radix_insert addr key child_addr depth depth_size s =
     (if depth_size * depth \<ge> 64 \<or> depth_size \<ge> 64 then undef ''shift''
      else if key \<ge> push_bit (depth_size * depth) 1 then
        panic ''addr_KEY_LARGER_THEN_RADIX'' key (of_nat depth) (of_nat depth_size)
      else
        bindr (radix_descend (depth - 1) depth_size key addr s) (\<lambda>(addr_table, s).
          let idx = key AND radix_mask depth_size;
              old_addr = at s addr_table idx
          in ret (old_addr, set_at addr_table idx child_addr s)))"

primrec radix_delete ::
  "nat \<Rightarrow> u64 \<Rightarrow> bool \<Rightarrow> nat \<Rightarrow> 'a allocator_scheme \<Rightarrow> (unit \<times> 'a allocator_scheme) run" where
  "radix_delete 0 addr remove_leaves depth_size s =
     (if remove_leaves then
        for_each [0..<2 ^ depth_size]
          (\<lambda>i s. if at s addr (of_nat i) > 0 then mem_free (at s addr (of_nat i)) s else ret ((), s)) s
      else ret ((), s))"
| "radix_delete (Suc d) addr remove_leaves depth_size s =
     (if d \<ge> 1 then
        for_each [0..<2 ^ depth_size]
          (\<lambda>i s. if at s addr (of_nat i) > 0 then
                   bindr (radix_delete d (at s addr (of_nat i)) remove_leaves depth_size s) (\<lambda>(_, s').
                     mem_free (at s addr (of_nat i)) s')
                 else ret ((), s)) s
      else if remove_leaves then
        for_each [0..<2 ^ depth_size]
          (\<lambda>i s. if at s addr (of_nat i) > 0 then mem_free (at s addr (of_nat i)) s else ret ((), s)) s
      else ret ((), s))"

text \<open>The walk of \<open>radix_remove\<close>: the last table on the path, or none when a node is missing.\<close>

primrec radix_find :: "nat \<Rightarrow> nat \<Rightarrow> u64 \<Rightarrow> u64 \<Rightarrow> 'a machine_scheme \<Rightarrow> u64 option" where
  "radix_find 0 depth_size key addr_table s = Some addr_table"
| "radix_find (Suc d) depth_size key addr_table s =
     (let idx = drop_bit (Suc d * depth_size) key AND radix_mask depth_size
      in if at s addr_table idx = 0 then None
         else radix_find d depth_size key (at s addr_table idx) s)"

text \<open>The return type is \<open>bool8\<close>, an unsigned byte, so the old address is cut to its low byte.\<close>

definition radix_remove ::
  "u64 \<Rightarrow> u64 \<Rightarrow> nat \<Rightarrow> nat \<Rightarrow> 'a machine_scheme \<Rightarrow> (u8 \<times> 'a machine_scheme) run" where
  "radix_remove addr key depth depth_size s =
     (if depth_size \<ge> 64 \<or> (depth - 1) * depth_size \<ge> 64 then undef ''shift''
      else case radix_find (depth - 1) depth_size key addr s of
        None \<Rightarrow> ret (0, s)
      | Some addr_table \<Rightarrow>
          let idx = key AND radix_mask depth_size;
              old_addr = at s addr_table idx
          in ret (ucast old_addr, set_at addr_table idx 0 s))"

definition radix_create :: "nat \<Rightarrow> 'a allocator_scheme \<Rightarrow> (u64 \<times> 'a allocator_scheme) run" where
  "radix_create level_depth s = radix_new_node level_depth s"

text \<open>The callback is an argument: what it does to the state is up to the caller.\<close>

primrec radix_iter ::
  "nat \<Rightarrow> u64 \<Rightarrow> nat \<Rightarrow> u64 \<Rightarrow> (u64 \<Rightarrow> u64 \<Rightarrow> 'a machine_scheme \<Rightarrow> (unit \<times> 'a machine_scheme) run) \<Rightarrow>
     'a machine_scheme \<Rightarrow> (unit \<times> 'a machine_scheme) run" where
  "radix_iter 0 addr depth_size parameters f s =
     for_each [0..<2 ^ depth_size]
       (\<lambda>i s. if at s addr (of_nat i) > 0 then f (at s addr (of_nat i)) parameters s else ret ((), s)) s"
| "radix_iter (Suc d) addr depth_size parameters f s =
     for_each [0..<2 ^ depth_size]
       (\<lambda>i s. if at s addr (of_nat i) > 0 then
                if d \<ge> 1 then radix_iter d (at s addr (of_nat i)) depth_size parameters f s
                else f (at s addr (of_nat i)) parameters s
              else ret ((), s)) s"

end
