(* ===== verification/Radix_Map.thy ===== *)
theory Radix_Map
  imports Radix
begin

text \<open>
  The radix tree as a map. A tree is described by the nodes that a path of digits reaches from its root
  (\<open>walk\<close>): every node is a block in use of one class, and no two paths share a node (\<open>radix_ok\<close>).
  Setting a word of a node changes the paths through that word only (\<open>tree_set\<close>, \<open>tree_put\<close>), linking
  a cleared node changes no value (\<open>tree_grow\<close>), and \<open>radix_get\<close> and \<open>radix_insert\<close> are walks along the
  digits of the key. The tree then is an interpretation of the interface of a map (\<open>map_store\<close>), as
  long as the class has blocks left for the nodes an insertion may need (\<open>radix_room\<close>).
\<close>

section \<open>Nodes\<close>

text \<open>A node of a tree with \<open>m\<close> bits for each level is a block of class \<open>m + 3\<close>.\<close>

abbreviation node_at :: "nat \<Rightarrow> 'a allocator_scheme \<Rightarrow> nat \<Rightarrow> u64" where
  "node_at m s b \<equiv> block_addr s (m + 3) b"

definition node :: "nat \<Rightarrow> 'a allocator_scheme \<Rightarrow> u64 \<Rightarrow> bool" where
  "node m s x \<longleftrightarrow> (\<exists>b<blocks (m + 3). x = node_at m s b \<and> block_used s (m + 3) b)"

lemma node_word: "node_at m s b + 8 * of_nat k = data_page s (m + 3) + 8 * of_nat (8 + 2 ^ m * b + k)"
  by (simp add: block_addr_def power_add algebra_simps)

lemma at_node:
  fixes s s' :: "'a allocator_scheme"
  shows "at s' (node_at m s b) (of_nat k) = at s' (data_page s (m + 3)) (of_nat (8 + 2 ^ m * b + k))"
    and "set_at (node_at m s b) (of_nat k) v s' = set_at (data_page s (m + 3)) (of_nat (8 + 2 ^ m * b + k)) v s'"
  unfolding at_def [of s'] set_at_def node_word by (rule refl)+

lemma node_index_lt:
  assumes "b < blocks (m + 3)" and "k < 2 ^ m"
  shows "8 + 2 ^ m * b + k < 512"
proof -
  have "2 ^ (m + 3) * (b + 1) \<le> 2 ^ (m + 3) * blocks (m + 3)"
    using assms(1) by (intro mult_le_mono2) simp
  also have "\<dots> \<le> 4032" unfolding blocks_def by (rule times_div_less_eq_dividend)
  finally have "8 * (2 ^ m * b + 2 ^ m) \<le> 4032" by (simp add: power_add algebra_simps)
  then show ?thesis using assms(2) by simp
qed

lemma node_index_inj:
  assumes "8 + 2 ^ m * b + k = 8 + 2 ^ m * b' + (k' :: nat)" and "k < 2 ^ m" and "k' < 2 ^ m"
  shows "b = b' \<and> k = k'"
proof -
  have e: "2 ^ m * b + k = 2 ^ m * b' + k'" using assms(1) by simp
  have "(2 ^ m * b + k) div 2 ^ m = b" "(2 ^ m * b' + k') div 2 ^ m = b'" using assms(2,3) by simp_all
  then have "b = b'" using e by simp
  then show ?thesis using e by simp
qed

lemma node_nonzero: "slab s (m + 3) \<Longrightarrow> b < blocks (m + 3) \<Longrightarrow> node_at m s b \<noteq> 0"
  using unat_block_addr(1) [of s "m + 3" b] by (metis add_is_0 unat_0 zero_neq_numeral)

lemma node_inj:
  assumes "slab s (m + 3)" and "b < blocks (m + 3)" and "b' < blocks (m + 3)" and "node_at m s b = node_at m s b'"
  shows "b = b'"
proof -
  have "unat (data_page s (m + 3)) + 64 + 2 ^ (m + 3) * b = unat (data_page s (m + 3)) + 64 + 2 ^ (m + 3) * b'"
    using unat_block_addr(1) [OF assms(1,2)] unat_block_addr(1) [OF assms(1,3)] assms(4) by metis
  then show ?thesis by simp
qed

lemma set_node:
  fixes v :: u64
  assumes sl: "slab s (m + 3)" and b: "b < blocks (m + 3)" and k: "k < 2 ^ m"
  defines "s' \<equiv> set_at (node_at m s b) (of_nat k) v s"
  shows "slab s' (m + 3)" and "data_page s' (m + 3) = data_page s (m + 3)"
    and "a < blocks (m + 3) \<Longrightarrow> block_used s' (m + 3) a = block_used s (m + 3) a"
    and "b' < blocks (m + 3) \<Longrightarrow> j < 2 ^ m \<Longrightarrow>
      at s' (node_at m s b') (of_nat j) = (if b = b' \<and> k = j then v else at s (node_at m s b') (of_nat j))"
proof -
  have D: "data_page s (m + 3) \<in> pager_live s" "data_page s (m + 3) \<noteq> idx_page s (m + 3)" using sl by (simp_all add: slab_def)
  have i: "3 \<le> 8 + 2 ^ m * b + k" by simp
  note e = slab_set_at [OF sl D node_index_lt [OF b k] i, where v = v, folded at_node(2) s'_def]
  show "slab s' (m + 3)" "data_page s' (m + 3) = data_page s (m + 3)" by (rule e)+
  show "a < blocks (m + 3) \<Longrightarrow> block_used s' (m + 3) a = block_used s (m + 3) a" by (rule e)
  show "at s' (node_at m s b') (of_nat j) = (if b = b' \<and> k = j then v else at s (node_at m s b') (of_nat j))"
    if "b' < blocks (m + 3)" "j < 2 ^ m"
    unfolding at_node using e(6) [OF D(1) node_index_lt [OF that]] node_index_inj [of m b k b' j] k that(2) by auto
qed

text \<open>Clearing a node.\<close>

lemma clear_node:
  assumes sl: "slab s (m + 3)" and b: "b < blocks (m + 3)" and n: "n \<le> 2 ^ m"
  defines "s' \<equiv> s\<lparr>kmem := zero_cells n (node_at m s b) (kmem s)\<rparr>"
  shows "slab s' (m + 3) \<and> data_page s' (m + 3) = data_page s (m + 3)
    \<and> (\<forall>a<blocks (m + 3). block_used s' (m + 3) a = block_used s (m + 3) a)
    \<and> (\<forall>b'<blocks (m + 3). \<forall>j<2 ^ m. at s' (node_at m s b') (of_nat j) =
         (if b = b' \<and> j < n then 0 else at s (node_at m s b') (of_nat j)))"
  using n unfolding s'_def
proof (induction n)
  case 0
  then show ?case using sl by simp
next
  case (Suc n)
  define s1 where "s1 = s\<lparr>kmem := zero_cells n (node_at m s b) (kmem s)\<rparr>"
  have IH: "slab s1 (m + 3)" "data_page s1 (m + 3) = data_page s (m + 3)"
    "\<And>a. a < blocks (m + 3) \<Longrightarrow> block_used s1 (m + 3) a = block_used s (m + 3) a"
    "\<And>b' j. b' < blocks (m + 3) \<Longrightarrow> j < 2 ^ m \<Longrightarrow> at s1 (node_at m s b') (of_nat j) =
       (if b = b' \<and> j < n then 0 else at s (node_at m s b') (of_nat j))"
    using Suc unfolding s1_def by auto
  have nd: "node_at m s1 x = node_at m s x" for x using IH(2) by (simp add: block_addr_def)
  have n: "n < 2 ^ m" using Suc.prems by simp
  define s2 where "s2 = set_at (node_at m s1 b) (of_nat n) 0 s1"
  have s2: "s\<lparr>kmem := zero_cells (Suc n) (node_at m s b) (kmem s)\<rparr> = s2"
    unfolding s2_def nd by (simp add: set_at_def s1_def)
  note e = set_node [OF IH(1) b n, where v = 0, folded s2_def, unfolded nd]
  have "at s2 (node_at m s b') (of_nat j) = (if b = b' \<and> j < Suc n then 0 else at s (node_at m s b') (of_nat j))"
    if "b' < blocks (m + 3)" "j < 2 ^ m" for b' j
    using e(4) [OF that] IH(4) [OF that] by (auto simp: less_Suc_eq)
  then show ?case unfolding s2 using e(1-3) IH(2,3) by simp
qed

definition free_nodes :: "nat \<Rightarrow> 'a allocator_scheme \<Rightarrow> nat set" where
  "free_nodes m s = {b. b < blocks (m + 3) \<and> \<not> block_used s (m + 3) b}"

lemma new_node:
  assumes m: "m \<le> 8" and sl: "slab s (m + 3)" and free: "free_nodes m s \<noteq> {}"
  obtains b s' where "b \<in> free_nodes m s" and "radix_new_node m s = ret (node_at m s b, s')" and "slab s' (m + 3)"
    and "data_page s' (m + 3) = data_page s (m + 3)" and "free_nodes m s' = free_nodes m s - {b}"
    and "\<And>b' j. b' < blocks (m + 3) \<Longrightarrow> j < 2 ^ m \<Longrightarrow>
      at s' (node_at m s b') (of_nat j) = (if b = b' then 0 else at s (node_at m s b') (of_nat j))"
proof -
  have sz: "push_bit m 1 * 8 = (2 ^ (m + 3) :: u64)" by (simp add: push_bit_eq_mult power_add)
  have c: "m + 3 \<le> 11" using m by simp
  note cn = class_numbers [OF c]
  have "fits_class (unat (2 ^ (m + 3) :: u64)) (m + 3)" unfolding cn(1) by (rule fits_class_exp)
  from mem_alloc_block [OF sl cn(3) this] free obtain b where b: "b < blocks (m + 3)" "\<not> block_used s (m + 3) b"
    "mem_alloc (2 ^ (m + 3)) s = ret (node_at m s b, take_block s (m + 3) b)"
    by (auto simp: free_nodes_def)
  define s1 where "s1 = take_block s (m + 3) b"
  note t = take_block_slab [OF sl b(1), folded s1_def]
  have nd: "node_at m s1 x = node_at m s x" for x using t(2) by (simp add: block_addr_def)
  have D: "data_page s (m + 3) \<in> pager_live s" "data_page s (m + 3) \<noteq> idx_page s (m + 3)" using sl by (simp_all add: slab_def)
  have page: "at s1 (data_page s (m + 3)) (of_nat n) = at s (data_page s (m + 3)) (of_nat n)" if "n < 512" for n
    unfolding at_def [of s1 "data_page s (m + 3)"] at_def [of s "data_page s (m + 3)"]
    by (rule t(4) [OF D]) (use that in \<open>auto simp: cells_def\<close>)
  have keep: "at s1 (node_at m s b') (of_nat j) = at s (node_at m s b') (of_nat j)" if "b' < blocks (m + 3)" "j < 2 ^ m" for b' j
    unfolding at_node by (rule page [OF node_index_lt [OF that]])
  have u: "unat (2 ^ (m + 3) div 8 :: u64) = 2 ^ m" using cn(1) by (simp add: unat_div power_add)
  define s' where "s' = s1\<lparr>kmem := zero_cells (2 ^ m) (node_at m s1 b) (kmem s1)\<rparr>"
  note cl = clear_node [OF t(1) b(1) order_refl, folded s'_def]
  have run: "radix_new_node m s = ret (node_at m s b, s')"
    unfolding radix_new_node_def Let_def sz b(3) s1_def [symmetric] u by (simp add: s'_def nd)
  have "free_nodes m s' = free_nodes m s - {b}" using cl t(3) by (auto simp: free_nodes_def)
  moreover have "at s' (node_at m s b') (of_nat j) = (if b = b' then 0 else at s (node_at m s b') (of_nat j))"
    if "b' < blocks (m + 3)" "j < 2 ^ m" for b' j
    using cl keep [OF that] that unfolding nd by auto
  ultimately show ?thesis using that [of b s'] b(1,2) run cl t(2) by (simp add: free_nodes_def)
qed

section \<open>Paths\<close>

definition radix_step :: "'a machine_scheme \<Rightarrow> u64 \<Rightarrow> nat \<Rightarrow> u64" where
  "radix_step s x j = (if x = 0 then 0 else at s x (of_nat j))"

definition walk :: "'a machine_scheme \<Rightarrow> u64 \<Rightarrow> nat list \<Rightarrow> u64" where
  "walk s a p = foldl (radix_step s) a p"

lemma walk_simps [simp]:
  "walk s a [] = a" "walk s a (p @ [j]) = radix_step s (walk s a p) j" "walk s a (j # p) = walk s (radix_step s a j) p"
  "radix_step s 0 j = 0"
  by (simp_all add: walk_def radix_step_def)

lemma walk_append: "walk s a (p @ q) = walk s (walk s a p) q"
  by (simp add: walk_def)

lemma walk_zero [simp]: "walk s 0 p = 0"
  by (induction p) simp_all

text \<open>The paths to nodes, and a tree: its nodes are blocks in use, and no two paths share one.\<close>

definition paths :: "nat \<Rightarrow> nat \<Rightarrow> nat list set" where
  "paths m d = {p. length p < d \<and> set p \<subseteq> {..<2 ^ m}}"

definition radix_ok :: "nat \<Rightarrow> nat \<Rightarrow> u64 \<Rightarrow> 'a allocator_scheme \<Rightarrow> bool" where
  "radix_ok m d a s \<longleftrightarrow> m \<le> 8 \<and> 0 < d \<and> m * d < 64 \<and> slab s (m + 3) \<and> a \<noteq> 0
     \<and> (\<forall>p \<in> paths m d. walk s a p \<noteq> 0 \<longrightarrow> node m s (walk s a p))
     \<and> (\<forall>p \<in> paths m d. \<forall>q \<in> paths m d. walk s a p \<noteq> 0 \<and> walk s a p = walk s a q \<longrightarrow> p = q)"

text \<open>One word of a node changes: only the paths through it do.\<close>

lemma walk_set:
  assumes ok: "radix_ok m d a s" and p: "p \<in> paths m d" "walk s a p \<noteq> 0"
    and eq: "\<And>q j. q \<in> paths m d \<Longrightarrow> walk s a q \<noteq> 0 \<Longrightarrow> j < 2 ^ m \<Longrightarrow>
      at s' (walk s a q) (of_nat j) = (if q = p \<and> j = i then v else at s (walk s a q) (of_nat j))"
    and q: "length q \<le> d" "set q \<subseteq> {..<2 ^ m}" "\<not> (\<exists>r. q = p @ i # r)"
  shows "walk s' a q = walk s a q"
  using q
proof (induction q rule: rev_induct)
  case Nil
  show ?case by simp
next
  case (snoc j q)
  have q: "q \<in> paths m d" "j < 2 ^ m" using snoc.prems by (auto simp: paths_def)
  have "\<not> (\<exists>r. q = p @ i # r)" using snoc.prems(3) by auto
  then have IH: "walk s' a q = walk s a q" using snoc by simp
  show ?case
  proof (cases "walk s a q = 0")
    case False
    have "\<not> (q = p \<and> j = i)" using snoc.prems(3) by auto
    then show ?thesis using eq [OF q(1) False q(2)] False IH by (auto simp: radix_step_def)
  qed (simp add: IH)
qed

lemma radix_okD:
  assumes "radix_ok m d a s"
  shows "m \<le> 8" "0 < d" "m * d < 64" "slab s (m + 3)" "a \<noteq> 0"
    and "p \<in> paths m d \<Longrightarrow> walk s a p \<noteq> 0 \<Longrightarrow> node m s (walk s a p)"
    and "p \<in> paths m d \<Longrightarrow> q \<in> paths m d \<Longrightarrow> walk s a p \<noteq> 0 \<Longrightarrow> walk s a p = walk s a q \<Longrightarrow> p = q"
  using assms by (auto simp: radix_ok_def)

text \<open>Setting a word of a node of the tree.\<close>

lemma tree_set:
  fixes v :: u64
  assumes ok: "radix_ok m d a s" and p: "p \<in> paths m d" "walk s a p \<noteq> 0" and i: "i < 2 ^ m"
  defines "s' \<equiv> set_at (walk s a p) (of_nat i) v s"
  shows "slab s' (m + 3)" and "free_nodes m s' = free_nodes m s" and "node m s' = node m s"
    and "length q \<le> d \<Longrightarrow> set q \<subseteq> {..<2 ^ m} \<Longrightarrow> \<not> (\<exists>r. q = p @ i # r) \<Longrightarrow> walk s' a q = walk s a q"
    and "walk s' a (p @ [i]) = v"
    and "node m s x \<Longrightarrow> j < 2 ^ m \<Longrightarrow> x \<noteq> walk s a p \<Longrightarrow> at s' x (of_nat j) = at s x (of_nat j)"
proof -
  note k = radix_okD [OF ok]
  obtain b where b: "b < blocks (m + 3)" "walk s a p = node_at m s b" using k(6) [OF p] by (auto simp: node_def)
  have s': "s' = set_at (node_at m s b) (of_nat i) v s" by (simp add: s'_def b(2))
  note e = set_node [OF k(4) b(1) i, where v = v, folded s']
  have nd: "node_at m s' x = node_at m s x" for x using e(2) by (simp add: block_addr_def)
  show "slab s' (m + 3)" by (rule e(1))
  show "free_nodes m s' = free_nodes m s" using e(3) by (auto simp: free_nodes_def)
  show nds: "node m s' = node m s" using e(3) by (auto simp: node_def nd fun_eq_iff)
  show other: "at s' x (of_nat j) = at s x (of_nat j)" if "node m s x" "j < 2 ^ m" "x \<noteq> walk s a p" for x j
    using that e(4) b(2) by (auto simp: node_def)
  have own: "at s' (walk s a p) (of_nat j) = (if j = i then v else at s (walk s a p) (of_nat j))" if "j < 2 ^ m" for j
    using e(4) [OF b(1) that] by (auto simp: b(2))
  have eq: "at s' (walk s a q) (of_nat j) = (if q = p \<and> j = i then v else at s (walk s a q) (of_nat j))"
    if "q \<in> paths m d" "walk s a q \<noteq> 0" "j < 2 ^ m" for q j
    using own [OF that(3)] other [OF k(6) [OF that(1,2)] that(3)] k(7) [OF that(1) p(1) that(2)] by (cases "q = p") auto
  show w: "walk s' a q = walk s a q" if "length q \<le> d" "set q \<subseteq> {..<2 ^ m}" "\<not> (\<exists>r. q = p @ i # r)" for q
    by (rule walk_set [OF ok p eq that])
  have "walk s' a p = walk s a p" by (rule w) (use p in \<open>auto simp: paths_def\<close>)
  then show "walk s' a (p @ [i]) = v" using p(2) own [OF i] by (simp add: radix_step_def)
qed

lemma tree_put:
  fixes v :: u64
  assumes ok: "radix_ok m d a s" and p: "p \<in> paths m d" "walk s a p \<noteq> 0" "Suc (length p) = d" and i: "i < 2 ^ m"
  defines "s' \<equiv> set_at (walk s a p) (of_nat i) v s"
  shows "radix_ok m d a s'" and "length q = d \<Longrightarrow> set q \<subseteq> {..<2 ^ m} \<Longrightarrow>
    walk s' a q = (if q = p @ [i] then v else walk s a q)"
proof -
  note k = radix_okD [OF ok] and e = tree_set [OF ok p(1,2) i, where v = v, folded s'_def]
  have "walk s' a q = walk s a q" if "q \<in> paths m d" for q
    by (rule e(4)) (use that p(3) in \<open>auto simp: paths_def\<close>)
  then show "radix_ok m d a s'" using ok e(1,3) by (simp add: radix_ok_def) blast
  show "walk s' a q = (if q = p @ [i] then v else walk s a q)" if "length q = d" "set q \<subseteq> {..<2 ^ m}"
  proof (cases "q = p @ [i]")
    case False
    then have "\<not> (\<exists>r. q = p @ i # r)" using that(1) p(3) by auto
    then show ?thesis using e(4) [of q] that False by simp
  qed (simp only: e(5) if_True refl)
qed

text \<open>A fresh node: cleared, not yet in the tree, and the tree as it was.\<close>

lemma take_node:
  assumes ok: "radix_ok m d a s" and free: "free_nodes m s \<noteq> {}"
  obtains n s1 where "radix_new_node m s = ret (n, s1)" and "radix_ok m d a s1" and "n \<noteq> 0" and "\<not> node m s n"
    and "\<And>x. node m s1 x \<longleftrightarrow> node m s x \<or> x = n" and "\<And>j. j < 2 ^ m \<Longrightarrow> at s1 n (of_nat j) = 0"
    and "\<And>q. length q \<le> d \<Longrightarrow> set q \<subseteq> {..<2 ^ m} \<Longrightarrow> walk s1 a q = walk s a q"
    and "card (free_nodes m s) = Suc (card (free_nodes m s1))"
proof -
  note k = radix_okD [OF ok]
  obtain b s1 where b: "b \<in> free_nodes m s" "radix_new_node m s = ret (node_at m s b, s1)" "slab s1 (m + 3)"
    "data_page s1 (m + 3) = data_page s (m + 3)" "free_nodes m s1 = free_nodes m s - {b}"
    "\<And>b' j. b' < blocks (m + 3) \<Longrightarrow> j < 2 ^ m \<Longrightarrow>
      at s1 (node_at m s b') (of_nat j) = (if b = b' then 0 else at s (node_at m s b') (of_nat j))"
    by (rule new_node [OF k(1,4) free]) (rule that)
  define n where "n = node_at m s b"
  have nd: "node_at m s1 x = node_at m s x" for x using b(4) by (simp add: block_addr_def)
  have bb: "b < blocks (m + 3)" "\<not> block_used s (m + 3) b" using b(1) by (simp_all add: free_nodes_def)
  have used: "block_used s1 (m + 3) x \<longleftrightarrow> block_used s (m + 3) x \<or> x = b" if "x < blocks (m + 3)" for x
    using b(5) that bb(1) unfolding free_nodes_def set_eq_iff by auto
  have nds: "node m s1 x \<longleftrightarrow> node m s x \<or> x = n" for x using used bb(1) by (auto simp: node_def nd n_def)
  have fresh: "\<not> node m s n" 
  proof
    assume "node m s n"
    then obtain b' where "b' < blocks (m + 3)" "node_at m s b = node_at m s b'" "block_used s (m + 3) b'" by (auto simp: node_def n_def)
    then show False using node_inj [OF k(4) bb(1)] bb(2) by blast
  qed
  have n0: "n \<noteq> 0" unfolding n_def by (rule node_nonzero [OF k(4) bb(1)])
  have old: "at s1 x (of_nat j) = at s x (of_nat j)" if "node m s x" "j < 2 ^ m" for x j
    using that b(6) bb by (auto simp: node_def)
  have new: "at s1 n (of_nat j) = 0" if "j < 2 ^ m" for j using b(6) [OF bb(1) that] by (simp add: n_def)
  have w1: "walk s1 a q = walk s a q" if "length q \<le> d" "set q \<subseteq> {..<2 ^ m}" for q
    using that
  proof (induction q rule: rev_induct)
    case (snoc j q)
    then have q: "q \<in> paths m d" "j < 2 ^ m" by (auto simp: paths_def)
    show ?case using snoc old [OF k(6) [OF q(1)] q(2)] by (auto simp: radix_step_def)
  qed simp
  have ok1: "radix_ok m d a s1"
    using ok b(3) w1 nds by (simp add: radix_ok_def paths_def) blast
  have "finite (free_nodes m s)" by (simp add: free_nodes_def)
  then have "card (free_nodes m s) = Suc (card (free_nodes m s1))"
    using b(1,5) card_Suc_Diff1 [of "free_nodes m s" b] by simp
  then show thesis
    by (intro that [OF b(2) [folded n_def] ok1 n0 fresh]) (simp_all add: nds new w1)
qed

text \<open>Linking a cleared node into an empty word: the values of the tree stay as they are.\<close>

lemma tree_grow:
  assumes ok: "radix_ok m d a s" and p: "p \<in> paths m d" "walk s a p \<noteq> 0" "Suc (length p) < d" and i: "i < 2 ^ m"
    and empty: "at s (walk s a p) (of_nat i) = 0" and free: "free_nodes m s \<noteq> {}"
  obtains n s1 s' where "radix_new_node m s = ret (n, s1)" and "s' = set_at (walk s a p) (of_nat i) n s1" and "radix_ok m d a s'"
    and "n \<noteq> 0" and "walk s' a (p @ [i]) = n" and "card (free_nodes m s) = Suc (card (free_nodes m s'))"
    and "\<And>q. length q = d \<Longrightarrow> set q \<subseteq> {..<2 ^ m} \<Longrightarrow> walk s' a q = walk s a q"
proof -
  note k = radix_okD [OF ok]
  obtain n s1 where n: "radix_new_node m s = ret (n, s1)" and ok1: "radix_ok m d a s1" and n0: "n \<noteq> 0"
    and fresh: "\<not> node m s n" and nds: "\<And>x. node m s1 x \<longleftrightarrow> node m s x \<or> x = n"
    and new: "\<And>j. j < 2 ^ m \<Longrightarrow> at s1 n (of_nat j) = 0"
    and w1: "\<And>q. length q \<le> d \<Longrightarrow> set q \<subseteq> {..<2 ^ m} \<Longrightarrow> walk s1 a q = walk s a q"
    and cd: "card (free_nodes m s) = Suc (card (free_nodes m s1))"
    by (rule take_node [OF ok free]) (rule that)
  have p1: "walk s1 a p = walk s a p" by (rule w1) (use p in \<open>auto simp: paths_def\<close>)
  then have p1': "walk s1 a p \<noteq> 0" using p(2) by simp
  define s' where "s' = set_at (walk s a p) (of_nat i) n s1"
  note e = tree_set [OF ok1 p(1) p1' i, where v = n, unfolded p1, folded s'_def]
  have through: "walk s' a (p @ i # j # r) = 0" if "j < 2 ^ m" for j r
  proof -
    have "node m s1 n" using nds by simp
    moreover have "n \<noteq> walk s a p" using fresh k(6) [OF p(1,2)] by auto
    ultimately have "at s' n (of_nat j) = 0" using e(6) [of n j] new [OF that] that by simp
    then have "walk s' (walk s' a (p @ [i])) (j # r) = 0" unfolding e(5) by (simp add: radix_step_def)
    then show ?thesis using walk_append [of s' a "p @ [i]" "j # r"] by simp
  qed
  have wq: "walk s' a q = (if q = p @ [i] then n else if \<exists>r. q = p @ i # r then 0 else walk s a q)"
    if "length q \<le> d" "set q \<subseteq> {..<2 ^ m}" for q
  proof (cases "\<exists>r. q = p @ i # r")
    case True
    then obtain r where r: "q = p @ i # r" by blast
    show ?thesis
    proof (cases r)
      case Nil
      then show ?thesis using e(5) r by simp
    next
      case (Cons j t)
      then show ?thesis using r through [of j t] that(2) by auto
    qed
  next
    case False
    then have "q \<noteq> p @ [i]" by auto
    then show ?thesis using e(4) [OF that False] w1 [OF that] False by simp
  qed
  have dead: "walk s a q = 0" if "q = p @ i # r" for q r
    using that empty p(2) walk_append [of s a "p @ [i]" r] by (simp add: radix_step_def)
  have wp: "walk s' a q = n \<and> q = p @ [i] \<or> q \<noteq> p @ [i] \<and> walk s' a q = walk s a q" if "length q \<le> d" "set q \<subseteq> {..<2 ^ m}" for q
    using wq [OF that] dead by auto
  have "radix_ok m d a s'" unfolding radix_ok_def
  proof (intro conjI ballI impI)
    fix q assume q: "q \<in> paths m d" "walk s' a q \<noteq> 0"
    then show "node m s' (walk s' a q)" using wp [of q] k(6) [of q] nds e(3) by (auto simp: paths_def)
  next
    fix q r assume q: "q \<in> paths m d" "r \<in> paths m d" "walk s' a q \<noteq> 0 \<and> walk s' a q = walk s' a r"
    have l: "length q \<le> d" "set q \<subseteq> {..<2 ^ m}" "length r \<le> d" "set r \<subseteq> {..<2 ^ m}" using q(1,2) by (auto simp: paths_def)
    have "walk s a q \<noteq> n" "walk s a r \<noteq> n" using k(6) [OF q(1)] k(6) [OF q(2)] fresh n0 by metis+
    then show "q = r" using wp [OF l(1,2)] wp [OF l(3,4)] k(7) [OF q(1,2)] q(3) by metis
  qed (use k e(1) in auto)
  moreover have "walk s' a q = walk s a q" if "length q = d" "set q \<subseteq> {..<2 ^ m}" for q
    using wp [of q] that p(3) by auto
  moreover have "card (free_nodes m s) = Suc (card (free_nodes m s'))" using cd e(2) by simp
  ultimately show ?thesis using that [OF n s'_def _ n0 e(5)] by blast
qed

section \<open>Keys\<close>

definition digit :: "nat \<Rightarrow> u64 \<Rightarrow> nat \<Rightarrow> nat" where
  "digit m key l = unat key div 2 ^ (l * m) mod 2 ^ m"

text \<open>The digits of levels \<open>d - 1\<close> down to \<open>e\<close>.\<close>

definition digits :: "nat \<Rightarrow> nat \<Rightarrow> nat \<Rightarrow> u64 \<Rightarrow> nat list" where
  "digits m d e key = map (digit m key) (rev [e..<d])"

lemma digit_word: "drop_bit (l * m) key AND radix_mask m = of_nat (digit m key l)"
proof -
  have m: "radix_mask m = mask m" by (simp add: radix_mask_def mask_eq_decr_exp push_bit_eq_mult)
  have "unat (drop_bit (l * m) key AND radix_mask m) = digit m key l"
    unfolding m take_bit_eq_mask [symmetric] digit_def
    by (simp only: unsigned_take_bit_eq unat_drop_bit_eq) (simp only: drop_bit_eq_div take_bit_eq_mod)
  then show ?thesis by (metis of_nat_unat ucast_id)
qed

lemma digit_lt [simp]: "digit m key l < 2 ^ m"
  by (simp add: digit_def)

lemma digits_Suc: "e < d \<Longrightarrow> digits m d e key = digits m d (Suc e) key @ [digit m key e]"
  by (simp add: digits_def upt_conv_Cons)

lemma digits_props [simp]: "length (digits m d e key) = d - e" "set (digits m d e key) \<subseteq> {..<2 ^ m}" "digits m d d key = []"
  by (auto simp: digits_def)

lemma digits_paths: "0 < e \<Longrightarrow> 0 < d \<Longrightarrow> digits m d e key \<in> paths m d"
  using digits_props(1,2) [of m d e key] by (simp add: paths_def)

lemma digits_inj:
  assumes "digits m d 0 k = digits m d 0 k'" and "unat k < 2 ^ (m * d)" and "unat k' < 2 ^ (m * d)"
  shows "k = k'"
proof -
  have "unat k mod 2 ^ (m * e) = unat k' mod 2 ^ (m * e)" if "e \<le> d" for e
    using that
  proof (induction e)
    case (Suc e)
    have "digit m k e = digit m k' e" using assms(1) Suc.prems by (auto simp: digits_def)
    then have "unat k div 2 ^ (m * e) mod 2 ^ m = unat k' div 2 ^ (m * e) mod 2 ^ m" by (simp add: digit_def mult.commute)
    moreover have "x mod 2 ^ (m * Suc e) = 2 ^ (m * e) * (x div 2 ^ (m * e) mod 2 ^ m) + x mod 2 ^ (m * e)" for x :: nat
      using mod_mult2_eq [of x "2 ^ (m * e)" "2 ^ m"] by (simp add: power_add mult.commute)
    ultimately show ?case using Suc by simp
  qed simp
  from this [of d] show ?thesis using assms(2,3) by (simp add: word_unat_eq_iff)
qed

lemma radix_get_from_walk: "e \<le> d \<Longrightarrow> x \<noteq> 0 \<Longrightarrow> radix_get_from e m key x s = walk s x (digits m e 0 key)"
proof (induction e arbitrary: x)
  case (Suc e)
  have "digits m (Suc e) 0 key = digit m key e # digits m e 0 key" by (simp add: digits_def)
  then show ?case using Suc digit_word [of e m key] by (simp add: Let_def radix_step_def)
qed (simp add: digits_def)

section \<open>Insertion and lookup\<close>

lemma radix_descend_run:
  assumes "radix_ok m d a s" and "e < d" and "walk s a (digits m d (Suc e) key) \<noteq> 0" and "e \<le> card (free_nodes m s)"
  shows "\<exists>s'. radix_descend e m key (walk s a (digits m d (Suc e) key)) s = ret (walk s' a (digits m d 1 key), s')
    \<and> radix_ok m d a s' \<and> walk s' a (digits m d 1 key) \<noteq> 0 \<and> card (free_nodes m s) \<le> card (free_nodes m s') + e
    \<and> (\<forall>q. length q = d \<and> set q \<subseteq> {..<2 ^ m} \<longrightarrow> walk s' a q = walk s a q)"
  using assms
proof (induction e arbitrary: s)
  case 0
  then show ?case by auto
next
  case (Suc e)
  define p where "p = digits m d (Suc (Suc e)) key"
  define i where "i = digit m key (Suc e)"
  have d0: "0 < d" using Suc.prems(2) by simp
  have p: "p \<in> paths m d" "walk s a p \<noteq> 0" "Suc (length p) < d" "i < 2 ^ m"
    using digits_paths [of "Suc (Suc e)" d m key] d0 Suc.prems(2,3) by (auto simp: p_def i_def)
  have step: "digits m d (Suc e) key = p @ [i]" using digits_Suc [OF Suc.prems(2)] by (simp add: p_def i_def)
  have idx: "drop_bit (Suc e * m) key AND radix_mask m = of_nat i" unfolding i_def by (rule digit_word)
  show ?case
  proof (cases "at s (walk s a p) (of_nat i) = 0")
    case True
    have "0 < card (free_nodes m s)" using Suc.prems(4) by simp
    then have "free_nodes m s \<noteq> {}" by auto
    from tree_grow [OF Suc.prems(1) p(1-4) True this] obtain n s1 s2 where
      s2: "radix_new_node m s = ret (n, s1)" "s2 = set_at (walk s a p) (of_nat i) n s1" "radix_ok m d a s2" "n \<noteq> 0"
        "walk s2 a (p @ [i]) = n" "card (free_nodes m s) = Suc (card (free_nodes m s2))"
        "\<And>q. length q = d \<Longrightarrow> set q \<subseteq> {..<2 ^ m} \<Longrightarrow> walk s2 a q = walk s a q" by metis
    have here: "at s2 (walk s a p) (of_nat i) = n" unfolding s2(2) by (simp add: at_def set_at_def)
    have "e < d" "walk s2 a (digits m d (Suc e) key) \<noteq> 0" "e \<le> card (free_nodes m s2)"
      using Suc.prems(2,4) s2(4-6) by (simp_all add: step)
    from Suc.IH [OF s2(3) this] obtain s' where s': "radix_descend e m key n s2 = ret (walk s' a (digits m d 1 key), s')"
      "radix_ok m d a s'" "walk s' a (digits m d 1 key) \<noteq> 0" "card (free_nodes m s2) \<le> card (free_nodes m s') + e"
      "\<forall>q. length q = d \<and> set q \<subseteq> {..<2 ^ m} \<longrightarrow> walk s' a q = walk s2 a q"
      unfolding step s2(5) by blast
    have "radix_descend (Suc e) m key (walk s a p) s = radix_descend e m key n s2"
      unfolding radix_descend.simps Let_def idx using s2(1) True here [unfolded s2(2)] by (simp add: s2(2))
    then show ?thesis using s' s2(6,7) unfolding p_def [symmetric] by auto
  next
    case False
    have w: "walk s a (digits m d (Suc e) key) = at s (walk s a p) (of_nat i)" using p(2) by (simp add: step radix_step_def)
    have "e < d" "walk s a (digits m d (Suc e) key) \<noteq> 0" "e \<le> card (free_nodes m s)" using Suc.prems(2,4) False w by simp_all
    note IH = Suc.IH [OF Suc.prems(1) this]
    have "radix_descend (Suc e) m key (walk s a p) s = radix_descend e m key (at s (walk s a p) (of_nat i)) s"
      unfolding radix_descend.simps Let_def idx using False by simp
    then show ?thesis using IH unfolding w p_def [symmetric] by auto
  qed
qed

lemma radix_get_walk:
  assumes "radix_ok m d a s"
  shows "radix_get a key d m s = ret (walk s a (digits m d 0 key))"
proof -
  note k = radix_okD [OF assms]
  have "(d - 1) * m \<le> m * d" by (simp add: mult.commute)
  then have "(d - 1) * m < 64" using k(3) by (rule le_less_trans)
  then show ?thesis using k(1) radix_get_from_walk [OF order_refl k(5)] by (simp add: radix_get_def)
qed

lemma radix_insert_get:
  assumes ok: "radix_ok m d a s" and key: "unat key < 2 ^ (m * d)" and room: "d \<le> card (free_nodes m s)"
  shows "\<exists>s'. radix_insert a key v d m s = ret (walk s a (digits m d 0 key), s') \<and> radix_ok m d a s'
    \<and> card (free_nodes m s) \<le> card (free_nodes m s') + d
    \<and> (\<forall>k. unat k < 2 ^ (m * d) \<longrightarrow> radix_get a k d m s' = (if k = key then ret v else radix_get a k d m s))"
proof -
  note k = radix_okD [OF ok]
  obtain e where e: "d = Suc e" using k(2) by (cases d) auto
  have d: "digits m d (Suc e) key = []" "digits m d 0 key = digits m d 1 key @ [digit m key 0]"
    using digits_Suc [OF k(2), of m key] by (simp_all add: e)
  have "e < d" "walk s a (digits m d (Suc e) key) \<noteq> 0" "e \<le> card (free_nodes m s)" using k(5) d(1) room by (simp_all add: e)
  from radix_descend_run [OF ok this] obtain s1 where s1: "radix_descend e m key a s = ret (walk s1 a (digits m d 1 key), s1)"
    "radix_ok m d a s1" "walk s1 a (digits m d 1 key) \<noteq> 0" "card (free_nodes m s) \<le> card (free_nodes m s1) + e"
    "\<forall>q. length q = d \<and> set q \<subseteq> {..<2 ^ m} \<longrightarrow> walk s1 a q = walk s a q"
    unfolding d(1) by auto
  define s' where "s' = set_at (walk s1 a (digits m d 1 key)) (of_nat (digit m key 0)) v s1"
  have p: "digits m d 1 key \<in> paths m d" "Suc (length (digits m d 1 key)) = d" using digits_paths [of 1 d m key] k(2) by simp_all
  note t = tree_put [OF s1(2) p(1) s1(3) p(2) digit_lt [of m key 0], where v = v, folded s'_def]
  note f = tree_set(2) [OF s1(2) p(1) s1(3) digit_lt [of m key 0], where v = v, folded s'_def]
  have "\<not> key \<ge> push_bit (m * d) 1"
  proof -
    have "unat (push_bit (m * d) 1 :: u64) = 2 ^ (m * d)" by (rule unat_exp [OF k(3)])
    then show ?thesis using key by (simp add: word_le_nat_alt)
  qed
  moreover have "key AND radix_mask m = of_nat (digit m key 0)" using digit_word [of 0 m key] by simp
  moreover have "at s1 (walk s1 a (digits m d 1 key)) (of_nat (digit m key 0)) = walk s1 a (digits m d 0 key)"
    using s1(3) unfolding d(2) by (simp add: radix_step_def)
  moreover have "walk s1 a (digits m d 0 key) = walk s a (digits m d 0 key)" using s1(5) by simp
  ultimately have run: "radix_insert a key v d m s = ret (walk s a (digits m d 0 key), s')"
    using k(1,3) s1(1) by (simp add: radix_insert_def s'_def e)
  have "radix_get a x d m s' = (if x = key then ret v else radix_get a x d m s)" if "unat x < 2 ^ (m * d)" for x
    unfolding radix_get_walk [OF t(1)] radix_get_walk [OF ok]
    using t(2) [of "digits m d 0 x"] s1(5) digits_inj [OF _ that key] unfolding d(2) [symmetric] by auto
  then show ?thesis using run t(1) s1(4) f e by auto
qed

text \<open>How many insertions have room, and the tree as a keyed store.\<close>

definition radix_room :: "nat \<Rightarrow> nat \<Rightarrow> 'a allocator_scheme \<Rightarrow> nat" where
  "radix_room m d s = card (free_nodes m s) div d"

interpretation radix_map: map_store "\<lambda>key v. radix_insert a key v d m" "\<lambda>key. radix_get a key d m"
  "radix_ok m d a" "radix_room m d" "{key. unat key < 2 ^ (m * d)}" for m d a
proof
  fix s :: "'a allocator_scheme" and key v :: u64
  assume ok: "radix_ok m d a s" and key: "key \<in> {key. unat key < 2 ^ (m * d)}" and room: "0 < radix_room m d s"
  have d: "0 < d" using radix_okD(2) [OF ok] .
  have "d \<le> card (free_nodes m s)" using room d by (simp add: radix_room_def div_greater_zero_iff)
  from radix_insert_get [OF ok _ this] key obtain s' where
    s': "radix_insert a key v d m s = ret (walk s a (digits m d 0 key), s')" "radix_ok m d a s'"
      "card (free_nodes m s) \<le> card (free_nodes m s') + d"
      "\<forall>k. unat k < 2 ^ (m * d) \<longrightarrow> radix_get a k d m s' = (if k = key then ret v else radix_get a k d m s)" by blast
  have "card (free_nodes m s) div d \<le> (card (free_nodes m s') + d) div d" by (rule div_le_mono [OF s'(3)])
  then have "radix_room m d s \<le> Suc (radix_room m d s')" using d by (simp add: radix_room_def div_add_self2)
  then show "\<exists>r s'. radix_insert a key v d m s = ret (r, s') \<and> radix_ok m d a s' \<and> radix_room m d s \<le> Suc (radix_room m d s')
      \<and> (\<forall>k' \<in> {key. unat key < 2 ^ (m * d)}. radix_get a k' d m s' = (if k' = key then ret v else radix_get a k' d m s))"
    using s' by blast
qed

text \<open>A new tree is empty.\<close>

lemma radix_create_empty:
  assumes sl: "slab s (m + 3)" and m: "m \<le> 8" and d: "0 < d" "m * d < 64" and free: "free_nodes m s \<noteq> {}"
  shows "\<exists>a s'. radix_create m s = ret (a, s') \<and> radix_ok m d a s' \<and> card (free_nodes m s) = Suc (card (free_nodes m s'))
    \<and> (\<forall>key. radix_get a key d m s' = ret 0)"
proof -
  obtain b s' where b: "b \<in> free_nodes m s" "radix_new_node m s = ret (node_at m s b, s')" "slab s' (m + 3)"
    "data_page s' (m + 3) = data_page s (m + 3)" "free_nodes m s' = free_nodes m s - {b}"
    "\<And>b' j. b' < blocks (m + 3) \<Longrightarrow> j < 2 ^ m \<Longrightarrow>
      at s' (node_at m s b') (of_nat j) = (if b = b' then 0 else at s (node_at m s b') (of_nat j))"
    by (rule new_node [OF m sl free]) (rule that)
  define a where "a = node_at m s b"
  have nd: "node_at m s' x = node_at m s x" for x using b(4) by (simp add: block_addr_def)
  have bb: "b < blocks (m + 3)" using b(1) by (simp add: free_nodes_def)
  have a0: "a \<noteq> 0" unfolding a_def by (rule node_nonzero [OF sl bb])
  have w: "walk s' a (j # p) = 0" if "j < 2 ^ m" for j p
    using b(6) [OF bb that] by (simp add: radix_step_def a_def)
  have w0: "walk s' a p = (if p = [] then a else 0)" if "set p \<subseteq> {..<2 ^ m}" for p
    using that w by (cases p) auto
  have "block_used s' (m + 3) b" using b(5) bb by (auto simp: free_nodes_def)
  then have "node m s' a" using bb by (auto simp: node_def nd a_def)
  then have ok: "radix_ok m d a s'" using b(3) m d a0 w0 by (auto simp: radix_ok_def paths_def)
  have fin: "finite (free_nodes m s)" by (simp add: free_nodes_def)
  have "radix_get a key d m s' = ret 0" for key
  proof -
    have "digits m d 0 key \<noteq> []" using d(1) by (simp add: digits_def)
    then show ?thesis using radix_get_walk [OF ok] w0 [OF digits_props(2)] by simp
  qed
  then show ?thesis
    using b(2,5) ok card_Suc_Diff1 [OF fin b(1)] unfolding radix_create_def a_def by auto
qed

section \<open>Properties\<close>

text \<open>
  C13. A radix tree is a map: after a sequence of \<open>radix_insert\<close>s with keys in range, for which the
  first data page of the node class has room, every insertion has returned, the tree is well formed,
  and \<open>radix_get\<close> returns for every key in range the value inserted last under it, or what it
  returned before when the key was not inserted.
\<close>

theorem radix_insert_sound:
  assumes "radix_ok m d a s" and "\<forall>(key, v) \<in> set kvs. unat key < 2 ^ (m * d)" and "length kvs \<le> radix_room m d s"
  shows "\<exists>s'. puts (\<lambda>key v. radix_insert a key v d m) kvs s = ret s' \<and> radix_ok m d a s'
    \<and> (\<forall>key. unat key < 2 ^ (m * d) \<longrightarrow> radix_get a key d m s' =
         (case map_of (rev kvs) key of None \<Rightarrow> radix_get a key d m s | Some v \<Rightarrow> ret v))"
proof -
  have "fst ` set kvs \<subseteq> {key. unat key < 2 ^ (m * d)}" using assms(2) by auto
  from radix_map.puts_get [OF assms(1) this assms(3)] show ?thesis by simp
qed

theorem radix_insert_sound_witness:
  "\<exists>a (s :: allocator) s'. puts (\<lambda>key v. radix_insert a key v 2 4) [(0x42, 7), (0x43, 8)] s = ret s'
     \<and> radix_get a 0x42 2 4 s' = ret 7 \<and> radix_get a 0x43 2 4 s' = ret 8 \<and> radix_get a 0x44 2 4 s' = ret 0"
proof -
  have "(7 :: nat) \<le> 11" by simp
  from demo_first [OF this] obtain s :: allocator where slab: "slab s 7" and used: "\<And>b. b < blocks 7 \<Longrightarrow> block_used s 7 b \<longleftrightarrow> b = 0"
    by metis
  have "blocks 7 = 31" by (simp add: blocks_def)
  then have free: "free_nodes 4 s = {1..<31}" using used by (auto simp: free_nodes_def)
  have "slab s (4 + 3)" "(4 :: nat) \<le> 8" "(0 :: nat) < 2" "4 * 2 < (64 :: nat)" "free_nodes 4 s \<noteq> {}" using slab free by simp_all
  from radix_create_empty [OF this] obtain a and s1 :: allocator where s1: "radix_ok 4 2 a s1" "card (free_nodes 4 s) = Suc (card (free_nodes 4 s1))"
    "\<forall>key. radix_get a key 2 4 s1 = ret 0" by blast
  have "length [(0x42 :: u64, 7 :: u64), (0x43, 8)] \<le> radix_room 4 2 s1" using s1(2) free by (simp add: radix_room_def)
  from radix_insert_sound [OF s1(1) _ this] obtain s' where
    s': "puts (\<lambda>key v. radix_insert a key v 2 4) [(0x42, 7), (0x43, 8)] s1 = ret s'"
    "\<forall>key. unat key < 2 ^ (4 * 2) \<longrightarrow> radix_get a key 2 4 s' =
         (case map_of (rev [(0x42, 7), (0x43, 8)]) key of None \<Rightarrow> radix_get a key 2 4 s1 | Some v \<Rightarrow> ret v)" by auto
  have "radix_get a 0x42 2 4 s' = ret 7" "radix_get a 0x43 2 4 s' = ret 8" "radix_get a 0x44 2 4 s' = ret 0"
    using s'(2) [rule_format, of "0x42"] s'(2) [rule_format, of "0x43"] s'(2) [rule_format, of "0x44"] s1(3) by simp_all
  then show ?thesis using s'(1) by blast
qed

end
