(* ===== verification/Klist.thy ===== *)
theory Klist
  imports Pager_Init Kstring
begin

text \<open>
  The growable list of \<^verbatim>\<open>src/src/kernel/memory/list.c\<close>: items of a fixed size in page-sized
  sections, the first word of a section pointing to the next one.

  The lemmas show that, while the items fit into the first section, appending adds the bytes of the
  source at the end and keeps every earlier item, and that deleting a list gives back exactly its
  chain of sections. Past the first section nothing of the kind holds: the section \<open>list_get\<close>
  allocates is never linked.
\<close>

record klist =
  first_section :: u64
  section_size :: u64
  item_cnt :: u64
  item_size :: u64

definition list_create :: "u64 \<Rightarrow> 'a pager_scheme \<Rightarrow> (klist \<times> 'a pager_scheme) run" where
  "list_create isize s =
     bindr (pg_alloc s) (\<lambda>(p, s).
       ret (\<lparr>first_section = p, section_size = KERNEL_PAGE_SIZE, item_cnt = 0, item_size = isize\<rparr>, s))"

text \<open>The walk of \<open>list_get\<close> over \<open>n\<close> sections; a missing one is allocated but not linked.\<close>

primrec list_seek :: "nat \<Rightarrow> u64 \<Rightarrow> 'a pager_scheme \<Rightarrow> (u64 \<times> 'a pager_scheme) run" where
  "list_seek 0 section s = ret (section, s)"
| "list_seek (Suc n) section s =
     (let next = at s section 0
      in if next = 0 then bindr (pg_alloc s) (\<lambda>(next, s). list_seek n next s)
         else list_seek n next s)"

definition list_get :: "klist \<Rightarrow> u64 \<Rightarrow> 'a pager_scheme \<Rightarrow> (u64 \<times> 'a pager_scheme) run" where
  "list_get l item_idx s =
     (if item_idx > item_cnt l then panic ''ATTEMPT_REMOVE_LIST_ITEM_OUT_BOUNDS'' 0 0 0
      else if item_size l = 0 then undef ''division by zero''
      else let section_max_cnt = (section_size l - 8) div item_size l
           in if section_max_cnt = 0 then undef ''division by zero''
              else bindr (list_seek (unat (item_idx div section_max_cnt)) (first_section l) s) (\<lambda>(section, s).
                     ret (section + 8 + item_size l * (item_idx mod section_max_cnt), s)))"

definition list_append :: "klist \<Rightarrow> u64 \<Rightarrow> 'a pager_scheme \<Rightarrow> (klist \<times> 'a pager_scheme) run" where
  "list_append l src s =
     bindr (list_get l (item_cnt l) s) (\<lambda>(new_item_ptr, s).
       ret (l\<lparr>item_cnt := item_cnt l + 1\<rparr>,
            s\<lparr>kmem := memcpy new_item_ptr src (item_size l) (kmem s)\<rparr>))"

definition list_remove :: "klist \<Rightarrow> u64 \<Rightarrow> 'a pager_scheme \<Rightarrow> (klist \<times> 'a pager_scheme) run" where
  "list_remove l item_idx s =
     (if item_idx \<ge> item_cnt l then panic ''ATTEMPT_REMOVE_LIST_ITEM_OUT_BOUNDS'' 0 0 0
      else bindr (list_get l (item_size l - 1) s) (\<lambda>(last_item_ptr, s).
           bindr (list_get l item_idx s) (\<lambda>(item_removing_ptr, s).
             ret (l\<lparr>item_cnt := item_cnt l - 1\<rparr>,
                  s\<lparr>kmem := memcpy item_removing_ptr last_item_ptr (item_size l) (kmem s)\<rparr>))))"

partial_function (option) list_delete_from :: "u64 \<Rightarrow> 'a pager_scheme \<Rightarrow> (unit \<times> 'a pager_scheme) run" where
  "list_delete_from section s =
     (let next_section = at s section 0
      in bindr (pg_free section s) (\<lambda>(_, s).
           if next_section = 0 then ret ((), s) else list_delete_from next_section s))"

definition list_delete :: "klist \<Rightarrow> 'a pager_scheme \<Rightarrow> (unit \<times> 'a pager_scheme) run" where
  "list_delete l s = list_delete_from (first_section l) s"

text \<open>
  An iterator points into an array of lists: \<open>cur_list\<close> counts the lists the pointer has moved past
  the one the iterator was created on. Reading through a pointer that has moved is outside the list
  object.
\<close>

record list_iter =
  cur_list :: nat
  cur_upto :: u64
  section_upto :: u64
  max_iter_per_section :: u64

definition list_iter_create :: "klist \<Rightarrow> list_iter run" where
  "list_iter_create l =
     (if item_size l = 0 then undef ''division by zero''
      else ret \<lparr>cur_list = 0, cur_upto = 0, section_upto = first_section l,
                max_iter_per_section = (section_size l - 8) div item_size l\<rparr>)"

definition list_iter_next :: "klist \<Rightarrow> list_iter \<Rightarrow> 'a machine_scheme \<Rightarrow> (u64 \<times> list_iter) run" where
  "list_iter_next l it s =
     (if max_iter_per_section it = 0 then undef ''division by zero''
      else if cur_list it \<noteq> 0 then undef ''list pointer past its object''
      else
        let cur_section_idx = cur_upto it mod max_iter_per_section it;
            r = first_section l + 8 + item_size l * cur_section_idx;
            is_next_section = cur_upto it mod max_iter_per_section it = 0;
            cur_section = section_upto it * of_bool (\<not> is_next_section);
            next_section = at s (section_upto it) 0 * of_bool is_next_section
        in ret (r, it\<lparr>cur_list := cur_list it + 1, section_upto := cur_section + next_section\<rparr>))"

section \<open>Copies into a held page\<close>

lemma page_byte_cell:
  fixes p :: u64
  assumes "unat p mod 4096 = 0" and "j < 4096"
  shows "cell_of (p + of_nat j) \<in> page_cells p"
proof -
  have "unat p mod 8 = unat p mod 4096 mod 8" by (simp add: mod_mod_cancel)
  then have "unat p mod 8 = 0" using assms(1) by simp
  moreover have "j div 8 < 512" using assms(2) by (simp add: less_mult_imp_div_less)
  ultimately show ?thesis unfolding cells_def using aligned_byte(1) [of p j] by auto
qed

lemma memcpy_page_frame:
  fixes p :: u64
  assumes p: "unat p mod 4096 = 0" and fits: "off + unat n \<le> 4096" and x: "x \<notin> page_cells p"
  shows "memcpy (p + of_nat off) src n m x = m x"
proof -
  have b: "x \<noteq> cell_of (p + of_nat off + of_nat i)" if "i < unat n" for i
    using page_byte_cell [OF p, of "off + i"] that fits x by (auto simp: algebra_simps)
  have bytes: "copy_bytes k (p + of_nat off) src m x = m x" if "k \<le> unat n" for k
    using that by (induction k) (simp_all add: Let_def st8_other_cell b)
  have wrds: "copy_words k (p + of_nat off) src m x = m x"
    if "unat (p + of_nat off) mod 8 = 0" "8 * k \<le> unat n" for k
    using that(2)
  proof (induction k)
    case (Suc k)
    have "cell_of (p + of_nat off + of_nat (8 * k)) = p + of_nat off + 8 * of_nat k"
      using aligned_byte(1) [OF that(1), of "8 * k"] by simp
    then have "x \<noteq> p + of_nat off + 8 * of_nat k" using b [of "8 * k"] Suc.prems by simp
    then show ?case using Suc by (simp add: Let_def)
  qed simp
  have "8 * unat (n div 8) \<le> unat n" by (simp add: unat_div)
  then show ?thesis
    unfolding memcpy_def using bytes [of "unat n"] wrds by (auto simp: round_down_8)
qed

lemma memcpy_page_inv:
  fixes src :: u64
  assumes "pager_inv s" and "p \<in> pager_live s" and "off + unat n \<le> 4096"
  defines "s' \<equiv> s\<lparr>kmem := memcpy (p + of_nat off) src n (kmem s)\<rparr>"
  shows "pager_inv s'" and "pager_live s' = pager_live s" and "pager_pool s' = pager_pool s"
proof -
  have p: "unat p mod 4096 = 0" using live_page_aligned [OF assms(1,2)] by simp
  have "\<forall>x \<in> pager_meta s. memcpy (p + of_nat off) src n (kmem s) x = kmem s x"
    using pager.page_meta [OF assms(1,2)] memcpy_page_frame [OF p assms(3)] by blast
  from pager.upd_inv [OF assms(1) this]
  show "pager_inv s'" and "pager_live s' = pager_live s" and "pager_pool s' = pager_pool s"
    by (simp_all add: s'_def)
qed

section \<open>Lists of one section\<close>

definition list_ok :: "klist \<Rightarrow> 'a pager_scheme \<Rightarrow> bool" where
  "list_ok l s \<longleftrightarrow> pager_inv s \<and> first_section l \<in> pager_live s \<and> section_size l = 4096
     \<and> 0 < item_size l \<and> item_size l \<le> 4088"

definition list_cap :: "klist \<Rightarrow> nat" where
  "list_cap l = 4088 div unat (item_size l)"

definition list_slot :: "klist \<Rightarrow> nat \<Rightarrow> nat" where
  "list_slot l i = 8 + unat (item_size l) * i"

definition bytes_at :: "'a machine_scheme \<Rightarrow> u64 \<Rightarrow> nat \<Rightarrow> u8 list" where
  "bytes_at s a n = map (\<lambda>k. ld8 (kmem s) (a + of_nat k)) [0..<n]"

text \<open>The items of a list of one section, each as the bytes it holds.\<close>

definition list_items :: "klist \<Rightarrow> 'a machine_scheme \<Rightarrow> u8 list list" where
  "list_items l s =
     map (\<lambda>i. bytes_at s (first_section l + of_nat (list_slot l i)) (unat (item_size l)))
       [0..<unat (item_cnt l)]"

lemma list_slot_fits:
  assumes "list_ok l s" and "i < list_cap l"
  shows "list_slot l i + unat (item_size l) \<le> 4096"
proof -
  have "unat (item_size l) * Suc i \<le> unat (item_size l) * list_cap l"
    using assms(2) by (intro mult_le_mono2) simp
  also have "\<dots> \<le> 4088" by (simp add: list_cap_def)
  finally show ?thesis by (simp add: list_slot_def)
qed

lemma list_get_first:
  assumes "list_ok l s" and "i \<le> item_cnt l" and "unat i < list_cap l"
  shows "list_get l i s = ret (first_section l + of_nat (list_slot l (unat i)), s)"
proof -
  define c where "c = (section_size l - 8) div item_size l"
  have c: "unat c = list_cap l" using assms(1) by (simp add: c_def list_ok_def list_cap_def unat_div)
  have lt: "unat i < unat c" using assms(3) c by simp
  have "i div c = 0" by (rule word_unat_eq_iff [THEN iffD2]) (simp add: unat_div lt)
  moreover have "i mod c = i" by (rule word_unat_eq_iff [THEN iffD2]) (simp add: unat_mod lt)
  moreover have "c \<noteq> 0" using lt by auto
  ultimately have *: "i div c = 0" "i mod c = i" "c \<noteq> 0" by blast+
  have "of_nat (list_slot l (unat i)) = (8 + item_size l * i :: u64)" by (simp add: list_slot_def)
  then show ?thesis
    using assms(1,2) * unfolding list_get_def Let_def c_def [symmetric]
    by (auto simp: list_ok_def algebra_simps)
qed

lemma bytes_at_eq:
  "(\<And>k. k < n \<Longrightarrow> ld8 (kmem s') (a' + of_nat k) = ld8 (kmem s) (a + of_nat k)) \<Longrightarrow>
    bytes_at s' a' n = bytes_at s a n"
  by (simp add: bytes_at_def)

lemma page_offset_inj:
  fixes p :: u64
  assumes "p + of_nat a = p + of_nat b" and "a < 4096" and "b < 4096"
  shows "a = b"
  using byte_index_inj [OF assms(1)] assms(2,3) by simp

lemma list_append_items:
  assumes ok: "list_ok l s" and room: "unat (item_cnt l) < list_cap l"
    and src: "bytes (first_section l) 4096 \<inter> bytes src (unat (item_size l)) = {}"
  shows "\<exists>s'. list_append l src s = ret (l\<lparr>item_cnt := item_cnt l + 1\<rparr>, s')
    \<and> list_ok (l\<lparr>item_cnt := item_cnt l + 1\<rparr>) s' \<and> pager_live s' = pager_live s
    \<and> list_items (l\<lparr>item_cnt := item_cnt l + 1\<rparr>) s' =
        list_items l s @ [bytes_at s src (unat (item_size l))]
    \<and> (\<forall>x. x \<notin> page_cells (first_section l) \<longrightarrow> kmem s' x = kmem s x)"
proof -
  define p n c where "p = first_section l" and "n = unat (item_size l)" and "c = unat (item_cnt l)"
  define dst where "dst = p + of_nat (list_slot l c)"
  define s' where "s' = s\<lparr>kmem := memcpy dst src (item_size l) (kmem s)\<rparr>"
  have inv: "pager_inv s" and live: "p \<in> pager_live s" using ok by (auto simp: list_ok_def p_def)
  have fits: "list_slot l c + n \<le> 4096" using list_slot_fits [OF ok] room by (simp add: n_def c_def)
  have "bytes dst n \<subseteq> bytes p 4096"
  proof
    fix y assume "y \<in> bytes dst n"
    then obtain i where "i < n" "y = p + of_nat (list_slot l c + i)"
      by (auto simp: bytes_def dst_def algebra_simps)
    then show "y \<in> bytes p 4096"
      using fits unfolding bytes_def by (intro CollectI exI [of _ "list_slot l c + i"]) simp
  qed
  then have ap: "bytes dst (unat (item_size l)) \<inter> bytes src (unat (item_size l)) = {}"
    using src by (auto simp: p_def n_def)
  note mc = memcpy_ld8 [OF ap, of _ "kmem s"]
  note inv' = memcpy_page_inv [OF inv live fits [unfolded n_def], of src, folded dst_def, folded s'_def]
  have run: "list_append l src s = ret (l\<lparr>item_cnt := item_cnt l + 1\<rparr>, s')"
    using list_get_first [OF ok order_refl room] by (simp add: list_append_def s'_def dst_def p_def c_def)
  have new: "bytes_at s' dst n = bytes_at s src n"
    by (rule bytes_at_eq) (simp add: s'_def mc(1) n_def)
  have old: "bytes_at s' (p + of_nat (list_slot l i)) n = bytes_at s (p + of_nat (list_slot l i)) n"
    if "i < c" for i
  proof (rule bytes_at_eq)
    fix k assume k: "k < n"
    have "n * Suc i \<le> n * c" using that by (intro mult_le_mono2) simp
    then have lt: "list_slot l i + k < list_slot l c" using k by (simp add: list_slot_def n_def)
    have "p + of_nat (list_slot l i) + of_nat k \<notin> bytes dst n"
    proof
      assume "p + of_nat (list_slot l i) + of_nat k \<in> bytes dst n"
      then obtain j where "j < n" "p + of_nat (list_slot l i + k) = p + of_nat (list_slot l c + j)"
        by (auto simp: bytes_def dst_def algebra_simps)
      then show False using page_offset_inj [of p "list_slot l i + k" "list_slot l c + j"] lt fits by simp
    qed
    then show "ld8 (kmem s') (p + of_nat (list_slot l i) + of_nat k)
        = ld8 (kmem s) (p + of_nat (list_slot l i) + of_nat k)"
      by (simp add: s'_def mc(2) n_def)
  qed
  have "list_cap l \<le> 4088" by (simp add: list_cap_def)
  then have "c + 1 < 2 ^ 64" using room by (simp add: c_def)
  then have cnt: "unat (item_cnt l + 1) = Suc c" by (simp add: c_def unat_word_ariths)
  have slot: "list_slot (l\<lparr>item_cnt := v\<rparr>) i = list_slot l i" for v i by (simp add: list_slot_def)
  have items: "list_items (l\<lparr>item_cnt := item_cnt l + 1\<rparr>) s' = list_items l s @ [bytes_at s src n]"
    unfolding list_items_def using new old
    by (simp add: cnt slot n_def [symmetric] p_def [symmetric] c_def [symmetric] dst_def)
  have "unat p mod 4096 = 0" using live_page_aligned [OF inv live] by simp
  then have "kmem s' x = kmem s x" if "x \<notin> page_cells p" for x
    using memcpy_page_frame [OF _ fits [unfolded n_def] that] by (simp add: s'_def dst_def)
  moreover have "list_ok (l\<lparr>item_cnt := item_cnt l + 1\<rparr>) s'"
    using ok inv' by (simp add: list_ok_def p_def)
  ultimately show ?thesis
    using run inv' items unfolding n_def [symmetric] p_def [symmetric] by blast
qed

section \<open>Deleting\<close>

text \<open>A chain of sections, each pointing to the next one and the last one to nothing.\<close>

fun sections :: "'a machine_scheme \<Rightarrow> u64 \<Rightarrow> u64 list \<Rightarrow> bool" where
  "sections s a [] \<longleftrightarrow> False"
| "sections s a [b] \<longleftrightarrow> a = b \<and> at s a 0 = 0"
| "sections s a (b # c # cs) \<longleftrightarrow> a = b \<and> at s a 0 = c \<and> c \<noteq> 0 \<and> sections s c (c # cs)"

lemma sections_cong:
  "sections s a cs \<Longrightarrow> \<forall>b \<in> set cs. at s' b 0 = at s b 0 \<Longrightarrow> sections s' a cs"
  by (induction s a cs rule: sections.induct) auto

lemma list_delete_chain:
  assumes "sections s a cs" and "distinct cs" and "set cs \<subseteq> pager_live s" and "pager_inv s"
  shows "\<exists>s'. list_delete_from a s = ret ((), s') \<and> pager_inv s'
    \<and> pager_live s' = pager_live s - set cs \<and> pager_pool s' = pager_pool s
    \<and> (\<forall>x. x \<notin> pager_meta s \<longrightarrow> kmem s' x = kmem s x)"
  using assms
proof (induction cs arbitrary: a s)
  case (Cons b cs)
  then have ab: "a = b" and live: "a \<in> pager_live s" by (cases cs; auto)+
  obtain s1 where free: "pg_free a s = ret ((), s1)"
    using pager.release_total [OF Cons.prems(4) live] by blast
  note inv1 = pager.release_inv [OF Cons.prems(4) live free]
  note keep = pager.release_frame [OF Cons.prems(4) live free]
  show ?case
  proof (cases cs)
    case Nil
    with Cons.prems ab have "at s a 0 = 0" by simp
    then show ?thesis
      using free inv1 keep Nil ab by (subst list_delete_from.simps) (auto simp: Let_def)
  next
    case cs: (Cons c cs')
    with Cons.prems ab have next_c: "at s a 0 = c" "c \<noteq> 0" and tail: "sections s c cs" by auto
    have "at s1 q 0 = at s q 0" if "q \<in> set cs" for q
    proof -
      have "q + 8 * of_nat 0 \<in> page_cells q" unfolding cells_def by fastforce
      moreover have "q \<in> pager_live s" using that Cons.prems(3) by auto
      ultimately show ?thesis
        using keep [of q] pager.page_meta [OF Cons.prems(4), of q] by (auto simp: at_def)
    qed
    then have "sections s1 c cs" using sections_cong [OF tail] by blast
    moreover have "set cs \<subseteq> pager_live s1" using Cons.prems(2,3) ab inv1 by auto
    ultimately obtain s' where s': "list_delete_from c s1 = ret ((), s')" "pager_inv s'"
      "pager_live s' = pager_live s1 - set cs" "pager_pool s' = pager_pool s1"
      and keep': "\<forall>x. x \<notin> pager_meta s1 \<longrightarrow> kmem s' x = kmem s1 x"
      using Cons.IH [of s1 c] Cons.prems(2) inv1 by auto
    have "list_delete_from a s = ret ((), s')"
      using free next_c s'(1) by (subst list_delete_from.simps) (simp add: Let_def)
    moreover have "pager_live s' = pager_live s - set (b # cs)" using s'(3) inv1 ab by auto
    moreover have "pager_pool s' = pager_pool s" using s'(4) inv1 by simp
    moreover have "\<forall>x. x \<notin> pager_meta s \<longrightarrow> kmem s' x = kmem s x" using keep keep' inv1 by simp
    ultimately show ?thesis using s'(2) by blast
  qed
qed simp

section \<open>Properties\<close>

definition demo_list :: klist where
  "demo_list = \<lparr>first_section = 0xffffffc080301000, section_size = 4096, item_cnt = 0, item_size = 8\<rparr>"

lemma demo_list_create:
  "list_create 8 demo_pager = ret (demo_list, snd (take_page 0 0 demo_pager))"
  by (simp add: list_create_def demo_alloc demo_list_def)

lemma demo_list_ok: "list_ok demo_list (snd (take_page 0 0 demo_pager))"
  using pg_alloc_source(2) [OF demo_inv(1) demo_alloc] by (simp add: list_ok_def demo_list_def)

text \<open>
  C36. Appending to a list whose items still fit its first section returns, puts the bytes at the
  source at the end of the list, keeps every earlier item and the invariant of the list, and
  changes no cell outside the section. The source must lie outside the section.
\<close>

theorem list_append_sound:
  assumes "list_ok l s" and "unat (item_cnt l) < list_cap l"
    and "bytes (first_section l) 4096 \<inter> bytes src (unat (item_size l)) = {}"
  shows "\<exists>l' s'. list_append l src s = ret (l', s') \<and> list_ok l' s'
    \<and> list_items l' s' = list_items l s @ [bytes_at s src (unat (item_size l))]
    \<and> (\<forall>x. x \<notin> page_cells (first_section l) \<longrightarrow> kmem s' x = kmem s x)"
  using list_append_items [OF assms] by blast

theorem list_append_sound_witness:
  "\<exists>l' s'. list_append demo_list 0x1000 (snd (take_page 0 0 demo_pager)) = ret (l', s')
     \<and> length (list_items l' s') = 1"
proof -
  have "bytes 0x1000 8 \<inter> bytes 0xffffffc080301000 4096 = {}" by (rule bytes_apart) simp_all
  then have "bytes (first_section demo_list) 4096 \<inter> bytes 0x1000 (unat (item_size demo_list)) = {}"
    by (auto simp: demo_list_def)
  moreover have "unat (item_cnt demo_list) < list_cap demo_list"
    by (simp add: demo_list_def list_cap_def)
  ultimately obtain l' s' where
    r: "list_append demo_list 0x1000 (snd (take_page 0 0 demo_pager)) = ret (l', s')"
    "list_items l' s' = list_items demo_list (snd (take_page 0 0 demo_pager)) @
       [bytes_at (snd (take_page 0 0 demo_pager)) 0x1000 (unat (item_size demo_list))]"
    using list_append_sound [OF demo_list_ok] by metis
  have "length (list_items l' s') = 1" unfolding r(2) by (simp add: list_items_def demo_list_def)
  with r(1) show ?thesis by blast
qed

text \<open>
  C37. Deleting a list ends and gives back exactly the sections of its chain: every other page stays
  in use, and no cell outside the page allocator's tables changes.
\<close>

theorem list_delete_sound:
  assumes "pager_inv s" and "sections s (first_section l) cs" and "distinct cs"
    and "set cs \<subseteq> pager_live s"
  shows "\<exists>s'. list_delete l s = ret ((), s') \<and> pager_inv s'
    \<and> pager_live s' = pager_live s - set cs
    \<and> (\<forall>x. x \<notin> pager_meta s \<longrightarrow> kmem s' x = kmem s x)"
  unfolding list_delete_def using list_delete_chain [OF assms(2-4,1)] by blast

theorem list_delete_sound_witness:
  "\<exists>s'. list_delete demo_list (snd (take_page 0 0 demo_pager)) = ret ((), s') \<and> pager_live s' = {}"
proof -
  let ?s = "snd (take_page 0 0 demo_pager)" and ?p = "0xffffffc080301000 :: u64"
  have "sections ?s ?p [?p]" using at_pg_alloc(1) [OF demo_inv(1) demo_alloc, where j = 0] by simp
  then have "sections ?s (first_section demo_list) [?p]" by (simp add: demo_list_def)
  moreover have "pager_inv ?s" "pager_live ?s = {?p}"
    using pg_alloc_source(2) [OF demo_inv(1) demo_alloc] demo_inv(2) by auto
  ultimately show ?thesis using list_delete_sound [of ?s demo_list "[?p]"] by auto
qed

text \<open>
  The section that holds the first item past the first section is allocated afresh by every
  access, so what was stored there is lost.
\<close>

lemma list_second_section_lost:
  assumes "pager_inv s" and "first_section l \<in> pager_live s" and "at s (first_section l) 0 = 0"
    and "item_idx \<le> item_cnt l" and "item_size l \<noteq> 0"
    and "item_idx div ((section_size l - 8) div item_size l) = 1"
    and "list_get l item_idx s = ret (a, s1)" and "list_get l item_idx s1 = ret (b, s2)"
  shows "a \<noteq> b"
proof -
  define c where "c = (section_size l - 8) div item_size l"
  have "c \<noteq> 0" using assms(6) by (auto simp: c_def [symmetric])
  then have get: "list_get l item_idx t = bindr (list_seek 1 (first_section l) t) (\<lambda>(section, s).
      ret (section + 8 + item_size l * (item_idx mod c), s))" for t :: "'a pager_scheme"
    using assms(4-6) by (auto simp: list_get_def c_def [symmetric] not_less)
  from assms(7) [unfolded get] assms(3) obtain p where p: "pg_alloc s = ret (p, s1)"
    "a = p + 8 + item_size l * (item_idx mod c)" by (auto simp: Let_def)
  have "at s1 (first_section l) 0 = 0" using at_pg_alloc(2) [OF assms(1) p(1), of 0] assms(2,3) by simp
  with assms(8) [unfolded get] obtain q where q: "pg_alloc s1 = ret (q, s2)"
    "b = q + 8 + item_size l * (item_idx mod c)" by (auto simp: Let_def)
  have "p \<noteq> q"
    using pg_alloc_source(1) [OF _ q(1)] pg_alloc_source(2) [OF assms(1) p(1)] by auto
  then show ?thesis using p(2) q(2) by simp
qed

end
