(* ===== verification/Vma.thy ===== *)
theory Vma
  imports Allocator Hashmap Klist
begin

text \<open>
  The sv39 page tables of \<^verbatim>\<open>src/src/arch/risc-v/arch_vma/virtual_memory.c\<close>: page table entries,
  splitting and merging of tables, mapping and unmapping of ranges, address spaces and their
  identifiers. The state extends the allocator's with the process table's globals, which the
  identifier reset walks, and with what the code does to the hart: the \<open>satp\<close> register, the
  supervisor status register and the sequence of \<open>sfence.vma\<close> instructions.

  A table is a page of 512 words; an entry is named by its table and its index. Physical addresses
  appear as the kernel sees them, behind \<open>KERNEL_VMA_START\<close>. Reading a null pointer has no meaning
  in C.
\<close>

section \<open>State\<close>

text \<open>\<open>process_handler_state\<close> of \<^verbatim>\<open>process.h\<close>.\<close>

record procs = allocator +
  process_upto :: u64
  process_hashmap :: hashmap
  running_list :: klist

text \<open>One \<open>sfence.vma rs1, rs2\<close>; a register that is \<open>zero\<close> stands for all addresses or all spaces.\<close>

datatype fence = Fence_All | Fence_Asid u64 | Fence_Page u64 u64

record vma = procs +
  max_asid :: u64
  current_highest_asid :: u64
  satp :: u64
  sstatus :: u64
  fences :: "fence list"

abbreviation (input) VMA_VALID :: u64 where "VMA_VALID \<equiv> 1"
abbreviation (input) VMA_READ :: u64 where "VMA_READ \<equiv> 2"
abbreviation (input) VMA_WRITE :: u64 where "VMA_WRITE \<equiv> 4"
abbreviation (input) VMA_EXEC :: u64 where "VMA_EXEC \<equiv> 8"
abbreviation (input) VMA_USER :: u64 where "VMA_USER \<equiv> 16"
abbreviation (input) VMA_ACCESSED :: u64 where "VMA_ACCESSED \<equiv> 64"
abbreviation (input) VMA_DIRTY :: u64 where "VMA_DIRTY \<equiv> 128"
abbreviation (input) VMA_DONT_COMPRESS :: u64 where "VMA_DONT_COMPRESS \<equiv> 256"

section \<open>Page table entries\<close>

definition create_leaf :: "u64 \<Rightarrow> u64 \<Rightarrow> u64" where
  "create_leaf phys_addr arg_flags =
     (if arg_flags = 0 then 0
      else push_bit 10 ((phys_addr - KERNEL_VMA_START) div 4096) OR arg_flags OR VMA_VALID)"

definition create_branch :: "u64 \<Rightarrow> u64" where
  "create_branch branch_addr = push_bit 10 ((branch_addr - KERNEL_VMA_START) div 4096) OR VMA_VALID"

definition get_branch_loc :: "u64 \<Rightarrow> u64" where
  "get_branch_loc leaf_data =
     (if leaf_data AND (BIT 10 - 1) \<noteq> 1 then 0
      else (drop_bit 10 leaf_data AND (BIT 44 - 1)) * 4096 + KERNEL_VMA_START)"

definition get_leaf_flags :: "u64 \<Rightarrow> u64" where
  "get_leaf_flags leaf_data = (BIT 10 - 1) AND leaf_data"

definition get_phys_leaf_loc :: "u64 \<Rightarrow> u64" where
  "get_phys_leaf_loc leaf_data =
     (if leaf_data AND (BIT 10 - 1) \<le> 1 then 0
      else (drop_bit 10 leaf_data AND (BIT 44 - 1)) * 4096 + KERNEL_VMA_START)"

section \<open>Splitting and merging\<close>

text \<open>The loop of \<open>expand_leaf\<close>: entry \<open>i\<close> of the new table covers its part of the old leaf.\<close>

primrec fill_split :: "nat \<Rightarrow> u64 \<Rightarrow> u64 \<Rightarrow> u64 \<Rightarrow> u64 \<Rightarrow> 'a machine_scheme \<Rightarrow> 'a machine_scheme" where
  "fill_split 0 new_branch physical_location branch_jmp_size flags s = s"
| "fill_split (Suc i) new_branch physical_location branch_jmp_size flags s =
     set_at new_branch (of_nat i)
       (create_leaf (physical_location + of_nat i * (branch_jmp_size div 512)) flags)
       (fill_split i new_branch physical_location branch_jmp_size flags s)"

definition expand_leaf :: "u64 \<Rightarrow> u64 \<Rightarrow> u64 \<Rightarrow> 'a pager_scheme \<Rightarrow> (u64 \<times> 'a pager_scheme) run" where
  "expand_leaf table idx branch_jmp_size s =
     bindr (pg_alloc s) (\<lambda>(new_branch, s).
       let physical_location = get_phys_leaf_loc (at s table idx);
           flags = get_leaf_flags (at s table idx)
       in if flags AND VMA_DONT_COMPRESS \<noteq> 0 then panic ''ATTEMPT_TO_EXPAND_NON_COMPRESS_LEAF'' 0 0 0
          else let s = set_at table idx (create_branch new_branch) s
               in if at s table idx = 0 then ret (new_branch, s)
                  else ret (new_branch, fill_split 512 new_branch physical_location branch_jmp_size flags s))"

lemma for_each_mono [partial_function_mono]:
  assumes "\<And>x s. mono_option (\<lambda>f. g f x s)"
  shows "mono_option (\<lambda>f. for_each xs (g f) s)"
proof (induction xs arbitrary: s)
  case Nil
  show ?case by (simp add: option.const_mono)
next
  case (Cons x xs)
  have "mono_option (\<lambda>f. bindr (g f x s) (\<lambda>y. case y of (_, s') \<Rightarrow> for_each xs (g f) s'))"
  proof (rule bindr_mono)
    show "mono_option (\<lambda>f. g f x s)" by (rule assms)
    show "mono_option (\<lambda>f. case y of (_, s') \<Rightarrow> for_each xs (g f) s')" for y
      using Cons by (cases y) simp
  qed
  then show ?case by simp
qed

text \<open>
  \<open>destroy_branch\<close> is called on entries, not on their addresses, so the entry itself is the pointer
  it reads through.
\<close>

partial_function (option) destroy_branch ::
  "u64 \<Rightarrow> u64 \<Rightarrow> 'a pager_scheme \<Rightarrow> (unit \<times> 'a pager_scheme) run" where
  "destroy_branch branch_loc branch_jmp_size s =
     (if branch_loc = 0 then undef ''null pointer''
      else let physical_loc = get_branch_loc (ld64 (kmem s) branch_loc)
           in if physical_loc = 0 then ret ((), s)
              else bindr (for_each [0..<512]
                     (\<lambda>i s. destroy_branch (at s physical_loc (of_nat i)) (branch_jmp_size div 512) s) s)
                   (\<lambda>(_, s). pg_free physical_loc s))"

definition can_shrink :: "u64 \<Rightarrow> u64 \<Rightarrow> 'a machine_scheme \<Rightarrow> bool" where
  "can_shrink branch_leafs leaf_jmp_size s =
     (if at s branch_leafs 0 = 0 then list_all (\<lambda>i. at s branch_leafs (of_nat i) = 0) [0..<512]
      else
        let start_phys_loc = get_phys_leaf_loc (at s branch_leafs 0);
            start_access_flags = get_leaf_flags (at s branch_leafs 0)
        in list_all (\<lambda>i.
             let iter_phys_loc = get_phys_leaf_loc (at s branch_leafs (of_nat i));
                 iter_flags = get_leaf_flags (at s branch_leafs (of_nat i))
             in iter_phys_loc = start_phys_loc + leaf_jmp_size * of_nat i
                \<and> iter_flags = start_access_flags \<and> iter_flags AND VMA_DONT_COMPRESS = 0) [0..<512])"

text \<open>In the mapped case the merged leaf is computed and dropped: the entry is not written.\<close>

definition shrink_branch :: "u64 \<Rightarrow> u64 \<Rightarrow> u64 \<Rightarrow> 'a pager_scheme \<Rightarrow> (unit \<times> 'a pager_scheme) run" where
  "shrink_branch table idx branch_jmp_size s =
     (let branch_leafs = get_branch_loc (at s table idx)
      in if branch_leafs = 0 then ret ((), s)
         else if can_shrink branch_leafs (branch_jmp_size div 512) s then
           if at s branch_leafs 0 = 0 then pg_free branch_leafs (set_at table idx 0 s)
           else pg_free branch_leafs s
         else ret ((), s))"

section \<open>Replacing a range\<close>

definition ppn0_jmp_size :: u64 where "ppn0_jmp_size = 4096"
definition ppn1_jmp_size :: u64 where "ppn1_jmp_size = 4096 * 512"
definition ppn2_jmp_size :: u64 where "ppn2_jmp_size = 4096 * 512 * 512"

lemmas jmp_sizes = ppn0_jmp_size_def ppn1_jmp_size_def ppn2_jmp_size_def

record ppn_counts =
  pre_ppn0_cnt :: u64
  pre_ppn1_cnt :: u64
  ppn2_cnt :: u64
  post_ppn1_cnt :: u64
  post_ppn0_cnt :: u64

text \<open>The counting loop; the two tests of the highest level reached both look at \<open>ppn2_jmp_size\<close>.\<close>

definition ppn_reached :: "u64 \<Rightarrow> nat \<Rightarrow> nat" where
  "ppn_reached cur_virt_addr highest_reached_ppn =
     (let h = (if ROUND_MOD_DOWN cur_virt_addr ppn2_jmp_size = cur_virt_addr \<and> highest_reached_ppn < 2
               then 2 else highest_reached_ppn)
      in if ROUND_MOD_DOWN cur_virt_addr ppn2_jmp_size = cur_virt_addr \<and> h < 1 then 1 else h)"

function ppn_count :: "u64 \<Rightarrow> u64 \<Rightarrow> nat \<Rightarrow> ppn_counts \<Rightarrow> ppn_counts option" where
  "ppn_count mapping_left cur_virt_addr highest_reached_ppn c =
     (if mapping_left = 0 then Some c
      else let h = ppn_reached cur_virt_addr highest_reached_ppn
      in if ROUND_MOD_DOWN cur_virt_addr ppn2_jmp_size = cur_virt_addr \<and> mapping_left \<ge> ppn2_jmp_size then
           ppn_count (mapping_left - ppn2_jmp_size) (cur_virt_addr + ppn2_jmp_size) h
             (c\<lparr>ppn2_cnt := ppn2_cnt c + 1\<rparr>)
         else if ROUND_MOD_DOWN cur_virt_addr ppn1_jmp_size = cur_virt_addr \<and> mapping_left \<ge> ppn1_jmp_size then
           ppn_count (mapping_left - ppn1_jmp_size) (cur_virt_addr + ppn1_jmp_size) h
             (if h > 1 then c\<lparr>post_ppn1_cnt := post_ppn1_cnt c + 1\<rparr>
              else c\<lparr>pre_ppn1_cnt := pre_ppn1_cnt c + 1\<rparr>)
         else if ROUND_MOD_DOWN cur_virt_addr ppn0_jmp_size = cur_virt_addr \<and> mapping_left \<ge> ppn0_jmp_size then
           ppn_count (mapping_left - ppn0_jmp_size) (cur_virt_addr + ppn0_jmp_size) h
             (if h > 0 then c\<lparr>post_ppn0_cnt := post_ppn0_cnt c + 1\<rparr>
              else c\<lparr>pre_ppn0_cnt := pre_ppn0_cnt c + 1\<rparr>)
         else None)"
  by pat_completeness auto
termination
  by (relation "measure (\<lambda>(m, _, _, _). unat m)")
     (auto simp: jmp_sizes unat_sub word_le_nat_alt)

declare ppn_count.simps [simp del]

text \<open>\<open>n\<close> leaves of size \<open>jmp\<close> from entry \<open>idx\<close> on, for the physical range from \<open>phys\<close> on.\<close>

primrec put_leaves :: "nat \<Rightarrow> u64 \<Rightarrow> u64 \<Rightarrow> u64 \<Rightarrow> u64 \<Rightarrow> u64 \<Rightarrow> 'a machine_scheme \<Rightarrow> 'a machine_scheme" where
  "put_leaves 0 table idx phys jmp access_flags s = s"
| "put_leaves (Suc n) table idx phys jmp access_flags s =
     put_leaves n table (idx + 1) (phys + jmp) jmp access_flags
       (set_at table idx (create_leaf phys access_flags) s)"

text \<open>The same for the upper levels, where an entry may hold a table.\<close>

primrec put_blocks ::
  "nat \<Rightarrow> u64 \<Rightarrow> u64 \<Rightarrow> u64 \<Rightarrow> u64 \<Rightarrow> u64 \<Rightarrow> 'a pager_scheme \<Rightarrow> (unit \<times> 'a pager_scheme) run" where
  "put_blocks 0 table idx phys jmp access_flags s = ret ((), s)"
| "put_blocks (Suc n) table idx phys jmp access_flags s =
     bindr (if get_branch_loc (at s table idx) \<noteq> 0 then destroy_branch (at s table idx) jmp s
            else ret ((), s)) (\<lambda>(_, s).
       put_blocks n table (idx + 1) (phys + jmp) jmp access_flags
         (set_at table idx (create_leaf phys access_flags) s))"

text \<open>The table behind an entry, split off when there is none and one is needed.\<close>

definition table_of :: "u64 \<Rightarrow> u64 \<Rightarrow> u64 \<Rightarrow> bool \<Rightarrow> 'a pager_scheme \<Rightarrow> (u64 \<times> 'a pager_scheme) run" where
  "table_of table idx jmp needed s =
     (if table = 0 then undef ''null pointer''
      else let t = get_branch_loc (at s table idx)
           in if t = 0 \<and> needed then expand_leaf table idx jmp s else ret (t, s))"

text \<open>The part before the first 1 GiB boundary: small pages, then 2 MiB leaves.\<close>

definition vma_pre ::
  "u64 \<Rightarrow> u64 \<Rightarrow> u64 \<Rightarrow> u64 \<Rightarrow> ppn_counts \<Rightarrow> 'a pager_scheme \<Rightarrow> (unit \<times> 'a pager_scheme) run" where
  "vma_pre table_root normal_virt_addr phys_addr access_flags c s =
     (let i2 = normal_virt_addr div ppn2_jmp_size;
          i1 = (normal_virt_addr mod ppn2_jmp_size) div ppn1_jmp_size;
          i0 = (normal_virt_addr mod ppn1_jmp_size) div ppn0_jmp_size
      in bindr (table_of table_root i2 ppn2_jmp_size (pre_ppn1_cnt c > 0 \<or> pre_ppn0_cnt c > 0) s)
           (\<lambda>(pre_ppn1_table, s).
         bindr (table_of pre_ppn1_table i1 ppn1_jmp_size (pre_ppn0_cnt c > 0) s) (\<lambda>(pre_ppn0_table, s).
         bindr (shrink_branch pre_ppn1_table i1 ppn1_jmp_size
                 (put_leaves (unat (pre_ppn0_cnt c)) pre_ppn0_table i0 phys_addr ppn0_jmp_size access_flags s))
           (\<lambda>(_, s).
         bindr (put_blocks (unat (pre_ppn1_cnt c)) pre_ppn1_table i1
                 (phys_addr + pre_ppn0_cnt c * ppn0_jmp_size) ppn1_jmp_size access_flags s) (\<lambda>(_, s).
         shrink_branch table_root i2 ppn2_jmp_size s)))))"

text \<open>The part behind the last 1 GiB boundary, from entry \<open>i2\<close> and offset \<open>off\<close> on.\<close>

definition vma_post ::
  "u64 \<Rightarrow> u64 \<Rightarrow> u64 \<Rightarrow> u64 \<Rightarrow> ppn_counts \<Rightarrow> 'a pager_scheme \<Rightarrow> (unit \<times> 'a pager_scheme) run" where
  "vma_post table_root i2 phys_addr access_flags c s =
     bindr (table_of table_root i2 ppn2_jmp_size (post_ppn1_cnt c > 0 \<or> post_ppn0_cnt c > 0) s)
       (\<lambda>(post_ppn1_table, s).
     bindr (put_blocks (unat (post_ppn1_cnt c)) post_ppn1_table 0 phys_addr ppn1_jmp_size access_flags s)
       (\<lambda>(_, s).
     bindr (if post_ppn0_cnt c > 0 then
              bindr (table_of post_ppn1_table (post_ppn1_cnt c) ppn1_jmp_size True s) (\<lambda>(post_ppn0_table, s).
                shrink_branch post_ppn1_table (post_ppn1_cnt c) ppn1_jmp_size
                  (put_leaves (unat (post_ppn0_cnt c)) post_ppn0_table 0
                    (phys_addr + post_ppn1_cnt c * ppn1_jmp_size) ppn0_jmp_size access_flags s))
            else ret ((), s)) (\<lambda>(_, s).
     shrink_branch table_root i2 ppn2_jmp_size s)))"

primrec fence_pages :: "nat \<Rightarrow> u64 \<Rightarrow> u64 \<Rightarrow> u64 \<Rightarrow> fence list" where
  "fence_pages 0 virt jmp asid = []"
| "fence_pages (Suc n) virt jmp asid = Fence_Page virt asid # fence_pages n (virt + jmp) jmp asid"

text \<open>The second round over the range, one fence for each entry written.\<close>

definition vma_fences :: "u64 \<Rightarrow> ppn_counts \<Rightarrow> u64 \<Rightarrow> fence list" where
  "vma_fences virt_addr_start c asid =
     (let v1 = virt_addr_start + pre_ppn0_cnt c * ppn0_jmp_size;
          v2 = v1 + pre_ppn1_cnt c * ppn1_jmp_size;
          v3 = v2 + ppn2_cnt c * ppn2_jmp_size;
          v4 = v3 + post_ppn1_cnt c * ppn1_jmp_size
      in fence_pages (unat (pre_ppn0_cnt c)) virt_addr_start ppn0_jmp_size asid
         @ fence_pages (unat (pre_ppn1_cnt c)) v1 ppn1_jmp_size asid
         @ fence_pages (unat (ppn2_cnt c)) v2 ppn2_jmp_size asid
         @ fence_pages (unat (post_ppn1_cnt c)) v3 ppn1_jmp_size asid
         @ fence_pages (unat (post_ppn0_cnt c)) v4 ppn0_jmp_size asid)"

definition normal_addr :: "u64 \<Rightarrow> u64" where
  "normal_addr virt_addr_start =
     virt_addr_start - (0xffffffc000000000 - 0x4000000000) * of_bool (virt_addr_start \<ge> 0xffffffc000000000)"

definition no_counts :: ppn_counts where
  "no_counts = \<lparr>pre_ppn0_cnt = 0, pre_ppn1_cnt = 0, ppn2_cnt = 0, post_ppn1_cnt = 0, post_ppn0_cnt = 0\<rparr>"

definition vma_replace_section ::
  "u64 \<Rightarrow> u64 \<Rightarrow> u64 \<Rightarrow> u64 \<Rightarrow> u64 \<Rightarrow> u64 \<Rightarrow> 'a vma_scheme \<Rightarrow> (unit \<times> 'a vma_scheme) run" where
  "vma_replace_section table_root virt_addr_start virt_addr_size phys_addr access_flags vma_addr_asid s =
     (let asid = (if max_asid s = 0 then 0 else vma_addr_asid);
          is_kernelspace = virt_addr_start \<ge> 0xffffffc000000000;
          normal_virt_addr = normal_addr virt_addr_start
      in if virt_addr_size > ppn2_jmp_size * 256 then
           panic ''VMA_MAPPING_LARGER_THEN_MAX_SIZE'' virt_addr_size 0 0
         else if normal_virt_addr > 0x4000000000 - virt_addr_size \<and> \<not> is_kernelspace then
           panic ''VMA_MAPPING_PAST_MAX_USERSPACE'' virt_addr_start virt_addr_size phys_addr
         else if normal_virt_addr > 0x8000000000 - virt_addr_size \<and> is_kernelspace then
           panic ''VMA_MAPPING_PAST_MAX_KERNELSPACE'' virt_addr_start virt_addr_size phys_addr
         else case ppn_count virt_addr_size normal_virt_addr 0 no_counts of
           None \<Rightarrow> panic ''BAD_SIZE_LEFT_MAPPING'' virt_addr_start virt_addr_size phys_addr
         | Some c \<Rightarrow>
             let i2 = normal_virt_addr div ppn2_jmp_size;
                 off1 = pre_ppn0_cnt c * ppn0_jmp_size + pre_ppn1_cnt c * ppn1_jmp_size;
                 off2 = off1 + ppn2_cnt c * ppn2_jmp_size
             in bindr (vma_pre table_root normal_virt_addr phys_addr access_flags c s) (\<lambda>(_, s).
                bindr (put_blocks (unat (ppn2_cnt c)) table_root i2 (phys_addr + off1) ppn2_jmp_size access_flags s)
                  (\<lambda>(_, s).
                bindr (vma_post table_root (i2 + ppn2_cnt c) (phys_addr + off2) access_flags c s) (\<lambda>(_, s).
                ret ((), s\<lparr>fences := fences s @ vma_fences virt_addr_start c asid\<rparr>)))))"

section \<open>Address spaces\<close>

text \<open>
  The callers pass a process; the functions read its \<open>vma_table\<close> and its \<open>vma_addr_space_id\<close>, which
  are the first two arguments here.
\<close>

definition vma_map_kernel ::
  "u64 \<Rightarrow> u64 \<Rightarrow> u64 \<Rightarrow> u64 \<Rightarrow> u64 \<Rightarrow> u64 \<Rightarrow> 'a vma_scheme \<Rightarrow> (unit \<times> 'a vma_scheme) run" where
  "vma_map_kernel vma_table vma_addr_space_id virt_addr sz phys_addr access_flags s =
     vma_replace_section vma_table virt_addr sz phys_addr
       (access_flags OR VMA_VALID OR VMA_DIRTY OR VMA_ACCESSED) vma_addr_space_id s"

definition vma_map_user ::
  "u64 \<Rightarrow> u64 \<Rightarrow> u64 \<Rightarrow> u64 \<Rightarrow> u64 \<Rightarrow> u64 \<Rightarrow> 'a vma_scheme \<Rightarrow> (unit \<times> 'a vma_scheme) run" where
  "vma_map_user vma_table vma_addr_space_id virt_addr sz phys_addr access_flags s =
     vma_replace_section vma_table virt_addr sz phys_addr
       (access_flags OR VMA_VALID OR VMA_USER OR VMA_DIRTY OR VMA_ACCESSED) vma_addr_space_id s"

definition vma_unmap :: "u64 \<Rightarrow> u64 \<Rightarrow> u64 \<Rightarrow> u64 \<Rightarrow> 'a vma_scheme \<Rightarrow> (unit \<times> 'a vma_scheme) run" where
  "vma_unmap vma_table vma_addr_space_id virt_addr sz s =
     vma_replace_section vma_table virt_addr sz 0 0 vma_addr_space_id s"

text \<open>Iterations \<open>0\<close> to \<open>n - 1\<close> of the loop that maps the kernel half, one 1 GiB leaf each.\<close>

primrec kernel_leaves :: "nat \<Rightarrow> u64 \<Rightarrow> 'a machine_scheme \<Rightarrow> 'a machine_scheme" where
  "kernel_leaves 0 entry_leaf s = s"
| "kernel_leaves (Suc i) entry_leaf s =
     set_at entry_leaf (256 + of_nat i)
       (push_bit 28 (of_nat i) OR (VMA_VALID OR VMA_READ OR VMA_WRITE OR VMA_EXEC))
       (kernel_leaves i entry_leaf s)"

text \<open>\<open>vma_create\<close> returns the table it stores into the process.\<close>

definition vma_create :: "'a pager_scheme \<Rightarrow> (u64 \<times> 'a pager_scheme) run" where
  "vma_create s =
     bindr (pg_alloc s) (\<lambda>(new_page_addr, s). ret (new_page_addr, kernel_leaves 256 new_page_addr s))"

definition vma_init :: "'a vma_scheme \<Rightarrow> 'a vma_scheme" where
  "vma_init s =
     (let m = drop_bit 44 (satp s) AND (BIT 16 - 1)
      in s\<lparr>fences := fences s @ [Fence_All], max_asid := m, current_highest_asid := m\<rparr>)"

definition processes_iter :: "'a procs_scheme \<Rightarrow> list_iter run" where
  "processes_iter s = list_iter_create (running_list s)"

text \<open>
  The loop of \<open>vma_reset_asid\<close> reads the count through \<open>cur_list\<close>, which the first step moves past
  the list; it stores into word 7 of what the iterator returns, the slot of the list.
\<close>

partial_function (option) reset_asids ::
  "list_iter \<Rightarrow> 'a vma_scheme \<Rightarrow> (unit \<times> 'a vma_scheme) run" where
  "reset_asids it s =
     (if cur_list it \<noteq> 0 then undef ''list pointer past its object''
      else if cur_upto it < item_cnt (running_list s) then
        bindr (list_iter_next (running_list s) it s) (\<lambda>(proc, it).
          if proc = 0 then panic ''PROC_ASID_LOOP_INVALID'' 0 0 0
          else reset_asids it (set_at proc 7 U64_MAX s))
      else ret ((), s))"

definition vma_reset_asid :: "'a vma_scheme \<Rightarrow> (unit \<times> 'a vma_scheme) run" where
  "vma_reset_asid s =
     (let s = s\<lparr>current_highest_asid := 0, fences := fences s @ [Fence_All]\<rparr>
      in if max_asid s = 0 then ret ((), s)
         else bindr (processes_iter s) (\<lambda>it. reset_asids it s))"

definition vma_fetch_asid :: "'a vma_scheme \<Rightarrow> (u64 \<times> 'a vma_scheme) run" where
  "vma_fetch_asid s =
     (if max_asid s = 0 then bindr (vma_reset_asid s) (\<lambda>(_, s). ret (0, s))
      else if current_highest_asid s \<ge> max_asid s then
        bindr (vma_reset_asid s) (\<lambda>(_, s). ret (0, s\<lparr>current_highest_asid := 0\<rparr>))
      else ret (current_highest_asid s + 1, s\<lparr>current_highest_asid := current_highest_asid s + 1\<rparr>))"

text \<open>Words 6 and 7 of a process are its table and its address space identifier.\<close>

definition vma_swap :: "u64 \<Rightarrow> 'a vma_scheme \<Rightarrow> (unit \<times> 'a vma_scheme) run" where
  "vma_swap process s =
     bindr (if at s process 7 = U64_MAX \<or> max_asid s = 0 then
              bindr (vma_fetch_asid s) (\<lambda>(asid, s). ret (True, set_at process 7 asid s))
            else ret (False, s)) (\<lambda>(new_vma, s).
       let satp_value = push_bit 44 (at s process 7) OR push_bit 60 8
                        OR ((at s process 6 - KERNEL_VMA_START) div 4096);
           s = s\<lparr>satp := satp_value\<rparr>
       in if max_asid s \<noteq> 0 then
            if new_vma then ret ((), s\<lparr>fences := fences s @ [Fence_Asid (at s process 7)]\<rparr>)
            else ret ((), s)
          else ret ((), s\<lparr>fences := fences s @ [Fence_All]\<rparr>))"

definition vma_enable_read_user :: "'a vma_scheme \<Rightarrow> 'a vma_scheme" where
  "vma_enable_read_user s = s\<lparr>sstatus := sstatus s OR BIT 18\<rparr>"

definition vma_disable_read_user :: "'a vma_scheme \<Rightarrow> 'a vma_scheme" where
  "vma_disable_read_user s = s\<lparr>sstatus := sstatus s AND NOT (BIT 18)\<rparr>"

end
