(* ===== verification/Vma_Walk.thy ===== *)
theory Vma_Walk
  imports Vma
begin

text \<open>
  What the page tables mean: the sv39 address translation of the privileged architecture, the
  well-formed trees of tables on which the kernel works, and the proof that replacing a range of
  pages under one table changes the translation exactly there.
\<close>

section \<open>Entries\<close>

lemma BIT_minus_1: "BIT n - 1 = mask n"
  by (simp add: BIT_def mask_eq_decr_exp)

lemma kernel_page_number:
  assumes "KERNEL_VMA_START \<le> p"
  shows "unat ((p - KERNEL_VMA_START) div 4096) < 2 ^ 26"
proof -
  have "unat p < 2 ^ 64" using unsigned_less [where ?'a = nat, of p] by simp
  then have "unat (p - KERNEL_VMA_START) < 2 ^ 38" using assms by (simp add: unat_sub word_le_nat_alt)
  then show ?thesis by (simp add: unat_div)
qed

lemma pte_bits:
  fixes k f :: u64
  assumes "unat k < 2 ^ 44" and "f AND mask 10 = f"
  shows "drop_bit 10 (push_bit 10 k OR f) AND mask 44 = k" and "(push_bit 10 k OR f) AND mask 10 = f"
proof -
  have "k = take_bit 44 k"
    by (rule word_unat_eq_iff [THEN iffD2]) (use assms(1) in \<open>simp add: unsigned_take_bit_eq take_bit_nat_eq_self\<close>)
  then have k: "bit k n \<Longrightarrow> n < 44" for n by (metis bit_take_bit_iff)
  have f: "bit f n \<Longrightarrow> n < 10" for n
    using arg_cong [OF assms(2), of "\<lambda>w. bit w n"] by (simp add: bit_and_iff bit_mask_iff)
  show "drop_bit 10 (push_bit 10 k OR f) AND mask 44 = k"
    by (rule word64_eqI)
       (auto simp: bit_and_iff bit_mask_iff bit_drop_bit_eq bit_or_iff bit_push_bit_iff dest: k f)
  show "(push_bit 10 k OR f) AND mask 10 = f"
    by (rule word64_eqI)
       (auto simp: bit_and_iff bit_mask_iff bit_or_iff bit_push_bit_iff dest: f)
qed

text \<open>Flags as the callers build them: within ten bits, valid, and readable, writable or executable.\<close>

definition leaf_flags :: "u64 \<Rightarrow> bool" where
  "leaf_flags f \<longleftrightarrow> f AND mask 10 = f \<and> bit f 0 \<and> f AND 0xE \<noteq> 0"

definition kernel_page :: "u64 \<Rightarrow> bool" where
  "kernel_page p \<longleftrightarrow> KERNEL_VMA_START \<le> p \<and> unat p mod 4096 = 0"

lemma kernel_page_split:
  assumes "kernel_page p"
  shows "(p - KERNEL_VMA_START) div 4096 * 4096 + KERNEL_VMA_START = p"
proof -
  have "KERNEL_VMA_START \<le> p" "unat p mod 4096 = 0" using assms by (auto simp: kernel_page_def)
  then have "unat (p - KERNEL_VMA_START) mod 4096 = 0" and le: "unat KERNEL_VMA_START \<le> unat p"
    by (auto simp: unat_sub word_le_nat_alt mod_diff_eq dest: mod_eq_dvd_iff_nat)
  then have "unat (p - KERNEL_VMA_START) div 4096 * 4096 = unat (p - KERNEL_VMA_START)" by auto
  then have "unat ((p - KERNEL_VMA_START) div 4096 * 4096) = unat (p - KERNEL_VMA_START)"
    using unsigned_less [where ?'a = nat, of "p - KERNEL_VMA_START"]
    by (simp add: unat_word_ariths unat_div)
  then have "(p - KERNEL_VMA_START) div 4096 * 4096 = p - KERNEL_VMA_START"
    by (rule word_unat_eq_iff [THEN iffD2])
  then show ?thesis by simp
qed

lemma leaf_flags_facts:
  assumes "leaf_flags f"
  shows "f AND mask 10 = f" "f \<noteq> 0" "f OR 1 = f" "\<not> f \<le> 1" "bit f 0"
proof -
  show m: "f AND mask 10 = f" and b: "bit f 0" using assms by (simp_all add: leaf_flags_def)
  show "f \<noteq> 0" using b by auto
  show "f OR 1 = f"
    by (rule word64_eqI) (use b in \<open>auto simp: bit_or_iff bit_1_iff\<close>)
  show "\<not> f \<le> 1"
  proof
    assume "f \<le> 1"
    then have "unat f \<le> 1" by (simp add: word_le_nat_alt)
    then have "unat f = 0 \<or> unat f = 1" by linarith
    then have "f = 0 \<or> f = 1" by (metis unat_0 unat_1 word_unat_eq_iff)
    then show False using assms by (auto simp: leaf_flags_def)
  qed
qed

lemma leaf_pte:
  assumes p: "kernel_page p" and f: "leaf_flags f"
  shows "get_phys_leaf_loc (create_leaf p f) = p" and "get_leaf_flags (create_leaf p f) = f"
    and "get_branch_loc (create_leaf p f) = 0"
proof -
  note ff = leaf_flags_facts [OF f]
  define k where "k = (p - KERNEL_VMA_START) div 4096"
  have k: "unat k < 2 ^ 44"
    using kernel_page_number [of p] p by (simp add: k_def kernel_page_def)
  have e: "create_leaf p f = push_bit 10 k OR f" by (simp add: create_leaf_def ff k_def or.assoc)
  have flags: "create_leaf p f AND mask 10 = f" unfolding e by (rule pte_bits [OF k ff(1)])
  then show "get_leaf_flags (create_leaf p f) = f"
    by (simp add: get_leaf_flags_def BIT_minus_1 and.commute)
  show "get_phys_leaf_loc (create_leaf p f) = p"
    using flags ff(4) pte_bits(1) [OF k ff(1)] kernel_page_split [OF p]
    by (simp add: get_phys_leaf_loc_def BIT_minus_1 e k_def)
  show "get_branch_loc (create_leaf p f) = 0"
    using flags ff(4) by (auto simp: get_branch_loc_def BIT_minus_1)
qed

lemma branch_pte:
  assumes p: "kernel_page p"
  shows "get_branch_loc (create_branch p) = p" and "get_leaf_flags (create_branch p) = 1"
    and "create_branch p \<noteq> 0"
proof -
  define k where "k = (p - KERNEL_VMA_START) div 4096"
  have k: "unat k < 2 ^ 44"
    using kernel_page_number [of p] p by (simp add: k_def kernel_page_def)
  have e: "create_branch p = push_bit 10 k OR 1" by (simp add: create_branch_def k_def)
  have one: "1 AND mask 10 = (1 :: u64)" by (simp add: mask_eq_decr_exp)
  have flags: "create_branch p AND mask 10 = 1" unfolding e by (rule pte_bits [OF k one])
  then show "get_leaf_flags (create_branch p) = 1"
    by (simp add: get_leaf_flags_def BIT_minus_1 and.commute)
  show "get_branch_loc (create_branch p) = p"
    using flags pte_bits(1) [OF k one] kernel_page_split [OF p]
    by (simp add: get_branch_loc_def BIT_minus_1 e k_def)
  show "create_branch p \<noteq> 0" using flags by auto
qed

section \<open>The translation\<close>

abbreviation ent :: "'a machine_scheme \<Rightarrow> u64 \<Rightarrow> nat \<Rightarrow> u64" where
  "ent s t i \<equiv> at s t (of_nat i)"

definition pte_loc :: "u64 \<Rightarrow> u64" where
  "pte_loc e = (drop_bit 10 e AND mask 44) * 4096 + KERNEL_VMA_START"

text \<open>
  The translation of page number \<open>n\<close> from an entry of level \<open>l\<close>: an invalid entry faults, an entry
  with an access bit is a leaf (a misaligned large one faults), any other entry points to a table of
  the level below; at level 0 there is none. The result is the page, as the kernel sees it, and the
  entry's ten low bits. A root table is the target of an entry of level 3. The walk leaves to its user
  what the hardware decides from the ten bits: which accesses they allow, the accessed and dirty bits,
  and that a writable leaf without read access is reserved.
\<close>

primrec ewalk :: "nat \<Rightarrow> u64 \<Rightarrow> nat \<Rightarrow> 'a machine_scheme \<Rightarrow> (u64 \<times> u64) option" where
  "ewalk 0 e n s =
     (if bit e 0 \<and> e AND 0xE \<noteq> 0 then Some (pte_loc e, e AND mask 10) else None)"
| "ewalk (Suc l) e n s =
     (if \<not> bit e 0 then None
      else if e AND 0xE \<noteq> 0 then
        if unat (pte_loc e) mod (4096 * 512 ^ Suc l) = 0
        then Some (pte_loc e + of_nat (4096 * (n mod 512 ^ Suc l)), e AND mask 10) else None
      else ewalk l (ent s (pte_loc e) (n div 512 ^ l mod 512)) n s)"

definition sv39_page :: "u64 \<Rightarrow> nat \<Rightarrow> 'a machine_scheme \<Rightarrow> (u64 \<times> u64) option" where
  "sv39_page root n s = ewalk 3 (create_branch root) n s"

text \<open>The tables below an entry, and the entries that are well formed.\<close>

primrec epages :: "nat \<Rightarrow> u64 \<Rightarrow> 'a machine_scheme \<Rightarrow> u64 list" where
  "epages 0 e s = []"
| "epages (Suc l) e s =
     (let t = get_branch_loc e
      in if t = 0 then [] else t # concat (map (\<lambda>i. epages l (ent s t i) s) [0..<512]))"

definition leaf_ok :: "nat \<Rightarrow> u64 \<Rightarrow> bool" where
  "leaf_ok l e \<longleftrightarrow> leaf_flags (e AND mask 10) \<and> KERNEL_VMA_START \<le> pte_loc e
     \<and> unat (pte_loc e) mod (4096 * 512 ^ l) = 0 \<and> (l > 0 \<longrightarrow> e AND VMA_DONT_COMPRESS = 0)"

primrec eok :: "nat \<Rightarrow> u64 \<Rightarrow> 'a machine_scheme \<Rightarrow> bool" where
  "eok 0 e s \<longleftrightarrow> e = 0 \<or> leaf_ok 0 e"
| "eok (Suc l) e s \<longleftrightarrow> e = 0 \<or> leaf_ok (Suc l) e
     \<or> (kernel_page (get_branch_loc e) \<and> (\<forall>i<512. eok l (ent s (get_branch_loc e) i) s))"

definition etree :: "nat \<Rightarrow> u64 \<Rightarrow> 'a pager_scheme \<Rightarrow> bool" where
  "etree l e s \<longleftrightarrow> eok l e s \<and> distinct (epages l e s) \<and> set (epages l e s) \<subseteq> pager_live s"

definition vma_tree :: "u64 \<Rightarrow> 'a pager_scheme \<Rightarrow> bool" where
  "vma_tree root s \<longleftrightarrow> pager_inv s \<and> kernel_page root \<and> etree 3 (create_branch root) s"

lemma kernel_page_nonzero: "kernel_page p \<Longrightarrow> p \<noteq> 0"
  by (auto simp: kernel_page_def)

lemma branch_entry:
  assumes "get_branch_loc e \<noteq> 0"
  shows "bit e 0" "e AND 0xE = 0" "pte_loc e = get_branch_loc e" "e AND mask 10 = 1"
proof -
  show m: "e AND mask 10 = 1" and "pte_loc e = get_branch_loc e"
    using assms by (auto simp: get_branch_loc_def pte_loc_def BIT_minus_1 split: if_splits)
  have b: "bit e n \<longleftrightarrow> n = 0" if "n < 10" for n
    using arg_cong [OF m, of "\<lambda>w. bit w n"] that by (simp add: bit_and_iff bit_mask_iff bit_1_iff)
  show "bit e 0" using b [of 0] by simp
  have "e AND 0xE = (e AND mask 10) AND 0xE" by (simp add: and.assoc mask_eq_decr_exp)
  then show "e AND 0xE = 0" unfolding m by simp
qed

lemma leaf_entry:
  assumes "leaf_ok l e"
  shows "bit e 0" "e AND 0xE \<noteq> 0" "get_branch_loc e = 0" "e \<noteq> 0" "\<not> e AND mask 10 \<le> 1"
    "get_phys_leaf_loc e = pte_loc e"
proof -
  have f: "leaf_flags (e AND mask 10)" using assms by (simp add: leaf_ok_def)
  note ff = leaf_flags_facts [OF f]
  show "bit e 0" using ff(5) by (simp add: bit_and_iff)
  show "\<not> e AND mask 10 \<le> 1" by (rule ff(4))
  have "mask 10 AND 0xE = (0xE :: u64)" by (simp add: mask_eq_decr_exp)
  then show "e AND 0xE \<noteq> 0" using f by (simp add: leaf_flags_def and.assoc)
  show "e \<noteq> 0" using ff(2) by auto
  show "get_branch_loc e = 0" using ff(4) by (auto simp: get_branch_loc_def BIT_minus_1)
  show "get_phys_leaf_loc e = pte_loc e"
    using ff(4) by (auto simp: get_phys_leaf_loc_def pte_loc_def BIT_minus_1)
qed

lemma eok_cases:
  assumes "eok (Suc l) e s"
  obtains (unmapped) "e = 0" | (leaf) "leaf_ok (Suc l) e"
    | (table) "get_branch_loc e \<noteq> 0" "kernel_page (get_branch_loc e)"
        "\<forall>i<512. eok l (ent s (get_branch_loc e) i) s"
  using assms kernel_page_nonzero by (auto simp: kernel_page_def)

lemma branch_zero [simp]: "get_branch_loc 0 = 0"
  by (simp add: get_branch_loc_def)

lemma ewalk_zero [simp]: "ewalk l 0 n s = None"
  by (cases l) auto

lemma ewalk_table:
  "get_branch_loc e \<noteq> 0 \<Longrightarrow>
    ewalk (Suc l) e n s = ewalk l (ent s (get_branch_loc e) (n div 512 ^ l mod 512)) n s"
  using branch_entry [of e] by simp

lemma epages_table:
  "get_branch_loc e \<noteq> 0 \<Longrightarrow> epages (Suc l) e s =
     get_branch_loc e # concat (map (\<lambda>i. epages l (ent s (get_branch_loc e) i) s) [0..<512])"
  by (simp add: Let_def)

section \<open>Changing one entry of a tree\<close>

text \<open>What a tree means depends only on the words of its tables.\<close>

definition same_tables :: "u64 set \<Rightarrow> 'a machine_scheme \<Rightarrow> 'a machine_scheme \<Rightarrow> bool" where
  "same_tables A s s' \<longleftrightarrow> (\<forall>t \<in> A. \<forall>j<512. ent s' t j = ent s t j)"

lemma same_tables_mono: "same_tables B s s' \<Longrightarrow> A \<subseteq> B \<Longrightarrow> same_tables A s s'"
  by (auto simp: same_tables_def)

lemma epages_below:
  "get_branch_loc e \<noteq> 0 \<Longrightarrow> i < 512 \<Longrightarrow> set (epages l (ent s (get_branch_loc e) i) s) \<subseteq> set (epages (Suc l) e s)"
  unfolding epages_table by force

lemma tree_frame:
  "same_tables (set (epages l e s)) s s' \<Longrightarrow>
    epages l e s' = epages l e s \<and> (eok l e s' \<longleftrightarrow> eok l e s)
    \<and> (eok l e s \<longrightarrow> ewalk l e n s' = ewalk l e n s)"
proof (induction l arbitrary: e)
  case (Suc l)
  show ?case
  proof (cases "get_branch_loc e = 0")
    case True
    then have "\<not> kernel_page (get_branch_loc e)" using kernel_page_nonzero by blast
    moreover have "eok (Suc l) e s \<Longrightarrow> ewalk (Suc l) e n s' = ewalk (Suc l) e n s"
      by (erule eok_cases) (use True in \<open>auto dest: leaf_entry(1,2)\<close>)
    ultimately show ?thesis using True by simp
  next
    case False
    let ?t = "get_branch_loc e"
    have same: "ent s' ?t i = ent s ?t i" if "i < 512" for i
      using Suc.prems that False unfolding same_tables_def epages_table [OF False] by simp
    have IH: "epages l (ent s ?t i) s' = epages l (ent s ?t i) s
        \<and> (eok l (ent s ?t i) s' \<longleftrightarrow> eok l (ent s ?t i) s)
        \<and> (eok l (ent s ?t i) s \<longrightarrow> ewalk l (ent s ?t i) n s' = ewalk l (ent s ?t i) n s)" if "i < 512" for i
      using Suc.IH [OF same_tables_mono [OF Suc.prems epages_below [OF False that]]] .
    have "map (\<lambda>i. epages l (ent s' ?t i) s') [0..<512] = map (\<lambda>i. epages l (ent s ?t i) s) [0..<512]"
      by (rule map_cong) (auto simp: same IH)
    then have "epages (Suc l) e s' = epages (Suc l) e s" unfolding epages_table [OF False] by (simp only:)
    moreover have "eok (Suc l) e s' \<longleftrightarrow> eok (Suc l) e s" by (auto simp: same IH)
    moreover have "ewalk (Suc l) e n s' = ewalk (Suc l) e n s" if "eok (Suc l) e s"
    proof -
      let ?i = "n div 512 ^ l mod 512"
      have "?i < 512" by simp
      moreover have "eok l (ent s ?t ?i) s"
        using that by (rule eok_cases) (use False in \<open>auto dest: leaf_entry(3)\<close>)
      ultimately show ?thesis unfolding ewalk_table [OF False] using same IH by metis
    qed
    ultimately show ?thesis by blast
  qed
qed simp

text \<open>
  The pages below the entries of a table, without repetition; a change of entry \<open>i\<close> that adds only
  fresh pages keeps that.
\<close>

lemma distinct_concat_upt:
  "distinct (concat (map f [0..<n])) \<longleftrightarrow>
    (\<forall>i<n. distinct (f i)) \<and> (\<forall>i<n. \<forall>j<n. i \<noteq> j \<longrightarrow> set (f i) \<inter> set (f j) = {})"
proof (induction n)
  case (Suc n)
  have "distinct (concat (map f [0..<Suc n])) \<longleftrightarrow>
      distinct (concat (map f [0..<n])) \<and> distinct (f n) \<and> (\<forall>i<n. set (f i) \<inter> set (f n) = {})"
    by (simp add: disjoint_iff) fastforce
  also have "\<dots> \<longleftrightarrow> (\<forall>i<Suc n. distinct (f i))
      \<and> (\<forall>i<Suc n. \<forall>j<Suc n. i \<noteq> j \<longrightarrow> set (f i) \<inter> set (f j) = {})"
    unfolding Suc All_less_Suc by (auto simp: Int_commute) (blast dest: equals0D)
  finally show ?case .
qed simp

definition etable :: "nat \<Rightarrow> u64 \<Rightarrow> 'a pager_scheme \<Rightarrow> bool" where
  "etable l t s \<longleftrightarrow> kernel_page t \<and> t \<in> pager_live s \<and> (\<forall>i<512. etree l (ent s t i) s \<and> t \<notin> set (epages l (ent s t i) s))
     \<and> (\<forall>i<512. \<forall>j<512. i \<noteq> j \<longrightarrow> set (epages l (ent s t i) s) \<inter> set (epages l (ent s t j) s) = {})"

lemma etree_table:
  assumes "get_branch_loc e \<noteq> 0"
  shows "etree (Suc l) e s \<longleftrightarrow> etable l (get_branch_loc e) s"
proof -
  have "\<not> leaf_ok (Suc l) e" "e \<noteq> 0" using assms leaf_entry(3) [of "Suc l" e] by auto
  then show ?thesis
    unfolding etree_def etable_def epages_table [OF assms] using assms
    by (auto simp: distinct_concat_upt UN_subset_iff)
qed

text \<open>
  One entry \<open>i\<close> of a table changes, together with the tables below it: the new ones are among the
  old ones or were not in use, and nothing else in use is touched.
\<close>

definition entry_step ::
  "nat \<Rightarrow> u64 \<Rightarrow> nat \<Rightarrow> 'a pager_scheme \<Rightarrow> 'a pager_scheme \<Rightarrow> bool" where
  "entry_step l t i s s' \<longleftrightarrow>
     etree l (ent s' t i) s'
     \<and> set (epages l (ent s' t i) s') \<inter> pager_live s \<subseteq> set (epages l (ent s t i) s)
     \<and> (\<forall>j<512. j \<noteq> i \<longrightarrow> ent s' t j = ent s t j)
     \<and> same_tables (pager_live s - insert t (set (epages l (ent s t i) s))) s s'
     \<and> pager_live s - set (epages l (ent s t i) s) \<subseteq> pager_live s'"

lemma entry_step_other:
  assumes tab: "etable l t s" and st: "entry_step l t i s s'" and "i < 512" and "j < 512" and "j \<noteq> i"
  shows "ent s' t j = ent s t j" and "epages l (ent s t j) s' = epages l (ent s t j) s"
    and "etree l (ent s t j) s'" and "ewalk l (ent s t j) n s' = ewalk l (ent s t j) n s"
proof -
  show "ent s' t j = ent s t j" using assms by (simp add: entry_step_def)
  have tj: "etree l (ent s t j) s" "t \<notin> set (epages l (ent s t j) s)"
    "set (epages l (ent s t j) s) \<inter> set (epages l (ent s t i) s) = {}"
    using tab assms(3-5) by (auto simp: etable_def)
  then have sub: "set (epages l (ent s t j) s) \<subseteq> pager_live s - insert t (set (epages l (ent s t i) s))"
    by (auto simp: etree_def)
  have "same_tables (set (epages l (ent s t j) s)) s s'"
    by (rule same_tables_mono [OF _ sub]) (use st in \<open>simp add: entry_step_def\<close>)
  note f = tree_frame [OF this, of n]
  then show "epages l (ent s t j) s' = epages l (ent s t j) s"
    and "ewalk l (ent s t j) n s' = ewalk l (ent s t j) n s" using tj(1) by (auto simp: etree_def)
  have "set (epages l (ent s t j) s) \<subseteq> pager_live s'" using sub st by (auto simp: entry_step_def)
  then show "etree l (ent s t j) s'" using f tj(1) by (auto simp: etree_def)
qed

lemma entry_step_table:
  assumes tab: "etable l t s" and st: "entry_step l t i s s'" and i: "i < 512"
  shows "etable l t s'"
proof -
  note o = entry_step_other [OF tab st i]
  have kt: "kernel_page t" "t \<in> pager_live s" "t \<notin> set (epages l (ent s t i) s)"
    using tab i by (auto simp: etable_def)
  then have live: "t \<in> pager_live s'" using st by (auto simp: entry_step_def)
  have ni: "set (epages l (ent s' t i) s') \<inter> pager_live s \<subseteq> set (epages l (ent s t i) s)"
    "etree l (ent s' t i) s'" using st by (auto simp: entry_step_def)
  have old: "set (epages l (ent s t j) s) \<subseteq> pager_live s" if "j < 512" for j
    using tab that by (auto simp: etable_def etree_def)
  have meet: "set (epages l (ent s t i) s) \<inter> set (epages l (ent s t j) s) = {}" if "j < 512" "j \<noteq> i" for j
    using tab that i by (auto simp: etable_def)
  have new: "set (epages l (ent s' t i) s') \<inter> set (epages l (ent s' t j) s') = {}"
    if "j < 512" "j \<noteq> i" for j
    using ni(1) old [OF that(1)] meet [OF that] unfolding o(1,2) [OF that] by blast
  have two: "set (epages l (ent s' t j) s') \<inter> set (epages l (ent s' t k) s') = {}"
    if "j < 512" "k < 512" "j \<noteq> k" for j k
  proof (cases "j = i \<or> k = i")
    case True
    then show ?thesis using new that by (metis Int_commute)
  next
    case False
    then show ?thesis using o(1,2) [of j] o(1,2) [of k] tab that by (simp add: etable_def)
  qed
  have one: "etree l (ent s' t j) s' \<and> t \<notin> set (epages l (ent s' t j) s')" if "j < 512" for j
  proof (cases "j = i")
    case True
    then show ?thesis using ni kt by auto
  next
    case False
    then show ?thesis using o(1-3) [OF that False] tab that by (simp add: etable_def)
  qed
  from kt(1) live one two show ?thesis unfolding etable_def by blast
qed

lemma entry_step_walk:
  assumes "etable l t s" and "entry_step l t i s s'" and "i < 512"
  shows "ewalk l (ent s' t (n div 512 ^ l mod 512)) n s' =
    (if n div 512 ^ l mod 512 = i then ewalk l (ent s' t i) n s'
     else ewalk l (ent s t (n div 512 ^ l mod 512)) n s)"
proof (cases "n div 512 ^ l mod 512 = i")
  case False
  have lt: "n div 512 ^ l mod 512 < 512" by simp
  show ?thesis
    using False unfolding entry_step_other(1) [OF assms lt False]
    by (simp only: if_False entry_step_other(4) [OF assms lt False])
qed simp

text \<open>A step of an entry of a table is a step of the entry that points to the table.\<close>

lemma entry_step_up:
  assumes tab: "etable (Suc l) t s" and i: "i < 512" and b: "get_branch_loc (ent s t i) = u" and u: "u \<noteq> 0"
    and st: "entry_step l u j s s'" and j: "j < 512"
  shows "entry_step (Suc l) t i s s'"
proof -
  let ?e = "ent s t i"
  have te: "etree (Suc l) ?e s" "t \<notin> set (epages (Suc l) ?e s)" "t \<in> pager_live s"
    using tab i by (auto simp: etable_def)
  then have tab': "etable l u s" using etree_table [of ?e l s] b u by simp
  have pg: "epages (Suc l) ?e s = u # concat (map (\<lambda>i. epages l (ent s u i) s) [0..<512])"
    using epages_table [of ?e] b u by simp
  then have sub: "insert u (set (epages l (ent s u j) s)) \<subseteq> set (epages (Suc l) ?e s)"
    using j by force
  then have "t \<noteq> u" "t \<notin> set (epages l (ent s u j) s)" using te(2) by auto
  then have same_t: "ent s' t k = ent s t k" if "k < 512" for k
    using st te(3) that by (auto simp: entry_step_def same_tables_def)
  then have e: "ent s' t i = ?e" using i by simp
  have tab'': "etable l u s'" using entry_step_table [OF tab' st j] .
  then have "etree (Suc l) ?e s'" using etree_table [of ?e l s'] b u by simp
  moreover have "set (epages (Suc l) ?e s') \<inter> pager_live s \<subseteq> set (epages (Suc l) ?e s)"
  proof
    fix q assume q: "q \<in> set (epages (Suc l) ?e s') \<inter> pager_live s"
    then consider "q = u" | k where "k < 512" "q \<in> set (epages l (ent s' u k) s')"
      using epages_table [of ?e l s'] b u by auto
    then show "q \<in> set (epages (Suc l) ?e s)"
    proof cases
      case 1
      then show ?thesis using pg by simp
    next
      case 2
      have "q \<in> set (epages l (ent s u k) s)"
      proof (cases "k = j")
        case True
        then show ?thesis using 2 q st by (auto simp: entry_step_def)
      next
        case False
        then show ?thesis using 2 entry_step_other(1,2) [OF tab' st j 2(1) False] by simp
      qed
      then show ?thesis using pg 2(1) by auto
    qed
  qed
  moreover have "same_tables (pager_live s - insert t (set (epages (Suc l) ?e s))) s s'"
    by (rule same_tables_mono [of "pager_live s - insert u (set (epages l (ent s u j) s))"])
       (use st sub in \<open>auto simp: entry_step_def\<close>)
  moreover have "pager_live s - set (epages (Suc l) ?e s) \<subseteq> pager_live s'"
    using st sub by (auto simp: entry_step_def)
  ultimately show ?thesis using same_t unfolding entry_step_def e by blast
qed

section \<open>Splitting a leaf\<close>

lemma ewalk_leaf:
  assumes "leaf_ok l e"
  shows "ewalk l e n s = Some (pte_loc e + of_nat (4096 * (n mod 512 ^ l)), e AND mask 10)"
  using leaf_entry(1,2) [OF assms] assms by (cases l) (simp_all add: leaf_ok_def)

lemma made_leaf:
  assumes "kernel_page p" and "leaf_flags f"
  shows "pte_loc (create_leaf p f) = p" and "create_leaf p f AND mask 10 = f"
proof -
  have f: "create_leaf p f AND mask 10 = f"
    using leaf_pte(2) [OF assms] by (simp add: get_leaf_flags_def BIT_minus_1 and.commute)
  then show "create_leaf p f AND mask 10 = f" .
  show "pte_loc (create_leaf p f) = p"
    using leaf_pte(1) [OF assms] f leaf_flags_facts(4) [OF assms(2)]
    by (simp add: get_phys_leaf_loc_def pte_loc_def BIT_minus_1)
qed

lemma made_leaf_ok:
  assumes "kernel_page p" and "leaf_flags f" and "unat p mod (4096 * 512 ^ l) = 0"
    and "l > 0 \<longrightarrow> f AND VMA_DONT_COMPRESS = 0"
  shows "leaf_ok l (create_leaf p f)"
proof -
  have "create_leaf p f AND VMA_DONT_COMPRESS = (create_leaf p f AND mask 10) AND VMA_DONT_COMPRESS"
    by (simp add: and.assoc mask_eq_decr_exp)
  then show ?thesis
    using assms made_leaf [OF assms(1,2)] by (simp add: leaf_ok_def kernel_page_def)
qed

text \<open>The parts of a large leaf.\<close>

lemma leaf_part:
  assumes lo: "leaf_ok (Suc l) e" and l: "l \<le> 1" and j: "j < 512"
  defines "q \<equiv> pte_loc e + of_nat j * of_nat (4096 * 512 ^ l)"
  shows "kernel_page q" and "unat q mod (4096 * 512 ^ l) = 0" and "leaf_ok l (create_leaf q (e AND mask 10))"
proof -
  define M B where "M = 4096 * (512 :: nat) ^ l" and "B = unat (pte_loc e)"
  have M: "M = 4096 \<or> M = 4096 * 512" using l by (auto simp: M_def le_Suc_eq)
  have lo': "leaf_flags (e AND mask 10)" "KERNEL_VMA_START \<le> pte_loc e" "B mod (M * 512) = 0"
    "e AND VMA_DONT_COMPRESS = 0"
    using lo by (auto simp: leaf_ok_def B_def M_def algebra_simps)
  obtain c where c: "B = M * 512 * c" using lo'(3) by (auto simp: mod_eq_0_iff_dvd)
  have B: "B < 2 ^ 64" "unat KERNEL_VMA_START \<le> B"
    using unsigned_less [where ?'a = nat, of "pte_loc e"] lo'(2) by (simp_all add: B_def word_le_nat_alt)
  have "c + 1 \<le> 2 ^ 64 div (M * 512)" using M B(1) c by auto
  then have "M * 512 * (c + 1) \<le> 2 ^ 64" using M by auto
  then have top: "B + M * 512 \<le> 2 ^ 64" using c by (simp add: algebra_simps)
  have jM: "j * M < M * 512" using j M by auto
  have "j * M < 2 ^ 64" using jM top by linarith
  then have "unat (of_nat j * of_nat M :: u64) = j * M"
    unfolding of_nat_mult [symmetric] by (rule unat_small)
  moreover have "B + j * M < 2 ^ 64" using top jM by linarith
  ultimately have q: "unat q = B + j * M"
    unfolding q_def M_def [symmetric] unat_word_ariths(1) B_def by simp
  have "(B + j * M) mod M = 0" unfolding c by simp
  then show al: "unat q mod (4096 * 512 ^ l) = 0" unfolding q M_def [symmetric] .
  have "unat q mod 4096 = unat q mod (4096 * 512 ^ l) mod 4096" by (simp add: mod_mod_cancel)
  then have "unat q mod 4096 = 0" using al by simp
  moreover have "KERNEL_VMA_START \<le> q" using B(2) by (simp add: word_le_nat_alt q)
  ultimately show kq: "kernel_page q" by (simp add: kernel_page_def)
  have "(e AND mask 10) AND VMA_DONT_COMPRESS = e AND VMA_DONT_COMPRESS"
    by (simp add: and.assoc mask_eq_decr_exp)
  then show "leaf_ok l (create_leaf q (e AND mask 10))"
    using made_leaf_ok [OF kq lo'(1) al] lo'(4) by simp
qed

lemma split_walk:
  assumes "leaf_ok (Suc l) e" and "l \<le> 1" and "j = n div 512 ^ l mod 512"
  shows "ewalk l (create_leaf (pte_loc e + of_nat j * of_nat (4096 * 512 ^ l)) (e AND mask 10)) n s' =
    ewalk (Suc l) e n s"
proof -
  let ?q = "pte_loc e + of_nat j * of_nat (4096 * 512 ^ l)"
  have j: "j < 512" using assms(3) by simp
  note q = leaf_part [OF assms(1,2) j]
  have f: "leaf_flags (e AND mask 10)" using assms(1) by (simp add: leaf_ok_def)
  have "j * (4096 * 512 ^ l) + 4096 * (n mod 512 ^ l) = 4096 * (512 ^ l * (n div 512 ^ l mod 512) + n mod 512 ^ l)"
    by (simp add: assms(3) algebra_simps)
  also have "\<dots> = 4096 * (n mod 512 ^ Suc l)"
    unfolding power_Suc2 mod_mult2_eq ..
  finally have sum: "j * (4096 * 512 ^ l) + 4096 * (n mod 512 ^ l) = 4096 * (n mod 512 ^ Suc l)" .
  have "?q + of_nat (4096 * (n mod 512 ^ l)) = pte_loc e + of_nat (j * (4096 * 512 ^ l) + 4096 * (n mod 512 ^ l))"
    unfolding of_nat_add of_nat_mult [of j] add.assoc ..
  then have "?q + of_nat (4096 * (n mod 512 ^ l)) = pte_loc e + of_nat (4096 * (n mod 512 ^ Suc l))"
    unfolding sum .
  then show ?thesis
    unfolding ewalk_leaf [OF q(3)] ewalk_leaf [OF assms(1)] made_leaf [OF q(1) f] by simp
qed

text \<open>Words of pages in use, and the page allocator, under writes to such pages.\<close>

lemma fill_split_effect:
  fixes phys jmp flags :: u64
  assumes "pager_inv s" and "p \<in> pager_live s" and "k \<le> 512"
  defines "s' \<equiv> fill_split k p phys jmp flags s"
  shows "pager_inv s' \<and> pager_live s' = pager_live s \<and> pager_pool s' = pager_pool s
    \<and> (\<forall>a \<in> pager_live s. \<forall>j<512. ent s' a j =
         (if a = p \<and> j < k then create_leaf (phys + of_nat j * (jmp div 512)) flags else ent s a j))"
  using assms(3) unfolding s'_def
proof (induction k)
  case 0
  then show ?case using assms(1) by simp
next
  case (Suc k)
  let ?s = "fill_split k p phys jmp flags s"
  have IH: "pager_inv ?s" "pager_live ?s = pager_live s" "pager_pool ?s = pager_pool s"
    "\<forall>a \<in> pager_live s. \<forall>j<512. ent ?s a j =
         (if a = p \<and> j < k then create_leaf (phys + of_nat j * (jmp div 512)) flags else ent s a j)"
    using Suc by auto
  have k: "k < 512" and p: "p \<in> pager_live ?s" using Suc.prems assms(2) IH(2) by auto
  show ?case
    using set_at_inv [OF IH(1) p k] at_set_at [OF IH(1) p _ k] IH(2-4) by (auto simp: less_Suc_eq)
qed

definition kernel_pool :: "'a pager_scheme \<Rightarrow> bool" where
  "kernel_pool s \<longleftrightarrow> (\<forall>p \<in> pager_pool s. KERNEL_VMA_START \<le> p)"

lemma fresh_kernel_page:
  assumes "pager_inv s" and "kernel_pool s" and "pg_alloc s = ret (p, s')"
  shows "kernel_page p"
proof -
  have "p \<in> pager_pool s" "pager_inv s'" "p \<in> pager_live s'"
    using pg_alloc_source [OF assms(1,3)] by auto
  then show ?thesis
    using live_page_aligned [of s' p] assms(2) by (simp add: kernel_page_def kernel_pool_def)
qed

definition level_jmp :: "nat \<Rightarrow> u64" where
  "level_jmp l = of_nat (4096 * 512 ^ l)"

lemma level_jmp_sizes [simp]:
  "level_jmp 0 = ppn0_jmp_size" "level_jmp (Suc 0) = ppn1_jmp_size" "level_jmp 2 = ppn2_jmp_size"
  by (simp_all add: level_jmp_def jmp_sizes)

lemma level_jmp_part: "l \<le> 1 \<Longrightarrow> level_jmp (Suc l) div 512 = of_nat (4096 * 512 ^ l)"
  by (auto simp: level_jmp_def le_Suc_eq)

lemma low_bits_and: "(e AND mask 10) AND VMA_DONT_COMPRESS = e AND VMA_DONT_COMPRESS" for e :: u64
  by (simp add: and.assoc mask_eq_decr_exp)

text \<open>The entries written by a split keep the tree well formed and the translation as it was.\<close>

lemma split_entry:
  assumes "eok (Suc l) e s" and "get_branch_loc e = 0" and l: "l \<le> 1" and j: "j < 512"
  defines "v \<equiv> create_leaf (get_phys_leaf_loc e + of_nat j * (level_jmp (Suc l) div 512)) (get_leaf_flags e)"
  shows "eok l v s'" and "epages l v s' = []" and "get_leaf_flags e AND VMA_DONT_COMPRESS = 0"
    and "j = n div 512 ^ l mod 512 \<Longrightarrow> ewalk l v n s' = ewalk (Suc l) e n s"
proof -
  have fl: "get_leaf_flags e = e AND mask 10" by (simp add: get_leaf_flags_def BIT_minus_1 and.commute)
  have "(eok l v s' \<and> get_branch_loc v = 0 \<and> get_leaf_flags e AND VMA_DONT_COMPRESS = 0)
      \<and> (j = n div 512 ^ l mod 512 \<longrightarrow> ewalk l v n s' = ewalk (Suc l) e n s)"
    using assms(1)
  proof (cases rule: eok_cases)
    case unmapped
    then have "v = 0" unfolding v_def fl create_leaf_def by simp
    then show ?thesis using unmapped unfolding fl by (cases l) auto
  next
    case leaf
    have v: "v = create_leaf (pte_loc e + of_nat j * of_nat (4096 * 512 ^ l)) (e AND mask 10)"
      unfolding v_def fl leaf_entry(6) [OF leaf] level_jmp_part [OF l] ..
    have "leaf_ok l v" unfolding v by (rule leaf_part(3) [OF leaf l j])
    moreover have "e AND VMA_DONT_COMPRESS = 0" using leaf by (simp add: leaf_ok_def)
    moreover have "j = n div 512 ^ l mod 512 \<Longrightarrow> ewalk l v n s' = ewalk (Suc l) e n s"
      unfolding v by (rule split_walk [OF leaf l])
    moreover have "leaf_ok l v \<Longrightarrow> eok l v s'" by (cases l) simp_all
    ultimately show ?thesis unfolding fl low_bits_and by (auto dest: leaf_entry(3))
  next
    case table
    then show ?thesis using assms(2) by simp
  qed
  then show "eok l v s'" and "epages l v s' = []" and "get_leaf_flags e AND VMA_DONT_COMPRESS = 0"
    and "j = n div 512 ^ l mod 512 \<Longrightarrow> ewalk l v n s' = ewalk (Suc l) e n s"
    by (cases l; auto)+
qed

lemma expand_step:
  assumes inv: "pager_inv s" and kp: "kernel_pool s" and tab: "etable (Suc l) t s" and i: "i < 512"
    and l: "l \<le> 1" and nb: "get_branch_loc (ent s t i) = 0" and a: "pg_alloc s = ret (p, s1)"
  obtains s' where "expand_leaf t (of_nat i) (level_jmp (Suc l)) s = ret (p, s')"
    and "pager_inv s'" and "pager_pool s' = pager_pool s" and "pager_live s' = insert p (pager_live s)"
    and "entry_step (Suc l) t i s s'" and "get_branch_loc (ent s' t i) = p" and "p \<noteq> 0"
    and "\<And>n. ewalk (Suc l) (ent s' t i) n s' = ewalk (Suc l) (ent s t i) n s"
proof -
  define e where "e = ent s t i"
  have t: "t \<in> pager_live s" and e: "etree (Suc l) e s" using tab i by (auto simp: etable_def e_def)
  have eok: "eok (Suc l) e s" using e by (simp add: etree_def)
  note pa = pg_alloc_source [OF inv a]
  have kpp: "kernel_page p" by (rule fresh_kernel_page [OF inv kp a])
  note bp = branch_pte [OF kpp]
  have s1: "pager_inv s1" "t \<in> pager_live s1" "p \<in> pager_live s1" "p \<noteq> t" using pa(1,2) t by auto
  define s2 where "s2 = set_at t (of_nat i) (create_branch p) s1"
  have s2: "pager_inv s2" "pager_live s2 = insert p (pager_live s)" "pager_pool s2 = pager_pool s"
    using set_at_inv [OF s1(1,2) i] pa(2) by (simp_all add: s2_def)
  have ent2: "ent s2 q j = (if q = t \<and> j = i then create_branch p else if q = p then 0 else ent s q j)"
    if "q \<in> pager_live s2" "j < 512" for q j
    using that s2(2) pa(2) at_set_at [OF s1(1,2) _ i that(2)] at_pg_alloc [OF inv a that(2)] s1(4)
    by (auto simp: s2_def)
  define s' where "s' = fill_split 512 p (get_phys_leaf_loc e) (level_jmp (Suc l)) (get_leaf_flags e) s2"
  have p2: "p \<in> pager_live s2" using s2(2) by simp
  note fs = fill_split_effect [OF s2(1) p2 order_refl, of "get_phys_leaf_loc e" "level_jmp (Suc l)"
      "get_leaf_flags e", folded s'_def]
  define v where
    "v j = create_leaf (get_phys_leaf_loc e + of_nat j * (level_jmp (Suc l) div 512)) (get_leaf_flags e)" for j
  have ent': "ent s' q j = (if q = p then v j else if q = t \<and> j = i then create_branch p else ent s q j)"
    if "q \<in> insert p (pager_live s)" "j < 512" for q j
    using fs that ent2 [of q j] s2(2) s1(4) by (auto simp: v_def)
  note se = split_entry [OF eok nb [folded e_def] l]
  have inv': "pager_inv s'" "pager_live s' = insert p (pager_live s)" "pager_pool s' = pager_pool s"
    using fs s2 by auto
  have vj: "ent s' p j = v j" "eok l (v j) s'" "epages l (v j) s' = []" if "j < 512" for j
    using ent' [of p j] se(1,2) [OF that, of s'] that by (simp_all add: v_def)
  have ei: "ent s' t i = create_branch p" using ent' [of t i] t i s1(4) by simp
  have e1: "ent s1 t i = e" using at_pg_alloc(2) [OF inv a i t] by (simp add: e_def)
  have e2: "ent s2 t i \<noteq> 0" using ent2 [of t i] t s2(2) i bp(3) by simp
  have run: "expand_leaf t (of_nat i) (level_jmp (Suc l)) s = ret (p, s')"
    using se(3) [of 0] e2 e1
    by (simp add: expand_leaf_def a Let_def s2_def [symmetric] s'_def)
  have tabp: "etable l p s'"
    unfolding etable_def etree_def using kpp inv'(2) vj by simp
  have bpe: "get_branch_loc (create_branch p) \<noteq> 0" using bp(1) kernel_page_nonzero [OF kpp] by simp
  then have tr: "etree (Suc l) (create_branch p) s'" using etree_table [of "create_branch p" l s'] tabp bp(1) by simp
  have pgs: "epages (Suc l) (create_branch p) s' = [p]"
  proof -
    have "concat (map (\<lambda>j. epages l (ent s' p j) s') [0..<512]) = []"
      using vj by auto
    then show ?thesis using epages_table [OF bpe, of l s'] bp(1) by (simp only: )
  qed
  have "epages (Suc l) e s = []" using nb by (simp add: e_def)
  then have step: "entry_step (Suc l) t i s s'"
    unfolding entry_step_def ei e_def [symmetric] using tr pgs pa(1) ent' inv'(2) t s1(4)
    by (auto simp: same_tables_def)
  have walk: "ewalk (Suc l) (ent s' t i) n s' = ewalk (Suc l) e n s" for n
  proof -
    have lt: "n div 512 ^ l mod 512 < 512" by simp
    show ?thesis
      unfolding ei ewalk_table [OF bpe] bp(1) using se(4) [OF lt refl, of s'] vj(1) [OF lt]
      by (simp add: v_def)
  qed
  show thesis
    using that [OF run _ _ _ step _ _ walk [unfolded e_def]] inv' ei bp(1) kernel_page_nonzero [OF kpp]
    by simp
qed

section \<open>Merging a table\<close>

lemma flags_mask: "get_leaf_flags e = e AND mask 10"
  by (simp add: get_leaf_flags_def BIT_minus_1 and.commute)

lemma entry_flags:
  assumes "eok l e s" and "e \<noteq> 0"
  shows "get_leaf_flags e \<noteq> 0"
proof -
  have "leaf_ok l e \<Longrightarrow> ?thesis" for l
    unfolding flags_mask by (auto simp: leaf_ok_def dest: leaf_flags_facts(2))
  moreover have "kernel_page (get_branch_loc e) \<Longrightarrow> ?thesis"
    unfolding flags_mask by (simp add: branch_entry(4) kernel_page_nonzero)
  ultimately show ?thesis using assms by (cases l) auto
qed

lemma flags_1_no_leaf: "get_leaf_flags e = 1 \<Longrightarrow> get_phys_leaf_loc e = 0"
  by (simp add: get_phys_leaf_loc_def get_leaf_flags_def and.commute)

text \<open>A table with an unmapped entry or a table entry is merged only when it is empty.\<close>

lemma can_shrink_empty:
  assumes sh: "can_shrink b (level_jmp (Suc l) div 512) s" and l: "l \<le> 1" and e0: "eok l (ent s b 0) s"
    and j: "j < 512" and hole: "ent s b j = 0 \<or> get_leaf_flags (ent s b j) = 1"
  shows "at s b 0 = 0 \<and> (\<forall>i<512. ent s b i = 0)"
proof (cases "at s b 0 = 0")
  case True
  then show ?thesis using sh by (simp add: can_shrink_def list_all_iff)
next
  case False
  then have all: "get_phys_leaf_loc (ent s b i) = get_phys_leaf_loc (at s b 0) + level_jmp (Suc l) div 512 * of_nat i"
    "get_leaf_flags (ent s b i) = get_leaf_flags (at s b 0)" if "i < 512" for i
    using sh that by (simp_all add: can_shrink_def list_all_iff Let_def)
  have f0: "get_leaf_flags (at s b 0) \<noteq> 0" using entry_flags [of l "at s b 0" s] e0 False by simp
  moreover have "get_leaf_flags 0 = 0" by (simp add: get_leaf_flags_def)
  ultimately have "get_leaf_flags (at s b 0) = 1" using hole all(2) [OF j] by auto
  then have "level_jmp (Suc l) div 512 = 0"
    using all(1) [of 1] all(2) [of 1] flags_1_no_leaf by simp
  then show ?thesis using l unfolding level_jmp_part [OF l] by (auto simp: le_Suc_eq)
qed

lemma entry_step_refl: "etable l t s \<Longrightarrow> i < 512 \<Longrightarrow> entry_step l t i s s"
  by (auto simp: entry_step_def etable_def same_tables_def)

lemma at_release:
  assumes "pager_inv s" and "p \<in> pager_live s" and "pg_free p s = ret ((), s')"
    and "q \<in> pager_live s" and "j < 512"
  shows "ent s' q j = ent s q j"
proof -
  have "q + 8 * of_nat j \<in> page_cells q" using assms(5) unfolding cells_def by blast
  then show ?thesis using pager.release_keeps [OF assms(1-4)] by (simp add: at_def)
qed

lemma shrink_step:
  assumes inv: "pager_inv s" and tab: "etable (Suc l) t s" and i: "i < 512" and l: "l \<le> 1"
    and hole: "get_branch_loc (ent s t i) \<noteq> 0 \<Longrightarrow>
      \<exists>j<512. ent s (get_branch_loc (ent s t i)) j = 0 \<or> get_leaf_flags (ent s (get_branch_loc (ent s t i)) j) = 1"
  obtains s' where "shrink_branch t (of_nat i) (level_jmp (Suc l)) s = ret ((), s')"
    and "pager_inv s'" and "pager_pool s' = pager_pool s" and "entry_step (Suc l) t i s s'"
    and "\<And>n. ewalk (Suc l) (ent s' t i) n s' = ewalk (Suc l) (ent s t i) n s"
    and "s' = s \<or> ent s' t i = 0" and "pager_live s' \<subseteq> pager_live s"
proof (cases "get_branch_loc (ent s t i) \<noteq> 0 \<and> can_shrink (get_branch_loc (ent s t i)) (level_jmp (Suc l) div 512) s")
  case False
  then have "shrink_branch t (of_nat i) (level_jmp (Suc l)) s = ret ((), s)"
    by (auto simp: shrink_branch_def Let_def)
  then show ?thesis using that inv entry_step_refl [OF tab i] by blast
next
  case True
  define e b where "e = ent s t i" and "b = get_branch_loc e"
  have b: "b \<noteq> 0" and sh: "can_shrink b (level_jmp (Suc l) div 512) s" using True by (auto simp: b_def e_def)
  have t: "t \<in> pager_live s" and e: "etree (Suc l) e s" using tab i by (auto simp: etable_def e_def)
  then have tb: "etable l b s" using etree_table [of e l s] b by (simp add: b_def)
  then have b_live: "b \<in> pager_live s" and ok: "\<forall>j<512. eok l (ent s b j) s"
    by (auto simp: etable_def etree_def)
  have "eok l (ent s b 0) s" using spec [OF ok, of 0] by simp
  then have empty: "at s b 0 = 0" "\<forall>j<512. ent s b j = 0"
    using hole b can_shrink_empty [OF sh l] unfolding b_def e_def by blast+
  define s1 where "s1 = set_at t (of_nat i) 0 s"
  note s1 = set_at_inv [OF inv t i, of 0, folded s1_def]
  have b1: "b \<in> pager_live s1" using b_live s1 by simp
  obtain s' where free: "pg_free b s1 = ret ((), s')" using pager.release_total [OF s1(1) b1] by blast
  note inv' = pager.release_inv [OF s1(1) b1 free]
  have ent': "ent s' q j = (if q = t \<and> j = i then 0 else ent s q j)" if "q \<in> pager_live s" "j < 512" for q j
    using at_release [OF s1(1) b1 free _ that(2)] at_set_at [OF inv t _ i that(2)] that s1(2)
    by (auto simp: s1_def)
  have run: "shrink_branch t (of_nat i) (level_jmp (Suc l)) s = ret ((), s')"
    using b sh empty(1) free unfolding shrink_branch_def Let_def e_def [symmetric] b_def [symmetric] s1_def
    by simp
  have zero: "ent s' t i = 0" using ent' t i by simp
  have "b \<in> set (epages (Suc l) e s)" using epages_table [of e l s] b by (simp add: b_def)
  then have "entry_step (Suc l) t i s s'"
    unfolding entry_step_def zero e_def [symmetric] using ent' t s1(2) inv'
    by (auto simp: etree_def same_tables_def)
  moreover have "ewalk (Suc l) (ent s' t i) n s' = ewalk (Suc l) (ent s t i) n s" for n
    using empty(2) ewalk_table [of e l n s] b unfolding zero e_def [symmetric] b_def [symmetric] by simp
  moreover have "pager_live s' \<subseteq> pager_live s" using inv' s1(2) by auto
  ultimately show ?thesis using that run inv' s1 zero by metis
qed

section \<open>Writing small pages\<close>

text \<open>One entry of a table of small pages.\<close>

lemma set_small_step:
  assumes inv: "pager_inv s" and tab: "etable 0 t s" and i: "i < 512" and v: "v = 0 \<or> leaf_ok 0 v"
  shows "pager_inv (set_at t (of_nat i) v s)" and "pager_live (set_at t (of_nat i) v s) = pager_live s"
    and "pager_pool (set_at t (of_nat i) v s) = pager_pool s"
    and "entry_step 0 t i s (set_at t (of_nat i) v s)"
    and "\<And>j. j < 512 \<Longrightarrow> ent (set_at t (of_nat i) v s) t j = (if j = i then v else ent s t j)"
proof -
  have t: "t \<in> pager_live s" using tab by (simp add: etable_def)
  note s' = set_at_inv [OF inv t i, of v]
  note at' = at_set_at [OF inv t _ i]
  show "pager_inv (set_at t (of_nat i) v s)" and "pager_live (set_at t (of_nat i) v s) = pager_live s"
    and "pager_pool (set_at t (of_nat i) v s) = pager_pool s"
    by (rule s')+
  show "\<And>j. j < 512 \<Longrightarrow> ent (set_at t (of_nat i) v s) t j = (if j = i then v else ent s t j)"
    using at' [OF t] by auto
  show "entry_step 0 t i s (set_at t (of_nat i) v s)"
    unfolding entry_step_def using v s' at' t i by (auto simp: etree_def same_tables_def)
qed

section \<open>Steps below the root\<close>

lemma vma_tree_table: "kernel_page root \<Longrightarrow> vma_tree root s \<longleftrightarrow> pager_inv s \<and> etable 2 root s"
  using etree_table [of "create_branch root" 2 s] branch_pte [of root] kernel_page_nonzero [of root]
  by (simp add: vma_tree_def numeral_3_eq_3)

lemma vma_treeD:
  assumes "vma_tree root s"
  shows "kernel_page root" "pager_inv s" "etable 2 root s" "root \<in> pager_live s"
  using assms vma_tree_table [of root s] by (auto simp: vma_tree_def etable_def)

lemma sv39_page_root:
  assumes "kernel_page root"
  shows "sv39_page root n s = ewalk 2 (ent s root (n div 512 ^ 2 mod 512)) n s"
  using ewalk_table [of "create_branch root" 2 n s] branch_pte [OF assms] kernel_page_nonzero [OF assms]
  by (simp add: sv39_page_def numeral_3_eq_3)

text \<open>Whatever is in use and is no table of the tree is left alone, and stays outside the tree.\<close>

abbreviation tables :: "u64 \<Rightarrow> 'a machine_scheme \<Rightarrow> u64 set" where
  "tables root s \<equiv> set (epages 3 (create_branch root) s)"

definition leaves_rest :: "u64 \<Rightarrow> 'a pager_scheme \<Rightarrow> 'a pager_scheme \<Rightarrow> bool" where
  "leaves_rest root s s' \<longleftrightarrow> pager_live s - tables root s \<subseteq> pager_live s' - tables root s'
     \<and> same_tables (pager_live s - tables root s) s s'"

lemma leaves_rest_refl [simp]: "leaves_rest root s s"
  by (simp add: leaves_rest_def same_tables_def)

lemma leaves_rest_trans: "leaves_rest root s1 s2 \<Longrightarrow> leaves_rest root s2 s3 \<Longrightarrow> leaves_rest root s1 s3"
  unfolding leaves_rest_def same_tables_def by auto

lemma tables_root:
  assumes "kernel_page root"
  shows "tables root s = insert root (\<Union>i<512. set (epages 2 (ent s root i) s))"
  using epages_table [of "create_branch root" 2 s] branch_pte [OF assms] kernel_page_nonzero [OF assms]
  by (auto simp: numeral_3_eq_3 simp del: epages.simps)

lemma step_leaves_rest:
  assumes "vma_tree root s" and st: "entry_step 2 root i s s'" and i: "i < 512"
  shows "leaves_rest root s s'"
proof -
  note v = vma_treeD [OF assms(1)] and tabs = tables_root [OF vma_treeD(1) [OF assms(1)]]
  have sub: "insert root (set (epages 2 (ent s root i) s)) \<subseteq> tables root s" unfolding tabs using i by auto
  have "tables root s' \<inter> pager_live s \<subseteq> tables root s"
  proof
    fix q assume q: "q \<in> tables root s' \<inter> pager_live s"
    then consider "q = root" | k where "k < 512" "q \<in> set (epages 2 (ent s' root k) s')" unfolding tabs by auto
    then show "q \<in> tables root s"
    proof cases
      case 1
      then show ?thesis using sub by simp
    next
      case 2
      have "q \<in> set (epages 2 (ent s root k) s)"
      proof (cases "k = i")
        case True
        then show ?thesis using 2 q st by (auto simp: entry_step_def)
      next
        case False
        then show ?thesis using 2 entry_step_other(1,2) [OF v(3) st i 2(1) False] by simp
      qed
      then show ?thesis unfolding tabs using 2(1) by auto
    qed
  qed
  moreover have "pager_live s - tables root s \<subseteq> pager_live s'" using st sub by (auto simp: entry_step_def)
  moreover have "same_tables (pager_live s - tables root s) s s'"
    by (rule same_tables_mono [of "pager_live s - insert root (set (epages 2 (ent s root i) s))"])
       (use st sub in \<open>auto simp: entry_step_def\<close>)
  ultimately show ?thesis unfolding leaves_rest_def by blast
qed

lemma root_step:
  assumes "vma_tree root s" and "entry_step 2 root i s s'" and "i < 512" and "pager_inv s'"
  shows "vma_tree root s'"
    and "sv39_page root n s' =
      (if n div 512 ^ 2 mod 512 = i then ewalk 2 (ent s' root i) n s' else sv39_page root n s)"
    and "leaves_rest root s s'"
proof -
  note v = vma_treeD [OF assms(1)]
  show "leaves_rest root s s'" by (rule step_leaves_rest [OF assms(1-3)])
  show "vma_tree root s'"
    using entry_step_table [OF v(3) assms(2,3)] vma_tree_table [OF v(1)] assms(4) by blast
  show "sv39_page root n s' =
      (if n div 512 ^ 2 mod 512 = i then ewalk 2 (ent s' root i) n s' else sv39_page root n s)"
    unfolding sv39_page_root [OF v(1)] by (rule entry_step_walk [OF v(3) assms(2,3)])
qed

lemma ewalk_2:
  assumes "get_branch_loc e = t" and "t \<noteq> 0"
  shows "ewalk 2 e n s = ewalk 1 (ent s t (n div 512 mod 512)) n s"
  using ewalk_table [of e 1 n s] assms by (simp add: numeral_2_eq_2 del: ewalk.simps)

lemma ewalk_1:
  assumes "get_branch_loc e = t" and "t \<noteq> 0"
  shows "ewalk 1 e n s = ewalk 0 (ent s t (n mod 512)) n s"
  using ewalk_table [of e 0 n s] assms by (simp del: ewalk.simps)

text \<open>The table behind an entry of the root, and an entry of such a table.\<close>

lemma mid_table:
  assumes "vma_tree root s" and "i < 512" and "get_branch_loc (ent s root i) = t" and "t \<noteq> 0"
  shows "etable 1 t s" and "t \<in> pager_live s" and "t \<noteq> root"
proof -
  have "etree 2 (ent s root i) s" "root \<notin> set (epages 2 (ent s root i) s)"
    using vma_treeD(3) [OF assms(1)] assms(2) by (auto simp: etable_def)
  then show "etable 1 t s" "t \<in> pager_live s" "t \<noteq> root"
    using etree_table [of "ent s root i" 1 s] assms(3,4)
      epages_table [of "ent s root i" 1 s] by (auto simp: numeral_2_eq_2 etable_def)
qed

lemma step_keeps_parent:
  assumes "etable (Suc l) t s" and "i < 512" and "get_branch_loc (ent s t i) = u" and "u \<noteq> 0"
    and "entry_step l u j s s'" and "j < 512" and "k < 512"
  shows "ent s' t k = ent s t k"
proof -
  have "entry_step (Suc l) t i s s'" by (rule entry_step_up [OF assms(1-6)])
  moreover have "t \<notin> set (epages (Suc l) (ent s t i) s)" and t: "t \<in> pager_live s"
    using assms(1,2) by (auto simp del: epages.simps simp: etable_def)
  then have "t \<noteq> u" "t \<notin> set (epages l (ent s u j) s)"
    using epages_table [of "ent s t i" l s] epages_below [of "ent s t i" j l s] assms(3,4,6) by auto
  ultimately show ?thesis
    using assms(5,7) t by (auto simp: entry_step_def same_tables_def)
qed

lemma mid_step:
  assumes tree: "vma_tree root s" and i: "i < 512" and t: "get_branch_loc (ent s root i) = t" "t \<noteq> 0"
    and st: "entry_step 1 t j s s'" and j: "j < 512" and inv: "pager_inv s'"
  shows "vma_tree root s'" and "\<And>k. k < 512 \<Longrightarrow> ent s' root k = ent s root k"
    and "sv39_page root n s' =
      (if n div 512 ^ 2 mod 512 = i \<and> n div 512 mod 512 = j then ewalk 1 (ent s' t j) n s'
       else sv39_page root n s)"
    and "leaves_rest root s s'"
proof -
  note v = vma_treeD [OF tree]
  have r: "etable (Suc 1) root s" using v(3) by (simp add: numeral_2_eq_2)
  have up: "entry_step 2 root i s s'"
    using entry_step_up [OF r i t st j] by (simp add: numeral_2_eq_2)
  note root = root_step [OF tree up i inv]
  show "vma_tree root s'" "leaves_rest root s s'" by (rule root(1,3))+
  show keep: "\<And>k. k < 512 \<Longrightarrow> ent s' root k = ent s root k"
    by (rule step_keeps_parent [OF r i t st j])
  have b: "get_branch_loc (ent s' root i) = t" using keep [OF i] t by simp
  have old: "sv39_page root n s = ewalk 1 (ent s t (n div 512 mod 512)) n s"
    if "n div 512 ^ 2 mod 512 = i"
    unfolding sv39_page_root [OF v(1)] that by (rule ewalk_2 [OF t])
  note w = entry_step_walk [OF mid_table(1) [OF tree i t] st j, of n, unfolded power_one_right]
  show "sv39_page root n s' =
      (if n div 512 ^ 2 mod 512 = i \<and> n div 512 mod 512 = j then ewalk 1 (ent s' t j) n s'
       else sv39_page root n s)"
    unfolding root(2) [of n] ewalk_2 [OF b t(2)] w using old by presburger
qed

lemma low_table:
  assumes "etable 1 t s" and "j < 512" and "get_branch_loc (ent s t j) = u" and "u \<noteq> 0"
  shows "etable 0 u s" and "u \<in> pager_live s"
  using assms etree_table [of "ent s t j" 0 s] by (auto simp: etable_def)

lemma low_step:
  assumes tree: "vma_tree root s" and i: "i < 512" and t: "get_branch_loc (ent s root i) = t" "t \<noteq> 0"
    and j: "j < 512" and u: "get_branch_loc (ent s t j) = u" "u \<noteq> 0"
    and st: "entry_step 0 u k s s'" and k: "k < 512" and inv: "pager_inv s'"
  shows "vma_tree root s'" and "ent s' root i = ent s root i" and "ent s' t j = ent s t j"
    and "sv39_page root n s' =
      (if n div 512 ^ 2 mod 512 = i \<and> n div 512 mod 512 = j \<and> n mod 512 = k then ewalk 0 (ent s' u k) n s'
       else sv39_page root n s)"
    and "leaves_rest root s s'"
proof -
  have tt: "etable (Suc 0) t s" using mid_table(1) [OF tree i t] by simp
  have up: "entry_step 1 t j s s'" using entry_step_up [OF tt j u st k] by simp
  note mid = mid_step [OF tree i t up j inv]
  show "vma_tree root s'" "ent s' root i = ent s root i" "leaves_rest root s s'" using mid i by auto
  show keep: "ent s' t j = ent s t j" by (rule step_keeps_parent [OF tt j u st k j])
  have b: "get_branch_loc (ent s' t j) = u" using keep u by simp
  have old: "sv39_page root n s = ewalk 0 (ent s u (n mod 512)) n s"
    if "n div 512 ^ 2 mod 512 = i" "n div 512 mod 512 = j"
    unfolding sv39_page_root [OF vma_treeD(1) [OF tree]] that ewalk_2 [OF t] by (rule ewalk_1 [OF u])
  have low: "etable 0 u s" using low_table(1) [OF _ j u] tt by simp
  note w = entry_step_walk [OF low st k, of n, unfolded power_0 div_by_1]
  show "sv39_page root n s' =
      (if n div 512 ^ 2 mod 512 = i \<and> n div 512 mod 512 = j \<and> n mod 512 = k then ewalk 0 (ent s' u k) n s'
       else sv39_page root n s)"
    unfolding mid(3) [of n] ewalk_1 [OF b u(2)] w using old by presburger
qed

end
