(* ===== verification/Vma_Map.thy ===== *)
theory Vma_Map
  imports Vma_Walk
begin

text \<open>
  Mapping and unmapping pages: \<open>vma_replace_section\<close> on a range of pages below one table changes the
  sv39 translation exactly on that range and fences every page of it; the address space
  \<open>vma_create\<close> makes; the address space identifiers and the \<open>satp\<close> register.
\<close>

section \<open>Writing the entries\<close>

definition path :: "u64 \<Rightarrow> nat \<Rightarrow> nat \<Rightarrow> u64 \<Rightarrow> u64 \<Rightarrow> 'a pager_scheme \<Rightarrow> bool" where
  "path root i j t u s \<longleftrightarrow> vma_tree root s \<and> i < 512 \<and> j < 512
     \<and> get_branch_loc (ent s root i) = t \<and> t \<noteq> 0 \<and> get_branch_loc (ent s t j) = u \<and> u \<noteq> 0"

text \<open>What a page of a range maps to: nothing when it is unmapped.\<close>

definition mapped_to :: "u64 \<Rightarrow> u64 \<Rightarrow> nat \<Rightarrow> (u64 \<times> u64) option" where
  "mapped_to phys f k = (if f = 0 then None else Some (phys + of_nat (4096 * k), f))"

definition range_flags :: "u64 \<Rightarrow> u64 \<Rightarrow> nat \<Rightarrow> bool" where
  "range_flags phys f n \<longleftrightarrow> f = 0 \<or> leaf_flags f \<and> (\<forall>k<n. kernel_page (phys + of_nat (4096 * k)))"

text \<open>The entry written for one page, and what it translates to.\<close>

lemma made_entry:
  assumes "f \<noteq> 0 \<longrightarrow> kernel_page phys \<and> leaf_flags f"
  shows "create_leaf phys f = 0 \<or> leaf_ok 0 (create_leaf phys f)"
    and "ewalk 0 (create_leaf phys f) q s = mapped_to phys f 0"
proof (atomize (full), cases "f = 0")
  case True
  then show "(create_leaf phys f = 0 \<or> leaf_ok 0 (create_leaf phys f)) \<and> ewalk 0 (create_leaf phys f) q s = mapped_to phys f 0"
    by (simp add: create_leaf_def mapped_to_def)
next
  case False
  then have "leaf_ok 0 (create_leaf phys f)" using assms by (intro made_leaf_ok) (auto simp: kernel_page_def)
  then show "(create_leaf phys f = 0 \<or> leaf_ok 0 (create_leaf phys f)) \<and> ewalk 0 (create_leaf phys f) q s = mapped_to phys f 0"
    using ewalk_leaf [of 0 "create_leaf phys f" q s] made_leaf [of phys f] assms False by (simp add: mapped_to_def)
qed

lemma range_flags_first: "range_flags phys f (Suc n) \<Longrightarrow> f \<noteq> 0 \<longrightarrow> kernel_page phys \<and> leaf_flags f"
  by (auto simp: range_flags_def elim!: allE [of _ 0])

lemma range_flags_rest:
  assumes "range_flags phys f (Suc n)"
  shows "range_flags (phys + ppn0_jmp_size) f n"
proof -
  have "kernel_page (phys + ppn0_jmp_size + of_nat (4096 * m))"
    if "\<forall>m<Suc n. kernel_page (phys + of_nat (4096 * m))" "m < n" for m
    using that(1)[rule_format, of "Suc m"] that(2) by (simp add: ppn0_jmp_size_def algebra_simps)
  then show ?thesis using assms by (auto simp: range_flags_def)
qed

lemma next_page:
  assumes "Suc k \<le> m"
  shows "create_leaf (phys + ppn0_jmp_size + of_nat (4096 * (m - Suc k))) f = create_leaf (phys + of_nat (4096 * (m - k))) f"
    and "mapped_to (phys + ppn0_jmp_size) f (m - Suc k) = mapped_to phys f (m - k)"
proof -
  have "m - k = Suc (m - Suc k)" using assms by simp
  then have e: "phys + ppn0_jmp_size + of_nat (4096 * (m - Suc k)) = phys + of_nat (4096 * (m - k))"
    by (simp add: ppn0_jmp_size_def algebra_simps)
  show "create_leaf (phys + ppn0_jmp_size + of_nat (4096 * (m - Suc k))) f = create_leaf (phys + of_nat (4096 * (m - k))) f"
    "mapped_to (phys + ppn0_jmp_size) f (m - Suc k) = mapped_to phys f (m - k)"
    by (simp_all only: e mapped_to_def)
qed

text \<open>Writing one entry of the lowest table.\<close>

lemma put_leaf_step:
  assumes "path root i j t u s" and k: "k < 512" and f: "f \<noteq> 0 \<longrightarrow> kernel_page phys \<and> leaf_flags f"
  defines "s1 \<equiv> set_at u (of_nat k) (create_leaf phys f) s"
  shows "path root i j t u s1" and "pager_pool s1 = pager_pool s" and "pager_live s1 = pager_live s"
    and "m < 512 \<Longrightarrow> ent s1 u m = (if m = k then create_leaf phys f else ent s u m)"
    and "sv39_page root q s1 = (if q div 512 ^ 2 mod 512 = i \<and> q div 512 mod 512 = j \<and> q mod 512 = k
      then mapped_to phys f 0 else sv39_page root q s)"
    and "leaves_rest root s s1"
proof -
  have p: "vma_tree root s" "i < 512" "j < 512" "get_branch_loc (ent s root i) = t" "t \<noteq> 0"
    "get_branch_loc (ent s t j) = u" "u \<noteq> 0" using assms(1) by (auto simp: path_def)
  have tt: "etable 1 t s" using mid_table(1) [OF p(1,2,4,5)] .
  note step = set_small_step [OF vma_treeD(2) [OF p(1)] low_table(1) [OF tt p(3,6,7)] k made_entry(1) [OF f], folded s1_def]
  note low = low_step [OF p(1,2,4,5,3,6,7) step(4) k step(1)]
  show "path root i j t u s1" using p low by (simp add: path_def)
  show "pager_pool s1 = pager_pool s" "pager_live s1 = pager_live s" "leaves_rest root s s1" using step(2,3) low(5) by simp_all
  show "ent s1 u m = (if m = k then create_leaf phys f else ent s u m)" if "m < 512" using step(5) [OF that] by simp
  show "sv39_page root q s1 = (if q div 512 ^ 2 mod 512 = i \<and> q div 512 mod 512 = j \<and> q mod 512 = k
      then mapped_to phys f 0 else sv39_page root q s)"
    using low(4) [of q] step(5) [OF k] made_entry(2) [OF f] by simp
qed

lemma put_leaves_sound:
  assumes "path root i j t u s" and "k + n \<le> 512" and "range_flags phys f n"
  defines "s' \<equiv> put_leaves n u (of_nat k) phys ppn0_jmp_size f s"
  shows "path root i j t u s' \<and> pager_pool s' = pager_pool s \<and> pager_live s' = pager_live s
    \<and> (\<forall>m<512. ent s' u m = (if k \<le> m \<and> m < k + n then create_leaf (phys + of_nat (4096 * (m - k))) f else ent s u m))
    \<and> (\<forall>q. sv39_page root q s' =
        (if q div 512 ^ 2 mod 512 = i \<and> q div 512 mod 512 = j \<and> k \<le> q mod 512 \<and> q mod 512 < k + n
         then mapped_to phys f (q mod 512 - k) else sv39_page root q s))
    \<and> leaves_rest root s s'"
  using assms(1-3) unfolding s'_def
proof (induction n arbitrary: k phys s)
  case 0
  then show ?case by auto
next
  case (Suc n)
  have k: "k < 512" using Suc.prems(2) by simp
  define s1 where "s1 = set_at u (of_nat k) (create_leaf phys f) s"
  note one = put_leaf_step [OF Suc.prems(1) k range_flags_first [OF Suc.prems(3)], folded s1_def]
  define s' where "s' = put_leaves n u (of_nat (Suc k)) (phys + ppn0_jmp_size) ppn0_jmp_size f s1"
  have s': "put_leaves (Suc n) u (of_nat k) phys ppn0_jmp_size f s = s'"
    by (simp add: s'_def s1_def add.commute)
  have IH: "path root i j t u s'" "pager_pool s' = pager_pool s1" "pager_live s' = pager_live s1"
    "\<forall>m<512. ent s' u m = (if Suc k \<le> m \<and> m < Suc k + n
       then create_leaf (phys + ppn0_jmp_size + of_nat (4096 * (m - Suc k))) f else ent s1 u m)"
    "\<forall>q. sv39_page root q s' =
        (if q div 512 ^ 2 mod 512 = i \<and> q div 512 mod 512 = j \<and> Suc k \<le> q mod 512 \<and> q mod 512 < Suc k + n
         then mapped_to (phys + ppn0_jmp_size) f (q mod 512 - Suc k) else sv39_page root q s1)"
    "leaves_rest root s1 s'"
    using Suc.IH [OF one(1) _ range_flags_rest [OF Suc.prems(3)], of "Suc k"] Suc.prems(2) unfolding s'_def by simp_all
  have ents: "ent s' u m = (if k \<le> m \<and> m < k + Suc n then create_leaf (phys + of_nat (4096 * (m - k))) f else ent s u m)"
    if "m < 512" for m
    unfolding IH(4) [rule_format, OF that] using one(4) [OF that] next_page(1) [of k m phys f]
    by (cases "m = k") (auto simp del: of_nat_mult of_nat_numeral)
  have walk: "sv39_page root q s' =
      (if q div 512 ^ 2 mod 512 = i \<and> q div 512 mod 512 = j \<and> k \<le> q mod 512 \<and> q mod 512 < k + Suc n
       then mapped_to phys f (q mod 512 - k) else sv39_page root q s)" for q
    unfolding IH(5) [rule_format] one(5) using next_page(2) [of k "q mod 512" phys f] by (cases "q mod 512 = k") auto
  show ?case
    unfolding s' using IH(1-3) one(2,3) ents walk leaves_rest_trans [OF one(6) IH(6)] by simp
qed

section \<open>What the page table code leaves alone\<close>

text \<open>The globals of the components above the page allocator are those of \<open>pager.more\<close>.\<close>

lemma pg_alloc_more: "pg_alloc s = ret (p, s') \<Longrightarrow> pager.more s' = pager.more s"
  by (auto simp: pg_alloc_def take_page_def Let_def split: option.splits)

lemma pg_free_more: "pg_free p s = ret ((), s') \<Longrightarrow> pager.more s' = pager.more s"
  by (auto simp: pg_free_def Let_def split: prod.splits if_splits)

lemma set_at_more [simp]: "pager.more (set_at a i v s) = pager.more s"
  by (simp add: set_at_def)

lemma fill_split_more [simp]: "pager.more (fill_split n t phys jmp flags s) = pager.more s"
  by (induction n) simp_all

lemma put_leaves_more [simp]: "pager.more (put_leaves n t idx phys jmp flags s) = pager.more s"
  by (induction n arbitrary: idx phys s) simp_all

lemma expand_leaf_more: "expand_leaf t i jmp s = ret (p, s') \<Longrightarrow> pager.more s' = pager.more s"
  by (auto simp: expand_leaf_def Let_def dest!: pg_alloc_more split: if_splits)

lemma shrink_branch_more: "shrink_branch t i jmp s = ret ((), s') \<Longrightarrow> pager.more s' = pager.more s"
  by (auto simp: shrink_branch_def Let_def dest!: pg_free_more split: if_splits)

lemma vma_fields_more:
  fixes s s' :: "'a vma_scheme"
  assumes "pager.more s' = pager.more s"
  shows "fences s' = fences s" "max_asid s' = max_asid s" "satp s' = satp s"
    "current_highest_asid s' = current_highest_asid s" "hart_stacks_list s' = hart_stacks_list s"
    "running_list s' = running_list s" "process_hashmap s' = process_hashmap s"
    "process_upto s' = process_upto s"
  using assms by (cases s; cases s'; simp)+

section \<open>The counting loop on a few pages\<close>

lemma round_down_iff: "ROUND_MOD_DOWN x k = x \<longleftrightarrow> unat x mod unat k = 0"
proof -
  have "ROUND_MOD_DOWN x k = x \<longleftrightarrow> unat x div unat k * unat k = unat x"
    by (metis unat_round_down word_unat_eq_iff)
  also have "\<dots> \<longleftrightarrow> unat x mod unat k = 0"
    by (metis add_cancel_right_right div_mult_mod_eq)
  finally show ?thesis .
qed

lemma page_mod: "4096 * N mod (4096 * k) = 4096 * (N mod k)" for N k :: nat
  by (rule mult_mod_right [symmetric])

lemma gib_aligned: "unat va = 4096 * N \<Longrightarrow> ROUND_MOD_DOWN va ppn2_jmp_size = va \<longleftrightarrow> N mod 262144 = 0"
  using page_mod [of N 262144] by (simp add: round_down_iff ppn2_jmp_size_def)

lemma page_aligned_addr: "unat va = 4096 * N \<Longrightarrow> ROUND_MOD_DOWN va ppn0_jmp_size = va"
  by (simp add: round_down_iff ppn0_jmp_size_def)

text \<open>
  A range of fewer than 512 pages inside one 2 MiB block that does not start at a 1 GiB boundary is
  counted as small pages before the boundary.
\<close>

lemma ppn_count_small:
  assumes "unat va = 4096 * N" and "N mod 512 + n \<le> 512" and "n < 512"
    and "n > 0 \<Longrightarrow> N mod 262144 \<noteq> 0" and "N < 2 ^ 27"
  shows "ppn_count (of_nat (4096 * n)) va 0 c = Some (c\<lparr>pre_ppn0_cnt := pre_ppn0_cnt c + of_nat n\<rparr>)"
  using assms
proof (induction n arbitrary: va N c)
  case 0
  then show ?case by (simp add: ppn_count.simps)
next
  case (Suc n)
  have un: "unat (of_nat (4096 * Suc n) :: u64) = 4096 * Suc n"
    by (rule unat_small) (use Suc.prems(3) in simp)
  define left where "left = (of_nat (4096 * Suc n) :: u64)"
  have left: "unat left = 4096 * Suc n" using un by (simp add: left_def)
  have "left \<noteq> 0" using left by auto
  moreover have "\<not> left \<ge> ppn2_jmp_size" "\<not> left \<ge> ppn1_jmp_size" "left \<ge> ppn0_jmp_size"
    using left Suc.prems(3) by (auto simp: word_le_nat_alt jmp_sizes)
  moreover have h: "ppn_reached va 0 = 0"
    using gib_aligned [OF Suc.prems(1)] Suc.prems(4) by (simp add: ppn_reached_def)
  moreover note page_aligned_addr [OF Suc.prems(1)]
  ultimately have step: "ppn_count left va 0 c =
      ppn_count (left - ppn0_jmp_size) (va + ppn0_jmp_size) 0 (c\<lparr>pre_ppn0_cnt := pre_ppn0_cnt c + 1\<rparr>)"
    by (subst ppn_count.simps) (simp add: Let_def)
  have next_left: "left - ppn0_jmp_size = of_nat (4096 * n)"
    by (simp add: left_def ppn0_jmp_size_def algebra_simps)
  have va': "unat (va + ppn0_jmp_size) = 4096 * Suc N"
    using Suc.prems(1,5) by (simp add: unat_word_ariths ppn0_jmp_size_def)
  have room: "Suc N mod 512 + n \<le> 512 \<and> (n > 0 \<longrightarrow> Suc N mod 512 \<noteq> 0)"
    using Suc.prems(2,3) by (simp add: mod_Suc)
  have "Suc N mod 262144 mod 512 = Suc N mod 512" by (simp add: mod_mod_cancel)
  then have cross: "n > 0 \<Longrightarrow> Suc N mod 262144 \<noteq> 0" using room by (metis mod_0)
  have lt: "n > 0 \<Longrightarrow> Suc N < 2 ^ 27"
  proof -
    assume "n > 0"
    then have "Suc N mod 512 \<noteq> 0" using room by blast
    then have "Suc N \<noteq> 2 ^ 27" by auto
    then show "Suc N < 2 ^ 27" using Suc.prems(5) by simp
  qed
  show ?case
  proof (cases "n = 0")
    case True
    then show ?thesis unfolding left_def [symmetric] step next_left by (simp add: ppn_count.simps)
  next
    case False
    then show ?thesis
      unfolding left_def [symmetric] step next_left
      using Suc.IH [OF va' _ _ cross lt] room Suc.prems(3) by (simp add: add.assoc)
  qed
qed

text \<open>The three indices of a page number.\<close>

lemma ppn_indices:
  fixes va :: u64
  assumes "unat va = 4096 * N" and "N < 2 ^ 27"
  shows "va div ppn2_jmp_size = of_nat (N div 512 ^ 2)"
    and "(va mod ppn2_jmp_size) div ppn1_jmp_size = of_nat (N div 512 mod 512)"
    and "(va mod ppn1_jmp_size) div ppn0_jmp_size = of_nat (N mod 512)"
proof -
  have small: "unat (of_nat m :: u64) = m" if "m \<le> N" for m
    using that assms(2) by (intro unat_small) simp
  have u: "unat (of_nat (N div 512 ^ 2) :: u64) = N div 512 ^ 2"
    "unat (of_nat (N div 512 mod 512) :: u64) = N div 512 mod 512"
    "unat (of_nat (N mod 512) :: u64) = N mod 512"
    by (rule small [OF div_le_dividend], rule small [OF order_trans [OF mod_less_eq_dividend div_le_dividend]],
        rule small [OF mod_less_eq_dividend])
  have j: "unat ppn0_jmp_size = 4096" "unat ppn1_jmp_size = 4096 * 512" "unat ppn2_jmp_size = 4096 * 262144"
    by (simp_all add: jmp_sizes)
  have "4096 * N div (4096 * 262144) = N div 512 ^ 2" by simp
  then have "unat (va div ppn2_jmp_size) = unat (of_nat (N div 512 ^ 2) :: u64)"
    unfolding u unat_div assms(1) j .
  then show "va div ppn2_jmp_size = of_nat (N div 512 ^ 2)" by (rule word_unat_eq_iff [THEN iffD2])
  have "4096 * N mod (4096 * 262144) div (4096 * 512) = N mod (512 * 512) div 512"
    unfolding page_mod by simp
  also have "\<dots> = N div 512 mod 512" unfolding mod_mult2_eq by simp
  finally have "unat ((va mod ppn2_jmp_size) div ppn1_jmp_size) = unat (of_nat (N div 512 mod 512) :: u64)"
    unfolding u unat_div unat_mod assms(1) j .
  then show "(va mod ppn2_jmp_size) div ppn1_jmp_size = of_nat (N div 512 mod 512)"
    by (rule word_unat_eq_iff [THEN iffD2])
  have "4096 * N mod (4096 * 512) div 4096 = N mod 512" unfolding page_mod by simp
  then have "unat ((va mod ppn1_jmp_size) div ppn0_jmp_size) = unat (of_nat (N mod 512) :: u64)"
    unfolding u unat_div unat_mod assms(1) j .
  then show "(va mod ppn1_jmp_size) div ppn0_jmp_size = of_nat (N mod 512)"
    by (rule word_unat_eq_iff [THEN iffD2])
qed

section \<open>Reaching the table of small pages\<close>

abbreviation free_pages :: "'a pager_scheme \<Rightarrow> nat" where
  "free_pages s \<equiv> card (pager_pool s - pager_live s)"

text \<open>What every step keeps, apart from the translation.\<close>

definition keeps_tree :: "u64 \<Rightarrow> 'a pager_scheme \<Rightarrow> 'a pager_scheme \<Rightarrow> bool" where
  "keeps_tree root s s' \<longleftrightarrow> vma_tree root s' \<and> pager_pool s' = pager_pool s \<and> pager.more s' = pager.more s
     \<and> (\<forall>q. sv39_page root q s' = sv39_page root q s) \<and> leaves_rest root s s'"

lemma free_after_alloc:
  assumes "pager_pool s' = pager_pool s" and "pager_live s' = insert p (pager_live s)"
  shows "free_pages s \<le> Suc (free_pages s')"
proof -
  have "pager_pool s - pager_live s \<subseteq> insert p (pager_pool s' - pager_live s')" using assms by auto
  then have "free_pages s \<le> card (insert p (pager_pool s' - pager_live s'))"
    by (intro card_mono) (simp_all add: finite_pool)
  also have "\<dots> \<le> Suc (free_pages s')" by (simp add: card_insert_if finite_pool)
  finally show ?thesis .
qed

text \<open>A step of one entry that keeps the translations through it keeps all of them.\<close>

lemma root_step_same:
  assumes "vma_tree root s" and "entry_step 2 root i s s'" and "i < 512" and "pager_inv s'"
    and "\<And>n. ewalk 2 (ent s' root i) n s' = ewalk 2 (ent s root i) n s"
    and "pager_pool s' = pager_pool s" and "pager.more s' = pager.more s"
  shows "keeps_tree root s s'"
proof -
  have "sv39_page root q s' = sv39_page root q s" for q
    using root_step(2) [OF assms(1-4), of q] assms(5) [of q] sv39_page_root [OF vma_treeD(1) [OF assms(1)], of q s]
    by simp
  then show ?thesis using root_step(1,3) [OF assms(1-4)] assms(6,7) by (simp add: keeps_tree_def)
qed

lemma mid_step_same:
  assumes "vma_tree root s" and "i < 512" and "get_branch_loc (ent s root i) = t" and "t \<noteq> 0"
    and "entry_step 1 t j s s'" and "j < 512" and "pager_inv s'"
    and walk: "\<And>n. ewalk 1 (ent s' t j) n s' = ewalk 1 (ent s t j) n s"
    and "pager_pool s' = pager_pool s" and "pager.more s' = pager.more s"
  shows "keeps_tree root s s'"
proof -
  note mid = mid_step [OF assms(1-7)]
  have "sv39_page root q s' = sv39_page root q s" for q
  proof (cases "q div 512 ^ 2 mod 512 = i \<and> q div 512 mod 512 = j")
    case True
    then have "sv39_page root q s = ewalk 1 (ent s t j) q s"
      using sv39_page_root [OF vma_treeD(1) [OF assms(1)], of q s] ewalk_2 [OF assms(3,4), of q s] by simp
    then show ?thesis using mid(3) [of q] True walk [of q] by simp
  next
    case False
    then show ?thesis unfolding mid(3) by (rule if_not_P)
  qed
  then show ?thesis using mid(1,4) assms(9,10) by (simp add: keeps_tree_def)
qed

lemma reach_mid:
  assumes tree: "vma_tree root s" and kp: "kernel_pool s" and i: "i < 512" and room: "m < free_pages s"
  obtains t s' where "table_of root (of_nat i) ppn2_jmp_size True s = ret (t, s')" and "keeps_tree root s s'"
    and "get_branch_loc (ent s' root i) = t" and "t \<noteq> 0" and "m \<le> free_pages s'"
proof (cases "get_branch_loc (ent s root i) = 0")
  case False
  then have "table_of root (of_nat i) ppn2_jmp_size True s = ret (get_branch_loc (ent s root i), s)"
    using vma_treeD(1) [OF tree] kernel_page_nonzero by (auto simp: table_of_def Let_def)
  then show ?thesis using that [of "get_branch_loc (ent s root i)" s] tree False room by (simp add: keeps_tree_def)
next
  case True
  note v = vma_treeD [OF tree]
  have root: "root \<noteq> 0" using v(1) kernel_page_nonzero by blast
  obtain p s1 where a: "pg_alloc s = ret (p, s1)" using alloc_enough [OF v(2) room] by blast
  have tab: "etable (Suc 1) root s" using v(3) by (simp add: numeral_2_eq_2)
  obtain s' where s': "expand_leaf root (of_nat i) (level_jmp (Suc 1)) s = ret (p, s')"
    "pager_inv s'" "pager_pool s' = pager_pool s" "pager_live s' = insert p (pager_live s)"
    "entry_step (Suc 1) root i s s'" "get_branch_loc (ent s' root i) = p" "p \<noteq> 0"
    "\<And>n. ewalk (Suc 1) (ent s' root i) n s' = ewalk (Suc 1) (ent s root i) n s"
    using expand_step [OF v(2) kp tab i order_refl True a] by blast
  have two: "Suc 1 = (2 :: nat)" by simp
  note st = s'(5) [unfolded two] and walk = s'(8) [unfolded two]
  have "keeps_tree root s s'"
    by (rule root_step_same [OF tree st i s'(2) walk s'(3) expand_leaf_more [OF s'(1)]])
  moreover have "table_of root (of_nat i) ppn2_jmp_size True s = ret (p, s')"
    using s'(1) True root unfolding two level_jmp_sizes by (simp add: table_of_def)
  moreover have "m \<le> free_pages s'" using free_after_alloc [OF s'(3,4)] room by linarith
  ultimately show ?thesis using that s'(6,7) by blast
qed

lemma reach_low:
  assumes tree: "vma_tree root s" and kp: "kernel_pool s" and i: "i < 512" and j: "j < 512"
    and t: "get_branch_loc (ent s root i) = t" "t \<noteq> 0" and room: "m < free_pages s"
  obtains u s' where "table_of t (of_nat j) ppn1_jmp_size True s = ret (u, s')" and "keeps_tree root s s'"
    and "path root i j t u s'" and "m \<le> free_pages s'"
proof (cases "get_branch_loc (ent s t j) = 0")
  case False
  then have "table_of t (of_nat j) ppn1_jmp_size True s = ret (get_branch_loc (ent s t j), s)"
    using t by (auto simp: table_of_def Let_def)
  then show ?thesis using that [of "get_branch_loc (ent s t j)" s] tree i j t False room
    by (simp add: keeps_tree_def path_def)
next
  case True
  note v = vma_treeD [OF tree]
  obtain p s1 where a: "pg_alloc s = ret (p, s1)" using alloc_enough [OF v(2) room] by blast
  have one: "Suc 0 = (1 :: nat)" by simp
  have tab: "etable (Suc 0) t s" using mid_table(1) [OF tree i t] by simp
  obtain s' where s': "expand_leaf t (of_nat j) (level_jmp (Suc 0)) s = ret (p, s')"
    "pager_inv s'" "pager_pool s' = pager_pool s" "pager_live s' = insert p (pager_live s)"
    "entry_step (Suc 0) t j s s'" "get_branch_loc (ent s' t j) = p" "p \<noteq> 0"
    "\<And>n. ewalk (Suc 0) (ent s' t j) n s' = ewalk (Suc 0) (ent s t j) n s"
    using expand_step [OF v(2) kp tab j zero_le_one True a] by blast
  note st = s'(5) [unfolded one] and walk = s'(8) [unfolded one]
  note mid = mid_step [OF tree i t st j s'(2)]
  have k: "keeps_tree root s s'"
    by (rule mid_step_same [OF tree i t st j s'(2) walk s'(3) expand_leaf_more [OF s'(1)]])
  have "table_of t (of_nat j) ppn1_jmp_size True s = ret (p, s')"
    using s'(1) True t unfolding level_jmp_sizes by (simp add: table_of_def)
  moreover have "path root i j t p s'" using mid(1,2) i j t s'(6,7) by (simp add: path_def)
  moreover have "m \<le> free_pages s'" using free_after_alloc [OF s'(3,4)] room by linarith
  ultimately show ?thesis using that k by blast
qed

text \<open>Merging a table that is empty, or that has an unmapped page or a table in it, keeps the translation.\<close>

lemma merge_mid:
  assumes tree: "vma_tree root s" and i: "i < 512"
    and hole: "get_branch_loc (ent s root i) \<noteq> 0 \<Longrightarrow>
      \<exists>j<512. ent s (get_branch_loc (ent s root i)) j = 0 \<or> get_leaf_flags (ent s (get_branch_loc (ent s root i)) j) = 1"
  obtains s' where "shrink_branch root (of_nat i) ppn2_jmp_size s = ret ((), s')" and "keeps_tree root s s'"
    and "s' = s \<or> ent s' root i = 0" and "pager_live s' \<subseteq> pager_live s"
proof -
  note v = vma_treeD [OF tree]
  have two: "Suc 1 = (2 :: nat)" by simp
  have tab: "etable (Suc 1) root s" using v(3) by (simp add: numeral_2_eq_2)
  obtain s' where s': "shrink_branch root (of_nat i) (level_jmp (Suc 1)) s = ret ((), s')"
    "pager_inv s'" "pager_pool s' = pager_pool s" "entry_step (Suc 1) root i s s'"
    "\<And>n. ewalk (Suc 1) (ent s' root i) n s' = ewalk (Suc 1) (ent s root i) n s" "s' = s \<or> ent s' root i = 0" "pager_live s' \<subseteq> pager_live s"
    using shrink_step [OF v(2) tab i order_refl hole] by blast
  note st = s'(4) [unfolded two] and walk = s'(5) [unfolded two]
  have "keeps_tree root s s'"
    by (rule root_step_same [OF tree st i s'(2) walk s'(3) shrink_branch_more [OF s'(1)]])
  then show ?thesis using that s'(1,6,7) unfolding two level_jmp_sizes by blast
qed

lemma merge_low:
  assumes p: "path root i j t u s"
    and hole: "\<exists>k<512. ent s u k = 0 \<or> get_leaf_flags (ent s u k) = 1"
  obtains s' where "shrink_branch t (of_nat j) ppn1_jmp_size s = ret ((), s')" and "keeps_tree root s s'"
    and "ent s' root i = ent s root i" and "s' = s \<or> ent s' t j = 0" and "pager_live s' \<subseteq> pager_live s"
proof -
  have tree: "vma_tree root s" and i: "i < 512" and j: "j < 512"
    and t: "get_branch_loc (ent s root i) = t" "t \<noteq> 0" and u: "get_branch_loc (ent s t j) = u"
    using p by (auto simp: path_def)
  note v = vma_treeD [OF tree]
  have one: "Suc 0 = (1 :: nat)" by simp
  have tab: "etable (Suc 0) t s" using mid_table(1) [OF tree i t] by simp
  obtain s' where s': "shrink_branch t (of_nat j) (level_jmp (Suc 0)) s = ret ((), s')"
    "pager_inv s'" "pager_pool s' = pager_pool s" "entry_step (Suc 0) t j s s'"
    "\<And>n. ewalk (Suc 0) (ent s' t j) n s' = ewalk (Suc 0) (ent s t j) n s" "s' = s \<or> ent s' t j = 0" "pager_live s' \<subseteq> pager_live s"
    using shrink_step [OF v(2) tab j zero_le_one] hole u by metis
  note st = s'(4) [unfolded one] and walk = s'(5) [unfolded one]
  note mid = mid_step [OF tree i t st j s'(2)]
  have "keeps_tree root s s'"
    by (rule mid_step_same [OF tree i t st j s'(2) walk s'(3) shrink_branch_more [OF s'(1)]])
  then show ?thesis using that s'(1,6,7) mid(2) [OF i] unfolding level_jmp_sizes by blast
qed

section \<open>Replacing a few pages\<close>

text \<open>Membership of a page number in a range inside one block of 512 pages.\<close>

lemma in_block_range:
  fixes N n q :: nat
  assumes "N < 2 ^ 27" and "q < 2 ^ 27" and "N mod 512 + n \<le> 512"
  shows "(q div 512 ^ 2 mod 512 = N div 512 ^ 2 \<and> q div 512 mod 512 = N div 512 mod 512
      \<and> N mod 512 \<le> q mod 512 \<and> q mod 512 < N mod 512 + n) \<longleftrightarrow> N \<le> q \<and> q < N + n"
    and "N \<le> q \<Longrightarrow> q < N + n \<Longrightarrow> q mod 512 - N mod 512 = q - N"
proof -
  have d: "m = 512 * (m div 512) + m mod 512" "m div 512 = 512 * (m div 512 ^ 2) + m div 512 mod 512" for m :: nat
    unfolding power2_eq_square div_mult2_eq by simp_all
  have "q div 512 ^ 2 < 512" using assms(2) by (simp add: less_mult_imp_div_less)
  then have top: "q div 512 ^ 2 mod 512 = q div 512 ^ 2" by simp
  have same: "q div 512 ^ 2 = N div 512 ^ 2 \<and> q div 512 mod 512 = N div 512 mod 512 \<longleftrightarrow> q div 512 = N div 512"
    using d(2) [of q] d(2) [of N] by (metis div_mult2_eq power2_eq_square)
  have block: "q div 512 = N div 512" if "N \<le> q" "q < N + n"
  proof (rule antisym)
    have "q < 512 * (N div 512) + 512" using that d(1) [of N] assms(3) by linarith
    then show "q div 512 \<le> N div 512" by linarith
    show "N div 512 \<le> q div 512" using that(1) by (rule div_le_mono)
  qed
  have inside: "(N mod 512 \<le> q mod 512 \<longleftrightarrow> N \<le> q) \<and> (q mod 512 < N mod 512 + n \<longleftrightarrow> q < N + n)"
    if "q div 512 = N div 512"
    using that d(1) [of q] d(1) [of N] by (intro conjI iffI) linarith+
  show "(q div 512 ^ 2 mod 512 = N div 512 ^ 2 \<and> q div 512 mod 512 = N div 512 mod 512
      \<and> N mod 512 \<le> q mod 512 \<and> q mod 512 < N mod 512 + n) \<longleftrightarrow> N \<le> q \<and> q < N + n"
    unfolding top conj_assoc [symmetric] same using block inside by blast
  show "N \<le> q \<Longrightarrow> q < N + n \<Longrightarrow> q mod 512 - N mod 512 = q - N"
    using block d(1) [of q] d(1) [of N] by linarith
qed

lemma small_entry_none:
  assumes "path root i j t u s" and "m div 512 ^ 2 mod 512 = i" and "m div 512 mod 512 = j"
    and "sv39_page root m s = None"
  shows "ent s u (m mod 512) = 0"
proof -
  have p: "vma_tree root s" "i < 512" "j < 512" "get_branch_loc (ent s root i) = t" "t \<noteq> 0"
    "get_branch_loc (ent s t j) = u" "u \<noteq> 0" using assms(1) by (auto simp: path_def)
  have "sv39_page root m s = ewalk 0 (ent s u (m mod 512)) m s"
    unfolding sv39_page_root [OF vma_treeD(1) [OF p(1)]] assms(2) ewalk_2 [OF p(4,5)] assms(3)
    by (rule ewalk_1 [OF p(6,7)])
  moreover have "etable 0 u s" by (rule low_table(1) [OF mid_table(1) [OF p(1,2,4,5)] p(3,6,7)])
  then have "eok 0 (ent s u (m mod 512)) s" by (simp add: etable_def etree_def)
  ultimately show ?thesis using assms(4) leaf_entry(1,2) [of 0 "ent s u (m mod 512)"] by auto
qed

text \<open>A root entry whose table holds a table or an unmapped entry may be merged at any time.\<close>

lemma merge_again:
  assumes "vma_tree root s" and "i < 512"
    and "get_branch_loc (ent s root i) = t \<Longrightarrow> t \<noteq> 0 \<Longrightarrow>
      \<exists>j<512. ent s t j = 0 \<or> get_leaf_flags (ent s t j) = 1"
    and t: "get_branch_loc (ent s root i) \<in> {0, t}"
  obtains s' s'' where "shrink_branch root (of_nat i) ppn2_jmp_size s = ret ((), s')"
    and "shrink_branch root (of_nat i) ppn2_jmp_size s' = ret ((), s'')"
    and "keeps_tree root s s'" and "keeps_tree root s s''" and "pager_live s'' \<subseteq> pager_live s"
proof -
  have hole: "get_branch_loc (ent s root i) \<noteq> 0 \<Longrightarrow> \<exists>j<512. ent s (get_branch_loc (ent s root i)) j = 0
      \<or> get_leaf_flags (ent s (get_branch_loc (ent s root i)) j) = 1" using assms(3) t by auto
  obtain s' where s': "shrink_branch root (of_nat i) ppn2_jmp_size s = ret ((), s')" "keeps_tree root s s'"
    "s' = s \<or> ent s' root i = 0" "pager_live s' \<subseteq> pager_live s" using merge_mid [OF assms(1,2) hole] by blast
  have "vma_tree root s'" using s'(2) by (simp add: keeps_tree_def)
  moreover have "get_branch_loc (ent s' root i) \<noteq> 0 \<Longrightarrow> \<exists>j<512. ent s' (get_branch_loc (ent s' root i)) j = 0
      \<or> get_leaf_flags (ent s' (get_branch_loc (ent s' root i)) j) = 1" using s'(3) hole by auto
  ultimately obtain s'' where "shrink_branch root (of_nat i) ppn2_jmp_size s' = ret ((), s'')" "keeps_tree root s' s''"
    "pager_live s'' \<subseteq> pager_live s'"
    using merge_mid [of root s' i] assms(2) by blast
  then show ?thesis using that s' leaves_rest_trans [of root s s' s''] by (auto simp: keeps_tree_def)
qed

lemma keeps_tree_trans [trans]:
  assumes "keeps_tree root s s'" and "keeps_tree root s' s''"
  shows "keeps_tree root s s''"
  using assms unfolding keeps_tree_def by (simp add: leaves_rest_trans [of root s s' s''])

text \<open>The level 0 table keeps an empty entry: one just cleared, or one outside of the range.\<close>

lemma put_leaves_gap:
  assumes path: "path root (N div 512 ^ 2) (N div 512 mod 512) t u s"
    and N: "N < 2 ^ 27" and n: "0 < n" "N mod 512 + n \<le> 512" and rf: "range_flags phys f n"
    and hole: "f \<noteq> 0 \<Longrightarrow> \<exists>m<2 ^ 27. m div 512 = N div 512 \<and> \<not> (N \<le> m \<and> m < N + n) \<and> sv39_page root m s = None"
  shows "\<exists>m<512. ent (put_leaves n u (of_nat (N mod 512)) phys ppn0_jmp_size f s) u m = 0"
proof (cases "f = 0")
  case True
  then have "ent (put_leaves n u (of_nat (N mod 512)) phys ppn0_jmp_size f s) u (N mod 512) = 0"
    using put_leaves_sound [OF path n(2) rf] n(1) by (simp add: create_leaf_def)
  then show ?thesis by (intro exI [of _ "N mod 512"]) simp
next
  case False
  then obtain m where m: "m < 2 ^ 27" "m div 512 = N div 512" "\<not> (N \<le> m \<and> m < N + n)" "sv39_page root m s = None"
    using hole by blast
  have "N div 512 ^ 2 < 512" using path by (simp add: path_def)
  moreover have "m div 512 ^ 2 = N div 512 ^ 2" unfolding power2_eq_square div_mult2_eq m(2) ..
  ultimately have im: "m div 512 ^ 2 mod 512 = N div 512 ^ 2" "m div 512 mod 512 = N div 512 mod 512"
    using m(2) by simp_all
  have "ent s u (m mod 512) = 0" by (rule small_entry_none [OF path im m(4)])
  moreover have "\<not> (N mod 512 \<le> m mod 512 \<and> m mod 512 < N mod 512 + n)"
    using in_block_range(1) [OF N m(1) n(2)] im m(3) by blast
  moreover have "ent (put_leaves n u (of_nat (N mod 512)) phys ppn0_jmp_size f s) u m = ent s u m"
    if "m < 512" "\<not> (N mod 512 \<le> m \<and> m < N mod 512 + n)" for m
    using put_leaves_sound [OF path n(2) rf] that by auto
  ultimately have "ent (put_leaves n u (of_nat (N mod 512)) phys ppn0_jmp_size f s) u (m mod 512) = 0" by simp
  then show ?thesis by (intro exI [of _ "m mod 512"]) simp
qed

text \<open>The merges that follow a change of the small entries, up to the root.\<close>

lemma merge_path:
  assumes p: "path root i j t u s" and gap: "\<exists>m<512. ent s u m = 0"
  obtains s4 s5 s6 where "shrink_branch t (of_nat j) ppn1_jmp_size s = ret ((), s4)"
    and "shrink_branch root (of_nat i) ppn2_jmp_size s4 = ret ((), s5)"
    and "shrink_branch root (of_nat i) ppn2_jmp_size s5 = ret ((), s6)"
    and "keeps_tree root s s6" and "pager_live s6 \<subseteq> pager_live s"
proof -
  have lt: "i < 512" "j < 512" using p by (simp_all add: path_def)
  obtain s4 where s4: "shrink_branch t (of_nat j) ppn1_jmp_size s = ret ((), s4)" "keeps_tree root s s4"
    "ent s4 root i = ent s root i" "s4 = s \<or> ent s4 t j = 0" "pager_live s4 \<subseteq> pager_live s"
    using merge_low [OF p] gap by metis
  have tree4: "vma_tree root s4" and t4: "get_branch_loc (ent s4 root i) = t"
    using s4(2,3) p by (simp_all add: keeps_tree_def path_def)
  have "get_leaf_flags (ent s t j) = 1"
    using p branch_entry(4) [of "ent s t j"] by (simp add: flags_mask path_def)
  then have "\<exists>j<512. ent s4 t j = 0 \<or> get_leaf_flags (ent s4 t j) = 1" using s4(4) lt(2) by metis
  then obtain s5 s6 where s5: "shrink_branch root (of_nat i) ppn2_jmp_size s4 = ret ((), s5)"
    "shrink_branch root (of_nat i) ppn2_jmp_size s5 = ret ((), s6)"
    "keeps_tree root s4 s6" "pager_live s6 \<subseteq> pager_live s4"
    using merge_again [OF tree4 lt(1), of t] t4 by (metis insertCI)
  show thesis
    by (rule that [OF s4(1) s5(1,2) keeps_tree_trans [OF s4(2) s5(3)]]) (use s4(5) s5(4) in blast)
qed

text \<open>The part of the work that changes entries, for a range counted as \<open>n\<close> small pages.\<close>

lemma replace_entries:
  fixes s :: "'a pager_scheme" and phys f va :: u64
  assumes tree: "vma_tree root s" and kp: "kernel_pool s" and room: "2 \<le> free_pages s"
    and N: "N < 2 ^ 27" and n: "0 < n" "N mod 512 + n \<le> 512" and va: "unat va = 4096 * N"
    and rf: "range_flags phys f n"
    and hole: "f \<noteq> 0 \<Longrightarrow> \<exists>m<2 ^ 27. m div 512 = N div 512 \<and> \<not> (N \<le> m \<and> m < N + n) \<and> sv39_page root m s = None"
  defines "c \<equiv> no_counts\<lparr>pre_ppn0_cnt := of_nat n\<rparr>"
  shows "\<exists>s1 s2. vma_pre root va phys f c s = ret ((), s1)
    \<and> (\<forall>x. vma_post root (va div ppn2_jmp_size) x f c s1 = ret ((), s2))
    \<and> vma_tree root s2 \<and> pager_pool s2 = pager_pool s \<and> pager.more s2 = pager.more s
    \<and> (\<forall>q<2 ^ 27. sv39_page root q s2 =
        (if N \<le> q \<and> q < N + n then mapped_to phys f (q - N) else sv39_page root q s))
    \<and> leaves_rest root s s2 \<and> free_pages s \<le> free_pages s2 + 2"
proof -
  define i j k where "i = N div 512 ^ 2" and "j = N div 512 mod 512" and "k = N mod 512"
  note idx = ppn_indices [OF va N, folded i_def j_def k_def]
  have lt: "i < 512" "j < 512" "k + n \<le> 512"
    using N n(2) by (simp_all add: i_def j_def k_def less_mult_imp_div_less)
  have un: "unat (of_nat n :: u64) = n" by (rule unat_small) (use lt in simp)
  have pos: "(of_nat n :: u64) > 0" using un n(1) by (simp add: word_less_nat_alt)
  obtain t s1 where s1: "table_of root (of_nat i) ppn2_jmp_size True s = ret (t, s1)" "keeps_tree root s s1"
    "get_branch_loc (ent s1 root i) = t" "t \<noteq> 0" "free_pages s - 1 \<le> free_pages s1"
    using reach_mid [OF tree kp lt(1), of "free_pages s - 1"] room by auto
  have kp1: "kernel_pool s1" and tree1: "vma_tree root s1"
    using s1(2) kp by (simp_all add: keeps_tree_def kernel_pool_def)
  obtain u s2 where s2: "table_of t (of_nat j) ppn1_jmp_size True s1 = ret (u, s2)" "keeps_tree root s1 s2"
    "path root i j t u s2" "free_pages s1 - 1 \<le> free_pages s2"
    using reach_low [OF tree1 kp1 lt(1,2) s1(3,4), of "free_pages s1 - 1"] s1(5) room by auto
  have s02: "keeps_tree root s s2" by (rule keeps_tree_trans [OF s1(2) s2(2)])
  have old: "sv39_page root q s2 = sv39_page root q s" for q using s02 by (simp add: keeps_tree_def)
  define s3 where "s3 = put_leaves n u (of_nat k) phys ppn0_jmp_size f s2"
  note put = put_leaves_sound [OF s2(3) lt(3) rf, folded s3_def]
  have new: "sv39_page root q s3 = (if N \<le> q \<and> q < N + n then mapped_to phys f (q - N) else sv39_page root q s)"
    if "q < 2 ^ 27" for q
    using in_block_range [OF N that n(2), folded i_def j_def k_def] put old by auto
  have gap: "\<exists>m<512. ent s3 u m = 0"
    unfolding s3_def k_def by (rule put_leaves_gap [OF s2(3) [unfolded i_def j_def] N n rf]) (use hole old in simp)
  have p3: "path root i j t u s3" using put by blast
  obtain s4 s5 s6 where s4: "shrink_branch t (of_nat j) ppn1_jmp_size s3 = ret ((), s4)"
    "shrink_branch root (of_nat i) ppn2_jmp_size s4 = ret ((), s5)"
    "shrink_branch root (of_nat i) ppn2_jmp_size s5 = ret ((), s6)"
    "keeps_tree root s3 s6" "pager_live s6 \<subseteq> pager_live s3" by (rule merge_path [OF p3 gap])
  have root: "root \<noteq> 0" using vma_treeD(1) [OF tree] kernel_page_nonzero by blast
  have "vma_pre root va phys f c s = ret ((), s5)"
    unfolding vma_pre_def Let_def idx c_def no_counts_def
    using s1(1) s2(1) s4(1,2) pos un by (simp add: s3_def)
  moreover have "vma_post root (va div ppn2_jmp_size) x f c s5 = ret ((), s6)" for x
    unfolding vma_post_def idx c_def no_counts_def using s4(3) root by (simp add: table_of_def)
  moreover have "vma_tree root s6 \<and> pager_pool s6 = pager_pool s \<and> pager.more s6 = pager.more s"
    using s02 put s4(4) by (simp add: keeps_tree_def s3_def)
  moreover have "sv39_page root q s6 = sv39_page root q s3" for q using s4(4) by (simp add: keeps_tree_def)
  moreover have "leaves_rest root s s6"
    using s02 put s4(4) unfolding keeps_tree_def s3_def [symmetric] by (meson leaves_rest_trans)
  moreover have "free_pages s3 \<le> free_pages s6"
    using s4(4,5) by (intro card_mono) (auto simp: keeps_tree_def finite_pool)
  then have "free_pages s \<le> free_pages s6 + 2" using put s1(5) s2(4) by (simp add: s3_def)
  ultimately show ?thesis using new by metis
qed

definition page_room :: "u64 \<Rightarrow> 'a pager_scheme \<Rightarrow> bool" where
  "page_room root s \<longleftrightarrow> vma_tree root s \<and> kernel_pool s \<and> 2 \<le> free_pages s"

text \<open>Virtual addresses of the two halves, and the page number the tables see.\<close>

definition virt_page :: "u64 \<Rightarrow> nat \<Rightarrow> bool" where
  "virt_page virt N \<longleftrightarrow>
     (N < 2 ^ 26 \<and> unat virt = 4096 * N) \<or>
     (2 ^ 26 \<le> N \<and> N < 2 ^ 27 \<and> unat virt = 4096 * N + (2 ^ 64 - 2 ^ 39))"

lemma virt_page_normal:
  assumes "virt_page virt N"
  shows "unat (normal_addr virt) = 4096 * N" and "N < 2 ^ 27"
    and "virt \<ge> 0xffffffc000000000 \<longleftrightarrow> 2 ^ 26 \<le> N"
proof -
  show k: "virt \<ge> 0xffffffc000000000 \<longleftrightarrow> 2 ^ 26 \<le> N" and "N < 2 ^ 27"
    using assms by (auto simp: virt_page_def word_le_nat_alt)
  show "unat (normal_addr virt) = 4096 * N"
    using assms k by (auto simp: normal_addr_def virt_page_def unat_sub word_le_nat_alt)
qed

lemma virt_page_guards:
  assumes "virt_page virt N" and "n < 512" and "N mod 512 + n \<le> 512"
  shows "\<not> (of_nat (4096 * n) :: u64) > ppn2_jmp_size * 256"
    and "\<not> (normal_addr virt > 0x4000000000 - of_nat (4096 * n) \<and> \<not> virt \<ge> 0xffffffc000000000)"
    and "\<not> (normal_addr virt > 0x8000000000 - of_nat (4096 * n) \<and> virt \<ge> 0xffffffc000000000)"
proof -
  note v = virt_page_normal [OF assms(1)]
  define z where "z = (of_nat (4096 * n) :: u64)"
  have u: "unat z = 4096 * n" unfolding z_def by (rule unat_small) (use assms(2) in simp)
  have "\<not> z > ppn2_jmp_size * 256"
    unfolding word_less_nat_alt u using assms(2) by (simp add: ppn2_jmp_size_def)
  then show "\<not> (of_nat (4096 * n) :: u64) > ppn2_jmp_size * 256" unfolding z_def .
  have le: "N + n \<le> 512 * (N div 512) + 512" using assms(3) mult_div_mod_eq [of 512 N] by linarith
  have sub: "unat (a - z) = unat a - 4096 * n" if "4096 * n \<le> unat a" for a
    using that u by (simp add: unat_sub word_le_nat_alt)
  have "\<not> (normal_addr virt > 0x4000000000 - z \<and> \<not> virt \<ge> 0xffffffc000000000)"
  proof
    assume a: "normal_addr virt > 0x4000000000 - z \<and> \<not> virt \<ge> 0xffffffc000000000"
    then have "N div 512 < 2 ^ 17" using v(3) by (simp add: not_le less_mult_imp_div_less)
    then have "N + n \<le> 2 ^ 26" using le by simp
    moreover have "unat (0x4000000000 - z) < unat (normal_addr virt)" using a by (simp add: word_less_nat_alt)
    ultimately show False using sub [of "0x4000000000"] v(1) by simp
  qed
  then show "\<not> (normal_addr virt > 0x4000000000 - of_nat (4096 * n) \<and> \<not> virt \<ge> 0xffffffc000000000)"
    unfolding z_def .
  have "\<not> (normal_addr virt > 0x8000000000 - z \<and> virt \<ge> 0xffffffc000000000)"
  proof
    assume a: "normal_addr virt > 0x8000000000 - z \<and> virt \<ge> 0xffffffc000000000"
    have "N div 512 < 2 ^ 18" using v(2) by (simp add: less_mult_imp_div_less)
    then have "N + n \<le> 2 ^ 27" using le by simp
    moreover have "unat (0x8000000000 - z) < unat (normal_addr virt)" using a by (simp add: word_less_nat_alt)
    ultimately show False using sub [of "0x8000000000"] v(1) by simp
  qed
  then show "\<not> (normal_addr virt > 0x8000000000 - of_nat (4096 * n) \<and> virt \<ge> 0xffffffc000000000)"
    unfolding z_def .
qed

text \<open>The tables do not depend on the globals of the other components.\<close>

lemma vma_tree_same:
  assumes "pager_same s s'" and "kmem s' = kmem s" and "vma_tree root s"
  shows "vma_tree root s'" and "sv39_page root n s' = sv39_page root n s"
proof -
  note v = vma_treeD [OF assms(3)]
  have "same_tables (set (epages 3 (create_branch root) s)) s s'"
    using assms(2) by (simp add: same_tables_def at_def)
  note f = tree_frame [OF this]
  have tree: "etree 3 (create_branch root) s" using assms(3) by (simp add: vma_tree_def)
  then show "vma_tree root s'"
    using pager_same_inv [OF assms(1) v(2)] v(1) f by (simp add: vma_tree_def etree_def)
  show "sv39_page root n s' = sv39_page root n s"
    using f tree by (simp add: sv39_page_def etree_def)
qed

text \<open>The globals above the page allocator stay as they are, the fences apart.\<close>

definition globals_kept :: "'a vma_scheme \<Rightarrow> 'a vma_scheme \<Rightarrow> bool" where
  "globals_kept s s' \<longleftrightarrow> pager.more s' = pager.more (s\<lparr>fences := fences s'\<rparr>)"

lemma globals_kept_refl [simp]: "globals_kept s s"
  by (cases s) (simp add: globals_kept_def)

lemma globals_kept_trans: "globals_kept s1 s2 \<Longrightarrow> globals_kept s2 s3 \<Longrightarrow> globals_kept s1 s3"
  unfolding globals_kept_def by (cases s1; cases s2; cases s3) simp

lemma globals_kept_fields:
  assumes "globals_kept s s'"
  shows "hart_stacks_list s' = hart_stacks_list s" "root_idx_page s' = root_idx_page s"
    "lowest_free_entry s' = lowest_free_entry s" "process_upto s' = process_upto s"
    "process_hashmap s' = process_hashmap s" "running_list s' = running_list s"
    "max_asid s' = max_asid s" "current_highest_asid s' = current_highest_asid s" "satp s' = satp s"
    "vma.more s' = vma.more s"
  using assms by (cases s; cases s'; simp add: globals_kept_def)+

lemma globals_kept_more:
  assumes "pager.more s' = pager.more s"
  shows "globals_kept s s'"
  using assms by (cases s; cases s') (simp add: globals_kept_def)

text \<open>The replacement of a range as a whole, with its fences.\<close>

lemma replace_small:
  fixes s :: "'a vma_scheme"
  assumes room: "page_room root s" and vp: "virt_page virt N" and n: "0 < n" "n < 512" "N mod 512 + n \<le> 512"
    and start: "N mod 262144 \<noteq> 0" and rf: "range_flags phys f n"
    and hole: "f \<noteq> 0 \<Longrightarrow> \<exists>m<2 ^ 27. m div 512 = N div 512 \<and> \<not> (N \<le> m \<and> m < N + n) \<and> sv39_page root m s = None"
  shows "\<exists>s'. vma_replace_section root virt (of_nat (4096 * n)) phys f asid s = ret ((), s')
    \<and> vma_tree root s' \<and> pager_pool s' = pager_pool s
    \<and> fences s' = fences s @ fence_pages n virt 4096 (if max_asid s = 0 then 0 else asid)
    \<and> (\<forall>q<2 ^ 27. sv39_page root q s' =
        (if N \<le> q \<and> q < N + n then mapped_to phys f (q - N) else sv39_page root q s))
    \<and> globals_kept s s'
    \<and> leaves_rest root s s' \<and> free_pages s \<le> free_pages s' + 2"
proof -
  note v = virt_page_normal [OF vp] and g = virt_page_guards [OF vp n(2,3)]
  define c where "c = no_counts\<lparr>pre_ppn0_cnt := of_nat n\<rparr>"
  have un: "unat (of_nat n :: u64) = n" by (rule unat_small) (use n in simp)
  have cnt: "ppn_count (of_nat (4096 * n)) (normal_addr virt) 0 no_counts = Some c"
    using ppn_count_small [OF v(1) n(3,2) start v(2)] by (simp add: c_def no_counts_def)
  have tree: "vma_tree root s" "kernel_pool s" "2 \<le> free_pages s" using room by (auto simp: page_room_def)
  obtain s1 s2 where s12: "vma_pre root (normal_addr virt) phys f c s = ret ((), s1)"
    "\<And>x. vma_post root (normal_addr virt div ppn2_jmp_size) x f c s1 = ret ((), s2)"
    "vma_tree root s2" "pager_pool s2 = pager_pool s" "pager.more s2 = pager.more s"
    "\<forall>q<2 ^ 27. sv39_page root q s2 = (if N \<le> q \<and> q < N + n then mapped_to phys f (q - N) else sv39_page root q s)"
    "leaves_rest root s s2" "free_pages s \<le> free_pages s2 + 2"
    using replace_entries [OF tree v(2) n(1,3) v(1) rf hole, folded c_def] by blast
  note more = vma_fields_more [OF s12(5)]
  define fs where "fs = fences s2 @ vma_fences virt c (if max_asid s = 0 then 0 else asid)"
  have run: "vma_replace_section root virt (of_nat (4096 * n)) phys f asid s = ret ((), s2\<lparr>fences := fs\<rparr>)"
    unfolding vma_replace_section_def Let_def cnt
    using g s12(1,2) by (simp add: c_def no_counts_def fs_def)
  have fs: "fs = fences s @ fence_pages n virt 4096 (if max_asid s = 0 then 0 else asid)"
    using more(1) un by (simp add: fs_def vma_fences_def c_def no_counts_def ppn0_jmp_size_def)
  have same: "pager_same s2 (s2\<lparr>fences := fs\<rparr>)" by (simp add: pager_same_def)
  note tree' = vma_tree_same [OF same _ s12(3)]
  note ps = pager_same_inv [OF same vma_treeD(2) [OF s12(3)]]
  have "same_tables (tables root s2) s2 (s2\<lparr>fences := fs\<rparr>)" by (simp add: same_tables_def at_def)
  from tree_frame [OF this] have "epages 3 (create_branch root) (s2\<lparr>fences := fs\<rparr>) = epages 3 (create_branch root) s2"
    by blast
  then have rest: "leaves_rest root s2 (s2\<lparr>fences := fs\<rparr>)"
    using ps by (simp add: leaves_rest_def same_tables_def at_def del: epages.simps)
  have more': "globals_kept s (s2\<lparr>fences := fs\<rparr>)"
    using s12(5) by (cases s; cases s2) (simp add: globals_kept_def)
  show ?thesis
    unfolding run using tree' s12(4,6,8) fs ps leaves_rest_trans [OF s12(7) rest]
    by (intro exI [of _ "s2\<lparr>fences := fs\<rparr>"] conjI more') simp_all
qed

section \<open>A new address space\<close>

lemma kernel_leaf:
  assumes "i < 256"
  shows "push_bit 28 (of_nat i) OR (VMA_VALID OR VMA_READ OR VMA_WRITE OR VMA_EXEC) =
      create_leaf (KERNEL_VMA_START + of_nat i * ppn2_jmp_size) 0xF"
    and "leaf_ok 2 (create_leaf (KERNEL_VMA_START + of_nat i * ppn2_jmp_size) 0xF)"
    and "kernel_page (KERNEL_VMA_START + of_nat i * ppn2_jmp_size)"
proof -
  have "unat (of_nat i * ppn2_jmp_size) = i * 2 ^ 30"
    using assms unat_small [of i] by (simp add: ppn2_jmp_size_def unat_word_ariths(2))
  note u = this
  have "unat (of_nat i * ppn2_jmp_size div 4096) = unat (of_nat (i * 2 ^ 18) :: u64)"
    using unat_small [of "i * 2 ^ 18"] assms by (simp add: unat_div u del: of_nat_mult)
  then have "of_nat i * ppn2_jmp_size div 4096 = (of_nat (i * 2 ^ 18) :: u64)"
    by (rule word_unat_eq_iff [THEN iffD2])
  then have d: "push_bit 10 (of_nat i * ppn2_jmp_size div 4096) = push_bit 28 (of_nat i :: u64)"
    by (simp add: push_bit_eq_mult)
  show "push_bit 28 (of_nat i) OR (VMA_VALID OR VMA_READ OR VMA_WRITE OR VMA_EXEC) =
      create_leaf (KERNEL_VMA_START + of_nat i * ppn2_jmp_size) 0xF"
    by (simp add: create_leaf_def d or.assoc)
  have a: "unat (KERNEL_VMA_START + of_nat i * ppn2_jmp_size) = unat KERNEL_VMA_START + i * 2 ^ 30"
    using u assms by (simp add: unat_word_ariths(1))
  have "(unat KERNEL_VMA_START + i * 2 ^ 30) mod 2 ^ 30 = 0" by simp
  then have al: "unat (KERNEL_VMA_START + of_nat i * ppn2_jmp_size) mod (4096 * 512 ^ 2) = 0"
    unfolding a by simp
  have "unat (KERNEL_VMA_START + of_nat i * ppn2_jmp_size) mod 4096 =
      unat (KERNEL_VMA_START + of_nat i * ppn2_jmp_size) mod (4096 * 512 ^ 2) mod 4096"
    by (simp add: mod_mod_cancel)
  then have "unat (KERNEL_VMA_START + of_nat i * ppn2_jmp_size) mod 4096 = 0" using al by simp
  then show k: "kernel_page (KERNEL_VMA_START + of_nat i * ppn2_jmp_size)"
    unfolding kernel_page_def word_le_nat_alt a by simp
  have "leaf_flags 0xF" by (simp add: leaf_flags_def mask_eq_decr_exp)
  then show "leaf_ok 2 (create_leaf (KERNEL_VMA_START + of_nat i * ppn2_jmp_size) 0xF)"
    using made_leaf_ok [OF k _ al] by simp
qed

lemma kernel_leaves_effect:
  assumes "pager_inv s" and "p \<in> pager_live s" and "k \<le> 256"
  defines "s' \<equiv> kernel_leaves k p s"
  shows "pager_inv s' \<and> pager_live s' = pager_live s \<and> pager_pool s' = pager_pool s
    \<and> pager.more s' = pager.more s
    \<and> (\<forall>j<512. ent s' p j = (if 256 \<le> j \<and> j < 256 + k
         then create_leaf (KERNEL_VMA_START + of_nat (j - 256) * ppn2_jmp_size) 0xF else ent s p j))
    \<and> (\<forall>q \<in> pager_live s - {p}. \<forall>j<512. ent s' q j = ent s q j)"
  using assms(3) unfolding s'_def
proof (induction k)
  case 0
  then show ?case using assms(1) by auto
next
  case (Suc k)
  let ?s = "kernel_leaves k p s"
  have IH: "pager_inv ?s" "pager_live ?s = pager_live s" "pager_pool ?s = pager_pool s" "pager.more ?s = pager.more s"
    "\<forall>j<512. ent ?s p j = (if 256 \<le> j \<and> j < 256 + k
         then create_leaf (KERNEL_VMA_START + of_nat (j - 256) * ppn2_jmp_size) 0xF else ent s p j)"
    "\<forall>q \<in> pager_live s - {p}. \<forall>j<512. ent ?s q j = ent s q j"
    using Suc by auto
  have k: "256 + k < 512" and p: "p \<in> pager_live ?s" and k': "k < 256" using Suc.prems assms(2) IH(2) by auto
  define v where "v = create_leaf (KERNEL_VMA_START + of_nat k * ppn2_jmp_size) 0xF"
  have s': "kernel_leaves (Suc k) p s = set_at p (of_nat (256 + k)) v ?s"
    using kernel_leaf(1) [OF k'] by (simp add: v_def)
  have "ent (set_at p (of_nat (256 + k)) v ?s) p j = (if 256 \<le> j \<and> j < 256 + Suc k
      then create_leaf (KERNEL_VMA_START + of_nat (j - 256) * ppn2_jmp_size) 0xF else ent s p j)" if "j < 512" for j
  proof (cases "j = 256 + k")
    case True
    then show ?thesis using at_set_at [OF IH(1) p p k that] by (simp add: v_def)
  next
    case False
    then show ?thesis using at_set_at [OF IH(1) p p k that, of v] IH(5) that by auto
  qed
  moreover have "ent (set_at p (of_nat (256 + k)) v ?s) q j = ent s q j" if "q \<in> pager_live s - {p}" "j < 512" for q j
    using at_set_at [OF IH(1) p _ k that(2), of q v] IH(2,6) that by auto
  ultimately show ?case
    unfolding s' using set_at_inv [OF IH(1) p k, of v] IH(2-4) by simp
qed

lemma vma_create_tree:
  assumes inv: "pager_inv s" and kp: "kernel_pool s" and room: "m < free_pages s"
  obtains root s' where "vma_create s = ret (root, s')" and "vma_tree root s'"
    and "pager_pool s' = pager_pool s" and "pager_live s' = insert root (pager_live s)" and "root \<notin> pager_live s"
    and "pager.more s' = pager.more s" and "m \<le> free_pages s'"
    and "\<forall>q \<in> pager_live s. \<forall>j<512. ent s' q j = ent s q j"
    and "\<forall>q<2 ^ 27. sv39_page root q s' =
      (if q < 2 ^ 26 then None else Some (KERNEL_VMA_START + of_nat (4096 * (q - 2 ^ 26)), 0xF))"
    and "tables root s' = {root}"
proof -
  obtain p s1 where a: "pg_alloc s = ret (p, s1)" using alloc_enough [OF inv room] by blast
  note pa = pg_alloc_source [OF inv a]
  have kpp: "kernel_page p" by (rule fresh_kernel_page [OF inv kp a])
  have s1: "pager_inv s1" "p \<in> pager_live s1" using pa(2) by auto
  define s' where "s' = kernel_leaves 256 p s1"
  note kl = kernel_leaves_effect [OF s1 order_refl, folded s'_def]
  define v where "v i = create_leaf (KERNEL_VMA_START + of_nat i * ppn2_jmp_size) 0xF" for i
  have ent: "ent s' p j = (if 256 \<le> j then v (j - 256) else 0)" if "j < 512" for j
    using kl at_pg_alloc(1) [OF inv a that] that by (simp add: v_def)
  have v: "leaf_ok 2 (v i)" "get_branch_loc (v i) = 0" if "i < 256" for i
    using kernel_leaf(2) [OF that] leaf_entry(3) by (auto simp: v_def)
  have e: "eok 2 (ent s' p j) s' \<and> epages 2 (ent s' p j) s' = []" if "j < 512" for j
    using ent [OF that] v [of "j - 256"] that by (simp add: numeral_2_eq_2 del: push_bit_of_nat)
  have "etable 2 p s'" unfolding etable_def etree_def using e kpp kl s1(2) by simp
  then have tree: "vma_tree p s'" using vma_tree_table [OF kpp] kl by blast
  have walk: "sv39_page p q s' = (if q < 2 ^ 26 then None
      else Some (KERNEL_VMA_START + of_nat (4096 * (q - 2 ^ 26)), 0xF))" if q: "q < 2 ^ 27" for q
  proof -
    define i r where "i = q div 512 ^ 2" and "r = q mod 512 ^ 2"
    have qir: "q = i * 512 ^ 2 + r" by (simp add: i_def r_def)
    have i: "i < 512" using q by (simp add: i_def less_mult_imp_div_less)
    have r: "r < 512 ^ 2" by (simp add: r_def)
    have w: "sv39_page p q s' = ewalk 2 (ent s' p i) q s'"
      using sv39_page_root [OF kpp, of q s'] i by (simp add: i_def)
    show ?thesis
    proof (cases "256 \<le> i")
      case False
      then have "q < 2 ^ 26" using qir r by simp
      then show ?thesis unfolding w using ent [OF i] False by simp
    next
      case True
      then have ge: "\<not> q < 2 ^ 26" using qir by simp
      have i': "i - 256 < 256" using i by simp
      note kf = kernel_leaf [OF i']
      have "leaf_flags 0xF" by (simp add: leaf_flags_def mask_eq_decr_exp)
      note ml = made_leaf [OF kf(3) this]
      have "q - 2 ^ 26 = (i - 256) * 512 ^ 2 + r" using qir True by (simp add: algebra_simps)
      moreover have "of_nat (4096 * (a * 512 ^ 2 + r)) = of_nat a * ppn2_jmp_size + (of_nat (4096 * r) :: u64)" for a
        by (simp add: ppn2_jmp_size_def algebra_simps)
      ultimately have "of_nat (4096 * (q - 2 ^ 26)) = of_nat (i - 256) * ppn2_jmp_size + (of_nat (4096 * r) :: u64)"
        by (simp only:)
      moreover have "ent s' p i = create_leaf (KERNEL_VMA_START + of_nat (i - 256) * ppn2_jmp_size) 0xF"
        using ent [OF i] True by (simp add: v_def)
      ultimately show ?thesis
        unfolding w using ewalk_leaf [OF kf(2), of q s'] ge by (simp only: ml r_def [symmetric] if_False add.assoc)
    qed
  qed
  have "\<forall>q \<in> pager_live s. \<forall>j<512. ent s' q j = ent s q j"
    using kl pa(1,2) at_pg_alloc(2) [OF inv a] by auto
  moreover have "pager_pool s' = pager_pool s" "pager_live s' = insert p (pager_live s)" using kl pa(2) by auto
  moreover have "m \<le> free_pages s'"
    using free_after_alloc [OF calculation(2,3)] room by linarith
  moreover have "vma_create s = ret (p, s')" by (simp add: vma_create_def a s'_def)
  moreover have "pager.more s' = pager.more s" using kl pg_alloc_more [OF a] by simp
  moreover have "tables p s' = {p}" unfolding tables_root [OF kpp] using e by simp
  ultimately show ?thesis using that tree walk pa(1) by blast
qed

section \<open>Switching address spaces\<close>

lemma satp_bits:
  fixes a k e :: u64
  assumes "unat a < 2 ^ 16" and "unat k < 2 ^ 44" and e: "\<And>n. bit e n \<longleftrightarrow> n = 3"
  defines "v \<equiv> push_bit 44 a OR push_bit 60 e OR k"
  shows "drop_bit 60 v = e" and "drop_bit 44 v AND mask 16 = a" and "v AND mask 44 = k"
proof -
  have "a = take_bit 16 a" "k = take_bit 44 k"
    by (rule word_unat_eq_iff [THEN iffD2], use assms(1,2) in \<open>simp add: unsigned_take_bit_eq take_bit_nat_eq_self\<close>)+
  then have b: "bit a n \<Longrightarrow> n < 16" "bit k n \<Longrightarrow> n < 44" for n by (metis bit_take_bit_iff)+
  show "drop_bit 60 v = e"
    by (rule word64_eqI) (auto simp: v_def bit_drop_bit_eq bit_or_iff bit_push_bit_iff e dest: b)
  show "drop_bit 44 v AND mask 16 = a"
    by (rule word64_eqI) (auto simp: v_def bit_and_iff bit_mask_iff bit_drop_bit_eq bit_or_iff bit_push_bit_iff e dest: b)
  show "v AND mask 44 = k"
    by (rule word64_eqI) (auto simp: v_def bit_and_iff bit_mask_iff bit_or_iff bit_push_bit_iff e dest: b)
qed

lemma bit_8: "bit (8 :: u64) n \<longleftrightarrow> n = 3"
proof -
  have "(8 :: u64) = 2 ^ 3" by simp
  then show ?thesis by (simp only: bit_exp_iff) auto
qed

text \<open>
  The identifier a process runs with after a switch: its own when it has one, otherwise the next
  one. Running out of identifiers means walking the process list, which is not covered here.
\<close>

definition has_asid :: "u64 \<Rightarrow> 'a vma_scheme \<Rightarrow> bool" where
  "has_asid p s \<longleftrightarrow> at s p 7 \<noteq> U64_MAX \<and> max_asid s \<noteq> 0"

definition next_asid :: "u64 \<Rightarrow> 'a vma_scheme \<Rightarrow> u64" where
  "next_asid p s = (if max_asid s = 0 then 0 else if has_asid p s then at s p 7 else current_highest_asid s + 1)"

lemma at_set_7: "at (set_at p 7 v s) p 7 = v" "at (set_at p 7 v s) p 6 = at s p 6"
  by (simp_all add: at_def set_at_def)

lemma vma_swap_run:
  assumes "max_asid s = 0 \<or> has_asid p s \<or> current_highest_asid s < max_asid s"
  shows "\<exists>s'. vma_swap p s = ret ((), s') \<and> at s' p 7 = next_asid p s \<and> at s' p 6 = at s p 6
    \<and> satp s' = push_bit 44 (next_asid p s) OR push_bit 60 8 OR ((at s p 6 - KERNEL_VMA_START) div 4096)
    \<and> (has_asid p s \<longrightarrow> s' = s\<lparr>satp := satp s'\<rparr>)
    \<and> (\<not> has_asid p s \<longrightarrow> last (fences s') = (if max_asid s = 0 then Fence_All else Fence_Asid (next_asid p s))
         \<and> (max_asid s \<noteq> 0 \<longrightarrow> current_highest_asid s' = next_asid p s))"
proof (cases "max_asid s = 0")
  case True
  then show ?thesis
    by (simp add: vma_swap_def vma_fetch_asid_def vma_reset_asid_def next_asid_def has_asid_def at_set_7
        Let_def) (simp add: at_def set_at_def)
next
  case False
  then consider "has_asid p s" | "\<not> has_asid p s" "current_highest_asid s < max_asid s" using assms by blast
  then show ?thesis
  proof cases
    case 1
    then show ?thesis using False
      by (simp add: vma_swap_def next_asid_def has_asid_def Let_def) (simp add: at_def)
  next
    case 2
    have "\<not> max_asid s \<le> current_highest_asid s" using 2(2) by simp
    moreover have "at s p 7 = U64_MAX" using 2(1) False by (simp add: has_asid_def)
    ultimately show ?thesis using False
      by (simp add: vma_swap_def vma_fetch_asid_def next_asid_def has_asid_def Let_def at_set_7
          del: bindr_eq_ret) (simp add: at_def set_at_def)
  qed
qed

lemma vma_swap_frame:
  assumes "max_asid s = 0 \<or> has_asid p s \<or> current_highest_asid s < max_asid s" and "vma_swap p s = ret ((), s')"
  shows "\<exists>v. pager_same (set_at p 7 v s) s' \<and> kmem s' = kmem (set_at p 7 v s)"
proof -
  consider "max_asid s = 0" | "has_asid p s" | "max_asid s \<noteq> 0" "\<not> has_asid p s" "\<not> max_asid s \<le> current_highest_asid s"
    using assms(1) by fastforce
  then show ?thesis
  proof cases
    case 1
    then show ?thesis using assms(2)
      by (auto simp: vma_swap_def vma_fetch_asid_def vma_reset_asid_def Let_def pager_same_def set_at_def)
  next
    case 2
    then show ?thesis using assms(2)
      by (intro exI [of _ "at s p 7"])
        (auto simp: vma_swap_def has_asid_def Let_def pager_same_def set_at_def at_def)
  next
    case 3
    then show ?thesis using assms(2)
      by (auto simp: vma_swap_def vma_fetch_asid_def has_asid_def Let_def pager_same_def set_at_def)
  qed
qed

lemma vma_swap_selects:
  assumes "kernel_page (at s p 6)" and "max_asid s < 2 ^ 16" and "has_asid p s \<longrightarrow> at s p 7 \<le> max_asid s"
    and "max_asid s = 0 \<or> has_asid p s \<or> current_highest_asid s < max_asid s"
  shows "\<exists>s'. vma_swap p s = ret ((), s') \<and> at s' p 7 = next_asid p s \<and> next_asid p s \<le> max_asid s
    \<and> drop_bit 60 (satp s') = 8 \<and> drop_bit 44 (satp s') AND mask 16 = next_asid p s
    \<and> (satp s' AND mask 44) * 4096 + KERNEL_VMA_START = at s p 6
    \<and> (\<not> has_asid p s \<longrightarrow>
        last (fences s') = (if max_asid s = 0 then Fence_All else Fence_Asid (next_asid p s)))"
proof -
  obtain s' where run: "vma_swap p s = ret ((), s')" "at s' p 7 = next_asid p s"
    and sp: "satp s' = push_bit 44 (next_asid p s) OR push_bit 60 8 OR ((at s p 6 - KERNEL_VMA_START) div 4096)"
    and fe: "\<not> has_asid p s \<longrightarrow> last (fences s') = (if max_asid s = 0 then Fence_All else Fence_Asid (next_asid p s))"
    using vma_swap_run [OF assms(4)] by metis
  have le: "next_asid p s \<le> max_asid s" using assms(3,4) by (auto simp: next_asid_def intro: inc_le)
  have "unat (max_asid s) < 2 ^ 16" using assms(2) by (simp add: word_less_nat_alt)
  then have a: "unat (next_asid p s) < 2 ^ 16" using le by (simp add: word_le_nat_alt)
  have k: "unat ((at s p 6 - KERNEL_VMA_START) div 4096) < 2 ^ 44"
    using kernel_page_number [of "at s p 6"] assms(1) by (simp add: kernel_page_def)
  note b = satp_bits [OF a k bit_8, folded sp]
  show ?thesis using run le b kernel_page_split [OF assms(1)] fe by auto
qed

lemma rights_flags:
  fixes r x :: u64
  assumes "r AND mask 10 = r" and "r AND 0xE \<noteq> 0" and "x AND mask 10 = x" and "bit x 0" and "x AND 0xE = 0"
  shows "leaf_flags (r OR x)"
  using assms by (simp add: leaf_flags_def bit_or_iff bit.conj_disj_distrib2)

lemma user_flags: "(0xD1 :: u64) AND mask 10 = 0xD1" "bit (0xD1 :: u64) 0" "(0xD1 :: u64) AND 0xE = 0"
  and kernel_flags: "(0xC1 :: u64) AND mask 10 = 0xC1" "bit (0xC1 :: u64) 0" "(0xC1 :: u64) AND 0xE = 0"
  by (simp_all add: mask_eq_decr_exp)

section \<open>Properties\<close>

definition blank_vma :: vma where
  "blank_vma =
     \<lparr>kmem = (\<lambda>_. 0), uart_reg_size = 1, uart_dev = (\<lambda>_ _. 0x20), uart_reads = 0, uart_writes = [],
      pager_bitmap_list = 0xffffffc080280000, last_free_bitmap = 0, last_free_page_num = 0,
      hart_stacks_list = 0, bump_page = 0, bump_cnt = 0, root_idx_page = (\<lambda>_. 0),
      lowest_free_entry = (\<lambda>_. 0), process_upto = 0,
      process_hashmap = \<lparr>hm_start = 0, hm_len = 0, hm_hash_function = Builtin_num_hash,
        hm_equal_function = Builtin_num_equal\<rparr>,
      running_list = demo_list, max_asid = 0, current_highest_asid = 0, satp = 0, sstatus = 0, fences = []\<rparr>"

definition demo_vma :: vma where
  "demo_vma = pager_publish [demo_region] blank_vma"

lemma demo_publish:
  fixes b :: "'a pager_scheme"
  assumes "pager_bitmap_list b = 0xffffffc080280000" and "last_free_bitmap b = 0" and "last_free_page_num b = 0"
  defines "s \<equiv> pager_publish [demo_region] b"
  shows "pager_inv s" and "pager_live s = {}" and "192 \<le> free_pages s" and "kernel_pool s"
proof -
  have t: "table_ok (pager_bitmap_list b) [demo_region]" using demo_table assms(1) by (simp add: blank_pager_def)
  show inv: "pager_inv s" "pager_live s = {}" using publish_inv [OF t] assms(2,3) by (simp_all add: s_def)
  have "region_page_cnt demo_region = 254" by (simp add: demo_region_def region_page_cnt_def)
  then have "rpages s 0 = 254" "rcnt s = 1" using publish_layout(1,4) [OF t] by (simp_all add: s_def)
  then show "192 \<le> free_pages s" using pool_card_ge [of s 0] inv by (simp add: pager_inv_def)
  show "kernel_pool s"
    unfolding kernel_pool_def
  proof
    fix p assume "p \<in> pager_pool s"
    from publish_pool [OF t this [unfolded s_def]] have "unat (rgn_start demo_region) \<le> unat p" by auto
    then have "unat KERNEL_VMA_START \<le> unat p" by (simp add: demo_region_def)
    then show "KERNEL_VMA_START \<le> p" unfolding word_le_nat_alt .
  qed
qed

lemma demo_vma_facts: "pager_inv demo_vma" "pager_live demo_vma = {}" "192 \<le> free_pages demo_vma"
  "kernel_pool demo_vma"
  using demo_publish [of blank_vma] by (simp_all add: demo_vma_def blank_vma_def)

text \<open>A fresh address space with room for more tables.\<close>

lemma demo_space:
  obtains root s where "vma_create demo_vma = ret (root, s)" and "page_room root s" and "10 \<le> free_pages s"
    and "\<forall>q<2 ^ 27. sv39_page root q s =
      (if q < 2 ^ 26 then None else Some (KERNEL_VMA_START + of_nat (4096 * (q - 2 ^ 26)), 0xF))"
proof -
  have "10 < free_pages demo_vma" using demo_vma_facts(3) by linarith
  then obtain root s where "vma_create demo_vma = ret (root, s)" "vma_tree root s" "pager_pool s = pager_pool demo_vma"
    "10 \<le> free_pages s" "\<forall>q<2 ^ 27. sv39_page root q s =
      (if q < 2 ^ 26 then None else Some (KERNEL_VMA_START + of_nat (4096 * (q - 2 ^ 26)), 0xF))"
    using vma_create_tree [OF demo_vma_facts(1,4)] by metis
  then show ?thesis using that demo_vma_facts(4) by (simp add: page_room_def kernel_pool_def)
qed

text \<open>
  Page table entries: the location and the flags of a leaf or of a table entry made for a page of
  the kernel's view of physical memory are read back unchanged, and the two kinds are told apart.
\<close>

theorem pte_roundtrip:
  assumes "kernel_page p" and "leaf_flags f"
  shows "get_phys_leaf_loc (create_leaf p f) = p \<and> get_leaf_flags (create_leaf p f) = f
    \<and> get_branch_loc (create_leaf p f) = 0
    \<and> get_branch_loc (create_branch p) = p \<and> get_phys_leaf_loc (create_branch p) = 0"
  using leaf_pte [OF assms] branch_pte(1,2) [OF assms(1)] flags_1_no_leaf by simp

theorem pte_roundtrip_witness:
  "get_phys_leaf_loc (create_leaf 0xffffffc080301000 0xD3) = 0xffffffc080301000"
proof -
  have "kernel_page 0xffffffc080301000" "leaf_flags 0xD3"
    by (simp_all add: kernel_page_def leaf_flags_def mask_eq_decr_exp)
  then show ?thesis using pte_roundtrip by blast
qed

text \<open>
  C25. \<open>vma_create\<close> takes one free page as the root of a well-formed tree of tables in which the
  user half is unmapped and every page of the kernel half is mapped to the physical page the kernel
  expects there, readable, writable and executable.
\<close>

theorem vma_create_sound:
  assumes "pager_inv s" and "kernel_pool s" and "0 < free_pages s"
  shows "\<exists>root s'. vma_create s = ret (root, s') \<and> vma_tree root s' \<and> root \<notin> pager_live s
    \<and> pager_live s' = insert root (pager_live s)
    \<and> (\<forall>q<2 ^ 27. sv39_page root q s' =
        (if q < 2 ^ 26 then None else Some (KERNEL_VMA_START + of_nat (4096 * (q - 2 ^ 26)), 0xF)))"
  using vma_create_tree [OF assms] by metis

theorem vma_create_sound_witness:
  "\<exists>root s'. vma_create demo_vma = ret (root, s') \<and> sv39_page root 1 s' = None
     \<and> sv39_page root (2 ^ 26 + 3) s' = Some (0xffffffc000003000, 0xF)"
proof -
  have "0 < free_pages demo_vma" using demo_vma_facts(3) by linarith
  from vma_create_sound [OF demo_vma_facts(1,4) this] obtain root s' where
    r: "vma_create demo_vma = ret (root, s')" and w: "\<And>q. q < 2 ^ 27 \<Longrightarrow> sv39_page root q s' =
        (if q < 2 ^ 26 then None else Some (KERNEL_VMA_START + of_nat (4096 * (q - 2 ^ 26)), 0xF))" by metis
  have "sv39_page root 1 s' = None" "sv39_page root (2 ^ 26 + 3) s' = Some (0xffffffc000003000, 0xF)"
    using w [of 1] w [of "2 ^ 26 + 3"] by simp_all
  with r show ?thesis by blast
qed

text \<open>
  C4. \<open>vma_map_user\<close> on fewer than 512 pages of one 2 MiB block, not starting at a 1 GiB boundary, in
  a well-formed tree with two free pages for tables and with a page of the block left unmapped:
  it returns, the tree stays well formed, exactly the pages of the range change their translation,
  each to its physical page with the requested rights, every page of the range is fenced, and no
  page in use outside the tree of tables is touched.
\<close>

theorem vma_map_user_sound:
  fixes s :: "'a vma_scheme"
  assumes "page_room root s" and "virt_page virt N" and "0 < n" and "n < 512" and "N mod 512 + n \<le> 512"
    and "N mod 262144 \<noteq> 0" and "rights AND mask 10 = rights" and "rights AND 0xE \<noteq> 0"
    and "\<forall>k<n. kernel_page (phys + of_nat (4096 * k))"
    and "\<exists>m<2 ^ 27. m div 512 = N div 512 \<and> \<not> (N \<le> m \<and> m < N + n) \<and> sv39_page root m s = None"
  shows "\<exists>s'. vma_map_user root asid virt (of_nat (4096 * n)) phys rights s = ret ((), s') \<and> vma_tree root s'
    \<and> (\<forall>q<2 ^ 27. sv39_page root q s' =
        (if N \<le> q \<and> q < N + n then Some (phys + of_nat (4096 * (q - N)), rights OR 0xD1)
         else sv39_page root q s))
    \<and> fences s' = fences s @ fence_pages n virt 4096 (if max_asid s = 0 then 0 else asid)
    \<and> leaves_rest root s s'"
proof -
  have f: "leaf_flags (rights OR 0xD1)" by (rule rights_flags [OF assms(7,8) user_flags])
  then have "range_flags phys (rights OR 0xD1) n" using assms(9) by (simp add: range_flags_def)
  from replace_small [OF assms(1-6) this assms(10), of asid]
  show ?thesis using leaf_flags_facts(2) [OF f]
    by (auto simp: vma_map_user_def mapped_to_def or.assoc)
qed

theorem vma_map_user_sound_witness:
  "\<exists>root s s'. vma_create demo_vma = ret (root, s)
     \<and> vma_map_user root 0 0x1000 4096 0xffffffc080301000 10 s = ret ((), s')
     \<and> sv39_page root 1 s' = Some (0xffffffc080301000, 0xDB) \<and> sv39_page root 2 s' = None"
proof -
  obtain root s where r: "vma_create demo_vma = ret (root, s)" and room: "page_room root s"
    and w: "\<And>q. q < 2 ^ 27 \<Longrightarrow> sv39_page root q s =
      (if q < 2 ^ 26 then None else Some (KERNEL_VMA_START + of_nat (4096 * (q - 2 ^ 26)), 0xF))"
    using demo_space by metis
  have vp: "virt_page 0x1000 1" by (simp add: virt_page_def)
  have hole: "\<exists>m<2 ^ 27. m div 512 = 1 div 512 \<and> \<not> (1 \<le> m \<and> m < 1 + 1) \<and> sv39_page root m s = None"
    using w [of 2] by (intro exI [of _ 2]) simp
  have fl: "(10 :: u64) AND mask 10 = 10" "(10 :: u64) AND 0xE \<noteq> 0" by (simp_all add: mask_eq_decr_exp)
  have kp: "\<forall>k<1. kernel_page (0xffffffc080301000 + of_nat (4096 * k))" by (simp add: kernel_page_def)
  have z: "(1 :: nat) mod 262144 \<noteq> 0" by simp
  have one: "0 < (1 :: nat)" "(1 :: nat) < 512" "1 mod 512 + 1 \<le> (512 :: nat)" by simp_all
  obtain s' where m: "vma_map_user root 0 0x1000 (of_nat (4096 * 1)) 0xffffffc080301000 10 s = ret ((), s')"
    and w': "\<And>q. q < 2 ^ 27 \<Longrightarrow> sv39_page root q s' = (if 1 \<le> q \<and> q < 1 + 1
      then Some (0xffffffc080301000 + of_nat (4096 * (q - 1)), 10 OR 0xD1) else sv39_page root q s)"
    using vma_map_user_sound [OF room vp one z fl kp hole, of 0] by metis
  have "sv39_page root 1 s' = Some (0xffffffc080301000, 0xDB)" "sv39_page root 2 s' = None"
    using w' [of 1] w' [of 2] w [of 2] by simp_all
  with r m show ?thesis by auto
qed

text \<open>
  C9. \<open>vma_unmap\<close> on such a range makes exactly its pages fault, keeps the tree well formed, fences
  every page of the range and touches no page in use outside the tree of tables.
\<close>

theorem vma_unmap_sound:
  fixes s :: "'a vma_scheme"
  assumes "page_room root s" and "virt_page virt N" and "0 < n" and "n < 512" and "N mod 512 + n \<le> 512"
    and "N mod 262144 \<noteq> 0"
  shows "\<exists>s'. vma_unmap root asid virt (of_nat (4096 * n)) s = ret ((), s') \<and> vma_tree root s'
    \<and> (\<forall>q<2 ^ 27. sv39_page root q s' = (if N \<le> q \<and> q < N + n then None else sv39_page root q s))
    \<and> fences s' = fences s @ fence_pages n virt 4096 (if max_asid s = 0 then 0 else asid)
    \<and> leaves_rest root s s'"
proof -
  have "range_flags 0 0 n" by (simp add: range_flags_def)
  from replace_small [OF assms this, of asid]
  show ?thesis by (auto simp: vma_unmap_def mapped_to_def)
qed

theorem vma_unmap_sound_witness:
  "\<exists>root s s'. vma_create demo_vma = ret (root, s)
     \<and> vma_unmap root 0 0xFFFFFFFFFFFFE000 4096 s = ret ((), s')
     \<and> sv39_page root (2 ^ 27 - 2) s' = None \<and> sv39_page root (2 ^ 27 - 1) s' \<noteq> None"
proof -
  obtain root s where r: "vma_create demo_vma = ret (root, s)" and room: "page_room root s"
    and w: "\<And>q. q < 2 ^ 27 \<Longrightarrow> sv39_page root q s =
      (if q < 2 ^ 26 then None else Some (KERNEL_VMA_START + of_nat (4096 * (q - 2 ^ 26)), 0xF))"
    using demo_space by metis
  have vp: "virt_page 0xFFFFFFFFFFFFE000 (2 ^ 27 - 2)" by (simp add: virt_page_def)
  have one: "0 < (1 :: nat)" "(1 :: nat) < 512" "(2 ^ 27 - 2) mod 512 + 1 \<le> (512 :: nat)"
    "(2 ^ 27 - 2 :: nat) mod 262144 \<noteq> 0" by simp_all
  obtain s' where m: "vma_unmap root 0 0xFFFFFFFFFFFFE000 (of_nat (4096 * 1)) s = ret ((), s')"
    and w': "\<And>q. q < 2 ^ 27 \<Longrightarrow> sv39_page root q s' =
      (if 2 ^ 27 - 2 \<le> q \<and> q < 2 ^ 27 - 2 + 1 then None else sv39_page root q s)"
    using vma_unmap_sound [OF room vp one, of 0] by metis
  have "sv39_page root (2 ^ 27 - 2) s' = None" "sv39_page root (2 ^ 27 - 1) s' \<noteq> None"
    using w' [of "2 ^ 27 - 2"] w' [of "2 ^ 27 - 1"] w [of "2 ^ 27 - 1"] by simp_all
  with r m show ?thesis by auto
qed

text \<open>
  C24. After \<open>vma_swap\<close>, when the process has an address space identifier or one is left, \<open>satp\<close>
  selects sv39, the process's identifier and its table; the identifier does not exceed the maximum;
  and an identifier that was just given out is fenced, or everything when the hart has none.
\<close>

theorem vma_swap_sound:
  assumes "kernel_page (at s p 6)" and "max_asid s < 2 ^ 16" and "has_asid p s \<longrightarrow> at s p 7 \<le> max_asid s"
    and "max_asid s = 0 \<or> has_asid p s \<or> current_highest_asid s < max_asid s"
  shows "\<exists>s'. vma_swap p s = ret ((), s') \<and> at s' p 7 = next_asid p s \<and> next_asid p s \<le> max_asid s
    \<and> drop_bit 60 (satp s') = 8 \<and> drop_bit 44 (satp s') AND mask 16 = next_asid p s
    \<and> (satp s' AND mask 44) * 4096 + KERNEL_VMA_START = at s p 6
    \<and> (\<not> has_asid p s \<longrightarrow>
        last (fences s') = (if max_asid s = 0 then Fence_All else Fence_Asid (next_asid p s)))"
  by (rule vma_swap_selects [OF assms])

theorem vma_swap_sound_witness:
  "\<exists>s s'. vma_swap 0x1000 s = ret ((), s') \<and> satp (s' :: vma) = 0x8000200000080301"
proof -
  define s where "s = set_at 0x1000 6 0xffffffc080301000 (set_at 0x1000 7 U64_MAX
    (demo_vma\<lparr>max_asid := 3, current_highest_asid := 1\<rparr>))"
  have f: "at s 0x1000 6 = 0xffffffc080301000" "at s 0x1000 7 = U64_MAX" "max_asid s = 3" "current_highest_asid s = 1"
    by (simp_all add: s_def at_def set_at_def)
  have n: "\<not> has_asid 0x1000 s" "next_asid 0x1000 s = 2" by (simp_all add: has_asid_def next_asid_def f)
  have pre: "kernel_page (at s 0x1000 6)" "max_asid s < 2 ^ 16" "has_asid 0x1000 s \<longrightarrow> at s 0x1000 7 \<le> max_asid s"
    "max_asid s = 0 \<or> has_asid 0x1000 s \<or> current_highest_asid s < max_asid s"
    using n(1) by (simp_all add: f kernel_page_def)
  obtain s' where "vma_swap 0x1000 s = ret ((), s')" using vma_swap_sound [OF pre] by metis
  moreover have "satp s' = 0x8000200000080301"
    using vma_swap_run [OF pre(4)] calculation by (simp add: n(2) f(1))
  ultimately show ?thesis by blast
qed

text \<open>
  Where the code does not do what it means to. A mapping that starts at a 1 GiB boundary whose
  entry is not a table reads the entry of a table that does not exist.
\<close>

lemma vma_map_at_boundary:
  assumes "vma_tree root s" and "virt_page virt N" and "N mod 262144 = 0"
    and "get_branch_loc (ent s root (N div 512 ^ 2)) = 0"
  shows "vma_replace_section root virt 4096 phys f asid s = undef ''null pointer''"
proof -
  note v = virt_page_normal [OF assms(2)]
  have "N mod 512 = N mod 262144 mod 512" by (simp add: mod_mod_cancel)
  then have m: "N mod 512 = 0" using assms(3) by simp
  have g: "\<not> (4096 :: u64) > ppn2_jmp_size * 256"
    "\<not> (normal_addr virt > 0x4000000000 - 4096 \<and> \<not> virt \<ge> 0xffffffc000000000)"
    "\<not> (normal_addr virt > 0x8000000000 - 4096 \<and> virt \<ge> 0xffffffc000000000)"
    using virt_page_guards [OF assms(2), of 1] m by simp_all
  have gib: "ROUND_MOD_DOWN (normal_addr virt) ppn2_jmp_size = normal_addr virt"
    using gib_aligned [OF v(1)] assms(3) by simp
  have lim: "\<not> 4096 \<ge> ppn2_jmp_size" "\<not> 4096 \<ge> ppn1_jmp_size" "4096 \<ge> ppn0_jmp_size" "4096 - ppn0_jmp_size = 0"
    by (simp_all add: jmp_sizes)
  have cnt: "ppn_count 4096 (normal_addr virt) 0 no_counts = Some (no_counts\<lparr>post_ppn0_cnt := 1\<rparr>)"
    using gib lim page_aligned_addr [OF v(1)]
    by (subst ppn_count.simps) (simp add: Let_def ppn_reached_def ppn_count.simps no_counts_def ppn0_jmp_size_def)
  have "root \<noteq> 0" using vma_treeD(1) [OF assms(1)] kernel_page_nonzero by blast
  then have "vma_pre root (normal_addr virt) phys f (no_counts\<lparr>post_ppn0_cnt := 1\<rparr>) s = undef ''null pointer''"
    using assms(4) unfolding vma_pre_def Let_def ppn_indices [OF v(1,2)]
    by (simp add: no_counts_def table_of_def)
  then show ?thesis unfolding vma_replace_section_def Let_def cnt using g by simp
qed

text \<open>
  Two pages across a 2 MiB boundary are both counted as pages of the first block, so the second
  entry is written behind the end of the first block's table.
\<close>

lemma vma_map_past_table:
  assumes "unat va = 4096 * N" and "N < 2 ^ 27 - 1" and "N mod 512 = 511" and "Suc N mod 262144 \<noteq> 0"
  shows "ppn_count 8192 va 0 no_counts = Some (no_counts\<lparr>pre_ppn0_cnt := 2\<rparr>)"
    and "kmem (put_leaves 2 u 511 phys 4096 f s) (u + 4096) = create_leaf (phys + 4096) f"
    and "u + 4096 \<notin> page_cells u"
proof -
  have "N mod 262144 mod 512 = N mod 512" by (simp add: mod_mod_cancel)
  then have n0: "N mod 262144 \<noteq> 0" using assms(3) by auto
  have va': "unat (va + 4096) = 4096 * Suc N" using assms(1,2) by (simp add: unat_word_ariths)
  have h: "ppn_reached va 0 = 0" "ppn_reached (va + 4096) 0 = 0"
    using gib_aligned [OF assms(1)] gib_aligned [OF va'] n0 assms(4) by (simp_all add: ppn_reached_def)
  have lim: "\<not> 8192 \<ge> ppn2_jmp_size" "\<not> 8192 \<ge> ppn1_jmp_size" "\<not> 4096 \<ge> ppn2_jmp_size" "\<not> 4096 \<ge> ppn1_jmp_size"
    by (simp_all add: jmp_sizes)
  have "ppn_count 4096 (va + 4096) 0 c = Some (c\<lparr>pre_ppn0_cnt := pre_ppn0_cnt c + 1\<rparr>)" for c
    using h(2) lim page_aligned_addr [OF va']
    by (subst ppn_count.simps) (simp add: Let_def ppn_count.simps ppn0_jmp_size_def)
  then show "ppn_count 8192 va 0 no_counts = Some (no_counts\<lparr>pre_ppn0_cnt := 2\<rparr>)"
    using h(1) lim page_aligned_addr [OF assms(1)]
    by (subst ppn_count.simps) (simp add: Let_def no_counts_def ppn0_jmp_size_def)
  show "kmem (put_leaves 2 u 511 phys 4096 f s) (u + 4096) = create_leaf (phys + 4096) f"
    by (simp add: numeral_2_eq_2 set_at_def)
  show "u + 4096 \<notin> page_cells u"
  proof
    assume "u + 4096 \<in> page_cells u"
    then obtain k where k: "k < 512" "(4096 :: u64) = 8 * of_nat k" by (auto simp: cells_def)
    have "unat (8 * of_nat k :: u64) = 8 * k" using k(1) by (simp add: unat_word_ariths unat_of_nat)
    then show False using k arg_cong [OF k(2), of unat] by simp
  qed
qed

text \<open>A table of uniform leaves is given back although its entry still points to it.\<close>

lemma shrink_branch_dangles:
  assumes "get_branch_loc (at s t i) = b" and "b \<noteq> 0" and "can_shrink b (jmp div 512) s" and "at s b 0 \<noteq> 0"
  shows "shrink_branch t i jmp s = pg_free b s"
  using assms by (simp add: shrink_branch_def Let_def)

end
