(* ===== verification/Fifo.thy ===== *)
theory Fifo
  imports Kernel_Prelude
begin

text \<open>
  The contract of a bounded first-in first-out queue, as the trap handler relies on it for the
  processes that wait for a hart: entering when there is room puts the element last, entering a
  full queue panics, leaving takes the first element, and leaving an empty queue gives the idle
  element without changing anything.
\<close>

locale fifo =
  fixes enq :: "'e \<Rightarrow> 's \<Rightarrow> (unit \<times> 's) run"
    and deq :: "'s \<Rightarrow> ('e \<times> 's) run"
    and inv :: "'s \<Rightarrow> bool"
    and items :: "'s \<Rightarrow> 'e list"
    and cap :: "'s \<Rightarrow> nat"
    and idle :: "'s \<Rightarrow> 'e"
  assumes enq_room: "inv s \<Longrightarrow> length (items s) < cap s \<Longrightarrow>
      \<exists>s'. enq x s = ret ((), s') \<and> inv s' \<and> cap s' = cap s \<and> idle s' = idle s \<and> items s' = items s @ [x]"
    and enq_full: "inv s \<Longrightarrow> length (items s) = cap s \<Longrightarrow> \<exists>msg a b c. enq x s = panic msg a b c"
    and deq_first: "inv s \<Longrightarrow> items s = x # xs \<Longrightarrow>
      \<exists>s'. deq s = ret (x, s') \<and> inv s' \<and> cap s' = cap s \<and> idle s' = idle s \<and> items s' = xs"
    and deq_empty: "inv s \<Longrightarrow> items s = [] \<Longrightarrow> deq s = ret (idle s, s)"
    and bounded: "inv s \<Longrightarrow> length (items s) \<le> cap s"
begin

text \<open>Entering a sequence of elements, and leaving \<open>n\<close> times.\<close>

primrec enqs :: "'e list \<Rightarrow> 's \<Rightarrow> (unit \<times> 's) run" where
  "enqs [] s = ret ((), s)"
| "enqs (x # xs) s = bindr (enq x s) (\<lambda>(_, s). enqs xs s)"

primrec deqs :: "nat \<Rightarrow> 's \<Rightarrow> ('e list \<times> 's) run" where
  "deqs 0 s = ret ([], s)"
| "deqs (Suc n) s = bindr (deq s) (\<lambda>(x, s). bindr (deqs n s) (\<lambda>(xs, s). ret (x # xs, s)))"

lemma enqs_items:
  "inv s \<Longrightarrow> length (items s) + length xs \<le> cap s \<Longrightarrow>
    \<exists>s'. enqs xs s = ret ((), s') \<and> inv s' \<and> cap s' = cap s \<and> items s' = items s @ xs"
proof (induction xs arbitrary: s)
  case (Cons x xs)
  obtain s1 where s1: "enq x s = ret ((), s1)" "inv s1" "cap s1 = cap s" "items s1 = items s @ [x]"
    using enq_room [of s x] Cons.prems by auto
  then obtain s' where "enqs xs s1 = ret ((), s')" "inv s'" "cap s' = cap s1" "items s' = items s1 @ xs"
    using Cons.IH [of s1] Cons.prems by auto
  then show ?case using s1 by (intro exI [of _ s']) auto
qed simp

lemma deqs_items:
  "inv s \<Longrightarrow> n \<le> length (items s) \<Longrightarrow>
    \<exists>s'. deqs n s = ret (take n (items s), s') \<and> inv s' \<and> items s' = drop n (items s)"
proof (induction n arbitrary: s)
  case (Suc n)
  then obtain x xs where xs: "items s = x # xs" by (cases "items s") auto
  obtain s1 where s1: "deq s = ret (x, s1)" "inv s1" "items s1 = xs"
    using deq_first [OF Suc.prems(1) xs] by auto
  then obtain s' where "deqs n s1 = ret (take n xs, s')" "inv s'" "items s' = drop n xs"
    using Suc.IH [of s1] Suc.prems(2) xs by auto
  then show ?case using s1 xs by (intro exI [of _ s']) auto
qed simp

text \<open>What goes in comes out, in the same order.\<close>

lemma in_order:
  assumes "inv s" and "items s = []" and "length xs \<le> cap s"
  shows "\<exists>s' s''. enqs xs s = ret ((), s') \<and> deqs (length xs) s' = ret (xs, s'') \<and> items s'' = [] \<and> inv s''"
proof -
  obtain s' where s': "enqs xs s = ret ((), s')" "inv s'" "items s' = xs"
    using enqs_items [OF assms(1), of xs] assms(2,3) by auto
  then show ?thesis using deqs_items [of s' "length xs"] by auto
qed

end

end
