(* ===== verification/Scheduler.thy ===== *)
theory Scheduler
  imports Vma_Map Fifo
begin

text \<open>
  The round-robin scheduler of \<^verbatim>\<open>src/src/kernel/process/scheduler.c\<close>: a page used as a ring buffer
  of process addresses, and one idle process for each hart. The lemmas show that it is a bounded
  queue in the sense of the locale \<open>fifo\<close>.
\<close>

record sched = vma +
  process_queue :: u64
  process_queue_size :: u64
  process_queue_count :: u64
  process_queue_start :: u64
  hart_idle_process :: u64

definition process_from_id :: "u32 \<Rightarrow> 'a procs_scheme \<Rightarrow> u64 run" where
  "process_from_id process_id s = hashmap_get (process_hashmap s) (ucast process_id) s"

definition scheduler_next :: "u64 \<Rightarrow> 'a sched_scheme \<Rightarrow> (u64 \<times> 'a sched_scheme) run" where
  "scheduler_next hart_id s =
     (if process_queue_count s = 0 then ret (at s (hart_idle_process s) hart_id, s)
      else if process_queue_size s = 0 then undef ''division by zero''
      else
        let output_process = at s (process_queue s) (process_queue_start s)
        in ret (output_process,
                s\<lparr>process_queue_start := (process_queue_start s + 1) mod process_queue_size s,
                  process_queue_count := process_queue_count s - 1\<rparr>))"

definition scheduler_queue_process :: "u64 \<Rightarrow> 'a sched_scheme \<Rightarrow> (unit \<times> 'a sched_scheme) run" where
  "scheduler_queue_process proc s =
     (if process_queue_size s = process_queue_count s then panic ''KERNEL_SCHEDULER_QUEUE_FULL'' 0 0 0
      else if process_queue_size s = 0 then undef ''division by zero''
      else
        let s = set_at (process_queue s)
                  ((process_queue_start s + process_queue_count s) mod process_queue_size s) proc s
        in ret ((), s\<lparr>process_queue_count := process_queue_count s + 1\<rparr>))"

text \<open>Iterations from \<open>i\<close> on, \<open>n\<close> of them.\<close>

primrec scheduler_remove_from ::
  "nat \<Rightarrow> u64 \<Rightarrow> u64 \<Rightarrow> u64 \<Rightarrow> 'a sched_scheme \<Rightarrow> 'a sched_scheme" where
  "scheduler_remove_from 0 i offset proc s = s"
| "scheduler_remove_from (Suc n) i offset proc s =
     (let pos = process_queue_start s + (process_queue_count s - i);
          here = pos mod process_queue_size s;
          offset = (if at s (process_queue s) here = proc then offset - 1 else offset)
      in scheduler_remove_from n (i + 1) offset proc
           (if offset = 0 then s
            else set_at (process_queue s) here
                   (at s (process_queue s) ((pos + offset) mod process_queue_size s)) s))"

definition scheduler_remove :: "u64 \<Rightarrow> 'a sched_scheme \<Rightarrow> (unit \<times> 'a sched_scheme) run" where
  "scheduler_remove proc s =
     (let n = (if process_queue_count s + 1 = 0 then 0 else unat (process_queue_count s))
      in if process_queue_size s = 0 \<and> n > 0 then undef ''division by zero''
         else ret ((), scheduler_remove_from n 1 0 proc s))"

definition schedular_init :: "u64 \<Rightarrow> 'a sched_scheme \<Rightarrow> (unit \<times> 'a sched_scheme) run" where
  "schedular_init hart_count s =
     bindr (pg_alloc s) (\<lambda>(q, s).
       let s = s\<lparr>process_queue := q, process_queue_size := KERNEL_PAGE_SIZE div 8,
                 process_queue_count := 0, process_queue_start := 0\<rparr>
       in if hart_count > KERNEL_PAGE_SIZE div 8 then panic ''TO_MANY_IDLE_PROCESSES_FOR_PAGE'' 0 0 0
          else bindr (pg_alloc s) (\<lambda>(h, s).
            for_each [0..<unat hart_count]
              (\<lambda>i s. bindr (process_from_id (of_nat i) s) (\<lambda>p.
                 ret ((), set_at (hart_idle_process s) (of_nat i) p s)))
              (s\<lparr>hart_idle_process := h\<rparr>)))"

section \<open>The ring buffer is a queue\<close>

text \<open>The queue as hart \<open>h\<close> sees it.\<close>

definition sched_inv :: "u64 \<Rightarrow> 'a sched_scheme \<Rightarrow> bool" where
  "sched_inv h s \<longleftrightarrow> pager_inv s \<and> process_queue s \<in> pager_live s \<and> process_queue_size s = 512
     \<and> process_queue_count s \<le> 512 \<and> process_queue_start s < 512
     \<and> hart_idle_process s \<in> pager_live s \<and> hart_idle_process s \<noteq> process_queue s \<and> h < 512"

definition ring_slot :: "'a sched_scheme \<Rightarrow> nat \<Rightarrow> nat" where
  "ring_slot s i = (unat (process_queue_start s) + i) mod 512"

definition ring_items :: "'a sched_scheme \<Rightarrow> u64 list" where
  "ring_items s = map (\<lambda>i. at s (process_queue s) (of_nat (ring_slot s i))) [0..<unat (process_queue_count s)]"

definition ring_cap :: "'a sched_scheme \<Rightarrow> nat" where
  "ring_cap s = unat (process_queue_size s)"

definition idle_of :: "u64 \<Rightarrow> 'a sched_scheme \<Rightarrow> u64" where
  "idle_of h s = at s (hart_idle_process s) h"

lemma sched_invD:
  assumes "sched_inv h s"
  shows "pager_inv s" "process_queue s \<in> pager_live s" "process_queue_size s = 512"
    "unat (process_queue_count s) \<le> 512" "unat (process_queue_start s) < 512"
    "hart_idle_process s \<in> pager_live s" "hart_idle_process s \<noteq> process_queue s" "unat h < 512"
  using assms by (simp_all add: sched_inv_def word_le_nat_alt word_less_nat_alt)

lemma ring_slot_lt [simp]: "ring_slot s i < 512"
  by (simp add: ring_slot_def)

lemma add_mod_inj:
  fixes a :: nat
  assumes "(a + i) mod k = (a + j) mod k" and "i < k" and "j < k"
  shows "i = j"
proof -
  have *: "j = i" if "i \<le> j" "j < k" "(a + i) mod k = (a + j) mod k" for i j
  proof -
    have "k dvd (a + j) - (a + i)"
      using that by (intro mod_eq_dvd_iff_nat [THEN iffD1]) simp_all
    then have "k dvd j - i" by simp
    then have "j - i = 0" using that(2) by (auto dest: dvd_imp_le)
    then show ?thesis using that(1) by simp
  qed
  show ?thesis
  proof (cases "i \<le> j")
    case True
    then show ?thesis using * [of i j] assms by simp
  next
    case False
    then show ?thesis using * [of j i] assms by simp
  qed
qed

lemma ring_slot_inj: "ring_slot s i = ring_slot s j \<Longrightarrow> i < 512 \<Longrightarrow> j < 512 \<Longrightarrow> i = j"
  unfolding ring_slot_def by (rule add_mod_inj)

lemma slot_word:
  assumes "unat a + unat b < 2 ^ 32"
  shows "(a + b) mod 512 = (of_nat ((unat a + unat b) mod 512) :: u64)"
proof -
  have "unat (a + b) = unat a + unat b" using assms by (simp add: unat_word_ariths)
  then have "unat ((a + b) mod 512) = (unat a + unat b) mod 512" by (simp add: unat_mod)
  moreover have "of_nat (unat ((a + b) mod 512)) = (a + b) mod 512" by simp
  ultimately show ?thesis by (simp only:)
qed

text \<open>The globals of the queue are not the page allocator's.\<close>

lemma sched_same [simp]:
  "pager_same s (s\<lparr>process_queue_count := c\<rparr>)" "pager_same s (s\<lparr>process_queue_start := c\<rparr>)"
  by (simp_all add: pager_same_def)

lemma enqueue_ring:
  assumes inv: "sched_inv h s" and room: "length (ring_items s) < ring_cap s"
  shows "\<exists>s'. scheduler_queue_process x s = ret ((), s') \<and> sched_inv h s' \<and> ring_cap s' = ring_cap s
    \<and> idle_of h s' = idle_of h s \<and> ring_items s' = ring_items s @ [x]"
proof -
  note i = sched_invD [OF inv]
  define q c where "q = process_queue s" and "c = unat (process_queue_count s)"
  have c: "c < 512" using room i(3) by (simp add: ring_items_def ring_cap_def c_def)
  have ne: "process_queue_size s \<noteq> process_queue_count s" using c i(3) by (auto simp: c_def)
  define s1 where "s1 = set_at q (of_nat (ring_slot s c)) x s"
  define s' where "s' = s1\<lparr>process_queue_count := process_queue_count s + 1\<rparr>"
  have idx: "(process_queue_start s + process_queue_count s) mod 512 = of_nat (ring_slot s c)"
    using slot_word [of "process_queue_start s" "process_queue_count s"] i(4,5) by (simp add: ring_slot_def c_def)
  have run: "scheduler_queue_process x s = ret ((), s')"
    using ne i(3) idx by (simp add: scheduler_queue_process_def s'_def s1_def q_def Let_def set_at_def)
  have q: "q \<in> pager_live s" using i(2) by (simp add: q_def)
  note s1 = set_at_inv [OF i(1) q ring_slot_lt [of s c], of x, folded s1_def]
  have same: "pager_same s1 s'" by (simp add: s'_def)
  note inv' = pager_same_inv [OF same s1(1)]
  have fields: "process_queue s' = q" "process_queue_size s' = 512" "process_queue_start s' = process_queue_start s"
    "process_queue_count s' = process_queue_count s + 1" "hart_idle_process s' = hart_idle_process s"
    using i(3) by (simp_all add: s'_def s1_def q_def set_at_def)
  have cnt: "unat (process_queue_count s + 1) = Suc c" using c by (simp add: c_def unat_word_ariths)
  have mem: "at s' a (of_nat j) = (if q = a \<and> ring_slot s c = j then x else at s a (of_nat j))"
    if "a \<in> pager_live s" "j < 512" for a j
  proof -
    have "at s' a (of_nat j) = at s1 a (of_nat j)" by (simp add: s'_def at_def)
    then show ?thesis using at_set_at [OF i(1) q that(1) ring_slot_lt that(2), of s c x] by (simp add: s1_def)
  qed
  have slot: "ring_slot s' j = ring_slot s j" for j by (simp add: ring_slot_def fields)
  have "at s' q (of_nat (ring_slot s j)) = at s q (of_nat (ring_slot s j))" if "j < c" for j
    using mem [OF q ring_slot_lt [of s j]] ring_slot_inj [of s c j] that c by auto
  moreover have "at s' q (of_nat (ring_slot s c)) = x" using mem [OF q ring_slot_lt [of s c]] by simp
  ultimately have items: "ring_items s' = ring_items s @ [x]"
    by (simp add: ring_items_def fields cnt slot q_def [symmetric] c_def [symmetric])
  have "at s' (hart_idle_process s) (of_nat (unat h)) = at s (hart_idle_process s) (of_nat (unat h))"
    using mem [OF i(6,8)] i(7) by (auto simp: q_def)
  then have idle: "idle_of h s' = idle_of h s" by (simp add: idle_of_def fields)
  have "sched_inv h s'"
    using inv inv' s1(2) fields cnt c by (simp add: sched_inv_def q_def word_le_nat_alt)
  then show ?thesis using run items idle fields(2) i(3) by (simp add: ring_cap_def)
qed

lemma dequeue_ring:
  assumes inv: "sched_inv h s" and items: "ring_items s = x # xs"
  shows "\<exists>s'. scheduler_next h s = ret (x, s') \<and> sched_inv h s' \<and> ring_cap s' = ring_cap s
    \<and> idle_of h s' = idle_of h s \<and> ring_items s' = xs"
proof -
  note i = sched_invD [OF inv]
  define c a where "c = unat (process_queue_count s)" and "a = unat (process_queue_start s)"
  obtain c' where c': "c = Suc c'" using items by (cases c) (auto simp: ring_items_def c_def)
  have ne: "process_queue_count s \<noteq> 0" using c' by (auto simp: c_def)
  define s' where "s' = s\<lparr>process_queue_start := (process_queue_start s + 1) mod 512,
      process_queue_count := process_queue_count s - 1\<rparr>"
  have start: "(process_queue_start s + 1) mod 512 = of_nat ((a + 1) mod 512)"
    using slot_word [of "process_queue_start s" 1] i(5) by (simp add: a_def)
  have ua: "unat (of_nat ((a + 1) mod 512) :: u64) = (a + 1) mod 512"
    by (rule unat_small) (rule less_trans [of _ 512], simp_all)
  have "1 \<le> process_queue_count s" using ne by (simp add: word_le_nat_alt unat_gt_0 Suc_le_eq)
  then have cnt: "unat (process_queue_count s - 1) = c'" using c' by (simp add: unat_sub c_def)
  have fields: "process_queue s' = process_queue s" "process_queue_size s' = 512" "hart_idle_process s' = hart_idle_process s"
    "unat (process_queue_count s') = c'" "unat (process_queue_start s') = (a + 1) mod 512"
    using i(3) cnt ua by (simp_all add: s'_def start)
  have upt: "[0..<c] = 0 # map Suc [0..<c']" unfolding c' upt_conv_Cons [OF zero_less_Suc] map_Suc_upt ..
  have slot: "ring_slot s' j = ring_slot s (Suc j)" for j
    by (simp add: ring_slot_def fields a_def [symmetric] mod_simps)
  have mem: "at s' = at s" by (simp add: s'_def at_def fun_eq_iff)
  have all: "ring_items s = at s (process_queue s) (of_nat (ring_slot s 0)) # ring_items s'"
    unfolding ring_items_def fields c_def [symmetric] upt mem slot by (simp add: comp_def)
  have "ring_slot s 0 = a" using i(5) by (simp add: ring_slot_def a_def)
  then have x: "x = at s (process_queue s) (process_queue_start s)" and xs: "xs = ring_items s'"
    using all items by (simp_all add: a_def)
  have same: "pager_same s s'" by (simp add: s'_def pager_same_def)
  have "sched_inv h s'"
    using inv pager_same_inv [OF same i(1)] fields i(4) c' by (simp add: sched_inv_def word_le_nat_alt word_less_nat_alt c_def)
  moreover have "scheduler_next h s = ret (x, s')"
    using ne i(3) by (simp add: scheduler_next_def s'_def x)
  ultimately show ?thesis using xs fields i(3) mem by (simp add: ring_cap_def idle_of_def)
qed

text \<open>The scheduler honours the queue contract, for every hart.\<close>

interpretation sched_queue: fifo scheduler_queue_process "scheduler_next h" "sched_inv h" ring_items ring_cap
  "idle_of h" for h
proof
  fix s :: "'a sched_scheme" and x :: u64 and xs
  assume inv: "sched_inv h s"
  note i = sched_invD [OF inv]
  show "length (ring_items s) < ring_cap s \<Longrightarrow>
      \<exists>s'. scheduler_queue_process x s = ret ((), s') \<and> sched_inv h s' \<and> ring_cap s' = ring_cap s
        \<and> idle_of h s' = idle_of h s \<and> ring_items s' = ring_items s @ [x]"
    by (rule enqueue_ring [OF inv])
  show "ring_items s = x # xs \<Longrightarrow>
      \<exists>s'. scheduler_next h s = ret (x, s') \<and> sched_inv h s' \<and> ring_cap s' = ring_cap s
        \<and> idle_of h s' = idle_of h s \<and> ring_items s' = xs"
    by (rule dequeue_ring [OF inv])
  show "length (ring_items s) \<le> ring_cap s"
    using i(3,4) by (simp add: ring_items_def ring_cap_def)
  show "ring_items s = [] \<Longrightarrow> scheduler_next h s = ret (idle_of h s, s)"
    by (simp add: scheduler_next_def ring_items_def idle_of_def unat_eq_zero)
  assume "length (ring_items s) = ring_cap s"
  then have "process_queue_size s = process_queue_count s"
    by (simp add: ring_items_def ring_cap_def word_unat_eq_iff)
  then show "\<exists>msg a b c. scheduler_queue_process x s = panic msg a b c"
    by (simp add: scheduler_queue_process_def)
qed

section \<open>Properties\<close>

definition blank_sched :: sched where
  "blank_sched = vma.extend blank_vma \<lparr>process_queue = 0, process_queue_size = 0, process_queue_count = 0,
     process_queue_start = 0, hart_idle_process = 0\<rparr>"

text \<open>Setting up the queue for no hart gives an empty queue.\<close>

lemma empty_queue:
  assumes inv: "pager_inv s" and room: "2 < free_pages s" and h: "h < 512"
  obtains s' where "schedular_init 0 s = ret ((), s')" and "sched_inv h s'" and "ring_items s' = []"
proof -
  obtain q s1 where a1: "pg_alloc s = ret (q, s1)" and s1: "pager_inv s1" "pager_live s1 = insert q (pager_live s)"
    "2 \<le> free_pages s1" using alloc_enough [OF inv room] by metis
  define s2 where "s2 = s1\<lparr>process_queue := q, process_queue_size := 512, process_queue_count := 0,
      process_queue_start := 0\<rparr>"
  have same: "pager_same s1 s2" by (simp add: s2_def pager_same_def)
  note i2 = pager_same_inv [OF same s1(1)]
  have "1 < free_pages s2" using s1(3) i2 by simp
  then obtain p s3 where a2: "pg_alloc s2 = ret (p, s3)" and s3: "pager_inv s3" "pager_live s3 = insert p (pager_live s2)"
    "p \<notin> pager_live s2" using alloc_enough [OF i2(1)] by metis
  define s' where "s' = s3\<lparr>hart_idle_process := p\<rparr>"
  have run: "schedular_init 0 s = ret ((), s')"
    using a1 a2 by (simp add: schedular_init_def Let_def s2_def s'_def)
  have same': "pager_same s3 s'" by (simp add: s'_def pager_same_def)
  note i3 = pager_same_inv [OF same' s3(1)]
  have "pager.more s3 = pager.more s2" by (rule pg_alloc_more [OF a2])
  then have f: "process_queue s3 = q" "process_queue_size s3 = 512" "process_queue_count s3 = 0" "process_queue_start s3 = 0"
    by (cases s3; cases s2; cases s1; simp add: s2_def)+
  have "q \<noteq> p" using s3(3) i2(4) s1(2) by auto
  then have "sched_inv h s'"
    using f i3 s3(2) i2(4) s1(2) h by (simp add: sched_inv_def s'_def)
  moreover have "ring_items s' = []" using f by (simp add: ring_items_def s'_def)
  ultimately show ?thesis using that run by blast
qed

lemma demo_queue:
  obtains s :: sched where "sched_inv 0 s" and "ring_items s = []"
proof -
  define b where "b = pager_publish [demo_region] blank_sched"
  have "pager_bitmap_list blank_sched = 0xffffffc080280000" "last_free_bitmap blank_sched = 0"
    "last_free_page_num blank_sched = 0" by (simp_all add: blank_sched_def blank_vma_def vma.defs)
  note d = demo_publish [OF this, folded b_def]
  have "2 < free_pages b" using d(3) by linarith
  have "(0 :: u64) < 512" by simp
  obtain s' where "schedular_init 0 b = ret ((), s')" and "sched_inv 0 s'" and "ring_items s' = []"
    by (rule empty_queue [OF d(1) \<open>2 < free_pages b\<close> \<open>0 < 512\<close>])
  then show ?thesis by (intro that)
qed

text \<open>
  C10. The scheduler is a bounded queue: queueing a process puts it last, or panics when all 512
  places are taken; the next process is the one queued first, or the hart's idle process when the
  queue is empty; the ring buffer's invariant is kept.
\<close>

theorem scheduler_refines_queue:
  assumes "sched_inv h s"
  shows "(if length (ring_items s) < 512
       then \<exists>s'. scheduler_queue_process x s = ret ((), s') \<and> sched_inv h s' \<and> ring_items s' = ring_items s @ [x]
       else scheduler_queue_process x s = panic ''KERNEL_SCHEDULER_QUEUE_FULL'' 0 0 0)
    \<and> (case ring_items s of
         [] \<Rightarrow> scheduler_next h s = ret (at s (hart_idle_process s) h, s)
       | y # ys \<Rightarrow> \<exists>s'. scheduler_next h s = ret (y, s') \<and> sched_inv h s' \<and> ring_items s' = ys)"
proof (rule conjI)
  have cap: "ring_cap s = 512" using sched_invD(3) [OF assms] by (simp add: ring_cap_def)
  have full: "scheduler_queue_process x s = panic ''KERNEL_SCHEDULER_QUEUE_FULL'' 0 0 0"
    if "\<not> length (ring_items s) < 512"
  proof -
    have "unat (process_queue_count s) = unat (process_queue_size s)"
      using that sched_invD(3,4) [OF assms] by (simp add: ring_items_def)
    then show ?thesis by (simp add: scheduler_queue_process_def word_unat_eq_iff)
  qed
  then show "if length (ring_items s) < 512
       then \<exists>s'. scheduler_queue_process x s = ret ((), s') \<and> sched_inv h s' \<and> ring_items s' = ring_items s @ [x]
       else scheduler_queue_process x s = panic ''KERNEL_SCHEDULER_QUEUE_FULL'' 0 0 0"
    using sched_queue.enq_room [OF assms, of x] cap by (auto split: if_splits)
  show "case ring_items s of
         [] \<Rightarrow> scheduler_next h s = ret (at s (hart_idle_process s) h, s)
       | y # ys \<Rightarrow> \<exists>s'. scheduler_next h s = ret (y, s') \<and> sched_inv h s' \<and> ring_items s' = ys"
    using sched_queue.deq_first [OF assms] sched_queue.deq_empty [OF assms]
    by (auto simp: idle_of_def split: list.split)
qed

theorem scheduler_refines_queue_witness:
  "\<exists>s s'. scheduler_queue_process 7 (s :: sched) = ret ((), s') \<and> ring_items s' = [7]"
proof -
  obtain s :: sched where "sched_inv 0 s" "ring_items s = []" by (rule demo_queue)
  then show ?thesis using scheduler_refines_queue [of 0 s 7] by auto
qed

text \<open>
  C38. Round robin: processes queued one after the other into an empty queue that holds them all are
  handed out in that order, and the queue is empty afterwards.
\<close>

theorem scheduler_round_robin:
  assumes "sched_inv h s" and "ring_items s = []" and "length ps \<le> 512"
  shows "\<exists>s' s''. fifo.enqs scheduler_queue_process ps s = ret ((), s')
    \<and> fifo.deqs (scheduler_next h) (length ps) s' = ret (ps, s'') \<and> ring_items s'' = []"
  using sched_queue.in_order [OF assms(1,2), of ps] assms(3) sched_invD(3) [OF assms(1)]
  by (auto simp: ring_cap_def)

theorem scheduler_round_robin_witness:
  "\<exists>s s' s''. fifo.enqs scheduler_queue_process [3, 4] (s :: sched) = ret ((), s')
     \<and> fifo.deqs (scheduler_next 0) 2 s' = ret ([3, 4], s'')"
proof -
  obtain s :: sched where "sched_inv 0 s" "ring_items s = []" by (rule demo_queue)
  then show ?thesis using scheduler_round_robin [of 0 s "[3, 4]"] by (auto simp: numeral_2_eq_2)
qed

text \<open>Removing a process from the queue does not shorten the queue.\<close>

lemma scheduler_remove_keeps_count:
  "process_queue_count (scheduler_remove_from n i off p s) = process_queue_count s"
  by (induction n arbitrary: i off s) (simp_all add: Let_def set_at_def)

end
