(* ===== verification/Process.thy ===== *)
theory Process
  imports Scheduler
begin

text \<open>
  Processes and context switches: \<^verbatim>\<open>src/src/kernel/process/process.c\<close>,
  \<^verbatim>\<open>src/src/kernel/process/context.c\<close> and the user part of
  \<^verbatim>\<open>src/src/arch/risc-v/arch_trap/handler.c\<close>.

  A process is a block of 24 words in memory; the fields are named by their word: 0 process id (low
  half), 1 block_waiting, 2 trap_state (low half), 3, 4 and 5 the trap frames for user space, kernel
  space and page faults, 6 vma_table, 7 vma_addr_space_id, 8 file_desc_pg, 9 file_desc_cnt, 10
  runing_hart_id (low 16 bits) and running (byte 2), 11 exe_file, 12 working_dir, 13 process_type (low
  half), 14 to 17 the kernel stack pages, 18 list_idx, 19 reading_userspace (byte 0), 20 last_hart.
  A trap frame has register \<open>n\<close> at word \<open>n - 1\<close>, scause at 31, sepc at 32, stval at 33, sstatus at 34
  and the process at 35. \<open>new_blank_process\<close> fills a struct on the stack that is not initialised; what
  the stack held is an argument.
\<close>

section \<open>State\<close>

text \<open>The root of the file system, and the two user programs the linker places into the kernel.\<close>

record kernel = sched +
  root_dentry_folder :: u64
  kernel_idle_process :: u64
  kernel_init_process :: u64

abbreviation (input) TRAPFRAME_ADDRESS :: u64 where "TRAPFRAME_ADDRESS \<equiv> 0xFFFFFFFFFFFFE000"
abbreviation (input) PROC_KERN_STACK_START :: u64 where "PROC_KERN_STACK_START \<equiv> 0xFFFFFFFFFFFFA000"
abbreviation (input) PROC_KERN_STACK_TOP :: u64 where "PROC_KERN_STACK_TOP \<equiv> 0xFFFFFFFFFFFFDFFF"
abbreviation (input) HART_KERN_STACK_START :: u64 where "HART_KERN_STACK_START \<equiv> 0xFFFFFFFFFFFF4000"
abbreviation (input) KERN_MAPPING_BOTTOM :: u64 where "KERN_MAPPING_BOTTOM \<equiv> 0xFFFFFFFFFFFF3000"
abbreviation (input) PROC_TYPE_NORMAL :: u32 where "PROC_TYPE_NORMAL \<equiv> 0"
abbreviation (input) PROC_TYPE_IDLE :: u32 where "PROC_TYPE_IDLE \<equiv> 1"
abbreviation (input) PROC_TYPE_DEAD :: u32 where "PROC_TYPE_DEAD \<equiv> 2"
abbreviation (input) PROC_TRAP_PROCESS :: u32 where "PROC_TRAP_PROCESS \<equiv> 0"

text \<open>The low half of a word, its assignment, and the two narrow fields that share word 10.\<close>

definition put32 :: "u32 \<Rightarrow> u64 \<Rightarrow> u64" where
  "put32 v w = (w AND 0xFFFFFFFF00000000) OR ucast v"

definition put16 :: "u16 \<Rightarrow> u64 \<Rightarrow> u64" where
  "put16 v w = (w AND 0xFFFFFFFFFFFF0000) OR ucast v"

definition put8 :: "nat \<Rightarrow> u8 \<Rightarrow> u64 \<Rightarrow> u64" where
  "put8 lane v w = (w AND NOT (push_bit (8 * lane) 0xFF)) OR push_bit (8 * lane) (ucast v)"

definition at32 :: "'a machine_scheme \<Rightarrow> u64 \<Rightarrow> u64 \<Rightarrow> u32" where
  "at32 s p i = ucast (at s p i)"

definition set_at32 :: "u64 \<Rightarrow> u64 \<Rightarrow> u32 \<Rightarrow> 'a machine_scheme \<Rightarrow> 'a machine_scheme" where
  "set_at32 p i v s = set_at p i (put32 v (at s p i)) s"

abbreviation (input) process_id :: "'a machine_scheme \<Rightarrow> u64 \<Rightarrow> u32" where "process_id s p \<equiv> at32 s p 0"
abbreviation (input) process_type :: "'a machine_scheme \<Rightarrow> u64 \<Rightarrow> u32" where "process_type s p \<equiv> at32 s p 13"

definition running :: "'a machine_scheme \<Rightarrow> u64 \<Rightarrow> u8" where
  "running s p = ucast (drop_bit 16 (at s p 10))"

definition set_running :: "u64 \<Rightarrow> u8 \<Rightarrow> 'a machine_scheme \<Rightarrow> 'a machine_scheme" where
  "set_running p v s = set_at p 10 (put8 2 v (at s p 10)) s"

section \<open>Creating a process\<close>

definition trapframe_user_init :: "u64 \<Rightarrow> u64 \<Rightarrow> 'a machine_scheme \<Rightarrow> 'a machine_scheme" where
  "trapframe_user_init trapframe start_location s =
     (let is_supervisor = 0;
          s = set_at trapframe 34 (push_bit 8 is_supervisor) s
      in set_at trapframe 32 start_location s)"

partial_function (option) find_process_id :: "'a procs_scheme \<Rightarrow> (unit \<times> 'a procs_scheme) run" where
  "find_process_id s =
     bindr (hashmap_get (process_hashmap s) (process_upto s) s) (\<lambda>current_process.
       if current_process = 0 then ret ((), s)
       else find_process_id (s\<lparr>process_upto := process_upto s + 1\<rparr>))"

text \<open>The loop over the kernel stack pages.\<close>

primrec alloc_pages :: "nat \<Rightarrow> 'a pager_scheme \<Rightarrow> (u64 list \<times> 'a pager_scheme) run" where
  "alloc_pages 0 s = ret ([], s)"
| "alloc_pages (Suc n) s =
     bindr (pg_alloc s) (\<lambda>(p, s). bindr (alloc_pages n s) (\<lambda>(ps, s). ret (p # ps, s)))"

text \<open>\<open>vma_create\<close> and the mappings of the kernel's part of a process.\<close>

definition process_space :: "u64 \<Rightarrow> u64 list \<Rightarrow> 'a vma_scheme \<Rightarrow> (u64 \<times> 'a vma_scheme) run" where
  "process_space userspace_trapframe phys_kernel_stack_addr s =
     bindr (vma_create s) (\<lambda>(vma_table, s).
     bindr (vma_unmap vma_table U64_MAX KERN_MAPPING_BOTTOM (0 - KERN_MAPPING_BOTTOM) s) (\<lambda>(_, s).
     bindr (vma_map_kernel vma_table U64_MAX TRAPFRAME_ADDRESS KERNEL_PAGE_SIZE userspace_trapframe
              (VMA_READ OR VMA_WRITE) s) (\<lambda>(_, s).
     bindr (for_each [0..<4] (\<lambda>i s.
              vma_map_kernel vma_table U64_MAX (PROC_KERN_STACK_START + KERNEL_PAGE_SIZE * of_nat i)
                KERNEL_PAGE_SIZE (phys_kernel_stack_addr ! i) (VMA_READ OR VMA_WRITE) s) s) (\<lambda>(_, s).
     ret (vma_table, s)))))"

text \<open>The struct assignment \<open>*temp_process = new_process\<close>.\<close>

primrec put_words :: "nat \<Rightarrow> u64 \<Rightarrow> (nat \<Rightarrow> u64) \<Rightarrow> 'a machine_scheme \<Rightarrow> 'a machine_scheme" where
  "put_words 0 p w s = s"
| "put_words (Suc n) p w s = set_at p (of_nat n) (w n) (put_words n p w s)"

definition new_process ::
  "(nat \<Rightarrow> u64) \<Rightarrow> u64 \<Rightarrow> u64 \<Rightarrow> u64 \<Rightarrow> u64 \<Rightarrow> u64 \<Rightarrow> u64 list \<Rightarrow> u64 \<Rightarrow> u64 \<Rightarrow> nat \<Rightarrow> u64" where
  "new_process stack next_pid user_tf kernel_tf fault_tf fd_page stacks root_folder vma_table =
     stack(2 := put32 PROC_TRAP_PROCESS (stack 2), 1 := 0, 0 := put32 (ucast next_pid) (stack 0),
           7 := U64_MAX, 6 := vma_table, 3 := user_tf, 4 := kernel_tf, 5 := fault_tf,
           13 := put32 PROC_TYPE_NORMAL (stack 13), 10 := put8 2 0 (stack 10), 9 := 0, 8 := fd_page,
           20 := U64_MAX, 14 := stacks ! 0, 15 := stacks ! 1, 16 := stacks ! 2, 17 := stacks ! 3,
           19 := put8 0 0 (stack 19), 11 := 0, 12 := root_folder)"

definition new_blank_process :: "(nat \<Rightarrow> u64) \<Rightarrow> 'a kernel_scheme \<Rightarrow> (u64 \<times> 'a kernel_scheme) run" where
  "new_blank_process stack s =
     bindr (find_process_id s) (\<lambda>(_, s).
     bindr (pg_alloc s) (\<lambda>(user_tf, s).
     bindr (pg_alloc s) (\<lambda>(kernel_tf, s).
     bindr (pg_alloc s) (\<lambda>(fault_tf, s).
     bindr (pg_alloc s) (\<lambda>(fd_page, s).
     bindr (alloc_pages 4 s) (\<lambda>(stacks, s).
     bindr (process_space user_tf stacks s) (\<lambda>(vma_table, s).
     bindr (mem_alloc 192 s) (\<lambda>(temp_process, s).
       let s = set_at user_tf 35 temp_process s;
           s = set_at kernel_tf 35 temp_process s;
           s = put_words 24 temp_process
                 (new_process stack (process_upto s) user_tf kernel_tf fault_tf fd_page stacks
                    (root_dentry_folder s) vma_table) s
       in bindr (hashmap_insert (process_hashmap s) (process_upto s) temp_process s) (\<lambda>(old_child, s).
          if old_child \<noteq> 0 then panic ''CREATE_BLANK_PROCESS_CONFLICTING_CHILD_PRESENT'' old_child 0 0
          else bindr (list_append (running_list s) temp_process s) (\<lambda>(l, s).
            ret (temp_process, s\<lparr>running_list := l, process_upto := process_upto s + 1\<rparr>)))))))))))"

text \<open>The process table when the kernel starts; one idle process for each hart.\<close>

definition idle_process_init ::
  "(nat \<Rightarrow> u64) \<Rightarrow> u64 \<Rightarrow> 'a kernel_scheme \<Rightarrow> (unit \<times> 'a kernel_scheme) run" where
  "idle_process_init stack hart_id s =
     bindr (new_blank_process stack s) (\<lambda>(idle_process, s).
       if hart_id \<noteq> ucast (process_id s idle_process) then
         panic ''IDLE_PROCESS_INVALID_ID'' (ucast (process_id s idle_process)) hart_id 0
       else
         let s = set_at idle_process 10 (put16 (ucast hart_id) (at s idle_process 10)) s;
             s = set_at32 idle_process 13 PROC_TYPE_IDLE s;
             s = trapframe_user_init (at s idle_process 3) 0x1000 s
         in vma_map_user (at s idle_process 6) (at s idle_process 7) 0x1000 KERNEL_PAGE_SIZE
              (kernel_idle_process s) VMA_EXEC s)"

definition processes_init ::
  "(nat \<Rightarrow> nat \<Rightarrow> u64) \<Rightarrow> u64 \<Rightarrow> 'a kernel_scheme \<Rightarrow> (unit \<times> 'a kernel_scheme) run" where
  "processes_init stack hart_count s =
     (let s = s\<lparr>process_hashmap := hashmap_create HASHMAP_TYPE_NUMBER (process_hashmap s)\<rparr>
      in bindr (pg_alloc s) (\<lambda>(start, s).
         let s = s\<lparr>process_hashmap := process_hashmap s\<lparr>hm_start := start, hm_len := KERNEL_PAGE_SIZE div 8\<rparr>,
                   process_upto := 0\<rparr>
         in bindr (list_create 8 s) (\<lambda>(l, s).
            for_each [0..<unat hart_count] (\<lambda>i. idle_process_init (stack i) (of_nat i))
              (s\<lparr>running_list := l\<rparr>))))"

definition create_init_process :: "(nat \<Rightarrow> u64) \<Rightarrow> 'a kernel_scheme \<Rightarrow> (unit \<times> 'a kernel_scheme) run" where
  "create_init_process stack s =
     bindr (new_blank_process stack s) (\<lambda>(init_process, s).
       let s = trapframe_user_init (at s init_process 3) 0x1000 s
       in bindr (vma_map_user (at s init_process 6) (at s init_process 7) 0x1000 KERNEL_PAGE_SIZE
                   (kernel_init_process s) (VMA_EXEC OR VMA_READ) s) (\<lambda>(_, s).
          scheduler_queue_process init_process s))"

section \<open>Removing a process\<close>

definition process_cleanup :: "u64 \<Rightarrow> 'a kernel_scheme \<Rightarrow> (unit \<times> 'a kernel_scheme) run" where
  "process_cleanup proc s =
     bindr (hashmap_remove (process_hashmap s) (ucast (process_id s proc)) s) (\<lambda>(_, s).
       let highest_idx = item_cnt (running_list s) - 1
       in bindr (list_remove (running_list s) (at s proc 18) s) (\<lambda>(l, s).
          let s = s\<lparr>running_list := l\<rparr>
          in bindr (if highest_idx \<noteq> at s proc 18 then
                      bindr (list_get (running_list s) (at s proc 18) s) (\<lambda>(replacement_process, s).
                        if replacement_process = 0 then
                          panic ''REPLACEMENT_PROCESS_REMOVE_SWAP_INVALID'' (ucast (process_id s proc))
                            highest_idx (at s proc 18)
                        else ret ((), set_at replacement_process 18 highest_idx s))
                    else ret ((), s)) (\<lambda>(_, s).
             bindr (pg_free (at s proc 3) s) (\<lambda>(_, s).
             bindr (pg_free (at s proc 4) s) (\<lambda>(_, s).
             bindr (pg_free (at s proc 6) s) (\<lambda>(_, s).
             bindr (for_each [0..<4] (\<lambda>i s. pg_free (at s proc (14 + of_nat i)) s) s) (\<lambda>(_, s).
             mem_free proc s)))))))"

definition kill_process :: "u32 \<Rightarrow> 'a kernel_scheme \<Rightarrow> (unit \<times> 'a kernel_scheme) run" where
  "kill_process pid s =
     bindr (process_from_id pid s) (\<lambda>proc.
     bindr (uart_print_lit ''process killed : '' s) (\<lambda>(_, s).
     bindr (uart_println_u64 (ucast pid) s) (\<lambda>(_, s).
       if proc = 0 then undef ''null pointer''
       else if process_type s proc = PROC_TYPE_IDLE then panic ''ATTEMPT_TO_KILL_IDLE_PROCESS'' 0 0 0
       else if running s proc = 1 then ret ((), set_at32 proc 13 PROC_TYPE_DEAD s)
       else bindr (scheduler_remove proc s) (\<lambda>(_, s). process_cleanup proc s))))"

section \<open>Switching to a process\<close>

definition process_update_context_switch ::
  "u64 \<Rightarrow> u64 \<Rightarrow> 'a vma_scheme \<Rightarrow> (unit \<times> 'a vma_scheme) run" where
  "process_update_context_switch proc hart_id s =
     (if at s proc 20 = hart_id then ret ((), s)
      else for_each [0..<4] (\<lambda>i s.
             vma_map_kernel (at s proc 6) (at s proc 7) (HART_KERN_STACK_START + KERNEL_PAGE_SIZE * of_nat i)
               KERNEL_PAGE_SIZE (at s (hart_stacks_list s) (of_nat i + hart_id * 4))
               (VMA_READ OR VMA_WRITE) s) (set_at proc 20 hart_id s))"

definition change_context :: "u64 \<Rightarrow> u64 \<Rightarrow> 'a vma_scheme \<Rightarrow> (unit \<times> 'a vma_scheme) run" where
  "change_context process hart_id s =
     bindr (process_update_context_switch process hart_id s) (\<lambda>(_, s). vma_swap process s)"

text \<open>
  The trap frame is accessed at a fixed virtual address, through the tables \<open>satp\<close> selects; \<open>k\<close> is the
  bit of the access right the access needs, 1 to read and 2 to write.
\<close>

definition satp_root :: "'a vma_scheme \<Rightarrow> u64" where
  "satp_root s = (satp s AND mask 44) * 4096 + KERNEL_VMA_START"

definition trapframe_page :: "nat \<Rightarrow> 'a vma_scheme \<Rightarrow> u64 run" where
  "trapframe_page k s =
     (if drop_bit 60 (satp s) \<noteq> 8 then undef ''address translation is off''
      else case sv39_page (satp_root s) (2 ^ 27 - 2) s of
        None \<Rightarrow> undef ''page fault''
      | Some (p, f) \<Rightarrow> if bit f k \<and> \<not> bit f 4 then ret p else undef ''page fault'')"

definition context_change_process :: "u64 \<Rightarrow> u64 \<Rightarrow> 'a kernel_scheme \<Rightarrow> (unit \<times> 'a kernel_scheme) run" where
  "context_change_process proc hart_id s =
     bindr (trapframe_page 1 s) (\<lambda>frame.
       let old_proc = at s frame 35
       in if old_proc = proc then ret ((), s)
          else bindr (change_context proc hart_id s) (\<lambda>(_, s).
            let s = set_running proc 1 s;
                s = set_at proc 20 hart_id s
            in if process_type s old_proc = PROC_TYPE_NORMAL then ret ((), set_running old_proc 0 s)
               else if process_type s old_proc = PROC_TYPE_IDLE then ret ((), s)
               else if process_type s old_proc = PROC_TYPE_DEAD then process_cleanup old_proc s
               else panic ''UNHANDLED_PROCESS_TYPE'' (ucast (process_type s proc)) (ucast (process_id s proc)) 0))"

definition context_bootstrap :: "u64 \<Rightarrow> 'a kernel_scheme \<Rightarrow> (unit \<times> 'a kernel_scheme) run" where
  "context_bootstrap hart_id s =
     bindr (process_from_id (ucast hart_id) s) (\<lambda>idle_process.
       if idle_process = 0 then panic ''INVALID_IDLE_PROCESS_FOR_HART'' hart_id idle_process 0
       else change_context idle_process hart_id s)"

section \<open>Pages of the highest block\<close>

text \<open>A page number in the highest block of 512 pages.\<close>

lemma top_block:
  fixes N :: nat
  assumes "2 ^ 27 - 512 \<le> N" and "N < 2 ^ 27"
  shows "N div 512 = (2 ^ 27 - 1) div 512" and "N mod 512 = N - (2 ^ 27 - 512)" and "N mod 262144 \<noteq> 0"
proof -
  obtain k where k: "N = 512 * 262143 + k" "k < 512"
    using assms by (intro that [of "N - 512 * 262143"]) simp_all
  show "N div 512 = (2 ^ 27 - 1) div 512" using k by simp
  show "N mod 512 = N - (2 ^ 27 - 512)" unfolding k(1) mod_mult_self4 using k(2) by simp
  have "N = 262144 * 511 + (261632 + k)" using k by simp
  then show "N mod 262144 \<noteq> 0" using k(2) by (simp only: mod_mult_self4) simp
qed

text \<open>One page of the highest block mapped for the kernel, below the guard page at its end.\<close>

lemma map_kernel_page:
  fixes s :: "'a vma_scheme"
  assumes tree: "vma_tree root s" "kernel_pool s" and room: "Suc (Suc m) \<le> free_pages s"
    and vp: "virt_page virt N" and N: "2 ^ 27 - 512 \<le> N" "N < 2 ^ 27 - 1"
    and guard: "sv39_page root (2 ^ 27 - 1) s = None" and p: "kernel_page p"
  obtains s' where "vma_map_kernel root asid virt 4096 p 6 s = ret ((), s')" and "vma_tree root s'"
    and "pager_pool s' = pager_pool s" and "leaves_rest root s s'" and "m \<le> free_pages s'"
    and "\<forall>q<2 ^ 27. sv39_page root q s' = (if q = N then Some (p, 0xC7) else sv39_page root q s)"
    and "globals_kept s s'"
proof -
  have f: "leaf_flags (6 OR 0xC1)" by (rule rights_flags [OF _ _ kernel_flags]) (simp_all add: mask_eq_decr_exp)
  then have rf: "range_flags p 0xC7 1" using p by (simp add: range_flags_def)
  have pr: "page_room root s" using tree room by (simp add: page_room_def)
  have "N < 2 ^ 27" using N by simp
  note top = top_block [OF N(1) this]
  have N1: "N mod 512 + 1 \<le> 512" by (simp add: Suc_le_eq)
  have hole: "\<exists>m<2 ^ 27. m div 512 = N div 512 \<and> \<not> (N \<le> m \<and> m < N + 1) \<and> sv39_page root m s = None"
    using guard N top(1) by (intro exI [of _ "2 ^ 27 - 1"]) simp
  obtain s' where s': "vma_replace_section root virt (of_nat (4096 * 1)) p 0xC7 asid s = ret ((), s')"
    "vma_tree root s'" "pager_pool s' = pager_pool s" "leaves_rest root s s'" "free_pages s \<le> free_pages s' + 2"
    "\<forall>q<2 ^ 27. sv39_page root q s' = (if N \<le> q \<and> q < N + 1 then mapped_to p 0xC7 (q - N) else sv39_page root q s)"
    "globals_kept s s'"
    using replace_small [OF pr vp zero_less_one _ N1 top(3) rf hole, of asid] by auto
  have "\<forall>q<2 ^ 27. sv39_page root q s' = (if q = N then Some (p, 0xC7) else sv39_page root q s)"
    using s'(6) by (auto simp: mapped_to_def)
  moreover have "vma_map_kernel root asid virt 4096 p 6 s = ret ((), s')"
    using s'(1) by (simp add: vma_map_kernel_def)
  ultimately show ?thesis using that s'(2-5,7) room by simp
qed

text \<open>
  A loop that maps pages for the kernel; \<open>f\<close> may read its arguments from memory the tables do not
  occupy.
\<close>

lemma map_kernel_pages:
  fixes s :: "'a vma_scheme" and base :: u64
  assumes "vma_tree root s" "kernel_pool s" and "2 * n + m \<le> free_pages s"
    and "\<And>i. a \<le> i \<Longrightarrow> i < a + n \<Longrightarrow> virt_page (base + 4096 * of_nat i) (B + i) \<and> kernel_page (ps i)"
    and "2 ^ 27 - 512 \<le> B" and "B + a + n \<le> 2 ^ 27 - 1" and "sv39_page root (2 ^ 27 - 1) s = None"
    and "\<And>i s'. a \<le> i \<Longrightarrow> i < a + n \<Longrightarrow> leaves_rest root s s' \<Longrightarrow> globals_kept s s' \<Longrightarrow>
      f i s' = vma_map_kernel root asid (base + 4096 * of_nat i) 4096 (ps i) 6 s'"
  shows "\<exists>s'. for_each [a..<a + n] f s = ret ((), s')
    \<and> vma_tree root s' \<and> pager_pool s' = pager_pool s \<and> leaves_rest root s s' \<and> m \<le> free_pages s'
    \<and> (\<forall>q<2 ^ 27. sv39_page root q s' =
        (if B + a \<le> q \<and> q < B + a + n then Some (ps (q - B), 0xC7) else sv39_page root q s))
    \<and> globals_kept s s'"
  using assms
proof (induction n arbitrary: a s)
  case 0
  then show ?case by auto
next
  case (Suc n)
  have vp: "virt_page (base + 4096 * of_nat a) (B + a)" and kp: "kernel_page (ps a)"
    using Suc.prems(4) [of a] by simp_all
  have room: "Suc (Suc (2 * n + m)) \<le> free_pages s" using Suc.prems(3) by simp
  have B: "2 ^ 27 - 512 \<le> B + a" "B + a < 2 ^ 27 - 1" using Suc.prems(5,6) by simp_all
  obtain s1 where s1: "vma_map_kernel root asid (base + 4096 * of_nat a) 4096 (ps a) 6 s = ret ((), s1)"
    "vma_tree root s1" "pager_pool s1 = pager_pool s" "leaves_rest root s s1" "2 * n + m \<le> free_pages s1"
    "\<forall>q<2 ^ 27. sv39_page root q s1 = (if q = B + a then Some (ps a, 0xC7) else sv39_page root q s)"
    "globals_kept s s1"
    by (rule map_kernel_page [OF Suc.prems(1,2) room vp B Suc.prems(7) kp])
  have step: "f i s' = vma_map_kernel root asid (base + 4096 * of_nat i) 4096 (ps i) 6 s'"
    if "Suc a \<le> i" "i < Suc a + n" "leaves_rest root s1 s'" "globals_kept s1 s'" for i s'
    using Suc.prems(8) [of i s'] leaves_rest_trans [OF s1(4) that(3)] globals_kept_trans [OF s1(7) that(4)] that(1,2) by simp
  have "kernel_pool s1" using Suc.prems(2) s1(3) by (simp add: kernel_pool_def)
  moreover have "sv39_page root (2 ^ 27 - 1) s1 = None" using s1(6) Suc.prems(7) B(2) by simp
  ultimately obtain s' where
    s': "for_each [Suc a..<Suc a + n] f s1 = ret ((), s')"
    "vma_tree root s'" "pager_pool s' = pager_pool s1" "leaves_rest root s1 s'" "m \<le> free_pages s'"
    "\<forall>q<2 ^ 27. sv39_page root q s' =
        (if B + Suc a \<le> q \<and> q < B + Suc a + n then Some (ps (q - B), 0xC7) else sv39_page root q s1)"
    "globals_kept s1 s'"
    using Suc.IH [of s1 "Suc a"] s1(2,5) Suc.prems(4-6) step by auto
  have "f a s = ret ((), s1)" using Suc.prems(8) [of a s] s1(1) by simp
  then have "for_each [a..<a + Suc n] f s = ret ((), s')" using s'(1) by (simp add: upt_rec)
  moreover have "sv39_page root q s' =
      (if B + a \<le> q \<and> q < B + a + Suc n then Some (ps (q - B), 0xC7) else sv39_page root q s)" if "q < 2 ^ 27" for q
    using s'(6) s1(6) that by (cases "q = B + a") auto
  moreover have "globals_kept s s'"
    by (rule globals_kept_trans [OF s1(7) s'(7)])
  ultimately show ?case using s' s1(3) leaves_rest_trans [OF s1(4) s'(4)] by auto
qed

section \<open>The address space of a process\<close>

text \<open>What the tables of a new process say about page number \<open>q\<close>.\<close>

definition process_map :: "u64 \<Rightarrow> u64 list \<Rightarrow> nat \<Rightarrow> (u64 \<times> u64) option" where
  "process_map user_tf stacks q =
     (if q < 2 ^ 26 then None
      else if q < 2 ^ 27 - 13 then Some (KERNEL_VMA_START + of_nat (4096 * (q - 2 ^ 26)), 0xF)
      else if q = 2 ^ 27 - 2 then Some (user_tf, 0xC7)
      else if 2 ^ 27 - 6 \<le> q \<and> q < 2 ^ 27 - 2 then Some (stacks ! (q - (2 ^ 27 - 6)), 0xC7)
      else None)"

lemma process_space_maps:
  fixes s :: "'a vma_scheme"
  assumes inv: "pager_inv s" "kernel_pool s" and room: "12 + m < free_pages s"
    and tf: "kernel_page user_tf" and st: "\<And>i. i < 4 \<Longrightarrow> kernel_page (stacks ! i)"
  shows "\<exists>root s'. process_space user_tf stacks s = ret (root, s') \<and> vma_tree root s' \<and> root \<notin> pager_live s
    \<and> pager_pool s' = pager_pool s \<and> globals_kept s s' \<and> m \<le> free_pages s'
    \<and> pager_live s \<subseteq> pager_live s' - tables root s' \<and> same_tables (pager_live s) s s'
    \<and> (\<forall>q<2 ^ 27. sv39_page root q s' = process_map user_tf stacks q)"
proof -
  obtain root s1 where s1: "vma_create s = ret (root, s1)" "vma_tree root s1"
    "pager_pool s1 = pager_pool s" "pager_live s1 = insert root (pager_live s)" "root \<notin> pager_live s"
    "pager.more s1 = pager.more s" "12 + m \<le> free_pages s1"
    "\<forall>q \<in> pager_live s. \<forall>j<512. ent s1 q j = ent s q j"
    "\<forall>q<2 ^ 27. sv39_page root q s1 =
      (if q < 2 ^ 26 then None else Some (KERNEL_VMA_START + of_nat (4096 * (q - 2 ^ 26)), 0xF))"
    "tables root s1 = {root}"
    by (rule vma_create_tree [OF inv room]) (rule that)
  have live: "pager_live s = pager_live s1 - tables root s1" using s1(4,5,10) by auto
  have pr: "page_room root s1" using s1(2,3,7) inv(2) by (simp add: page_room_def kernel_pool_def)
  have vp: "virt_page KERN_MAPPING_BOTTOM (2 ^ 27 - 13)" by (simp add: virt_page_def)
  have n: "0 < (13 :: nat)" "(13 :: nat) < 512" "(2 ^ 27 - 13) mod 512 + 13 \<le> (512 :: nat)"
    "(2 ^ 27 - 13 :: nat) mod 262144 \<noteq> 0" and rf: "range_flags 0 0 13"
    by (simp_all add: range_flags_def)
  have "KERN_MAPPING_BOTTOM + 53248 = 0" by simp
  then have size13: "- KERN_MAPPING_BOTTOM = (53248 :: u64)" by (rule minus_unique)
  obtain s2 where s2: "vma_replace_section root KERN_MAPPING_BOTTOM (of_nat (4096 * 13)) 0 0 U64_MAX s1 = ret ((), s2)"
    "vma_tree root s2" "pager_pool s2 = pager_pool s1" "leaves_rest root s1 s2" "free_pages s1 \<le> free_pages s2 + 2"
    "\<forall>q<2 ^ 27. sv39_page root q s2 = (if 2 ^ 27 - 13 \<le> q \<and> q < 2 ^ 27 - 13 + 13 then mapped_to 0 0 (q - (2 ^ 27 - 13))
       else sv39_page root q s1)" "globals_kept s1 s2"
    using replace_small [OF pr vp n rf, of U64_MAX] by blast
  have kp2: "kernel_pool s2" using inv(2) s1(3) s2(3) by (simp add: kernel_pool_def)
  have room2: "Suc (Suc (8 + m)) \<le> free_pages s2" using s1(7) s2(5) by simp
  have g2: "sv39_page root (2 ^ 27 - 1) s2 = None" using s2(6) by (simp add: mapped_to_def)
  have vp: "virt_page TRAPFRAME_ADDRESS (2 ^ 27 - 2)" by (simp add: virt_page_def)
  have N: "(2 ^ 27 - 512 :: nat) \<le> 2 ^ 27 - 2" "(2 ^ 27 - 2 :: nat) < 2 ^ 27 - 1" by simp_all
  obtain s3 where s3: "vma_map_kernel root U64_MAX TRAPFRAME_ADDRESS 4096 user_tf 6 s2 = ret ((), s3)"
    "vma_tree root s3" "pager_pool s3 = pager_pool s2" "leaves_rest root s2 s3" "8 + m \<le> free_pages s3"
    "\<forall>q<2 ^ 27. sv39_page root q s3 = (if q = 2 ^ 27 - 2 then Some (user_tf, 0xC7) else sv39_page root q s2)"
    "globals_kept s2 s3"
    by (rule map_kernel_page [OF s2(2) kp2 room2 vp N g2 tf])
  have kp3: "kernel_pool s3" using kp2 s3(3) by (simp add: kernel_pool_def)
  have g3: "sv39_page root (2 ^ 27 - 1) s3 = None" using s3(6) g2 by simp
  have pages: "virt_page (PROC_KERN_STACK_START + 4096 * of_nat i) (2 ^ 27 - 6 + i) \<and> kernel_page (stacks ! i)"
    if "0 \<le> i" "i < 0 + 4" for i
  proof -
    have "i \<in> {0, 1, 2, 3}" using that(2) by auto
    then show ?thesis using st [of i] that by (auto simp: virt_page_def)
  qed
  have B: "(2 ^ 27 - 512 :: nat) \<le> 2 ^ 27 - 6" "(2 ^ 27 - 6 + 0 + 4 :: nat) \<le> 2 ^ 27 - 1" "2 * 4 + m \<le> free_pages s3"
    using s3(5) by simp_all
  obtain s4 where s4: "for_each [0..<0 + 4] (\<lambda>i. vma_map_kernel root U64_MAX (PROC_KERN_STACK_START + 4096 * of_nat i)
      4096 (stacks ! i) 6) s3 = ret ((), s4)"
    "vma_tree root s4" "pager_pool s4 = pager_pool s3" "leaves_rest root s3 s4" "m \<le> free_pages s4"
    "\<forall>q<2 ^ 27. sv39_page root q s4 = (if 2 ^ 27 - 6 + 0 \<le> q \<and> q < 2 ^ 27 - 6 + 0 + 4
       then Some (stacks ! (q - (2 ^ 27 - 6)), 0xC7) else sv39_page root q s3)" "globals_kept s3 s4"
    using map_kernel_pages [OF s3(2) kp3 B(3) pages B(1,2) g3 refl] by blast
  have "process_space user_tf stacks s = ret (root, s4)"
    using s1(1) s2(1) s3(1) s4(1) by (simp add: process_space_def vma_unmap_def size13)
  moreover have "sv39_page root q s4 = process_map user_tf stacks q" if "q < 2 ^ 27" for q
    using s4(6) s3(6) s2(6) s1(9) that by (auto simp: process_map_def mapped_to_def)
  moreover have "leaves_rest root s1 s4"
    by (rule leaves_rest_trans [OF leaves_rest_trans [OF s2(4) s3(4)] s4(4)])
  then have "pager_live s \<subseteq> pager_live s4 - tables root s4 \<and> same_tables (pager_live s) s s4"
    using s1(8) unfolding leaves_rest_def live [symmetric] by (simp add: same_tables_def)
  moreover have "globals_kept s s4"
    by (rule globals_kept_trans [OF globals_kept_more [OF s1(6)]
          globals_kept_trans [OF s2(7) globals_kept_trans [OF s3(7) s4(7)]]])
  ultimately show ?thesis using s4(2,3,5) s3(3) s2(3) s1(3,5) by auto
qed

end
