(* ===== verification/Process_Create.thy ===== *)
theory Process_Create
  imports Process
begin

text \<open>
  Creating a process: \<open>new_blank_process\<close> on a kernel whose process table is in order and has room
  returns a process that is found under its id, with the address space the layout asks for, and
  leaves every other page in use alone. The proof tracks which pages each step writes.
\<close>

section \<open>Steps that write known pages\<close>

definition writes :: "u64 set \<Rightarrow> 'a pager_scheme \<Rightarrow> 'a pager_scheme \<Rightarrow> bool" where
  "writes W s s' \<longleftrightarrow> pager_inv s' \<and> pager_pool s' = pager_pool s \<and> pager_live s \<subseteq> pager_live s'
     \<and> same_tables (pager_live s - W) s s'"

lemma writes_trans:
  assumes "writes V s1 s2" and "writes W s2 s3"
  shows "writes (V \<union> W) s1 s3"
  using assms by (auto simp: writes_def same_tables_def)

lemma writes_mono: "writes V s s' \<Longrightarrow> V \<subseteq> W \<Longrightarrow> writes W s s'"
  by (auto simp: writes_def same_tables_def)

lemma writes_at: "writes W s s' \<Longrightarrow> q \<in> pager_live s \<Longrightarrow> q \<notin> W \<Longrightarrow> j < 512 \<Longrightarrow> ent s' q j = ent s q j"
  by (simp add: writes_def same_tables_def)

lemma writes_at_word:
  assumes "writes W s s'" and "q \<in> pager_live s" and "q \<notin> W" and "i < 512"
  shows "at s' q i = at s q i"
  using writes_at [OF assms(1-3), of "unat i"] assms(4) by (simp add: word_less_nat_alt)

lemma writes_same: "pager_inv s \<Longrightarrow> pager_same s s' \<Longrightarrow> kmem s' = kmem s \<Longrightarrow> writes {} s s'"
  using pager_same_inv [of s s'] by (simp add: writes_def same_tables_def at_def)

lemma writes_alloc: "pager_inv s \<Longrightarrow> pg_alloc s = ret (p, s') \<Longrightarrow> writes {} s s'"
  using pg_alloc_source(2) [of s p s'] at_pg_alloc(2) [of s p s'] by (auto simp: writes_def same_tables_def)

lemma writes_set_at:
  assumes "pager_inv s" and "q \<in> pager_live s" and "j < 512"
  shows "writes {q} s (set_at q (of_nat j) v s)"
  using set_at_inv [OF assms, of v] at_set_at [OF assms(1,2) _ assms(3)] by (auto simp: writes_def same_tables_def)

lemma set_at_offset: "set_at (q + 8 * of_nat a) (of_nat i) v s = set_at q (of_nat (a + i)) v s"
  and at_offset: "at s (q + 8 * of_nat a) (of_nat i) = at s q (of_nat (a + i))"
  by (simp_all add: set_at_def at_def algebra_simps)

lemma put_words_writes:
  fixes w :: "nat \<Rightarrow> u64"
  assumes "pager_inv s" and "q \<in> pager_live s" and "a + n \<le> 512"
  defines "s' \<equiv> put_words n (q + 8 * of_nat a) w s"
  shows "writes {q} s s' \<and> pager_live s' = pager_live s \<and> pager.more s' = pager.more s
    \<and> (\<forall>j<512. ent s' q j = (if a \<le> j \<and> j < a + n then w (j - a) else ent s q j))"
  using assms(3) unfolding s'_def
proof (induction n)
  case 0
  then show ?case using assms(1) by (auto simp: writes_def same_tables_def)
next
  case (Suc n)
  let ?s = "put_words n (q + 8 * of_nat a) w s"
  have IH: "writes {q} s ?s" "pager_live ?s = pager_live s" "pager.more ?s = pager.more s"
    "\<forall>j<512. ent ?s q j = (if a \<le> j \<and> j < a + n then w (j - a) else ent s q j)" using Suc by simp_all
  then have inv: "pager_inv ?s" "q \<in> pager_live ?s" "a + n < 512" using assms(2) Suc.prems by (auto simp: writes_def)
  have eq: "put_words (Suc n) (q + 8 * of_nat a) w s = set_at q (of_nat (a + n)) (w n) ?s"
    by (simp add: set_at_offset del: of_nat_add)
  show ?case
    unfolding eq using writes_trans [OF IH(1) writes_set_at [OF inv, of "w n"]] set_at_inv(2) [OF inv, of "w n"]
      at_set_at [OF inv(1,2,2,3), of _ "w n"] IH(2-4) by (auto simp: less_Suc_eq)
qed

section \<open>What survives such steps\<close>

lemma vma_tree_writes:
  assumes tree: "vma_tree root s" and w: "writes W s s'" and "W \<inter> tables root s = {}"
  shows "vma_tree root s'" and "sv39_page root n s' = sv39_page root n s" and "tables root s' = tables root s"
proof -
  have e: "etree 3 (create_branch root) s" "kernel_page root" using tree by (auto simp: vma_tree_def)
  then have sub: "tables root s \<subseteq> pager_live s" by (simp add: etree_def)
  have "same_tables (tables root s) s s'"
    by (rule same_tables_mono [of "pager_live s - W"]) (use w sub assms(3) in \<open>auto simp: writes_def\<close>)
  note f = tree_frame [OF this]
  have "etree 3 (create_branch root) s'" using f e(1) w sub unfolding etree_def writes_def by auto
  then show "vma_tree root s'" using e(2) w by (simp add: vma_tree_def writes_def)
  show "sv39_page root n s' = sv39_page root n s" using f e(1) by (simp add: sv39_page_def etree_def)
  show "tables root s' = tables root s" using f by metis
qed

lemma slab_writes:
  assumes sl: "slab s c" and w: "writes W s s'" and idx: "idx_page s' c = idx_page s c" "idx_page s c \<notin> W"
    and low: "lowest_free_entry s' (of_nat c) = lowest_free_entry s (of_nat c)"
    and head: "\<forall>j<3. ent s' (data_page s c) j = ent s (data_page s c) j"
  shows "slab s' c" and "data_page s' c = data_page s c"
    and "b < blocks c \<Longrightarrow> block_used s' c b \<longleftrightarrow> block_used s c b"
proof -
  have i: "idx_page s c \<in> pager_live s" "data_page s c \<in> pager_live s" "c \<le> 11" using sl by (auto simp: slab_def)
  note at = writes_at [OF w i(1) idx(2)]
  show d: "data_page s' c = data_page s c" using at [of 1] idx(1) by simp
  then have "at s' (idx_page s c) 1 = data_page s c" using idx(1) by simp
  moreover have "at s' (data_page s c) 0 = at s (data_page s c) 0" "at s' (data_page s c) 1 = at s (data_page s c) 1"
    "at s' (data_page s c) 2 = at s (data_page s c) 2"
    using spec [OF head, of 0] spec [OF head, of 1] spec [OF head, of 2] by simp_all
  ultimately show "slab s' c"
    using sl w unfolding slab_def idx(1) low by (auto simp: writes_def)
  show "block_used s' c b \<longleftrightarrow> block_used s c b" if "b < blocks c"
  proof -
    have "b < 4032" using that class_numbers [OF i(3)] by simp
    then have "2 + b div 64 < 512" using block_word_lt by fastforce
    then show ?thesis unfolding block_used_def idx(1) using at [of "2 + b div 64"] by simp
  qed
qed

lemma hm_ok_writes:
  assumes ok: "hm_ok h s" and w: "writes W s s'" and idx: "idx_page s' 6 = idx_page s 6"
    and low: "lowest_free_entry s' 6 = lowest_free_entry s 6"
    and out: "{hm_start h, idx_page s 6, data_page s 6} \<inter> W = {}"
  shows "hm_ok h s'" and "hashmap_get h k s' = hashmap_get h k s" and "leaf_room s' = leaf_room s"
proof -
  have sl: "slab s 6" and T: "hm_start h \<in> pager_live s" and D: "data_page s 6 \<in> pager_live s"
    using ok by (auto simp: hm_ok_def slab_def)
  note at = writes_at [OF w]
  have Ds: "\<And>j. j < 512 \<Longrightarrow> ent s' (data_page s 6) j = ent s (data_page s 6) j" using at [OF D] out by blast
  have Ts: "\<And>j. j < 512 \<Longrightarrow> ent s' (hm_start h) j = ent s (hm_start h) j" using at [OF T] out by blast
  have idx': "idx_page s' 6 = idx_page s 6" "idx_page s 6 \<notin> W" "lowest_free_entry s' (of_nat 6) = lowest_free_entry s (of_nat 6)"
    using idx low out by simp_all
  have head: "\<forall>j<3. ent s' (data_page s 6) j = ent s (data_page s 6) j" using Ds by simp
  note sw = slab_writes [OF sl w idx' head]
  have chain: "leaf_chain s' a bs \<and> bucket_pairs s' bs = bucket_pairs s bs" if c: "leaf_chain s a bs" for a bs
  proof -
    have b: "b < 63 \<and> block_used s 6 b" if "b \<in> set bs" for b using c that by (auto simp: leaf_chain_def)
    then have "block_used s' 6 b" if "b \<in> set bs" for b using sw(3) [of b] that by simp
    moreover have "ent s' (data_page s 6) (8 + 8 * b + k) = ent s (data_page s 6) (8 + 8 * b + k)"
      if "b \<in> set bs" "k < 3" for b k using b [OF that(1)] that(2) by (intro Ds) simp
    ultimately show ?thesis using leaf_chain_keep [OF sw(2) _ _ c] by blast
  qed
  have buckets: "\<exists>bs. leaf_chain s (at s (hm_start h) (of_nat i)) bs" if "i < 512" for i
    using ok that by (simp add: hm_ok_def)
  show ok': "hm_ok h s'"
    using ok sw(1,2) idx T w buckets chain Ts unfolding hm_ok_def writes_def by (metis subset_iff)
  obtain bs where bs: "leaf_chain s (at s (hm_start h) (of_nat (bucket k))) bs" using buckets bucket_lt by blast
  show "hashmap_get h k s' = hashmap_get h k s"
    using hashmap_get_bucket [OF ok bs] hashmap_get_bucket [OF ok', of k bs] chain [OF bs] Ts [OF bucket_lt] by simp
  show "leaf_room s' = leaf_room s" unfolding leaf_room_def using sw(3) by (metis (no_types, lifting) blocks_6)
qed

section \<open>The globals a step keeps\<close>

definition keeps :: "u64 set \<Rightarrow> 'a allocator_scheme \<Rightarrow> 'a allocator_scheme \<Rightarrow> bool" where
  "keeps C s s' \<longleftrightarrow> root_idx_page s' = root_idx_page s \<and> allocator.more s' = allocator.more s
     \<and> hart_stacks_list s' = hart_stacks_list s
     \<and> (\<forall>k. k \<notin> C \<longrightarrow> lowest_free_entry s' k = lowest_free_entry s k)"

lemma keeps_trans: "keeps C s1 s2 \<Longrightarrow> keeps D s2 s3 \<Longrightarrow> keeps (C \<union> D) s1 s3"
  by (simp add: keeps_def)

lemma keeps_more: "pager.more s' = pager.more s \<Longrightarrow> keeps C s s'"
  by (cases s; cases s') (simp add: keeps_def)

lemma take_block_writes:
  assumes "slab s c" and "b < blocks c"
  shows "writes {idx_page s c} s (take_block s c b)" and "keeps {of_nat c} s (take_block s c b)"
proof -
  note t = take_block_slab [OF assms]
  have "ent (take_block s c b) q j = ent s q j" if "q \<in> pager_live s" "q \<noteq> idx_page s c" "j < 512" for q j
    unfolding at_def using t(4) [OF that(1,2)] that(3) by (auto simp: cells_def)
  then show "writes {idx_page s c} s (take_block s c b)"
    using t(1,5,6) by (simp add: writes_def same_tables_def slab_def)
  show "keeps {of_nat c} s (take_block s c b)" by (simp add: keeps_def take_block_def Let_def set_at_def)
qed

lemma hashmap_insert_writes:
  assumes ok: "hm_ok h s" and room: "0 < leaf_room s"
  shows "\<exists>s'. hashmap_insert h key v s = ret (0, s') \<and> hm_ok h s'
    \<and> (\<forall>k. hashmap_get h k s' = (if k = key then ret v else hashmap_get h k s))
    \<and> writes {hm_start h, idx_page s 6, data_page s 6} s s' \<and> keeps {6} s s' \<and> data_page s' 6 = data_page s 6
    \<and> pager_live s' = pager_live s"
proof -
  have sl: "slab s 6" and T: "hm_start h \<in> pager_live s" "hm_start h \<noteq> idx_page s 6" "hm_start h \<noteq> data_page s 6"
    using ok by (auto simp: hm_ok_def)
  have D: "data_page s 6 \<in> pager_live s" using sl by (simp add: slab_def)
  have ex: "\<exists>b<63. \<not> block_used s 6 b" using room leaf_room_pos by blast
  then have "\<exists>b<blocks 6. \<not> block_used s 6 b" by simp
  moreover have "fits_class (unat (64 :: u64)) 6" using fits_class_exp [of 6] by simp
  ultimately obtain b where b: "b < blocks 6" and alloc: "mem_alloc 64 s = ret (block_addr s 6 b, take_block s 6 b)"
    using mem_alloc_block [OF sl, of 64] by auto
  define s1 where "s1 = take_block s 6 b"
  note t = take_block_slab [OF sl b, folded s1_def] and tw = take_block_writes [OF sl b, folded s1_def]
  let ?D = "data_page s1 6" and ?T = "hm_start h"
  have inv1: "pager_inv s1" using t(1) by (simp add: slab_def)
  have b': "b < 63" using b by simp
  have T1: "?T \<in> pager_live s1" "?T \<noteq> idx_page s1 6" "?T \<noteq> ?D" using T t(2,5,8) by simp_all
  define s' where "s' = link_leaf h (bucket key) (leaf_at s1 b) key v s1"
  have la: "leaf_at s1 b = block_addr s 6 b" using t(2) by (simp add: block_addr_def)
  have run: "hashmap_insert h key v s = ret (0, s')"
    using alloc ok hashmap_index_num [of h key "kmem s"]
    by (simp add: hashmap_insert_def link_leaf_def Let_def s'_def la s1_def [symmetric] hm_ok_def)
  define s2 where "s2 = set_at ?D (of_nat (10 + 8 * b)) v s1"
  define s3 where "s3 = set_at ?D (of_nat (9 + 8 * b)) key s2"
  define s4 where "s4 = set_at ?D (of_nat (8 + 8 * b)) (at s3 ?T (of_nat (bucket key))) s3"
  have s': "s' = set_at ?T (of_nat (bucket key)) (leaf_at s1 b) s4"
    using set_at_leaf [of s1 b 2] set_at_leaf [of s1 b 1] set_at_leaf [of s1 b 0]
    by (simp add: s'_def link_leaf_def Let_def s2_def s3_def s4_def)
  have j: "10 + 8 * b < 512" "9 + 8 * b < 512" "8 + 8 * b < 512" using b' by simp_all
  have D1: "?D \<in> pager_live s1" using D t(2,5) by simp
  note e2 = set_at_inv [OF inv1 D1 j(1), of v, folded s2_def]
  have D2: "?D \<in> pager_live s2" using D1 e2 by simp
  note e3 = set_at_inv [OF e2(1) D2 j(2), of key, folded s3_def]
  have D3: "?D \<in> pager_live s3" using D2 e3 by simp
  note e4 = set_at_inv [OF e3(1) D3 j(3), of "at s3 ?T (of_nat (bucket key))", folded s4_def]
  have T4: "?T \<in> pager_live s4" using T1 e2 e3 e4 by simp
  have "writes ({idx_page s 6} \<union> {?D} \<union> {?D} \<union> {?D} \<union> {?T}) s s'"
    unfolding s'
    by (rule writes_trans [OF writes_trans [OF writes_trans [OF writes_trans [OF tw(1)
          writes_set_at [OF inv1 D1 j(1), of v, folded s2_def]] writes_set_at [OF e2(1) D2 j(2), of key, folded s3_def]]
          writes_set_at [OF e3(1) D3 j(3), of "at s3 ?T (of_nat (bucket key))", folded s4_def]]
          writes_set_at [OF e4(1) T4 bucket_lt]])
  then have w: "writes {?T, idx_page s 6, data_page s 6} s s'" using t(2) by (rule_tac writes_mono) auto
  have "pager.more s' = pager.more s1" by (simp add: s' s4_def s3_def s2_def)
  then have k: "keeps {6} s s'" using keeps_trans [OF tw(2) keeps_more [of s' s1 "{6}"]] by simp
  note l = link_leaf_effect [OF t(1) T1 b' bucket_lt [of key], where key = key and data = v, folded s'_def]
  obtain s'' where "hashmap_insert h key v s = ret (0, s'')" "hm_ok h s''"
    "\<forall>k. hashmap_get h k s'' = (if k = key then ret v else hashmap_get h k s)"
    using hashmap_insert_get [OF ok ex] by blast
  then show ?thesis using run w k l(3,4) t(2,5) by auto
qed

lemma list_append_writes:
  assumes ok: "list_ok l s" and "unat (item_cnt l) < list_cap l"
  shows "\<exists>s'. list_append l src s = ret (l\<lparr>item_cnt := item_cnt l + 1\<rparr>, s') \<and> writes {first_section l} s s'
    \<and> pager.more s' = pager.more s \<and> pager_live s' = pager_live s"
proof -
  define off where "off = list_slot l (unat (item_cnt l))"
  define s' where "s' = s\<lparr>kmem := memcpy (first_section l + of_nat off) src (item_size l) (kmem s)\<rparr>"
  have inv: "pager_inv s" "first_section l \<in> pager_live s" using ok by (auto simp: list_ok_def)
  have fits: "off + unat (item_size l) \<le> 4096" using list_slot_fits [OF ok assms(2)] by (simp add: off_def)
  note m = memcpy_page_inv [OF inv fits, of src, folded s'_def]
  have "unat (first_section l) mod 4096 = 0" using live_page_aligned [OF inv] by simp
  note frame = memcpy_page_frame [OF this fits]
  have "ent s' q j = ent s q j" if "q \<in> pager_live s" "q \<noteq> first_section l" "j < 512" for q j
  proof -
    have "q + 8 * of_nat j \<in> page_cells q" using that(3) unfolding cells_def by blast
    then have "q + 8 * of_nat j \<notin> page_cells (first_section l)"
      using pager.pages_apart [OF inv(1) that(1) inv(2) that(2)] by blast
    then show ?thesis using frame by (simp add: s'_def at_def)
  qed
  then have "writes {first_section l} s s'" using m by (simp add: writes_def same_tables_def)
  moreover have "list_append l src s = ret (l\<lparr>item_cnt := item_cnt l + 1\<rparr>, s')"
    using list_get_first [OF ok order_refl assms(2)] by (simp add: list_append_def s'_def off_def)
  ultimately show ?thesis using m by (simp add: s'_def)
qed

lemma alloc_pages_sound:
  assumes "pager_inv s" and "n + m \<le> free_pages s"
  shows "\<exists>ps s'. alloc_pages n s = ret (ps, s') \<and> length ps = n \<and> distinct ps \<and> set ps \<inter> pager_live s = {}
    \<and> pager_live s' = pager_live s \<union> set ps \<and> set ps \<subseteq> pager_pool s \<and> writes {} s s'
    \<and> pager.more s' = pager.more s \<and> m \<le> free_pages s' \<and> (\<forall>q \<in> set ps. \<forall>j<512. ent s' q j = 0)"
  using assms
proof (induction n arbitrary: s)
  case 0
  then show ?case by (auto simp: writes_def same_tables_def)
next
  case (Suc n)
  have "n + m < free_pages s" using Suc.prems(2) by simp
  then obtain p s1 where a: "pg_alloc s = ret (p, s1)" and f: "n + m \<le> free_pages s1"
    using alloc_enough [OF Suc.prems(1)] by metis
  note pa = pg_alloc_source [OF Suc.prems(1) a] and w = writes_alloc [OF Suc.prems(1) a] and g = pg_alloc_more [OF a]
  obtain ps s' where "alloc_pages n s1 = ret (ps, s')" "length ps = n" "distinct ps" "set ps \<inter> pager_live s1 = {}"
    "pager_live s' = pager_live s1 \<union> set ps" "set ps \<subseteq> pager_pool s1" "writes {} s1 s'" "pager.more s' = pager.more s1"
    "m \<le> free_pages s'" "\<forall>q \<in> set ps. \<forall>j<512. ent s' q j = 0" using Suc.IH [of s1] pa(2) f by blast
  moreover have "ent s' p j = 0" if "j < 512" for j
    using writes_at [OF \<open>writes {} s1 s'\<close>, of p j] at_pg_alloc(1) [OF Suc.prems(1) a that] pa(2) that by simp
  ultimately show ?case
    using a pa g writes_trans [OF w, of "{}" s'] by (intro exI [of _ "p # ps"] exI [of _ s']) auto
qed

section \<open>The kernel's own structures\<close>

text \<open>
  The process table: a block class for processes, the map from ids to processes, the list of
  processes, each on pages of their own.
\<close>

definition table_pages :: "'a kernel_scheme \<Rightarrow> u64 list" where
  "table_pages s = [idx_page s 8, data_page s 8, idx_page s 6, data_page s 6, hm_start (process_hashmap s),
     first_section (running_list s)]"

definition processes_ok :: "'a kernel_scheme \<Rightarrow> bool" where
  "processes_ok s \<longleftrightarrow> kernel_pool s \<and> slab s 8 \<and> hm_ok (process_hashmap s) s \<and> list_ok (running_list s) s
     \<and> item_size (running_list s) = 8 \<and> distinct (table_pages s)"

text \<open>Room for one more process: pages, a block, a leaf of the map and an item of the list.\<close>

definition process_room :: "'a kernel_scheme \<Rightarrow> bool" where
  "process_room s \<longleftrightarrow> 20 < free_pages s \<and> (\<exists>b<15. \<not> block_used s 8 b) \<and> 0 < leaf_room s
     \<and> item_cnt (running_list s) < 511"

lemma table_pages_live: "processes_ok s \<Longrightarrow> set (table_pages s) \<subseteq> pager_live s"
  by (auto simp: processes_ok_def table_pages_def slab_def hm_ok_def list_ok_def)

lemma table_pages_same:
  assumes "table_pages s' = table_pages s"
  shows "idx_page s' 8 = idx_page s 8" "data_page s' 8 = data_page s 8" "idx_page s' 6 = idx_page s 6"
    "data_page s' 6 = data_page s 6" "hm_start (process_hashmap s') = hm_start (process_hashmap s)"
    "first_section (running_list s') = first_section (running_list s)"
  using assms unfolding table_pages_def list.inject by blast+

lemma blocks_8 [simp]: "blocks 8 = 15"
  by (simp add: blocks_def)

lemma fits_192: "fits_class 192 8"
proof -
  have "8 \<le> d" if "192 \<le> (2 :: nat) ^ d" for d
  proof (rule ccontr)
    assume "\<not> 8 \<le> d"
    then have "(2 :: nat) ^ d \<le> 2 ^ 7" by (intro power_increasing) auto
    then show False using that by simp
  qed
  then show ?thesis by (simp add: fits_class_def)
qed

lemma process_word: "block_addr s 8 b = data_page s 8 + 8 * of_nat (8 + 32 * b)"
  by (simp add: block_addr_def)


lemma writes_fresh: "writes W s s' \<Longrightarrow> W \<inter> pager_live s \<subseteq> V \<Longrightarrow> writes V s s'"
  unfolding writes_def same_tables_def by blast

text \<open>The process table does not notice writes to other pages, or into the blocks of class 8.\<close>

definition table_globals :: "'a kernel_scheme \<Rightarrow> 'a kernel_scheme \<Rightarrow> bool" where
  "table_globals s s' \<longleftrightarrow> root_idx_page s' = root_idx_page s \<and> process_hashmap s' = process_hashmap s
     \<and> running_list s' = running_list s \<and> process_upto s' = process_upto s
     \<and> root_dentry_folder s' = root_dentry_folder s
     \<and> (\<forall>k. k \<noteq> 8 \<longrightarrow> lowest_free_entry s' k = lowest_free_entry s k)"

lemma table_globals_keeps: "keeps {8} s s' \<Longrightarrow> table_globals s s'"
  by (cases s; cases s') (simp add: table_globals_def keeps_def)

lemma table_globals_more: "pager.more s' = pager.more s \<Longrightarrow> table_globals s s'"
  by (rule table_globals_keeps, rule keeps_more)

lemma table_globals_trans: "table_globals s1 s2 \<Longrightarrow> table_globals s2 s3 \<Longrightarrow> table_globals s1 s3"
  by (simp add: table_globals_def)

lemma processes_ok_writes:
  assumes ok: "processes_ok s" and w: "writes W s s'" and g: "table_globals s s'"
    and low: "lowest_free_entry s' 8 = lowest_free_entry s 8"
    and out: "W \<inter> set (table_pages s) \<subseteq> {data_page s 8}"
    and head: "\<forall>j<3. ent s' (data_page s 8) j = ent s (data_page s 8) j"
  shows "processes_ok s'" and "table_pages s' = table_pages s" and "leaf_room s' = leaf_room s"
    and "hashmap_get (process_hashmap s') k s' = hashmap_get (process_hashmap s) k s"
    and "b < 15 \<Longrightarrow> block_used s' 8 b \<longleftrightarrow> block_used s 8 b"
proof -
  have parts: "kernel_pool s" "slab s 8" "hm_ok (process_hashmap s) s" "list_ok (running_list s) s"
    "item_size (running_list s) = 8" "distinct (table_pages s)" using ok by (auto simp: processes_ok_def)
  have idx: "idx_page s' c = idx_page s c" for c using g by (simp add: table_globals_def)
  have I8: "idx_page s 8 \<notin> W" and out6: "{hm_start (process_hashmap s), idx_page s 6, data_page s 6} \<inter> W = {}"
    using out parts(6) by (auto simp: table_pages_def)
  have low8: "lowest_free_entry s' (of_nat 8) = lowest_free_entry s (of_nat 8)" using low by simp
  note s8 = slab_writes [OF parts(2) w idx I8 low8 head]
  have low6: "lowest_free_entry s' 6 = lowest_free_entry s 6" using g by (simp add: table_globals_def)
  have idx6: "idx_page s' 6 = idx_page s 6" by (rule idx)
  note h = hm_ok_writes [OF parts(3) w idx6 low6 out6]
  have D6: "data_page s' 6 = data_page s 6"
    using writes_at [OF w, of "idx_page s 6" 1] idx [of 6] out6 parts(3) by (auto simp: hm_ok_def slab_def)
  have same: "process_hashmap s' = process_hashmap s" "running_list s' = running_list s"
    using g by (auto simp: table_globals_def)
  show tp: "table_pages s' = table_pages s"
    using idx [of 8] idx [of 6] s8(2) D6 same by (simp add: table_pages_def)
  have "list_ok (running_list s) s'" using parts(4) w by (auto simp: list_ok_def writes_def)
  then show "processes_ok s'"
    using parts s8(1) h(1) same tp w by (simp add: processes_ok_def kernel_pool_def writes_def)
  show "leaf_room s' = leaf_room s" by (rule h(3))
  show "hashmap_get (process_hashmap s') k s' = hashmap_get (process_hashmap s) k s" using h(2) same by simp
  show "block_used s' 8 b \<longleftrightarrow> block_used s 8 b" if "b < 15" using s8(3) [of b] that by simp
qed

lemma processes_ok_block:
  assumes ok: "processes_ok s" and b: "b < 15"
  defines "s' \<equiv> take_block s 8 b"
  shows "processes_ok s'" and "table_pages s' = table_pages s" and "leaf_room s' = leaf_room s"
    and "hashmap_get (process_hashmap s') k s' = hashmap_get (process_hashmap s) k s"
    and "writes {idx_page s 8} s s'" and "table_globals s s'" and "pager_live s' = pager_live s"
proof -
  have parts: "kernel_pool s" "slab s 8" "hm_ok (process_hashmap s) s" "list_ok (running_list s) s"
    "item_size (running_list s) = 8" "distinct (table_pages s)" using ok by (auto simp: processes_ok_def)
  have b8: "b < blocks 8" using b by simp
  note t = take_block_slab [OF parts(2) b8, folded s'_def] and tw = take_block_writes [OF parts(2) b8, folded s'_def]
  show w: "writes {idx_page s 8} s s'" by (rule tw(1))
  have k: "keeps {8} s s'" using tw(2) by simp
  show g: "table_globals s s'" by (rule table_globals_keeps [OF k])
  show "pager_live s' = pager_live s" by (rule t(5))
  have low6: "lowest_free_entry s' 6 = lowest_free_entry s 6" and idx6: "idx_page s' 6 = idx_page s 6"
    using k by (simp_all add: keeps_def)
  have out6: "{hm_start (process_hashmap s), idx_page s 6, data_page s 6} \<inter> {idx_page s 8} = {}"
    using parts(6) by (auto simp: table_pages_def)
  note h = hm_ok_writes [OF parts(3) w idx6 low6 out6]
  have D6: "data_page s' 6 = data_page s 6"
    using writes_at [OF w, of "idx_page s 6" 1] idx6 out6 parts(3) by (auto simp: hm_ok_def slab_def)
  have same: "process_hashmap s' = process_hashmap s" "running_list s' = running_list s"
    using g by (auto simp: table_globals_def)
  show tp: "table_pages s' = table_pages s" using idx6 t(2,8) D6 same by (simp add: table_pages_def)
  have "list_ok (running_list s) s'" using parts(4) w by (auto simp: list_ok_def writes_def)
  then show "processes_ok s'"
    using parts t(1,6) h(1) same tp by (simp add: processes_ok_def kernel_pool_def)
  show "leaf_room s' = leaf_room s" by (rule h(3))
  show "hashmap_get (process_hashmap s') k s' = hashmap_get (process_hashmap s) k s" using h(2) same by simp
qed

text \<open>Entering a process into the map and into the list.\<close>

lemma publish_process:
  fixes s :: "'a kernel_scheme"
  assumes ok: "processes_ok s" and room: "0 < leaf_room s" "item_cnt (running_list s) < 511"
  defines "L \<equiv> first_section (running_list s)" and "h \<equiv> process_hashmap s"
  obtains s1 s2 l where "hashmap_insert h key v s = ret (0, s1)"
    and "list_append (running_list s1) src s1 = ret (l, s2)"
    and "processes_ok (s2\<lparr>running_list := l, process_upto := u\<rparr>)"
    and "writes {hm_start h, idx_page s 6, data_page s 6, L} s s2" and "pager_live s2 = pager_live s"
    and "process_hashmap s2 = h"
    and "\<forall>k. hashmap_get h k (s2\<lparr>running_list := l, process_upto := u\<rparr>) = (if k = key then ret v else hashmap_get h k s)"
    and "process_upto s1 = process_upto s" and "process_upto s2 = process_upto s"
    and "root_idx_page s2 = root_idx_page s"
proof -
  have parts: "kernel_pool s" "slab s 8" "hm_ok h s" "list_ok (running_list s) s"
    "item_size (running_list s) = 8" "distinct (table_pages s)" using ok by (auto simp: processes_ok_def h_def)
  obtain s1 where s1: "hashmap_insert h key v s = ret (0, s1)" "hm_ok h s1"
    "\<forall>k. hashmap_get h k s1 = (if k = key then ret v else hashmap_get h k s)"
    "writes {hm_start h, idx_page s 6, data_page s 6} s s1" "keeps {6} s s1" "data_page s1 6 = data_page s 6"
    "pager_live s1 = pager_live s" using hashmap_insert_writes [OF parts(3) room(1), of key v] by blast
  have f1: "running_list s1 = running_list s" "process_hashmap s1 = h" "process_upto s1 = process_upto s"
    "root_idx_page s1 = root_idx_page s" "lowest_free_entry s1 8 = lowest_free_entry s 8"
    using s1(5) by (cases s; cases s1; simp add: keeps_def h_def)+
  have l1: "list_ok (running_list s1) s1" using parts(4) s1(4) f1 by (auto simp: list_ok_def writes_def)
  have cap: "unat (item_cnt (running_list s1)) < list_cap (running_list s1)"
    using room(2) parts(5) f1 by (simp add: list_cap_def word_less_nat_alt)
  define l where "l = (running_list s)\<lparr>item_cnt := item_cnt (running_list s) + 1\<rparr>"
  obtain s2 where s2: "list_append (running_list s1) src s1 = ret (l, s2)" "writes {L} s1 s2"
    "pager.more s2 = pager.more s1" "pager_live s2 = pager_live s1"
    using list_append_writes [OF l1 cap, of src] f1(1) by (auto simp: l_def L_def)
  have f2: "process_hashmap s2 = h" "process_upto s2 = process_upto s"
    "root_idx_page s2 = root_idx_page s" "lowest_free_entry s2 8 = lowest_free_entry s 8"
    "lowest_free_entry s2 6 = lowest_free_entry s1 6"
    using s2(3) f1 by (cases s1; cases s2; simp)+
  have w: "writes ({hm_start h, idx_page s 6, data_page s 6} \<union> {L}) s s2" by (rule writes_trans [OF s1(4) s2(2)])
  define s' where "s' = s2\<lparr>running_list := l, process_upto := u\<rparr>"
  have inv2: "pager_inv s2" using w by (simp add: writes_def)
  have same: "pager_same s2 s'" "kmem s' = kmem s2" by (simp_all add: s'_def pager_same_def)
  have w': "writes {L} s1 s'" using writes_trans [OF s2(2) writes_same [OF inv2 same]] by simp
  have w'': "writes ({hm_start h, idx_page s 6, data_page s 6} \<union> {L}) s s'" by (rule writes_trans [OF s1(4) w'])
  have D: "\<forall>j<3. ent s' (data_page s 8) j = ent s (data_page s 8) j"
    using writes_at [OF w''] parts(2,6) by (auto simp: slab_def table_pages_def L_def h_def)
  have I8: "idx_page s 8 \<notin> {hm_start h, idx_page s 6, data_page s 6} \<union> {L}"
    using parts(6) by (auto simp: table_pages_def L_def h_def)
  have f': "idx_page s' c = idx_page s c" "lowest_free_entry s' (of_nat 8) = lowest_free_entry s (of_nat 8)"
    "lowest_free_entry s' 6 = lowest_free_entry s1 6" "idx_page s' 6 = idx_page s1 6" for c
    using f2 f1(4) by (simp_all add: s'_def)
  note s8 = slab_writes [OF parts(2) w'' f'(1) I8 f'(2) D]
  have out: "{hm_start h, idx_page s1 6, data_page s1 6} \<inter> {L} = {}"
    using parts(6) s1(6) f1(4) by (auto simp: table_pages_def L_def h_def)
  note h' = hm_ok_writes [OF s1(2) w' f'(4,3) out]
  have "data_page s' 6 = data_page s 6"
    using writes_at [OF w', of "idx_page s1 6" 1] s1(2,6) out f'(4) by (auto simp: hm_ok_def slab_def)
  then have tp: "table_pages s' = table_pages s"
    using f'(1) [of 8] f'(1) [of 6] s8(2) f2(1) by (simp add: table_pages_def s'_def l_def h_def)
  have "list_ok l s'" using parts(4) w'' by (auto simp: list_ok_def writes_def l_def)
  then have "processes_ok s'"
    using parts s8(1) h'(1) tp w'' f2(1) by (simp add: processes_ok_def kernel_pool_def writes_def s'_def l_def)
  moreover have "\<forall>k. hashmap_get h k s' = (if k = key then ret v else hashmap_get h k s)" using h'(2) s1(3) by simp
  ultimately show ?thesis
    using that [OF s1(1) s2(1)] w s1(7) s2(4) f1(3) f2 by (simp add: s'_def insert_commute)
qed

lemma process_reserve:
  fixes s :: "'a kernel_scheme"
  assumes ok: "processes_ok s" and room: "20 < free_pages s"
  obtains ps s1 root s2 where "alloc_pages 8 s = ret (ps, s1)" and "length ps = 8" and "distinct ps"
    and "set ps \<inter> pager_live s = {}" and "process_space (ps ! 0) (drop 4 ps) s1 = ret (root, s2)"
    and "vma_tree root s2" and "\<forall>q<2 ^ 27. sv39_page root q s2 = process_map (ps ! 0) (drop 4 ps) q"
    and "pager_live s \<union> set ps \<subseteq> pager_live s2 - tables root s2"
    and "writes {} s s2" and "table_globals s s2" and "lowest_free_entry s2 = lowest_free_entry s"
    and "\<forall>q \<in> set ps. \<forall>j<512. ent s2 q j = 0"
proof -
  have inv: "pager_inv s" and kp: "kernel_pool s" using ok by (auto simp: processes_ok_def slab_def)
  obtain ps s1 where a: "alloc_pages 8 s = ret (ps, s1)" "length ps = 8" "distinct ps" "set ps \<inter> pager_live s = {}"
    "pager_live s1 = pager_live s \<union> set ps" "set ps \<subseteq> pager_pool s" "writes {} s s1" "pager.more s1 = pager.more s"
    "13 \<le> free_pages s1" "\<forall>q \<in> set ps. \<forall>j<512. ent s1 q j = 0" using alloc_pages_sound [OF inv, of 8 13] room by auto
  have inv1: "pager_inv s1" "kernel_pool s1" using a(7) kp by (auto simp: writes_def kernel_pool_def)
  have page: "kernel_page (ps ! i)" if "i < 8" for i
  proof -
    have "ps ! i \<in> set ps" using that a(2) by simp
    then show ?thesis
      using live_page_aligned [OF inv1(1), of "ps ! i"] a(5,6) kp by (auto simp: kernel_page_def kernel_pool_def)
  qed
  have st: "kernel_page (drop 4 ps ! i)" if "i < 4" for i using page [of "4 + i"] that a(2) by simp
  have tf: "kernel_page (ps ! 0)" using page [of 0] by simp
  have room1: "12 + 0 < free_pages s1" using a(9) by simp
  obtain root s2 where s2: "process_space (ps ! 0) (drop 4 ps) s1 = ret (root, s2)" "vma_tree root s2"
    "pager_pool s2 = pager_pool s1" "globals_kept s1 s2"
    "pager_live s1 \<subseteq> pager_live s2 - tables root s2" "same_tables (pager_live s1) s1 s2"
    "\<forall>q<2 ^ 27. sv39_page root q s2 = process_map (ps ! 0) (drop 4 ps) q"
    using process_space_maps [OF inv1 room1 tf st] by blast
  have w12: "writes {} s1 s2" using s2(2,3,5,6) vma_treeD(2) [OF s2(2)] by (auto simp: writes_def)
  then have w: "writes {} s s2" using writes_trans [OF a(7)] by fastforce
  have z: "\<forall>q \<in> set ps. \<forall>j<512. ent s2 q j = 0" using writes_at [OF w12] a(5,10) by simp
  have "table_globals s1 s2" "lowest_free_entry s2 = lowest_free_entry s1"
    using globals_kept_fields [OF s2(4)] by (cases s1; cases s2; simp add: table_globals_def)+
  moreover have "lowest_free_entry s1 = lowest_free_entry s" using a(8) by (cases s; cases s1) simp
  ultimately have "table_globals s s2" "lowest_free_entry s2 = lowest_free_entry s"
    using table_globals_trans [OF table_globals_more [OF a(8)]] by simp_all
  then show ?thesis using that [OF a(1-4) s2(1,2,7) _ w _ _ z] s2(5) a(5) by simp
qed

lemma bit_high_half: "bit (0xFFFFFFFF00000000 :: u64) n \<longleftrightarrow> 32 \<le> n \<and> n < 64"
proof -
  have "(0xFFFFFFFF00000000 :: u64) = push_bit 32 (mask 32)" by (simp add: mask_eq_decr_exp)
  then show ?thesis by (simp only: bit_push_bit_iff bit_mask_iff) auto
qed

lemma put32_fields: "ucast (put32 v w) = v" and put8_running: "ucast (drop_bit 16 (put8 2 v8 w)) = v8"
  for v :: u32 and v8 :: u8 and w :: u64
proof -
  show "ucast (put32 v w) = v"
    unfolding put32_def by (rule bit_word_eqI) (unfold bit_unsigned_iff bit_or_iff bit_and_iff bit_high_half, auto)
  show "ucast (drop_bit 16 (put8 2 v8 w)) = v8"
    unfolding put8_def
    by (rule bit_word_eqI) (use bit_splice [of _ w 16 v8] in \<open>simp only: bit_unsigned_iff bit_drop_bit_eq comp_def\<close>, auto)
qed

lemma alloc_pages_four:
  "alloc_pages (Suc (Suc (Suc (Suc n)))) s = ret (ps, s') \<Longrightarrow>
    \<exists>a b c d qs s1 s2 s3 s4. ps = a # b # c # d # qs \<and> pg_alloc s = ret (a, s1) \<and> pg_alloc s1 = ret (b, s2)
      \<and> pg_alloc s2 = ret (c, s3) \<and> pg_alloc s3 = ret (d, s4) \<and> alloc_pages n s4 = ret (qs, s')"
  by auto

text \<open>The stores of \<open>new_blank_process\<close> into the trap frames and the process.\<close>

lemma store_process:
  fixes s :: "'a kernel_scheme" and w :: "nat \<Rightarrow> u64"
  assumes ok: "processes_ok s" and b: "b < 15" and u: "u \<in> pager_live s" "u \<notin> set (table_pages s)"
    and k: "k \<in> pager_live s" "k \<notin> set (table_pages s)" "u \<noteq> k"
  defines "p \<equiv> block_addr s 8 b"
  defines "s' \<equiv> put_words 24 p w (set_at k 35 p (set_at u 35 p s))"
  shows "processes_ok s'" and "table_pages s' = table_pages s" and "leaf_room s' = leaf_room s"
    and "\<And>i. hashmap_get (process_hashmap s') i s' = hashmap_get (process_hashmap s) i s"
    and "writes {u, k, data_page s 8} s s'" and "table_globals s s'" and "pager_live s' = pager_live s"
    and "\<And>q j. q \<in> pager_live s \<Longrightarrow> q \<noteq> data_page s 8 \<Longrightarrow> j < 512 \<Longrightarrow>
      ent s' q j = (if j = 35 \<and> q \<in> {u, k} then p else ent s q j)"
    and "\<And>i. i < 24 \<Longrightarrow> ent s' (data_page s 8) (8 + 32 * b + i) = w i"
proof -
  let ?D = "data_page s 8"
  have inv: "pager_inv s" and D: "?D \<in> pager_live s" "?D \<in> set (table_pages s)"
    using ok by (auto simp: processes_ok_def slab_def table_pages_def)
  define s1 where "s1 = set_at u (of_nat 35) p s"
  define s2 where "s2 = set_at k (of_nat 35) p s1"
  have j: "35 < (512 :: nat)" by simp
  note e1 = set_at_inv [OF inv u(1) j, of p, folded s1_def] and w1 = writes_set_at [OF inv u(1) j, of p, folded s1_def]
  have k1: "k \<in> pager_live s1" using k e1 by simp
  note e2 = set_at_inv [OF e1(1) k1 j, of p, folded s2_def] and w2 = writes_set_at [OF e1(1) k1 j, of p, folded s2_def]
  have D2: "?D \<in> pager_live s2" "8 + 32 * b + 24 \<le> 512" using D e1 e2 b by simp_all
  have s': "s' = put_words 24 (?D + 8 * of_nat (8 + 32 * b)) w s2"
    by (simp add: s'_def s2_def s1_def p_def process_word del: of_nat_add of_nat_mult)
  have pw: "writes {?D} s2 s'" "pager_live s' = pager_live s2" "pager.more s' = pager.more s2"
    "\<And>j. j < 512 \<Longrightarrow> ent s' ?D j = (if 8 + 32 * b \<le> j \<and> j < 8 + 32 * b + 24 then w (j - (8 + 32 * b)) else ent s2 ?D j)"
    using put_words_writes [OF e2(1) D2, of w] unfolding s' [symmetric] by blast+
  have W: "writes ({u} \<union> {k} \<union> {?D}) s s'" by (rule writes_trans [OF writes_trans [OF w1 w2] pw(1)])
  then show "writes {u, k, ?D} s s'" by (simp add: insert_commute)
  have more: "pager.more s' = pager.more s" using pw(3) by (simp add: s2_def s1_def)
  show g: "table_globals s s'" by (rule table_globals_more [OF more])
  have low: "lowest_free_entry s' 8 = lowest_free_entry s 8" using more by (cases s; cases s') simp
  show "pager_live s' = pager_live s" using pw(2) e1 e2 by simp
  have ne: "u \<noteq> ?D" "k \<noteq> ?D" using u(2) k(2) D(2) by auto
  have head: "\<forall>j<3. ent s' ?D j = ent s ?D j"
    using pw(4) writes_at [OF writes_trans [OF w1 w2], of ?D] D(1) ne by auto
  have out: "({u} \<union> {k} \<union> {?D}) \<inter> set (table_pages s) \<subseteq> {?D}" using u(2) k(2) by auto
  note r = processes_ok_writes [OF ok W g low out head]
  show "processes_ok s'" "table_pages s' = table_pages s" "leaf_room s' = leaf_room s"
    "\<And>i. hashmap_get (process_hashmap s') i s' = hashmap_get (process_hashmap s) i s" by (rule r)+
  show "\<And>i. i < 24 \<Longrightarrow> ent s' ?D (8 + 32 * b + i) = w i" using pw(4) b by (simp del: of_nat_add)
  show "ent s' q i = (if i = 35 \<and> q \<in> {u, k} then p else ent s q i)" if q: "q \<in> pager_live s" "q \<noteq> ?D" "i < 512" for q i
  proof -
    have q': "q \<in> pager_live s1" "q \<in> pager_live s2" using q(1) e1 e2 by simp_all
    have "ent s' q i = ent s2 q i" using writes_at [OF pw(1) q'(2) _ q(3)] q(2) by simp
    also have "\<dots> = (if k = q \<and> 35 = i then p else ent s1 q i)" unfolding s2_def by (rule at_set_at [OF e1(1) k1 q'(1) j q(3)])
    also have "ent s1 q i = (if u = q \<and> 35 = i then p else ent s q i)" unfolding s1_def by (rule at_set_at [OF inv u(1) q(1) j q(3)])
    finally show ?thesis by auto
  qed
qed

lemma process_words:
  "new_process stack n u k f d [a0, a1, a2, a3] r t 0 = put32 (ucast n) (stack 0)"
  "new_process stack n u k f d [a0, a1, a2, a3] r t 3 = u" "new_process stack n u k f d [a0, a1, a2, a3] r t 4 = k"
  "new_process stack n u k f d [a0, a1, a2, a3] r t 6 = t" "new_process stack n u k f d [a0, a1, a2, a3] r t 7 = U64_MAX"
  "new_process stack n u k f d [a0, a1, a2, a3] r t 10 = put8 2 0 (stack 10)"
  "new_process stack n u k f d [a0, a1, a2, a3] r t 13 = put32 PROC_TYPE_NORMAL (stack 13)"
  "new_process stack n u k f d [a0, a1, a2, a3] r t 14 = a0" "new_process stack n u k f d [a0, a1, a2, a3] r t 15 = a1"
  "new_process stack n u k f d [a0, a1, a2, a3] r t 16 = a2" "new_process stack n u k f d [a0, a1, a2, a3] r t 17 = a3"
  "new_process stack n u k f d [a0, a1, a2, a3] r t 20 = U64_MAX"
  by (simp_all add: new_process_def eval_nat_numeral)

text \<open>A process as \<open>new_blank_process\<close> leaves it.\<close>

definition blank_process :: "u64 \<Rightarrow> u64 \<Rightarrow> 'a kernel_scheme \<Rightarrow> bool" where
  "blank_process pid p s \<longleftrightarrow>
     process_id s p = ucast pid \<and> process_type s p = PROC_TYPE_NORMAL \<and> running s p = 0
     \<and> at s p 7 = U64_MAX \<and> at s p 20 = U64_MAX \<and> at s (at s p 3) 35 = p \<and> at s (at s p 4) 35 = p
     \<and> vma_tree (at s p 6) s
     \<and> (\<forall>q<2 ^ 27. sv39_page (at s p 6) q s = process_map (at s p 3) [at s p 14, at s p 15, at s p 16, at s p 17] q)"

text \<open>The run of the function, from the runs of the parts it calls.\<close>

lemma new_blank_process_run:
  assumes free: "hashmap_get (process_hashmap s) (process_upto s) s = ret 0"
    and al: "alloc_pages 8 s = ret ([u, k, f, d, a0, a1, a2, a3], s1)"
    and sp: "process_space u [a0, a1, a2, a3] s1 = ret (root, s2)" and bl: "mem_alloc 192 s2 = ret (p, s3)"
    and g: "process_upto s3 = process_upto s" "root_dentry_folder s3 = root_dentry_folder s"
    and s4: "s4 = put_words 24 p (new_process stack (process_upto s) u k f d [a0, a1, a2, a3] (root_dentry_folder s) root)
      (set_at k 35 p (set_at u 35 p s3))"
    and ins: "hashmap_insert (process_hashmap s4) (process_upto s) p s4 = ret (0, s5)"
    and app: "list_append (running_list s5) p s5 = ret (l, s6)"
    and up: "process_upto s4 = process_upto s" "process_upto s5 = process_upto s" "process_upto s6 = process_upto s"
  shows "new_blank_process stack s = ret (p, s6\<lparr>running_list := l, process_upto := process_upto s + 1\<rparr>)"
proof -
  have "find_process_id s = ret ((), s)" using free by (subst find_process_id.simps) simp
  moreover obtain x1 x2 x3 x4 where "pg_alloc s = ret (u, x1)" "pg_alloc x1 = ret (k, x2)" "pg_alloc x2 = ret (f, x3)"
    "pg_alloc x3 = ret (d, x4)" "alloc_pages 4 x4 = ret ([a0, a1, a2, a3], s1)"
    using alloc_pages_four [of 4 s _ s1] al by auto
  moreover have "process_upto (set_at k 35 p (set_at u 35 p s3)) = process_upto s"
    "root_dentry_folder (set_at k 35 p (set_at u 35 p s3)) = root_dentry_folder s"
    using g by (simp_all add: set_at_def)
  ultimately show ?thesis using sp bl ins app up s4 by (simp add: new_blank_process_def Let_def)
qed

lemma blank_process_words:
  assumes words: "\<And>i. i < 24 \<Longrightarrow> at s p (of_nat i) = new_process stack pid u k f d [a0, a1, a2, a3] dentry root i"
    and "at s u 35 = p" and "at s k 35 = p" and "vma_tree root s"
    and "\<forall>q<2 ^ 27. sv39_page root q s = process_map u [a0, a1, a2, a3] q"
  shows "blank_process pid p s"
  using assms(2-5) words [of 0] words [of 3] words [of 4] words [of 6] words [of 7] words [of 10] words [of 13]
    words [of 14] words [of 15] words [of 16] words [of 17] words [of 20]
  by (simp add: blank_process_def process_words at32_def running_def put32_fields put8_running)

text \<open>Everything the function takes from the two allocators, and what that leaves alone.\<close>

lemma reserve_process:
  fixes s :: "'a kernel_scheme"
  assumes ok: "processes_ok s" and room: "process_room s"
  obtains u k f d a0 a1 a2 a3 s1 root s2 b s3 where
    "alloc_pages 8 s = ret ([u, k, f, d, a0, a1, a2, a3], s1)"
    and "process_space u [a0, a1, a2, a3] s1 = ret (root, s2)"
    and "b < 15" and "mem_alloc 192 s2 = ret (block_addr s3 8 b, s3)"
    and "processes_ok s3" and "table_pages s3 = table_pages s" and "leaf_room s3 = leaf_room s"
    and "\<forall>i. hashmap_get (process_hashmap s3) i s3 = hashmap_get (process_hashmap s) i s"
    and "table_globals s s3" and "writes {idx_page s 8} s s3"
    and "distinct [u, k, f, d, a0, a1, a2, a3]" and "set [u, k, f, d, a0, a1, a2, a3] \<inter> pager_live s = {}"
    and "pager_live s \<union> set [u, k, f, d, a0, a1, a2, a3] \<subseteq> pager_live s3 - tables root s3"
    and "vma_tree root s3" and "\<forall>q<2 ^ 27. sv39_page root q s3 = process_map u [a0, a1, a2, a3] q"
    and "\<forall>q \<in> set [u, k, f, d, a0, a1, a2, a3]. \<forall>j<512. ent s3 q j = 0" and "\<not> block_used s 8 b" and "block_used s3 8 b"
proof -
  have r: "20 < free_pages s" "\<exists>b<15. \<not> block_used s 8 b" using room by (auto simp: process_room_def)
  obtain ps s1 root s2 where a: "alloc_pages 8 s = ret (ps, s1)" "length ps = 8" "distinct ps"
    "set ps \<inter> pager_live s = {}" "process_space (ps ! 0) (drop 4 ps) s1 = ret (root, s2)"
    "vma_tree root s2" "\<forall>q<2 ^ 27. sv39_page root q s2 = process_map (ps ! 0) (drop 4 ps) q"
    "pager_live s \<union> set ps \<subseteq> pager_live s2 - tables root s2"
    "writes {} s s2" "table_globals s s2" "lowest_free_entry s2 = lowest_free_entry s"
    "\<forall>q \<in> set ps. \<forall>j<512. ent s2 q j = 0"
    by (rule process_reserve [OF ok r(1)])
  obtain u k f d a0 a1 a2 a3 where ps: "ps = [u, k, f, d, a0, a1, a2, a3]"
    using a(2) by (auto simp: length_Suc_conv eval_nat_numeral)
  have tl: "set (table_pages s) \<subseteq> pager_live s" by (rule table_pages_live [OF ok])
  have head: "\<forall>j<3. ent s2 (data_page s 8) j = ent s (data_page s 8) j"
    using writes_at [OF a(9), of "data_page s 8"] tl by (simp add: table_pages_def)
  note ok2 = processes_ok_writes [OF ok a(9,10) _ _ head]
  have ok2: "processes_ok s2" "table_pages s2 = table_pages s" "leaf_room s2 = leaf_room s"
    "\<And>k. hashmap_get (process_hashmap s2) k s2 = hashmap_get (process_hashmap s) k s"
    "\<And>b. b < 15 \<Longrightarrow> block_used s2 8 b \<longleftrightarrow> block_used s 8 b"
    using ok2 a(11) by simp_all
  have "slab s2 8" using ok2(1) by (simp add: processes_ok_def)
  moreover have "\<exists>b<blocks 8. \<not> block_used s2 8 b" using r(2) ok2(5) by auto
  moreover have "fits_class (unat (192 :: u64)) 8" using fits_192 by simp
  ultimately obtain b where b: "b < 15" "mem_alloc 192 s2 = ret (block_addr s2 8 b, take_block s2 8 b)" "\<not> block_used s2 8 b"
    using mem_alloc_block [of s2 8 192] by auto
  define s3 where "s3 = take_block s2 8 b"
  note t = processes_ok_block [OF ok2(1) b(1), folded s3_def]
  have I8: "idx_page s2 8 = idx_page s 8" by (rule table_pages_same(1) [OF ok2(2)])
  have "{idx_page s2 8} \<inter> tables root s2 = {}" using a(8) tl unfolding I8 by (auto simp: table_pages_def)
  note tree = vma_tree_writes [OF a(6) t(5) this]
  have "block_addr s2 8 b = block_addr s3 8 b"
    using table_pages_same(2) [OF t(2)] by (simp only: block_addr_def)
  then have bl: "mem_alloc 192 s2 = ret (block_addr s3 8 b, s3)" using b(2) by (simp add: s3_def)
  have w: "writes {idx_page s 8} s s3" using writes_trans [OF a(9) t(5)] unfolding I8 by simp
  have al: "alloc_pages 8 s = ret ([u, k, f, d, a0, a1, a2, a3], s1)"
    and sp: "process_space u [a0, a1, a2, a3] s1 = ret (root, s2)" using a(1,5) by (simp_all add: ps)
  have m: "\<forall>q<2 ^ 27. sv39_page root q s3 = process_map u [a0, a1, a2, a3] q" using a(7) tree(2) by (simp add: ps)
  have live: "pager_live s \<union> set ps \<subseteq> pager_live s3 - tables root s3" using a(8) t(7) tree(3) by simp
  have z: "\<forall>q \<in> set ps. \<forall>j<512. ent s3 q j = 0"
  proof (intro ballI allI impI)
    fix q j
    assume q: "q \<in> set ps" and j: "j < (512 :: nat)"
    have "q \<in> pager_live s2" "q \<notin> {idx_page s2 8}" using q a(4,8) tl unfolding I8 by (auto simp: table_pages_def)
    from writes_at [OF t(5) this j] show "ent s3 q j = 0" using a(12) q j by simp
  qed
  have "slab s2 8" using ok2(1) by (simp add: processes_ok_def)
  from take_block_slab(3) [OF this, of b b] have used: "block_used s3 8 b" using b(1) by (simp add: s3_def)
  have free: "\<not> block_used s 8 b" using b(1,3) ok2(5) by simp
  have same: "table_pages s3 = table_pages s" "leaf_room s3 = leaf_room s"
    "\<forall>i. hashmap_get (process_hashmap s3) i s3 = hashmap_get (process_hashmap s) i s" using t(2,3,4) ok2(2-4) by simp_all
  show thesis
    by (rule that [OF al sp b(1) bl t(1) same table_globals_trans [OF a(10) t(6)] w a(3) [unfolded ps] a(4) [unfolded ps]
        live [unfolded ps] tree(1) m z [unfolded ps] free used])
qed

text \<open>
  What the function leaves behind: \<open>p\<close> is block \<open>b\<close> of the class of 256 bytes, free before, with the
  words of the struct; the eight pages are distinct, were not in use, are no page tables, and hold zeros
  but for the pointers from the two trap frames back to the process.
\<close>

definition made_process ::
  "(nat \<Rightarrow> u64) \<Rightarrow> u64 \<Rightarrow> 'a kernel_scheme \<Rightarrow> u64 \<Rightarrow> 'a kernel_scheme \<Rightarrow> nat \<Rightarrow> u64 list \<Rightarrow> u64 \<Rightarrow> bool" where
  "made_process stack pid s p s' b ps root \<longleftrightarrow>
     b < 15 \<and> p = block_addr s 8 b \<and> \<not> block_used s 8 b \<and> block_used s' 8 b
     \<and> length ps = 8 \<and> distinct ps \<and> set ps \<inter> pager_live s = {}
     \<and> pager_live s \<union> set ps \<subseteq> pager_live s' - tables root s'
     \<and> (\<forall>i<24. at s' p (of_nat i) =
          new_process stack pid (ps ! 0) (ps ! 1) (ps ! 2) (ps ! 3) (drop 4 ps) (root_dentry_folder s) root i)
     \<and> (\<forall>q \<in> set ps. \<forall>j<512. ent s' q j = (if j = 35 \<and> q \<in> {ps ! 0, ps ! 1} then p else 0))
     \<and> vma_tree root s' \<and> (\<forall>q<2 ^ 27. sv39_page root q s' = process_map (ps ! 0) (drop 4 ps) q)"

lemma new_blank_process_creates:
  fixes s :: "'a kernel_scheme"
  assumes ok: "processes_ok s" and room: "process_room s"
    and free: "hashmap_get (process_hashmap s) (process_upto s) s = ret 0"
  obtains p s' b ps root where "new_blank_process stack s = ret (p, s')" and "processes_ok s'"
    and "\<forall>k. hashmap_get (process_hashmap s') k s' =
      (if k = process_upto s then ret p else hashmap_get (process_hashmap s) k s)"
    and "process_upto s' = process_upto s + 1" and "made_process stack (process_upto s) s p s' b ps root"
    and "writes (set (table_pages s)) s s'"
proof -
  obtain u k f d a0 a1 a2 a3 s1 root s2 b s3 where
    al: "alloc_pages 8 s = ret ([u, k, f, d, a0, a1, a2, a3], s1)"
    and sp: "process_space u [a0, a1, a2, a3] s1 = ret (root, s2)"
    and b: "b < 15" and bl: "mem_alloc 192 s2 = ret (block_addr s3 8 b, s3)"
    and t: "processes_ok s3" "table_pages s3 = table_pages s" "leaf_room s3 = leaf_room s"
      "\<forall>i. hashmap_get (process_hashmap s3) i s3 = hashmap_get (process_hashmap s) i s"
      "table_globals s s3" "writes {idx_page s 8} s s3"
    and new: "distinct [u, k, f, d, a0, a1, a2, a3]" "set [u, k, f, d, a0, a1, a2, a3] \<inter> pager_live s = {}"
      "pager_live s \<union> set [u, k, f, d, a0, a1, a2, a3] \<subseteq> pager_live s3 - tables root s3"
    and tree3: "vma_tree root s3" "\<forall>q<2 ^ 27. sv39_page root q s3 = process_map u [a0, a1, a2, a3] q"
    and z3: "\<forall>q \<in> set [u, k, f, d, a0, a1, a2, a3]. \<forall>j<512. ent s3 q j = 0" and bu: "\<not> block_used s 8 b" "block_used s3 8 b"
    by (rule reserve_process [OF ok room])
  have uk: "u \<noteq> k" "{u, k} \<inter> pager_live s = {}" "pager_live s \<union> {u, k} \<subseteq> pager_live s3 - tables root s3" using new by auto
  have tl: "set (table_pages s) \<subseteq> pager_live s" by (rule table_pages_live [OF ok])
  have out: "u \<in> pager_live s3" "u \<notin> set (table_pages s3)" "k \<in> pager_live s3" "k \<notin> set (table_pages s3)"
    using uk tl t(2) by auto
  define p where "p = block_addr s3 8 b"
  have g3: "process_upto s3 = process_upto s" "root_dentry_folder s3 = root_dentry_folder s"
    "process_hashmap s3 = process_hashmap s" "running_list s3 = running_list s"
    using t(5) by (auto simp: table_globals_def)
  define w where "w = new_process stack (process_upto s) u k f d [a0, a1, a2, a3] (root_dentry_folder s) root"
  define s4 where "s4 = put_words 24 p w (set_at k 35 p (set_at u 35 p s3))"
  note st = store_process [OF t(1) b out uk(1), where w = w, folded p_def, folded s4_def]
  have g4: "process_upto s4 = process_upto s" "process_hashmap s4 = process_hashmap s" "running_list s4 = running_list s"
    using st(6) g3 by (auto simp: table_globals_def)
  have room4: "0 < leaf_room s4" "item_cnt (running_list s4) < 511"
    using room st(3) t(3) g4 by (simp_all add: process_room_def)
  obtain s5 s6 l where
    ins: "hashmap_insert (process_hashmap s4) (process_upto s) p s4 = ret (0, s5)"
    and app: "list_append (running_list s5) p s5 = ret (l, s6)"
    and fin: "processes_ok (s6\<lparr>running_list := l, process_upto := process_upto s + 1\<rparr>)"
      "writes {hm_start (process_hashmap s4), idx_page s4 6, data_page s4 6, first_section (running_list s4)} s4 s6"
      "pager_live s6 = pager_live s4" "process_hashmap s6 = process_hashmap s4"
      "\<forall>i. hashmap_get (process_hashmap s4) i (s6\<lparr>running_list := l, process_upto := process_upto s + 1\<rparr>) =
        (if i = process_upto s then ret p else hashmap_get (process_hashmap s4) i s4)"
      "process_upto s5 = process_upto s4" "process_upto s6 = process_upto s4" "root_idx_page s6 = root_idx_page s4"
    by (rule publish_process [OF st(1) room4])
  define s' where "s' = s6\<lparr>running_list := l, process_upto := process_upto s + 1\<rparr>"
  have up: "process_upto s5 = process_upto s" "process_upto s6 = process_upto s" using fin(6,7) g4(1) by simp_all
  have run: "new_blank_process stack s = ret (p, s')" unfolding s'_def
    by (rule new_blank_process_run [OF free al sp bl [folded p_def] g3(1,2) s4_def [unfolded w_def] ins app g4(1) up])
  define D V where "D = data_page s 8"
    and "V = {hm_start (process_hashmap s), idx_page s 6, data_page s 6, first_section (running_list s)}"
  have tp: "table_pages s4 = table_pages s" using st(2) t(2) by simp
  have w36: "writes V s4 s'"
  proof -
    have "pager_inv s6" using fin(2) by (simp add: writes_def)
    then have "writes {} s6 s'" by (rule writes_same) (simp_all add: s'_def pager_same_def)
    from writes_trans [OF fin(2) this] show ?thesis
      unfolding table_pages_same(4) [OF tp] unfolding table_pages_same(3,5,6) [OF tp] V_def by simp
  qed
  have D3: "data_page s3 8 = D" unfolding D_def by (rule table_pages_same(2) [OF t(2)])
  have w3: "writes ({u, k, D} \<union> V) s3 s'" by (rule writes_trans [OF st(5) [unfolded D3] w36])
  have T: "set (table_pages s) = {idx_page s 8, D} \<union> V" by (auto simp: table_pages_def V_def D_def)
  have W: "writes (set (table_pages s)) s s'"
    by (rule writes_fresh [OF writes_trans [OF t(6) w3]]) (use T uk(2) in auto)
  have "({u, k, D} \<union> V) \<inter> tables root s3 = {}" using uk(3) tl T by blast
  note tree = vma_tree_writes [OF tree3(1) w3 this]
  have "distinct (table_pages s)" using ok by (simp add: processes_ok_def)
  then have live4: "D \<in> pager_live s4" "D \<notin> V" "u \<in> pager_live s4" "u \<notin> V" "k \<in> pager_live s4" "k \<notin> V"
    using tl T uk(2,3) st(7) by (auto simp: table_pages_def V_def D_def)
  have words: "at s' p (of_nat i) = w i" if "i < 24" for i
  proof -
    have lt: "8 + 32 * b + i < 512" using b that by simp
    have "at s' p (of_nat i) = ent s' D (8 + 32 * b + i)" unfolding p_def process_word D3 by (rule at_offset)
    also have "\<dots> = ent s4 D (8 + 32 * b + i)" by (rule writes_at [OF w36 live4(1,2) lt])
    finally show ?thesis using st(9) [OF that] D3 by simp
  qed
  define ps where "ps = [u, k, f, d, a0, a1, a2, a3]"
  have psn: "ps ! 0 = u" "ps ! 1 = k" "ps ! 2 = f" "ps ! 3 = d" "drop 4 ps = [a0, a1, a2, a3]" "length ps = 8"
    by (simp_all add: ps_def)
  have pages: "distinct ps" "set ps \<inter> pager_live s = {}" "pager_live s \<union> set ps \<subseteq> pager_live s3 - tables root s3"
    using new by (simp_all only: ps_def)
  have out': "q \<in> pager_live s3" "q \<in> pager_live s4" "q \<notin> insert D V" if "q \<in> set ps" for q
    using that pages(2,3) tl T st(7) by auto
  have content: "ent s' q j = (if j = 35 \<and> q \<in> {u, k} then p else 0)" if q: "q \<in> set ps" and j: "j < 512" for q j
  proof -
    have "ent s' q j = ent s4 q j" using writes_at [OF w36 out'(2) [OF q] _ j] out'(3) [OF q] by blast
    also have "\<dots> = (if j = 35 \<and> q \<in> {u, k} then p else ent s3 q j)"
      by (rule st(8) [OF out'(1) [OF q] _ j]) (use out'(3) [OF q] D3 in simp)
    finally show ?thesis using z3 [folded ps_def] q j by auto
  qed
  have live': "pager_live s \<union> set ps \<subseteq> pager_live s' - tables root s'"
    using pages(3) tree(3) w3 by (auto simp: writes_def)
  have "block_used s' 8 b"
  proof -
    have i3: "idx_page s3 8 = idx_page s 8" "idx_page s' 8 = idx_page s 8" "idx_page s 8 \<in> pager_live s3"
      using table_pages_same(1) [OF t(2)] tl uk(3) st(6) fin(8) t(5) by (auto simp: table_pages_def table_globals_def s'_def)
    have "idx_page s 8 \<notin> {u, k, D} \<union> V" using \<open>distinct (table_pages s)\<close> uk(2) tl by (auto simp: table_pages_def V_def D_def)
    from writes_at [OF w3 i3(3) this, of 2] have "at s' (idx_page s 8) 2 = at s3 (idx_page s 8) 2" by simp
    then show ?thesis using bu(2) b i3 by (simp add: block_used_def)
  qed
  moreover have "p = block_addr s 8 b" unfolding p_def block_addr_def table_pages_same(2) [OF t(2)] ..
  ultimately have "made_process stack (process_upto s) s p s' b ps root"
    unfolding made_process_def psn w_def [symmetric]
    using b bu(1) psn(6) pages words content tree tree3(2) live' by simp
  moreover have "hashmap_get (process_hashmap s') i s' =
      (if i = process_upto s then ret p else hashmap_get (process_hashmap s) i s)" for i
    using fin(5) fin(4) st(4) t(4) g4 by (simp add: s'_def)
  ultimately show ?thesis using that [OF run] fin(1) W by (simp add: s'_def)
qed

section \<open>A free process number\<close>

text \<open>Every key the map knows is in one of its 63 leaves.\<close>

lemma bucket_lookup_key:
  "bucket_lookup (bucket_pairs s bs) k \<noteq> 0 \<Longrightarrow> \<exists>b \<in> set bs. at s (leaf_at s b) 1 = k"
proof (induction bs)
  case Nil
  then show ?case by (simp add: bucket_lookup_def bucket_pairs_def)
next
  case (Cons b bs)
  then show ?case unfolding bucket_pairs_Cons by (auto split: if_splits)
qed

lemma known_key:
  assumes "hm_ok h s" and "hashmap_get h k s \<noteq> ret 0"
  shows "k \<in> (\<lambda>b. at s (leaf_at s b) 1) ` {..<63}"
proof -
  obtain bs where bs: "leaf_chain s (at s (hm_start h) (of_nat (bucket k))) bs"
    using assms(1) bucket_lt unfolding hm_ok_def by blast
  have "bucket_lookup (bucket_pairs s bs) k \<noteq> 0" using hashmap_get_bucket [OF assms(1) bs] assms(2) by auto
  from bucket_lookup_key [OF this] show ?thesis using bs by (auto simp: leaf_chain_def)
qed

lemma hashmap_get_returns:
  assumes "hm_ok h s"
  obtains v where "hashmap_get h k s = ret v"
proof -
  obtain bs where "leaf_chain s (at s (hm_start h) (of_nat (bucket k))) bs"
    using assms bucket_lt unfolding hm_ok_def by blast
  from hashmap_get_bucket [OF assms this] show thesis by (rule that)
qed

lemma free_id:
  assumes "hm_ok h s"
  obtains j where "j < 64" and "hashmap_get h (u + of_nat j) s = ret 0" and "\<forall>i<j. hashmap_get h (u + of_nat i) s \<noteq> ret 0"
proof -
  define f where "f = (\<lambda>j. u + (of_nat j :: u64))"
  have inj: "inj_on f {..<64}"
  proof (rule inj_onI)
    fix i j assume "i \<in> {..<64 :: nat}" "j \<in> {..<64 :: nat}" "f i = f j"
    then have "(of_nat i :: u64) = of_nat j" "i < 2 ^ 64" "j < 2 ^ 64" by (simp_all add: f_def)
    then show "i = j" using unat_small [of i] unat_small [of j] by metis
  qed
  have "\<exists>j<64. hashmap_get h (f j) s = ret 0"
  proof (rule ccontr)
    assume "\<not> (\<exists>j<64. hashmap_get h (f j) s = ret 0)"
    then have "f ` {..<64} \<subseteq> (\<lambda>b. at s (leaf_at s b) 1) ` {..<63}" using known_key [OF assms] by blast
    from card_mono [OF _ this] have "card (f ` {..<64}) \<le> card ((\<lambda>b. at s (leaf_at s b) 1) ` {..<63})" by simp
    also have "\<dots> \<le> card {..<63 :: nat}" by (rule card_image_le) simp
    finally have "card (f ` {..<64}) \<le> 63" by simp
    then show False using card_image [OF inj] by simp
  qed
  then obtain k where k: "k < 64" "hashmap_get h (f k) s = ret 0" by blast
  define j where "j = (LEAST j. hashmap_get h (f j) s = ret 0)"
  have "hashmap_get h (f j) s = ret 0" unfolding j_def by (rule LeastI [where P = "\<lambda>j. hashmap_get h (f j) s = ret 0", OF k(2)])
  moreover have "\<forall>i<j. hashmap_get h (f i) s \<noteq> ret 0" unfolding j_def by (auto dest: not_less_Least)
  moreover have "j < 64" using Least_le [where P = "\<lambda>j. hashmap_get h (f j) s = ret 0", OF k(2)] k(1) by (simp add: j_def)
  ultimately show thesis using that by (simp add: f_def)
qed

lemma processes_upto:
  fixes s :: "'a kernel_scheme" and v :: u64
  assumes ok: "processes_ok s"
  defines "s' \<equiv> s\<lparr>process_upto := v\<rparr>"
  shows "processes_ok s'" and "table_pages s' = table_pages s" and "process_room s' \<longleftrightarrow> process_room s"
    and "hashmap_get (process_hashmap s) k s' = hashmap_get (process_hashmap s) k s" and "writes {} s s'"
    and "b < 15 \<Longrightarrow> block_used s' 8 b \<longleftrightarrow> block_used s 8 b" and "pager_live s' = pager_live s" and "block_addr s' 8 b = block_addr s 8 b"
proof -
  have parts: "kernel_pool s" "slab s 8" "hm_ok (process_hashmap s) s" "list_ok (running_list s) s"
    "item_size (running_list s) = 8" "distinct (table_pages s)" using ok by (auto simp: processes_ok_def)
  have inv: "pager_inv s" using parts(2) by (simp add: slab_def)
  have same: "pager_same s s'" "kmem s' = kmem s" by (simp_all add: s'_def pager_same_def)
  show w: "writes {} s s'" by (rule writes_same [OF inv same])
  have glob: "root_idx_page s' = root_idx_page s" "lowest_free_entry s' = lowest_free_entry s" "process_hashmap s' = process_hashmap s"
    "running_list s' = running_list s" by (simp_all add: s'_def)
  have at: "at s' q i = at s q i" for q i by (simp add: at_def same(2))
  show used: "block_used s' 8 b \<longleftrightarrow> block_used s 8 b" for b by (simp add: block_used_def at glob)
  show "block_addr s' 8 b = block_addr s 8 b" by (simp add: block_addr_def at glob)
  have "lowest_free_entry s' (of_nat 8) = lowest_free_entry s (of_nat 8)" "idx_page s 8 \<notin> {}" by (simp_all add: glob)
  note s8 = slab_writes [OF parts(2) w _ this(2,1)]
  note h = hm_ok_writes [OF parts(3) w]
  show "table_pages s' = table_pages s" by (simp add: table_pages_def at glob)
  moreover have "list_ok (running_list s) s'" using parts(4) w by (auto simp: list_ok_def writes_def)
  ultimately show "processes_ok s'"
    using parts w s8(1) h(1) by (simp add: processes_ok_def glob at kernel_pool_def writes_def)
  show "hashmap_get (process_hashmap s) k s' = hashmap_get (process_hashmap s) k s" by (rule h(2)) (simp_all add: glob)
  show "process_room s' \<longleftrightarrow> process_room s"
    using pager_same_inv(2,4) [OF same(1) inv] h(3) used by (simp add: process_room_def glob)
  show "pager_live s' = pager_live s" by (rule pager_same_inv(4) [OF same(1) inv])
qed

lemma find_process_id_finds:
  fixes s :: "'a kernel_scheme"
  assumes ok: "processes_ok s"
  obtains j where "hashmap_get (process_hashmap s) (process_upto s + of_nat j) s = ret 0"
    and "\<forall>i<j. hashmap_get (process_hashmap s) (process_upto s + of_nat i) s \<noteq> ret 0"
    and "find_process_id s = find_process_id (s\<lparr>process_upto := process_upto s + of_nat j\<rparr>)"
proof -
  have hm: "hm_ok (process_hashmap s) s" using ok by (simp add: processes_ok_def)
  obtain j where j: "hashmap_get (process_hashmap s) (process_upto s + of_nat j) s = ret 0"
    "\<forall>i<j. hashmap_get (process_hashmap s) (process_upto s + of_nat i) s \<noteq> ret 0" by (rule free_id [OF hm])
  have "find_process_id s = find_process_id (s\<lparr>process_upto := process_upto s + of_nat i\<rparr>)" if "i \<le> j" for i
    using that
  proof (induction i)
    case (Suc i)
    let ?s = "s\<lparr>process_upto := process_upto s + of_nat i\<rparr>"
    have g: "hashmap_get (process_hashmap s) k ?s = hashmap_get (process_hashmap s) k s" for k by (rule processes_upto(4) [OF ok])
    obtain v where v: "hashmap_get (process_hashmap s) (process_upto s + of_nat i) s = ret v" "v \<noteq> 0"
      using hashmap_get_returns [OF hm] j(2) Suc.prems by (metis Suc_le_eq)
    have "find_process_id ?s = find_process_id (?s\<lparr>process_upto := process_upto ?s + 1\<rparr>)"
      by (subst find_process_id.simps) (simp add: g v)
    then show ?case using Suc by (simp add: ac_simps)
  qed simp
  then show thesis using that [OF j] by blast
qed

text \<open>A call starts over from the free number the search ends at.\<close>

lemma new_blank_process_from:
  fixes s :: "'a kernel_scheme"
  assumes ok: "processes_ok s"
  obtains j where "hashmap_get (process_hashmap s) (process_upto s + of_nat j) s = ret 0"
    and "\<forall>i<j. hashmap_get (process_hashmap s) (process_upto s + of_nat i) s \<noteq> ret 0"
    and "new_blank_process stack s = new_blank_process stack (s\<lparr>process_upto := process_upto s + of_nat j\<rparr>)"
proof -
  obtain j where j: "hashmap_get (process_hashmap s) (process_upto s + of_nat j) s = ret 0"
    "\<forall>i<j. hashmap_get (process_hashmap s) (process_upto s + of_nat i) s \<noteq> ret 0"
    "find_process_id s = find_process_id (s\<lparr>process_upto := process_upto s + of_nat j\<rparr>)" by (rule find_process_id_finds [OF ok])
  show thesis by (rule that [OF j(1,2)]) (simp add: new_blank_process_def j(3))
qed

text \<open>The pages a process refers to: the three trap frames, the first page of descriptors, the stack.\<close>

definition process_pages :: "'a machine_scheme \<Rightarrow> u64 \<Rightarrow> u64 list" where
  "process_pages s p = [at s p 3, at s p 4, at s p 5, at s p 8, at s p 14, at s p 15, at s p 16, at s p 17]"

lemma made_process_list:
  assumes "made_process stack pid s p s' b ps root"
  obtains u k f d a0 a1 a2 a3 where "ps = [u, k, f, d, a0, a1, a2, a3]"
    and "\<And>i. i < 24 \<Longrightarrow> at s' p (of_nat i) = new_process stack pid u k f d [a0, a1, a2, a3] (root_dentry_folder s) root i"
proof -
  have "length ps = 8" using assms unfolding made_process_def by blast
  then obtain u k f d a0 a1 a2 a3 where ps: "ps = [u, k, f, d, a0, a1, a2, a3]"
    by (auto simp: length_Suc_conv eval_nat_numeral)
  have "\<forall>i<24. at s' p (of_nat i) =
      new_process stack pid (ps ! 0) (ps ! 1) (ps ! 2) (ps ! 3) (drop 4 ps) (root_dentry_folder s) root i"
    using assms unfolding made_process_def by blast
  then show thesis using that [OF ps] by (simp add: ps)
qed

lemma made_process_pages:
  assumes "made_process stack pid s p s' b ps root"
  shows "process_pages s' p = ps" and "at s' p 6 = root"
proof -
  obtain u k f d a0 a1 a2 a3 where ps: "ps = [u, k, f, d, a0, a1, a2, a3]"
    and w: "\<And>i. i < 24 \<Longrightarrow> at s' p (of_nat i) = new_process stack pid u k f d [a0, a1, a2, a3] (root_dentry_folder s) root i"
    by (rule made_process_list [OF assms]) (rule that)
  show "process_pages s' p = ps" "at s' p 6 = root"
    using w [of 3] w [of 4] w [of 5] w [of 6] w [of 8] w [of 14] w [of 15] w [of 16] w [of 17]
    by (simp_all add: process_pages_def ps process_words) (simp_all add: new_process_def)
qed

lemma made_process_blank:
  assumes "made_process stack pid s p s' b ps root"
  shows "blank_process pid p s'"
proof -
  obtain u k f d a0 a1 a2 a3 where ps: "ps = [u, k, f, d, a0, a1, a2, a3]"
    and w: "\<And>i. i < 24 \<Longrightarrow> at s' p (of_nat i) = new_process stack pid u k f d [a0, a1, a2, a3] (root_dentry_folder s) root i"
    by (rule made_process_list [OF assms]) (rule that)
  have c: "\<forall>q \<in> set ps. \<forall>j<512. ent s' q j = (if j = 35 \<and> q \<in> {ps ! 0, ps ! 1} then p else 0)"
    and t: "vma_tree root s'" "\<forall>q<2 ^ 27. sv39_page root q s' = process_map (ps ! 0) (drop 4 ps) q"
    using assms unfolding made_process_def by blast+
  have "u \<in> set ps" "k \<in> set ps" "ps ! 0 = u" "ps ! 1 = k" by (simp_all add: ps)
  then have "ent s' u 35 = p" "ent s' k 35 = p" using c [rule_format, of u 35] c [rule_format, of k 35] by simp_all
  then show ?thesis using t by (intro blank_process_words [OF w]) (simp_all add: ps)
qed

text \<open>The whole call, from the search for a number on.\<close>

lemma new_blank_process_made:
  fixes s :: "'a kernel_scheme"
  assumes ok: "processes_ok s" and room: "process_room s"
  obtains j p s' b ps root where "hashmap_get (process_hashmap s) (process_upto s + of_nat j) s = ret 0"
    and "\<forall>i<j. hashmap_get (process_hashmap s) (process_upto s + of_nat i) s \<noteq> ret 0"
    and "new_blank_process stack s = ret (p, s')" and "processes_ok s'"
    and "\<forall>k. hashmap_get (process_hashmap s') k s' =
      (if k = process_upto s + of_nat j then ret p else hashmap_get (process_hashmap s) k s)"
    and "process_upto s' = process_upto s + of_nat j + 1"
    and "made_process stack (process_upto s + of_nat j) s p s' b ps root" and "writes (set (table_pages s)) s s'"
proof -
  obtain j where j: "hashmap_get (process_hashmap s) (process_upto s + of_nat j) s = ret 0"
    "\<forall>i<j. hashmap_get (process_hashmap s) (process_upto s + of_nat i) s \<noteq> ret 0"
    "new_blank_process stack s = new_blank_process stack (s\<lparr>process_upto := process_upto s + of_nat j\<rparr>)"
    by (rule new_blank_process_from [OF ok])
  define t where "t = s\<lparr>process_upto := process_upto s + of_nat j\<rparr>"
  note u = processes_upto [OF ok, where v = "process_upto s + of_nat j", folded t_def]
  have t: "process_upto t = process_upto s + of_nat j" "process_hashmap t = process_hashmap s"
    "root_dentry_folder t = root_dentry_folder s" by (simp_all add: t_def)
  have free: "hashmap_get (process_hashmap t) (process_upto t) t = ret 0" using j(1) u(4) by (simp add: t)
  have "process_room t" using u(3) room by simp
  from new_blank_process_creates [OF u(1) this free, of stack] obtain p s' b ps root where
    r: "new_blank_process stack t = ret (p, s')" "processes_ok s'"
      "\<forall>k. hashmap_get (process_hashmap s') k s' = (if k = process_upto t then ret p else hashmap_get (process_hashmap t) k t)"
      "process_upto s' = process_upto t + 1" "made_process stack (process_upto t) t p s' b ps root"
      "writes (set (table_pages t)) t s'" by blast
  have w: "writes (set (table_pages s)) s s'" using writes_trans [OF u(5) r(6)] u(2) by simp
  have "made_process stack (process_upto t) s p s' b ps root"
    using r(5) [unfolded made_process_def u(7,8) t(3)] u(6) [of b] unfolding made_process_def by blast
  then show thesis
    using that [OF j(1,2) _ r(2) _ _ _ w] r(1,3,4) j(3) u(4) t by (simp add: t_def)
qed

section \<open>Properties\<close>

definition blank_kernel :: kernel where
  "blank_kernel = sched.extend blank_sched \<lparr>root_dentry_folder = 0,
     kernel_idle_process = 0xffffffc080201000, kernel_init_process = 0xffffffc080202000\<rparr>"

lemma class_first:
  assumes inv: "pager_inv s" and c: "c \<le> 11" "n \<noteq> 0" "fits_class (unat n) c" and z: "idx_page s c = 0"
    "lowest_free_entry s (of_nat c) = 0" and free: "Suc m < free_pages s"
  obtains p s' where "mem_alloc n s = ret (p, s')" and "slab s' c" and "writes {} s s'"
    and "idx_page s' c \<notin> pager_live s" and "data_page s' c \<notin> pager_live s" and "m \<le> free_pages s'"
    and "root_idx_page s' = (root_idx_page s)(of_nat c := idx_page s' c)"
    and "lowest_free_entry s' = lowest_free_entry s" and "allocator.more s' = allocator.more s"
    and "\<forall>b<blocks c. block_used s' c b \<longleftrightarrow> b = 0"
proof -
  have "1 < free_pages s" using free by simp
  from mem_alloc_first [OF inv c(2,3,1) z this] obtain s' where s': "mem_alloc n s = ret (block_addr s' c 0, s')"
    "slab s' c" "idx_page s' c \<notin> pager_live s" "data_page s' c \<notin> pager_live s" "pager_pool s' = pager_pool s"
    "pager_live s' = insert (data_page s' c) (insert (idx_page s' c) (pager_live s))"
    "\<forall>b<blocks c. block_used s' c b \<longleftrightarrow> b = 0"
    "\<forall>q \<in> pager_live s. \<forall>j<512. at s' q (of_nat j) = at s q (of_nat j)"
    "root_idx_page s' = (root_idx_page s)(of_nat c := idx_page s' c)"
    "lowest_free_entry s' = lowest_free_entry s" "allocator.more s' = allocator.more s" by blast
  have "writes {} s s'" using s'(2,5,6,8) by (auto simp: writes_def same_tables_def slab_def)
  moreover have "m \<le> free_pages s'"
  proof -
    have "pager_pool s - pager_live s \<subseteq> insert (data_page s' c) (insert (idx_page s' c) (pager_pool s' - pager_live s'))"
      using s'(5,6) by auto
    then have "free_pages s \<le> card (insert (data_page s' c) (insert (idx_page s' c) (pager_pool s' - pager_live s')))"
      by (intro card_mono) (simp_all add: finite_pool)
    also have "\<dots> \<le> Suc (Suc (free_pages s'))" by (simp add: card_insert_if finite_pool)
    finally show ?thesis using free by simp
  qed
  ultimately show ?thesis using that s' by blast
qed

lemma demo_processes:
  obtains s :: kernel where "processes_ok s" and "process_room s"
    and "hashmap_get (process_hashmap s) (process_upto s) s = ret 0"
proof -
  define b where "b = pager_publish [demo_region] blank_kernel"
  have bf: "pager_bitmap_list blank_kernel = 0xffffffc080280000" "last_free_bitmap blank_kernel = 0"
    "last_free_page_num blank_kernel = 0" "root_idx_page blank_kernel = (\<lambda>_. 0)" "lowest_free_entry blank_kernel = (\<lambda>_. 0)"
    by (simp_all add: blank_kernel_def blank_sched_def blank_vma_def vma.defs sched.defs)
  note d = demo_publish [OF bf(1-3), folded b_def]
  have z: "root_idx_page b = (\<lambda>_. 0)" "lowest_free_entry b = (\<lambda>_. 0)"
    using bf(4,5) by (simp_all add: b_def pager_publish_def set_region_def Let_def)
  have f: "fits_class (unat (192 :: u64)) 8" "fits_class (unat (64 :: u64)) 6" using fits_192 fits_class_exp [of 6] by simp_all
  have "Suc 100 < free_pages b" using d(3) by simp
  then obtain p8 s1 where "mem_alloc 192 b = ret (p8, s1)" and s1: "slab s1 8" "writes {} b s1"
    "idx_page s1 8 \<notin> pager_live b" "data_page s1 8 \<notin> pager_live b"
    "100 \<le> free_pages s1" "root_idx_page s1 = (root_idx_page b)(of_nat 8 := idx_page s1 8)"
    "lowest_free_entry s1 = lowest_free_entry b" "allocator.more s1 = allocator.more b" "\<forall>b<blocks 8. block_used s1 8 b \<longleftrightarrow> b = 0"
    by (rule class_first [OF d(1) _ _ f(1), rotated 4]) (simp_all add: z)
  have i1: "pager_inv s1" using s1(1) by (simp add: slab_def)
  have q: "Suc 90 < free_pages s1" "idx_page s1 6 = 0" "lowest_free_entry s1 (of_nat 6) = 0"
    using s1(5,7) fun_cong [OF s1(6), of 6] z by simp_all
  obtain p6 s2 where "mem_alloc 64 s1 = ret (p6, s2)" and s2: "slab s2 6" "writes {} s1 s2"
    "idx_page s2 6 \<notin> pager_live s1" "data_page s2 6 \<notin> pager_live s1"
    "90 \<le> free_pages s2" "root_idx_page s2 = (root_idx_page s1)(of_nat 6 := idx_page s2 6)"
    "lowest_free_entry s2 = lowest_free_entry s1" "allocator.more s2 = allocator.more s1" "\<forall>b<blocks 6. block_used s2 6 b \<longleftrightarrow> b = 0"
    by (rule class_first [OF i1 _ _ f(2) q(2,3,1)]) (simp, simp, rule that)
  have i2: "pager_inv s2" using s2(1) by (simp add: slab_def)
  obtain T L s3 where s3: "T \<noteq> L" "T \<notin> pager_live s2" "L \<notin> pager_live s2" "\<And>j. j < 512 \<Longrightarrow> ent s3 T j = 0"
    "pager_live s3 = pager_live s2 \<union> {T, L}" "writes {} s2 s3" "pager.more s3 = pager.more s2" "80 \<le> free_pages s3"
  proof -
    obtain ps s3 where a: "alloc_pages 2 s2 = ret (ps, s3)" "length ps = 2" "distinct ps" "set ps \<inter> pager_live s2 = {}"
      "pager_live s3 = pager_live s2 \<union> set ps" "writes {} s2 s3" "pager.more s3 = pager.more s2" "80 \<le> free_pages s3"
      using alloc_pages_sound [OF i2, of 2 80] s2(5) by auto
    then obtain T L x where ps: "ps = [T, L]" "pg_alloc s2 = ret (T, x)" "pg_alloc x = ret (L, s3)"
      by (auto simp: eval_nat_numeral)
    have x: "pager_inv x" "T \<in> pager_live x" using pg_alloc_source [OF i2 ps(2)] by auto
    have "ent s3 T j = 0" if "j < 512" for j
      using at_pg_alloc(1) [OF i2 ps(2) that] at_pg_alloc(2) [OF x(1) ps(3) that x(2)] by simp
    then show ?thesis using a ps(1) that [of T L s3] by auto
  qed
  define h where "h = \<lparr>hm_start = T, hm_len = 512, hm_hash_function = Builtin_num_hash, hm_equal_function = Builtin_num_equal\<rparr>"
  define l where "l = \<lparr>first_section = L, section_size = 4096, item_cnt = 0, item_size = 8\<rparr>"
  define s where "s = s3\<lparr>process_hashmap := h, running_list := l\<rparr>"
  have i3: "pager_inv s3" using s3(6) by (simp add: writes_def)
  have ws: "writes {} s3 s" by (rule writes_same [OF i3]) (simp_all add: s_def pager_same_def)
  have w2: "writes {} s2 s" using writes_trans [OF s3(6) ws] by simp
  have w1: "writes {} s1 s" using writes_trans [OF s2(2) w2] by simp
  have more: "root_idx_page s3 = root_idx_page s2" "lowest_free_entry s3 = lowest_free_entry s2"
    using s3(7) by (cases s2; cases s3; simp)+
  have idx: "idx_page s 8 = idx_page s1 8" "idx_page s 6 = idx_page s2 6"
    "lowest_free_entry s (of_nat 8) = lowest_free_entry s1 (of_nat 8)" "lowest_free_entry s (of_nat 6) = lowest_free_entry s2 (of_nat 6)"
    using more s2(7) fun_cong [OF s2(6), of 8] by (simp_all add: s_def)
  have live: "idx_page s1 8 \<in> pager_live s1" "data_page s1 8 \<in> pager_live s1" "idx_page s2 6 \<in> pager_live s2"
    "data_page s2 6 \<in> pager_live s2" "pager_live s1 \<subseteq> pager_live s2" "pager_live s = pager_live s2 \<union> {T, L}"
    "data_page s1 8 \<noteq> idx_page s1 8" "data_page s2 6 \<noteq> idx_page s2 6"
    using s1(1) s2(1,2) s3(5) pager_same_inv(4) [of s3 s] i3 by (auto simp: slab_def writes_def s_def pager_same_def)
  have h8: "\<forall>j<3. ent s (data_page s1 8) j = ent s1 (data_page s1 8) j" using writes_at [OF w1 live(2)] by simp
  have h6: "\<forall>j<3. ent s (data_page s2 6) j = ent s2 (data_page s2 6) j" using writes_at [OF w2 live(4)] by simp
  note s8 = slab_writes [OF s1(1) w1 idx(1) _ idx(3) h8] and s6 = slab_writes [OF s2(1) w2 idx(2) _ idx(4) h6]
  have "leaf_chain s (at s T (of_nat i)) []" if "i < 512" for i
    using s3(4) [OF that] by (simp add: s_def leaf_chain_def at_def)
  then have hm: "hm_ok h s" using s6 s3 live idx unfolding hm_ok_def h_def by auto
  have tp: "table_pages s = [idx_page s1 8, data_page s1 8, idx_page s2 6, data_page s2 6, T, L]"
    using s8(2) s6(2) idx by (simp add: table_pages_def s_def h_def l_def)
  have ds: "distinct (table_pages s)" unfolding tp using live s2(3,4) s3(1-3) by auto
  have "processes_ok s"
    using s8(1) hm ds d(4) s1(2) w1 live(6) unfolding processes_ok_def
    by (auto simp: s_def l_def list_ok_def kernel_pool_def writes_def)
  moreover have "process_room s"
  proof -
    have "\<not> block_used s 8 1" using s8(3) [of 1] s1(9) by simp
    moreover have "\<not> block_used s 6 1" using s6(3) [of 1] s2(9) by simp
    then have "0 < leaf_room s" unfolding leaf_room_pos by (intro exI [of _ 1]) simp
    moreover have "free_pages s = free_pages s3"
      using pager_same_inv(2,4) [of s3 s] i3 by (simp add: s_def pager_same_def)
    ultimately show ?thesis using s3(8) by (auto simp: process_room_def s_def l_def intro: exI [of _ 1])
  qed
  moreover have "hashmap_get (process_hashmap s) (process_upto s) s = ret 0"
    using hashmap_get_bucket [OF hm, of "process_upto s" "[]"] s3(4) [OF bucket_lt]
    by (simp add: s_def leaf_chain_def at_def h_def bucket_pairs_def bucket_lookup_def)
  ultimately show ?thesis by (rule that)
qed

text \<open>
  C2. Creating a process on a kernel whose process table is well formed and has room. It returns a
  process under the first number from \<open>process_upto\<close> on that no process has; the table stays well formed;
  the map finds the new process under that number and every other process as before, and the next search
  starts behind it. The process has its number, is a normal process that does not run, and its address
  space leaves the user half unmapped, maps the kernel half to physical memory, and in the highest 13
  pages maps exactly the trap frame and the four stack pages. (The highest of these is the page below the
  trap frame, which \<^verbatim>\<open>layout.h\<close> asks to stay blank as a guard: \<open>stack_guard_mapped\<close> below.) Its three
  trap frames, its page of descriptors and its four stack pages are eight different pages that were not
  in use and are no page tables, all zero but for the pointers of the first two trap frames back to the
  process. No page in use outside the process table is written.
\<close>

theorem new_blank_process_sound:
  fixes s :: "'a kernel_scheme"
  assumes "processes_ok s" and "process_room s"
  shows "\<exists>j id p s'. id = process_upto s + of_nat j \<and> hashmap_get (process_hashmap s) id s = ret 0
    \<and> (\<forall>i<j. hashmap_get (process_hashmap s) (process_upto s + of_nat i) s \<noteq> ret 0)
    \<and> new_blank_process stack s = ret (p, s') \<and> processes_ok s'
    \<and> (\<forall>k. hashmap_get (process_hashmap s') k s' =
        (if k = id then ret p else hashmap_get (process_hashmap s) k s))
    \<and> process_upto s' = id + 1 \<and> blank_process id p s'
    \<and> distinct (process_pages s' p) \<and> set (process_pages s' p) \<inter> pager_live s = {}
    \<and> pager_live s \<union> set (process_pages s' p) \<subseteq> pager_live s' - tables (at s' p 6) s'
    \<and> (\<forall>q \<in> set (process_pages s' p). \<forall>i<512. ent s' q i = (if i = 35 \<and> q \<in> {at s' p 3, at s' p 4} then p else 0))
    \<and> writes (set (table_pages s)) s s'"
proof -
  obtain j p s' b ps root where r: "hashmap_get (process_hashmap s) (process_upto s + of_nat j) s = ret 0"
    "\<forall>i<j. hashmap_get (process_hashmap s) (process_upto s + of_nat i) s \<noteq> ret 0"
    "new_blank_process stack s = ret (p, s')" "processes_ok s'"
    "\<forall>k. hashmap_get (process_hashmap s') k s' =
      (if k = process_upto s + of_nat j then ret p else hashmap_get (process_hashmap s) k s)"
    "process_upto s' = process_upto s + of_nat j + 1"
    "made_process stack (process_upto s + of_nat j) s p s' b ps root" "writes (set (table_pages s)) s s'"
    by (rule new_blank_process_made [OF assms])
  note pg = made_process_pages [OF r(7)]
  have fr: "at s' p 3 = ps ! 0" "at s' p 4 = ps ! 1" unfolding pg(1) [symmetric] by (simp_all add: process_pages_def)
  have m: "distinct ps" "set ps \<inter> pager_live s = {}" "pager_live s \<union> set ps \<subseteq> pager_live s' - tables root s'"
    "\<forall>q \<in> set ps. \<forall>i<512. ent s' q i = (if i = 35 \<and> q \<in> {at s' p 3, at s' p 4} then p else 0)"
    using r(7) unfolding made_process_def fr by blast+
  show ?thesis
    by (rule exI [of _ j], rule exI [of _ "process_upto s + of_nat j"], rule exI [of _ p], rule exI [of _ s'])
      (use r(1-6,8) m made_process_blank [OF r(7)] in \<open>simp only: pg simp_thms\<close>)
qed

theorem new_blank_process_sound_witness:
  "\<exists>(s :: kernel) p s'. new_blank_process (\<lambda>_. 7) s = ret (p, s') \<and> distinct (process_pages s' p)
     \<and> sv39_page (at s' p 6) (2 ^ 27 - 1) s' = None \<and> sv39_page (at s' p 6) (2 ^ 27 - 2) s' = Some (at s' p 3, 0xC7)"
proof -
  obtain s :: kernel where s: "processes_ok s" "process_room s" by (rule demo_processes)
  from new_blank_process_sound [OF s, of "\<lambda>_. 7"] obtain id p s' where
    r: "new_blank_process (\<lambda>_. 7) s = ret (p, s')" "distinct (process_pages s' p)" and b: "blank_process id p s'" by metis
  have "sv39_page (at s' p 6) q s' = process_map (at s' p 3) [at s' p 14, at s' p 15, at s' p 16, at s' p 17] q"
    if "q < 2 ^ 27" for q using b that by (simp add: blank_process_def)
  from this [of "2 ^ 27 - 1"] this [of "2 ^ 27 - 2"] show ?thesis
    using r by (intro exI [of _ s] exI [of _ p] exI [of _ s']) (simp add: process_map_def)
qed

text \<open>
  The layout asks for an unmapped page between the kernel stack and the trap frame; the highest stack
  page is mapped there instead.
\<close>

lemma stack_guard_mapped: "process_map user_tf stacks (2 ^ 27 - 3) = Some (stacks ! 3, 0xC7)"
  by (simp add: process_map_def)

end
