(* ===== verification/Process_Switch.thy ===== *)
theory Process_Switch
  imports Process_Create
begin

text \<open>
  Switching to a process: \<open>change_context\<close> maps the stack of the hart into the process's address space
  when the process last ran elsewhere and loads the address space, so that the trap frame at its
  fixed address is the one of the new process.
\<close>

text \<open>
  A process that can be switched to: its block lies in a page of its own data, its tables are in
  order with the highest page unmapped, and the stack table of the harts is in use outside them.
\<close>

definition switchable :: "u64 \<Rightarrow> u64 \<Rightarrow> nat \<Rightarrow> 'a vma_scheme \<Rightarrow> bool" where
  "switchable p P a s \<longleftrightarrow> p = P + 8 * of_nat a \<and> a + 24 \<le> 512
     \<and> vma_tree (at s p 6) s \<and> kernel_pool s \<and> sv39_page (at s p 6) (2 ^ 27 - 1) s = None
     \<and> {P, hart_stacks_list s} \<subseteq> pager_live s - tables (at s p 6) s \<and> hart_stacks_list s \<noteq> P"

definition hart_stack :: "'a kstacks_scheme \<Rightarrow> u64 \<Rightarrow> nat \<Rightarrow> u64" where
  "hart_stack s hart_id i = at s (hart_stacks_list s) (of_nat i + hart_id * 4)"

lemma leaves_rest_at:
  assumes "leaves_rest root s s'" and "q \<in> pager_live s - tables root s" and "j < 512"
  shows "ent s' q j = ent s q j" and "q \<in> pager_live s' - tables root s'"
  using assms by (auto simp: leaves_rest_def same_tables_def simp del: epages.simps)

text \<open>
  The pages in use outside the tables of \<open>root\<close> stay in use and keep their words, the words \<open>I\<close> of
  page \<open>P\<close> apart.
\<close>

definition process_frame :: "u64 \<Rightarrow> u64 \<Rightarrow> nat set \<Rightarrow> 'a pager_scheme \<Rightarrow> 'a pager_scheme \<Rightarrow> bool" where
  "process_frame root P I s s' \<longleftrightarrow> pager_live s - tables root s \<subseteq> pager_live s' - tables root s'
     \<and> (\<forall>q \<in> pager_live s - tables root s. \<forall>j<512. q = P \<and> j \<in> I \<or> ent s' q j = ent s q j)"

lemma process_frame_refl [simp]: "process_frame root P I s s"
  by (simp add: process_frame_def)

lemma process_frame_trans:
  assumes "process_frame root P I s1 s2" and "process_frame root P J s2 s3"
  shows "process_frame root P (I \<union> J) s1 s3"
  unfolding process_frame_def
proof (intro conjI ballI allI impI)
  show "pager_live s1 - tables root s1 \<subseteq> pager_live s3 - tables root s3"
    using assms unfolding process_frame_def by (blast del: subsetI intro: subset_trans)
  fix q j assume q: "q \<in> pager_live s1 - tables root s1" and j: "j < (512 :: nat)"
  then have "q \<in> pager_live s2 - tables root s2" using assms(1) unfolding process_frame_def by blast
  then have "q = P \<and> j \<in> J \<or> ent s3 q j = ent s2 q j" using assms(2) j unfolding process_frame_def by blast
  moreover have "q = P \<and> j \<in> I \<or> ent s2 q j = ent s1 q j" using assms(1) q j unfolding process_frame_def by blast
  ultimately show "q = P \<and> j \<in> I \<union> J \<or> ent s3 q j = ent s1 q j" by (metis Un_iff)
qed

lemma process_frameD:
  assumes "process_frame root P I s s'" and "q \<in> pager_live s - tables root s"
  shows "q \<in> pager_live s' - tables root s'" and "j < 512 \<Longrightarrow> q \<noteq> P \<or> j \<notin> I \<Longrightarrow> ent s' q j = ent s q j"
  using assms unfolding process_frame_def by blast+

lemma leaves_rest_frame: "leaves_rest root s s' \<Longrightarrow> process_frame root P {} s s'"
  by (simp add: leaves_rest_def process_frame_def same_tables_def)

lemma set_at_frame:
  assumes "vma_tree root s" and "P \<in> pager_live s - tables root s" and "i < 512"
  shows "process_frame root P {i} s (set_at P (of_nat i) v s)"
proof -
  have inv: "pager_inv s" and P: "P \<in> pager_live s" using vma_treeD(2) [OF assms(1)] assms(2) by auto
  note w = writes_set_at [OF inv P assms(3), of v]
  have "{P} \<inter> tables root s = {}" using assms(2) by simp
  from vma_tree_writes(3) [OF assms(1) w this] set_at_inv(2) [OF inv P assms(3), of v]
  show ?thesis using at_set_at [OF inv P _ assms(3)] unfolding process_frame_def by auto
qed

text \<open>The globals above the address spaces stay as they are.\<close>

lemma vma_swap_more:
  assumes "max_asid s = 0 \<or> has_asid p s \<or> current_highest_asid s < max_asid s" and "vma_swap p s = ret ((), s')"
  shows "vma.more s' = vma.more s"
proof -
  consider "max_asid s = 0" | "has_asid p s" | "max_asid s \<noteq> 0" "\<not> has_asid p s" "\<not> max_asid s \<le> current_highest_asid s"
    using assms(1) by fastforce
  then show ?thesis
    using assms(2)
    by cases (auto simp: vma_swap_def vma_fetch_asid_def vma_reset_asid_def has_asid_def Let_def set_at_def)
qed

lemma update_context_maps:
  fixes s :: "'a vma_scheme"
  assumes sw: "switchable p P a s" and h: "unat h < 128" and ne: "at s p 20 \<noteq> h" and room: "8 \<le> free_pages s"
    and st: "\<And>i. i < 4 \<Longrightarrow> kernel_page (hart_stack s h i)"
  defines "root \<equiv> at s p 6"
  shows "\<exists>s'. process_update_context_switch p h s = ret ((), s') \<and> vma_tree root s'
    \<and> at s' p 6 = root \<and> at s' p 7 = at s p 7 \<and> at s' p 20 = h \<and> globals_kept s s'
    \<and> process_frame root P {a + 20} s s'
    \<and> (\<forall>q<2 ^ 27. sv39_page root q s' =
        (if 2 ^ 27 - 12 \<le> q \<and> q < 2 ^ 27 - 8 then Some (hart_stack s h (q - (2 ^ 27 - 12)), 0xC7)
         else sv39_page root q s))"
proof -
  define H where "H = hart_stacks_list s"
  have p: "p = P + 8 * of_nat a" and a: "a + 24 \<le> 512" and tree: "vma_tree root s" and kp: "kernel_pool s"
    and guard: "sv39_page root (2 ^ 27 - 1) s = None" and P: "P \<in> pager_live s - tables root s"
    and H: "H \<in> pager_live s - tables root s" "H \<noteq> P"
    using sw by (auto simp: switchable_def root_def H_def)
  have inv: "pager_inv s" by (rule vma_treeD(2) [OF tree])
  define s1 where "s1 = set_at p (of_nat 20) h s"
  have s1: "s1 = set_at P (of_nat (a + 20)) h s" unfolding s1_def p by (rule set_at_offset)
  have j: "a + 20 < 512" "P \<in> pager_live s" using a P by auto
  note w1 = writes_set_at [OF inv j(2,1), of h, folded s1]
  have "{P} \<inter> tables root s = {}" using P by simp
  note t1 = vma_tree_writes [OF tree w1 this]
  have l1: "pager_live s1 = pager_live s" "pager_pool s1 = pager_pool s"
    unfolding s1 by (rule set_at_inv [OF inv j(2,1)])+
  have word: "at x p (of_nat i) = ent x P (a + i)" for i and x :: "'a vma_scheme" unfolding p by (rule at_offset)
  have P1: "at s1 p (of_nat i) = (if i = 20 then h else at s p (of_nat i))" if "i < 24" for i
    unfolding word s1 using at_set_at [OF inv j(2,2,1), of "a + i" h] that a by auto
  have H1: "ent s1 H i = ent s H i" if "i < 512" for i using writes_at [OF w1 _ _ that] H by auto
  have stack: "at x H (of_nat i + h * 4) = ent x H (i + unat h * 4)" for i and x :: "'a vma_scheme"
    by simp
  define f where "f = (\<lambda>i (s :: 'a vma_scheme). vma_map_kernel (at s p 6) (at s p 7) (HART_KERN_STACK_START + KERNEL_PAGE_SIZE * of_nat i)
     KERNEL_PAGE_SIZE (at s (hart_stacks_list s) (of_nat i + h * 4)) 6 s)"
  have f: "f i x = vma_map_kernel root (at s p 7) (HART_KERN_STACK_START + 4096 * of_nat i) 4096 (hart_stack s h i) 6 x"
    if "0 \<le> i" "i < 0 + 4" "leaves_rest root s1 x" "globals_kept s1 x" for i and x :: "'a vma_scheme"
  proof -
    have P': "P \<in> pager_live s1 - tables root s1" "H \<in> pager_live s1 - tables root s1"
      using P H l1 t1(3) by auto
    have "at x p (of_nat 6) = at s p (of_nat 6)" "at x p (of_nat 7) = at s p (of_nat 7)"
      using leaves_rest_at(1) [OF that(3) P'(1), of "a + 6"] leaves_rest_at(1) [OF that(3) P'(1), of "a + 7"]
        P1 [of 6] P1 [of 7] a unfolding word by simp_all
    moreover have "hart_stacks_list x = H" using globals_kept_fields(1) [OF that(4)] by (simp add: s1_def H_def set_at_def)
    moreover have "i + unat h * 4 < 512" using h that(2) by simp
    from leaves_rest_at(1) [OF that(3) P'(2) this] H1 [OF this]
    have "ent x H (i + unat h * 4) = ent s H (i + unat h * 4)" by (rule trans)
    ultimately show ?thesis unfolding f_def hart_stack_def H_def [symmetric] stack by (simp add: root_def)
  qed
  have pages: "virt_page (HART_KERN_STACK_START + 4096 * of_nat i) (2 ^ 27 - 12 + i) \<and> kernel_page (hart_stack s h i)"
    if "0 \<le> i" "i < 0 + 4" for i
  proof -
    have "i \<in> {0, 1, 2, 3}" using that(2) by auto
    then show ?thesis using st [of i] that by (auto simp: virt_page_def)
  qed
  have B: "(2 ^ 27 - 512 :: nat) \<le> 2 ^ 27 - 12" "(2 ^ 27 - 12 + 0 + 4 :: nat) \<le> 2 ^ 27 - 1" "2 * 4 + 0 \<le> free_pages s1"
    using room l1 by simp_all
  have kp1: "kernel_pool s1" "sv39_page root (2 ^ 27 - 1) s1 = None" using kp l1 guard t1(2) by (simp_all add: kernel_pool_def)
  obtain s' where s': "for_each [0..<0 + 4] f s1 = ret ((), s')" "vma_tree root s'" "leaves_rest root s1 s'"
    "\<forall>q<2 ^ 27. sv39_page root q s' = (if 2 ^ 27 - 12 + 0 \<le> q \<and> q < 2 ^ 27 - 12 + 0 + 4
       then Some (hart_stack s h (q - (2 ^ 27 - 12)), 0xC7) else sv39_page root q s1)" "globals_kept s1 s'"
    using map_kernel_pages [OF t1(1) kp1(1) B(3) pages B(1,2) kp1(2) f] by blast
  have "process_update_context_switch p h s = ret ((), s')"
    using s'(1) ne by (simp add: process_update_context_switch_def f_def s1_def)
  moreover have keep: "at s' p (of_nat i) = at s1 p (of_nat i)" if "i < 24" for i
    using leaves_rest_at(1) [OF s'(3), of P "a + i"] P l1 t1(3) that a unfolding word by simp
  have "at s' p 6 = root" "at s' p 7 = at s p 7" "at s' p 20 = h"
    using keep [of 6] keep [of 7] keep [of 20] P1 [of 6] P1 [of 7] P1 [of 20] by (simp_all add: root_def)
  moreover have "globals_kept s s1" unfolding s1_def by (intro globals_kept_more) simp
  then have "globals_kept s s'" by (rule globals_kept_trans [OF _ s'(5)])
  moreover have "process_frame root P {a + 20} s s'"
    using process_frame_trans [OF set_at_frame [OF tree P j(1), of h, folded s1] leaves_rest_frame [OF s'(3), of P]] by simp
  ultimately show ?thesis using s'(2,4) t1(2) by auto
qed

text \<open>Loading the address space of a process.\<close>

lemma swap_selects:
  fixes s :: "'a vma_scheme"
  assumes p: "p = P + 8 * of_nat a" "a + 24 \<le> 512" and tree: "vma_tree root s" and root: "root = at s p 6"
    and P: "P \<in> pager_live s - tables root s" and asid: "max_asid s < 2 ^ 16" "has_asid p s \<longrightarrow> at s p 7 \<le> max_asid s"
    "max_asid s = 0 \<or> has_asid p s \<or> current_highest_asid s < max_asid s"
  shows "\<exists>s'. vma_swap p s = ret ((), s') \<and> vma_tree root s' \<and> (\<forall>q. sv39_page root q s' = sv39_page root q s)
    \<and> satp_root s' = root \<and> drop_bit 60 (satp s') = 8 \<and> process_frame root P {a + 7} s s'
    \<and> vma.more s' = vma.more s"
proof -
  have "kernel_page (at s p 6)" using vma_treeD(1) [OF tree] root by simp
  from vma_swap_selects [OF this asid] obtain s' where s': "vma_swap p s = ret ((), s')"
    "drop_bit 60 (satp s') = 8" "(satp s' AND mask 44) * 4096 + KERNEL_VMA_START = at s p 6" by blast
  from vma_swap_frame [OF asid(3) s'(1)] obtain v where v: "pager_same (set_at p (of_nat 7) v s) s'"
    "kmem s' = kmem (set_at p (of_nat 7) v s)" by auto
  have inv: "pager_inv s" by (rule vma_treeD(2) [OF tree])
  have j: "a + 7 < 512" "P \<in> pager_live s" using p(2) P by auto
  define s1 where "s1 = set_at P (of_nat (a + 7)) v s"
  have s1: "set_at p (of_nat 7) v s = s1" unfolding s1_def p by (rule set_at_offset)
  have w1: "writes {P} s s1" unfolding s1_def by (rule writes_set_at [OF inv j(2,1)])
  then have i1: "pager_inv s1" by (simp add: writes_def)
  from writes_trans [OF w1 writes_same [OF i1 v [unfolded s1]]] have w: "writes {P} s s'" by simp
  have "{P} \<inter> tables root s = {}" using P by simp
  note t = vma_tree_writes [OF tree w this]
  have "process_frame root P {a + 7} s s1" unfolding s1_def by (rule set_at_frame [OF tree P j(1)])
  moreover have "process_frame root P {a + 7} s1 s'"
    unfolding process_frame_def using t(3) vma_tree_writes(3) [OF tree w1] P pager_same_inv(4) [OF v(1) [unfolded s1] i1]
      v(2) [unfolded s1] by (simp add: at_def)
  ultimately have "process_frame root P {a + 7} s s'" using process_frame_trans by fastforce
  then show ?thesis using s' t root vma_swap_more [OF asid(3) s'(1)] by (auto simp: satp_root_def)
qed

text \<open>The switch as a whole.\<close>

lemma change_context_run:
  fixes s :: "'a vma_scheme"
  assumes "switchable p P a s" and "unat h < 128" and "8 \<le> free_pages s" and "\<forall>i<4. kernel_page (hart_stack s h i)"
    and "max_asid s < 2 ^ 16" and "has_asid p s \<longrightarrow> at s p 7 \<le> max_asid s"
    and "max_asid s = 0 \<or> has_asid p s \<or> current_highest_asid s < max_asid s"
  shows "\<exists>s'. change_context p h s = ret ((), s') \<and> vma_tree (at s p 6) s'
    \<and> process_frame (at s p 6) P {a + 7, a + 20} s s' \<and> vma.more s' = vma.more s
    \<and> satp_root s' = at s p 6 \<and> drop_bit 60 (satp s') = 8 \<and> at s' p 20 = h
    \<and> (\<forall>q<2 ^ 27. sv39_page (at s p 6) q s' =
        (if at s p 20 \<noteq> h \<and> 2 ^ 27 - 12 \<le> q \<and> q < 2 ^ 27 - 8 then Some (hart_stack s h (q - (2 ^ 27 - 12)), 0xC7)
         else sv39_page (at s p 6) q s))
    \<and> (\<forall>frame f. sv39_page (at s p 6) (2 ^ 27 - 2) s = Some (frame, f) \<and> bit f 1 \<and> \<not> bit f 4
        \<longrightarrow> trapframe_page 1 s' = ret frame)"
proof -
  define root where "root = at s p 6"
  have sw: "p = P + 8 * of_nat a" "a + 24 \<le> 512" "vma_tree root s" "P \<in> pager_live s - tables root s"
    using assms(1) by (auto simp: switchable_def root_def)
  obtain s1 where s1: "process_update_context_switch p h s = ret ((), s1)" "vma_tree root s1" "root = at s1 p 6"
    "at s1 p 7 = at s p 7" "at s1 p 20 = h" "globals_kept s s1" "process_frame root P {a + 20} s s1"
    "\<forall>q<2 ^ 27. sv39_page root q s1 =
        (if at s p 20 \<noteq> h \<and> 2 ^ 27 - 12 \<le> q \<and> q < 2 ^ 27 - 8 then Some (hart_stack s h (q - (2 ^ 27 - 12)), 0xC7)
         else sv39_page root q s)"
  proof (cases "at s p 20 = h")
    case True
    then show ?thesis using that [of s] sw by (simp add: process_update_context_switch_def root_def)
  next
    case False
    have st: "\<And>i. i < 4 \<Longrightarrow> kernel_page (hart_stack s h i)" using assms(4) by blast
    show ?thesis
      using update_context_maps [OF assms(1,2) False assms(3) st, folded root_def] False that by auto
  qed
  note g = globals_kept_fields [OF s1(6)]
  have asid: "max_asid s1 < 2 ^ 16" "has_asid p s1 \<longrightarrow> at s1 p 7 \<le> max_asid s1"
    "max_asid s1 = 0 \<or> has_asid p s1 \<or> current_highest_asid s1 < max_asid s1"
    using assms(5-7) g s1(4) by (simp_all add: has_asid_def)
  have P1: "P \<in> pager_live s1 - tables root s1" by (rule process_frameD(1) [OF s1(7) sw(4)])
  obtain s' where s': "vma_swap p s1 = ret ((), s')" "vma_tree root s'" "\<forall>q. sv39_page root q s' = sv39_page root q s1"
    "satp_root s' = root" "drop_bit 60 (satp s') = 8" "process_frame root P {a + 7} s1 s'" "vma.more s' = vma.more s1"
    using swap_selects [OF sw(1,2) s1(2,3) P1 asid] by blast
  have "ent s' P (a + 20) = ent s1 P (a + 20)" by (rule process_frameD(2) [OF s'(6) P1]) (use sw(2) in auto)
  then have "at s' p 20 = h" using s1(5) at_offset [of s' P a 20] at_offset [of s1 P a 20] sw(1) by simp
  moreover have "process_frame root P {a + 7, a + 20} s s'" using process_frame_trans [OF s1(7) s'(6)] by simp
  moreover have "vma.more s' = vma.more s" using s'(7) g(10) by simp
  moreover have "trapframe_page 1 s' = ret frame"
    if "sv39_page root (2 ^ 27 - 2) s = Some (frame, f)" "bit f 1" "\<not> bit f 4" for frame f
    using that s'(3-5) s1(8) by (simp add: trapframe_page_def)
  moreover have "change_context p h s = ret ((), s')" using s1(1) s'(1) by (simp add: change_context_def)
  ultimately show ?thesis using s'(2-5) s1(8) by (auto simp: root_def)
qed

text \<open>
  C6. A context switch to a process whose address space is in order: \<open>satp\<close> then selects the
  process's table in sv39 mode; the address space is as before except that the four pages of the hart
  stack are mapped to the hart's stack pages when the process last ran elsewhere; the process records
  the hart; and the trap frame the kernel reads at its fixed address is the one this process has
  mapped there.
\<close>

theorem change_context_sound:
  fixes s :: "'a vma_scheme"
  assumes "switchable p P a s" and "unat h < 128" and "8 \<le> free_pages s" and "\<forall>i<4. kernel_page (hart_stack s h i)"
    and "max_asid s < 2 ^ 16" and "has_asid p s \<longrightarrow> at s p 7 \<le> max_asid s"
    and "max_asid s = 0 \<or> has_asid p s \<or> current_highest_asid s < max_asid s"
  shows "\<exists>s'. change_context p h s = ret ((), s') \<and> vma_tree (at s p 6) s'
    \<and> satp_root s' = at s p 6 \<and> drop_bit 60 (satp s') = 8 \<and> at s' p 20 = h
    \<and> (\<forall>q<2 ^ 27. sv39_page (at s p 6) q s' =
        (if at s p 20 \<noteq> h \<and> 2 ^ 27 - 12 \<le> q \<and> q < 2 ^ 27 - 8 then Some (hart_stack s h (q - (2 ^ 27 - 12)), 0xC7)
         else sv39_page (at s p 6) q s))
    \<and> (\<forall>frame f. sv39_page (at s p 6) (2 ^ 27 - 2) s = Some (frame, f) \<and> bit f 1 \<and> \<not> bit f 4
        \<longrightarrow> trapframe_page 1 s' = ret frame)"
  using change_context_run [OF assms] by blast

lemma demo_switchable:
  obtains p P a and s :: vma where "switchable p P a s" and "8 \<le> free_pages s" and "\<forall>i<4. kernel_page (hart_stack s 0 i)"
    and "max_asid s = 0" and "sv39_page (at s p 6) (2 ^ 27 - 2) s = Some (at s p 3, 0xC7)"
proof -
  note d = demo_vma_facts
  have "7 + 40 \<le> free_pages demo_vma" using d(3) by simp
  then obtain ps s1 where a: "length ps = 7" "distinct ps" "set ps \<subseteq> pager_pool demo_vma"
    "pager_live s1 = pager_live demo_vma \<union> set ps" "writes {} demo_vma s1" "pager.more s1 = pager.more demo_vma" "40 \<le> free_pages s1"
    using alloc_pages_sound [OF d(1)] by blast
  obtain u a0 a1 a2 a3 P H where ps: "ps = [u, a0, a1, a2, a3, P, H]"
  proof -
    have "length ps = Suc (Suc (Suc (Suc (Suc (Suc (Suc 0))))))" using a(1) by simp
    then show ?thesis using that by (auto simp: length_Suc_conv)
  qed
  have i1: "pager_inv s1" "kernel_pool s1" using a(5) d(4) by (auto simp: writes_def kernel_pool_def)
  have kp: "kernel_page q" if "q \<in> set ps" for q
    using that live_page_aligned [OF i1(1), of q] a(3,4) d(4) by (auto simp: kernel_page_def kernel_pool_def)
  have st: "kernel_page ([a0, a1, a2, a3] ! i)" if "i < 4" for i
  proof -
    have "i \<in> {0, 1, 2, 3}" using that by auto
    then have "[a0, a1, a2, a3] ! i \<in> set ps" by (auto simp: ps)
    then show ?thesis by (rule kp)
  qed
  have "12 + 20 < free_pages s1" using a(7) by simp
  moreover have "kernel_page u" by (rule kp) (simp add: ps)
  ultimately obtain root s2 where s2: "vma_tree root s2" "globals_kept s1 s2"
    "20 \<le> free_pages s2" "pager_live s1 \<subseteq> pager_live s2 - tables root s2" "pager_pool s2 = pager_pool s1"
    "\<forall>q<2 ^ 27. sv39_page root q s2 = process_map u [a0, a1, a2, a3] q"
    using process_space_maps [OF i1 _ _ st] by blast
  have i2: "pager_inv s2" by (rule vma_treeD(2) [OF s2(1)])
  define w where "w = (\<lambda>i :: nat. if i = 3 then u else if i = 6 then root else 0)"
  define s3 where "s3 = put_words 7 (P + 8 * of_nat 0) w s2"
  define s4 where "s4 = put_words 4 (H + 8 * of_nat 0) (\<lambda>i. [a0, a1, a2, a3] ! i) s3"
  define s where "s = s4\<lparr>hart_stacks_list := H\<rparr>"
  have l: "P \<in> pager_live s2 - tables root s2" "H \<in> pager_live s2 - tables root s2" "P \<noteq> H" using s2(4) a(2,4) by (auto simp: ps)
  have p3: "writes {P} s2 s3 \<and> pager_live s3 = pager_live s2 \<and> pager.more s3 = pager.more s2
    \<and> (\<forall>j<512. ent s3 P j = (if 0 \<le> j \<and> j < 0 + 7 then w (j - 0) else ent s2 P j))"
    unfolding s3_def by (rule put_words_writes [OF i2]) (use l in auto)
  have i3: "pager_inv s3" "H \<in> pager_live s3" using p3 l by (auto simp: writes_def)
  have p4: "writes {H} s3 s4 \<and> pager_live s4 = pager_live s3 \<and> pager.more s4 = pager.more s3
    \<and> (\<forall>j<512. ent s4 H j = (if 0 \<le> j \<and> j < 0 + 4 then [a0, a1, a2, a3] ! (j - 0) else ent s3 H j))"
    unfolding s4_def by (rule put_words_writes [OF i3]) simp
  have i4: "pager_inv s4" using p4 by (simp add: writes_def)
  have same: "pager_same s4 s" "kmem s = kmem s4" by (simp_all add: s_def pager_same_def)
  have W: "writes ({P} \<union> {H} \<union> {}) s2 s" using writes_trans [OF writes_trans] p3 p4 writes_same [OF i4 same] by blast
  have live: "pager_live s = pager_live s2" using pager_same_inv(4) [OF same(1) i4] p3 p4 by simp
  have "({P} \<union> {H} \<union> {}) \<inter> tables root s2 = {}" using l by auto
  note t = vma_tree_writes [OF s2(1) W this]
  have Pw: "ent s P j = w j" if "j < 7" for j
  proof -
    have "ent s P j = ent s4 P j" using same(2) by (simp add: at_def)
    also have "\<dots> = ent s3 P j" using writes_at [of "{H}" s3 s4 P j] p4 p3 l that by auto
    finally show ?thesis using p3 that by simp
  qed
  have Pw': "at s P 3 = u" "at s P 6 = root" using Pw [of 3] Pw [of 6] by (simp_all add: w_def)
  have "hart_stack s 0 i = [a0, a1, a2, a3] ! i" if "i < 4" for i
  proof -
    have "ent s4 H i = [a0, a1, a2, a3] ! i" using p4 that by auto
    then show ?thesis by (simp add: hart_stack_def s_def at_def)
  qed
  then have "\<forall>i<4. kernel_page (hart_stack s 0 i)" using st by simp
  moreover have "switchable P P 0 s"
    using t l Pw' live s2(5,6) W i1(2) by (simp add: switchable_def process_map_def kernel_pool_def writes_def s_def)
  moreover have "8 \<le> free_pages s" using s2(3) live W by (simp add: writes_def)
  moreover have "max_asid s = max_asid s2"
    using vma_fields_more(2) [of s3 s2] vma_fields_more(2) [of s4 s3] p3 p4 by (simp add: s_def)
  then have "max_asid s = 0"
    using globals_kept_fields(7) [OF s2(2)] vma_fields_more(2) [OF a(6)]
    by (simp add: demo_vma_def pager_publish_def set_region_def Let_def blank_vma_def)
  moreover have "sv39_page (at s P 6) (2 ^ 27 - 2) s = Some (at s P 3, 0xC7)"
    using t(2) s2(6) Pw' by (simp add: process_map_def)
  ultimately show ?thesis using that [of P P 0 s] by blast
qed

theorem change_context_sound_witness:
  "\<exists>p (s :: vma) s'. change_context p 0 s = ret ((), s') \<and> satp_root s' = at s p 6 \<and> trapframe_page 1 s' = ret (at s p 3)"
proof -
  obtain p P a and s :: vma where s: "switchable p P a s" "8 \<le> free_pages s" "\<forall>i<4. kernel_page (hart_stack s 0 i)"
    "max_asid s = 0" "sv39_page (at s p 6) (2 ^ 27 - 2) s = Some (at s p 3, 0xC7)" by (rule demo_switchable)
  have "has_asid p s \<longrightarrow> at s p 7 \<le> max_asid s" using s(4) by (simp add: has_asid_def)
  moreover have "bit (0xC7 :: u64) 1" "\<not> bit (0xC7 :: u64) 4" by simp_all
  ultimately show ?thesis using change_context_sound [OF s(1) _ s(2,3)] s(4,5) by fastforce
qed

end
