(* ===== verification/Trap_Frame.thy ===== *)
theory Trap_Frame
  imports Process_Switch
begin

text \<open>
  What the trap code is built on: the interrupt switches of
  \<^verbatim>\<open>src/src/arch/risc-v/arch_trap/irq.c\<close>, the timer of \<^verbatim>\<open>src/src/kernel/timer/timer.c\<close> with the
  firmware call behind it, the parser of \<^verbatim>\<open>src/src/arch/risc-v/arch_trap/parser.c\<close> and the handler
  used before the kernel is up, \<^verbatim>\<open>src/src/arch/risc-v/arch_trap/unsafe_handler.c\<close>.

  The state adds the hart's interrupt enable register, the registers of the interrupt controller, the
  time the hart reads, what the firmware answers to a timer request, and the requests made. A trap
  frame is accessed at its fixed virtual address. The struct \<open>trap_data\<close> is filled on the stack and
  its \<open>hart_id\<close> is never assigned, so what the stack held is an argument.
\<close>

section \<open>Interrupts and the timer\<close>

record hart = kernel +
  sie :: u64
  plic :: "u64 \<Rightarrow> u32"
  time_dev :: "nat \<Rightarrow> u64"
  time_reads :: nat
  sbi_timer :: "u64 \<Rightarrow> u64"
  timers :: "u64 list"

datatype IRQ_TYPES = IRQ_UART | IRQ_TIMER | IRQ_SOFTWARE | IRQ_EXTERNAL

abbreviation (input) PLIC_BASE :: u64 where "PLIC_BASE \<equiv> 0x0C000000"
abbreviation (input) PLIC_threshold :: u64 where "PLIC_threshold \<equiv> PLIC_BASE + 0x201000"

text \<open>The enumeration has four values, so the \<open>default\<close> branch of the switch is not reached.\<close>

fun irq_enable_type :: "IRQ_TYPES \<Rightarrow> 'a hart_scheme \<Rightarrow> 'a hart_scheme" where
  "irq_enable_type IRQ_UART s =
     (let s = s\<lparr>plic := (plic s)(PLIC_BASE + 10 * 4 := 1)\<rparr>
      in s\<lparr>plic := (plic s)(PLIC_BASE + 0x2080 := plic s (PLIC_BASE + 0x2080) OR push_bit 10 1)\<rparr>)"
| "irq_enable_type IRQ_TIMER s = s\<lparr>sie := sie s OR BIT 5\<rparr>"
| "irq_enable_type IRQ_SOFTWARE s = s\<lparr>sie := sie s OR BIT 1\<rparr>"
| "irq_enable_type IRQ_EXTERNAL s = s\<lparr>sie := sie s OR BIT 9\<rparr>"

definition irq_init :: "'a hart_scheme \<Rightarrow> 'a hart_scheme" where
  "irq_init s = s\<lparr>plic := (plic s)(PLIC_threshold := 0)\<rparr>"

definition irq_enable :: "'a vma_scheme \<Rightarrow> 'a vma_scheme" where
  "irq_enable s = s\<lparr>sstatus := sstatus s OR 2\<rparr>"

definition irq_disable :: "'a vma_scheme \<Rightarrow> 'a vma_scheme" where
  "irq_disable s = s\<lparr>sstatus := sstatus s AND NOT 2\<rparr>"

text \<open>\<open>while (1) wfi;\<close>\<close>

partial_function (option) wfi_loop :: "'a machine_scheme \<Rightarrow> (unit \<times> 'a machine_scheme) run" where
  "wfi_loop s = wfi_loop s"

definition idle_loop_system :: "'a machine_scheme \<Rightarrow> (unit \<times> 'a machine_scheme) run" where
  "idle_loop_system s = wfi_loop s"

lemma wfi_loop_never: "wfi_loop s = None"
proof (rule ccontr)
  assume "wfi_loop s \<noteq> None"
  then obtain r where "wfi_loop s = Some r" by blast
  then show False by (rule wfi_loop.raw_induct [where P = "\<lambda>_ _. False", rotated])
qed

definition time_cnt :: "'a hart_scheme \<Rightarrow> u64 \<times> 'a hart_scheme" where
  "time_cnt s = (time_dev s (time_reads s), s\<lparr>time_reads := time_reads s + 1\<rparr>)"

definition open_sbi_set_timer :: "u64 \<Rightarrow> 'a hart_scheme \<Rightarrow> u64 \<times> 'a hart_scheme" where
  "open_sbi_set_timer clock_to_run s = (sbi_timer s clock_to_run, s\<lparr>timers := timers s @ [clock_to_run]\<rparr>)"

definition timer_set :: "u64 \<Rightarrow> 'a hart_scheme \<Rightarrow> u64 \<times> 'a hart_scheme" where
  "timer_set cycle_num s = open_sbi_set_timer cycle_num s"

definition timer_set_future_ms :: "u64 \<Rightarrow> 'a hart_scheme \<Rightarrow> (unit \<times> 'a hart_scheme) run" where
  "timer_set_future_ms ms s =
     (let (now, s) = time_cnt s;
          (response, s) = timer_set (now + (10000000 div 1000) * ms) s
      in if response \<noteq> 0 then panic ''FAILED_TO_CREATE_KERNEL_TIMER'' response 0 0 else ret ((), s))"

section \<open>Trap data\<close>

datatype privilege_mode = TRAP_MODE_USER | TRAP_MODE_SUPERVISOR | TRAP_MODE_MACHINE

datatype trap_type = TRAP_TYPE_INTERRUPT | TRAP_TYPE_EXCEPTION

datatype trap_code =
    TRAP_SOFTWARE_INTERRUPT | TRAP_TIMER_INTERRUPT | TRAP_EXTERNAL_INTERRUPT
  | TRAP_ACCESS_MISALIGNED | TRAP_ACCESS_FAULT | TRAP_INSTRUCTION_INVALID | TRAP_BREAKPOINT
  | TRAP_SYSCALL | TRAP_PAGE_FAULT | TRAP_DOUBLE_TRAP | TRAP_SOFTWARE_CHECK | TRAP_HARDWARE_ERROR

text \<open>The numbers of the enumerations, as \<open>PANIC\<close> reports them.\<close>

fun mode_num :: "privilege_mode \<Rightarrow> u64" where
  "mode_num TRAP_MODE_USER = 0" | "mode_num TRAP_MODE_SUPERVISOR = 1" | "mode_num TRAP_MODE_MACHINE = 2"

fun code_num :: "trap_code \<Rightarrow> u64" where
  "code_num TRAP_SOFTWARE_INTERRUPT = 0" | "code_num TRAP_TIMER_INTERRUPT = 1"
| "code_num TRAP_EXTERNAL_INTERRUPT = 2" | "code_num TRAP_ACCESS_MISALIGNED = 3"
| "code_num TRAP_ACCESS_FAULT = 4" | "code_num TRAP_INSTRUCTION_INVALID = 5" | "code_num TRAP_BREAKPOINT = 6"
| "code_num TRAP_SYSCALL = 7" | "code_num TRAP_PAGE_FAULT = 8" | "code_num TRAP_DOUBLE_TRAP = 9"
| "code_num TRAP_SOFTWARE_CHECK = 10" | "code_num TRAP_HARDWARE_ERROR = 11"

record trap_data =
  process_ptr :: u64
  trap_kind :: trap_type
  privilege :: privilege_mode
  trap_cause :: trap_code
  fault_pc :: u64
  fault_addr :: u64
  arg0_reg :: u64
  arg1_reg :: u64
  arg2_reg :: u64
  arg3_reg :: u64
  return_reg :: u64
  hart_id :: u64

section \<open>The parser\<close>

definition parse_interrupt :: "u64 \<Rightarrow> trap_data \<Rightarrow> trap_data run" where
  "parse_interrupt trap_code trap =
     (let trap = trap\<lparr>trap_kind := TRAP_TYPE_INTERRUPT\<rparr>
      in if trap_code = 1 then ret (trap\<lparr>trap_cause := TRAP_SOFTWARE_INTERRUPT, privilege := TRAP_MODE_SUPERVISOR\<rparr>)
         else if trap_code = 3 then ret (trap\<lparr>trap_cause := TRAP_SOFTWARE_INTERRUPT, privilege := TRAP_MODE_MACHINE\<rparr>)
         else if trap_code = 5 then ret (trap\<lparr>trap_cause := TRAP_TIMER_INTERRUPT, privilege := TRAP_MODE_SUPERVISOR\<rparr>)
         else if trap_code = 7 then ret (trap\<lparr>trap_cause := TRAP_TIMER_INTERRUPT, privilege := TRAP_MODE_MACHINE\<rparr>)
         else if trap_code = 9 then ret (trap\<lparr>trap_cause := TRAP_EXTERNAL_INTERRUPT, privilege := TRAP_MODE_SUPERVISOR\<rparr>)
         else if trap_code = 11 then ret (trap\<lparr>trap_cause := TRAP_EXTERNAL_INTERRUPT, privilege := TRAP_MODE_MACHINE\<rparr>)
         else panic ''UNHANDLED_TRAP_INTERRUPT_OCCURRED'' trap_code (fault_addr trap) (fault_pc trap))"

definition parse_exception :: "u64 \<Rightarrow> trap_data \<Rightarrow> trap_data run" where
  "parse_exception trap_code trap =
     (let trap = trap\<lparr>trap_kind := TRAP_TYPE_EXCEPTION\<rparr>
      in if trap_code = 0 then ret (trap\<lparr>trap_cause := TRAP_ACCESS_MISALIGNED\<rparr>)
         else if trap_code = 1 then ret (trap\<lparr>trap_cause := TRAP_ACCESS_FAULT\<rparr>)
         else if trap_code = 2 then ret (trap\<lparr>trap_cause := TRAP_INSTRUCTION_INVALID\<rparr>)
         else if trap_code = 3 then ret (trap\<lparr>trap_cause := TRAP_BREAKPOINT\<rparr>)
         else if trap_code = 4 then ret (trap\<lparr>trap_cause := TRAP_ACCESS_MISALIGNED\<rparr>)
         else if trap_code = 5 then ret (trap\<lparr>trap_cause := TRAP_ACCESS_FAULT\<rparr>)
         else if trap_code = 6 then ret (trap\<lparr>trap_cause := TRAP_ACCESS_MISALIGNED\<rparr>)
         else if trap_code = 7 then ret (trap\<lparr>trap_cause := TRAP_ACCESS_FAULT\<rparr>)
         else if trap_code = 8 then ret (trap\<lparr>trap_cause := TRAP_SYSCALL, privilege := TRAP_MODE_USER\<rparr>)
         else if trap_code = 9 then ret (trap\<lparr>trap_cause := TRAP_SYSCALL, privilege := TRAP_MODE_SUPERVISOR\<rparr>)
         else if trap_code = 11 then ret (trap\<lparr>trap_cause := TRAP_SYSCALL, privilege := TRAP_MODE_MACHINE\<rparr>)
         else if trap_code = 12 then ret (trap\<lparr>trap_cause := TRAP_PAGE_FAULT\<rparr>)
         else if trap_code = 13 then ret (trap\<lparr>trap_cause := TRAP_PAGE_FAULT\<rparr>)
         else if trap_code = 15 then ret (trap\<lparr>trap_cause := TRAP_PAGE_FAULT\<rparr>)
         else if trap_code = 16 then ret (trap\<lparr>trap_cause := TRAP_DOUBLE_TRAP\<rparr>)
         else if trap_code = 18 then ret (trap\<lparr>trap_cause := TRAP_SOFTWARE_CHECK\<rparr>)
         else if trap_code = 19 then ret (trap\<lparr>trap_cause := TRAP_HARDWARE_ERROR\<rparr>)
         else panic ''UNHANDLED_TRAP_EXCEPTION_OCCURRED'' trap_code (fault_addr trap) (fault_pc trap))"

text \<open>The struct as it comes in: its type and cause are set on every path that returns.\<close>

definition trapframe_parse :: "trap_data \<Rightarrow> 'a vma_scheme \<Rightarrow> trap_data run" where
  "trapframe_parse trap s =
     bindr (trapframe_page 1 s) (\<lambda>frame.
       let is_interrupt = at s frame 31 AND BIT 63;
           trap_code = at s frame 31 AND 0x7FFFFFFFFFFFFFFF;
           is_user_mode = at s frame 31 AND BIT 8;
           trap = trap\<lparr>process_ptr := at s frame 35,
             arg0_reg := at s frame 9, arg1_reg := at s frame 10, arg2_reg := at s frame 11,
             arg3_reg := at s frame 12, return_reg := at s frame 9,
             fault_pc := at s frame 32, fault_addr := at s frame 33,
             privilege := (if is_user_mode \<noteq> 0 then TRAP_MODE_USER else TRAP_MODE_SUPERVISOR)\<rparr>
       in if is_interrupt \<noteq> 0 then parse_interrupt trap_code trap else parse_exception trap_code trap)"

definition trap_data_set_response :: "trap_data \<Rightarrow> 'a vma_scheme \<Rightarrow> (unit \<times> 'a vma_scheme) run" where
  "trap_data_set_response trap s =
     bindr (trapframe_page 2 s) (\<lambda>frame. ret ((), set_at frame 9 (return_reg trap) s))"

definition trap_data_iter_instruction :: "'a vma_scheme \<Rightarrow> (unit \<times> 'a vma_scheme) run" where
  "trap_data_iter_instruction s =
     bindr (trapframe_page 1 s) (\<lambda>frame.
     bindr (trapframe_page 2 s) (\<lambda>frame'. ret ((), set_at frame' 32 (at s frame 32 + 4) s)))"

definition trapframe_stack_ptr :: "u64 \<Rightarrow> 'a machine_scheme \<Rightarrow> u64" where
  "trapframe_stack_ptr trap_frame s = at s trap_frame 1"

section \<open>Traps before the kernel is up\<close>

record raw_trap_info =
  raw_scause :: u64
  raw_sepc :: u64
  raw_stval :: u64
  raw_sstatus :: u64

definition unsafe_interrupt :: "u64 \<Rightarrow> string" where
  "unsafe_interrupt trap_code =
     (if trap_code = 1 then ''PRE_BOOT_TRAP_SUPERVISOR_SOFTWARE_INTERRUPT''
      else if trap_code = 3 then ''PRE_BOOT_TRAP_MACHINE_SOFTWARE_INTERRUPT''
      else if trap_code = 5 then ''PRE_BOOT_TRAP_SUPERVISOR_TIMER_INTERRUPT''
      else if trap_code = 7 then ''PRE_BOOT_TRAP_MACHINE_TIMER_INTERRUPT''
      else if trap_code = 9 then ''PRE_BOOT_TRAP_SUPERVISOR_EXTERNAL_INTERRUPT''
      else if trap_code = 11 then ''PRE_BOOT_TRAP_MACHINE_EXTERNAL_INTERRUPT''
      else if trap_code = 13 then ''PRE_BOOT_TRAP_COUNTER_OVERFLOW''
      else ''PRE_BOOT_TRAP_INTERRUPT_UNHANDED'')"

definition unsafe_exception :: "u64 \<Rightarrow> string" where
  "unsafe_exception trap_code =
     (if trap_code = 0 then ''PRE_BOOT_TRAP_INSTRUCTION_ADDRESS_MISALIGNED''
      else if trap_code = 1 then ''PRE_BOOT_TRAP_INSTRUCTION_ACCESS_FAULT''
      else if trap_code = 2 then ''PRE_BOOT_TRAP_INSTRUCTION_INVALID''
      else if trap_code = 3 then ''PRE_BOOT_TRAP_BREAKPOINT''
      else if trap_code = 4 then ''PRE_BOOT_TRAP_LOAD_ADDRESS_MISALIGNED_FAULT''
      else if trap_code = 5 then ''PRE_BOOT_TRAP_LOAD_ACCESS_FAULT''
      else if trap_code = 6 then ''PRE_BOOT_TRAP_STORE_MISALIGNED_FAULT''
      else if trap_code = 7 then ''PRE_BOOT_TRAP_STORE_ACCESS_FAULT''
      else if trap_code = 8 then ''PRE_BOOT_TRAP_USER_ENVIRONMENT_CALL''
      else if trap_code = 9 then ''PRE_BOOT_TRAP_SUPERVISOR_ENVIRONMENT_CALL''
      else if trap_code = 11 then ''PRE_BOOT_TRAP_MACHINE_ENVIRONMENT_CALL''
      else if trap_code = 12 then ''PRE_BOOT_TRAP_INSTRUCTION_PAGE_FAULT''
      else if trap_code = 13 then ''PRE_BOOT_TRAP_LOAD_PAGE_FAULT''
      else if trap_code = 15 then ''PRE_BOOT_TRAP_STORE_PAGE_FAULT''
      else if trap_code = 16 then ''PRE_BOOT_TRAP_DOUBLE_TRAP''
      else if trap_code = 18 then ''PRE_BOOT_TRAP_SOFTWARE_CHECK''
      else if trap_code = 19 then ''PRE_BOOT_TRAP_HARDWARE_ERROR''
      else ''PRE_BOOT_TRAP_EXCEPTION_UNHANDED'')"

text \<open>Every branch ends in a panic, so the panic behind the switches is not reached.\<close>

definition handle_unsafe_trap :: "raw_trap_info \<Rightarrow> unit run" where
  "handle_unsafe_trap trap =
     (let is_interrupt = raw_scause trap AND BIT 63;
          trap_code = raw_scause trap AND 0x7FFFFFFFFFFFFFFF
      in if is_interrupt \<noteq> 0 then panic (unsafe_interrupt trap_code) trap_code (raw_stval trap) (raw_sepc trap)
         else panic (unsafe_exception trap_code) trap_code (raw_stval trap) (raw_sepc trap))"

section \<open>Accessing user memory\<close>

text \<open>
  The byte copy is an assembly routine that a page fault may leave half done; it is an argument. It
  returns 0 when every byte was copied.
\<close>

type_synonym 's copy_user = "u64 \<Rightarrow> u64 \<Rightarrow> u64 \<Rightarrow> 's \<Rightarrow> (u64 \<times> 's) run"

definition set_reading_userspace :: "u64 \<Rightarrow> u8 \<Rightarrow> 'a machine_scheme \<Rightarrow> 'a machine_scheme" where
  "set_reading_userspace p v s = set_at p 19 (put8 0 v (at s p 19)) s"

definition reading_userspace :: "'a machine_scheme \<Rightarrow> u64 \<Rightarrow> u8" where
  "reading_userspace s p = ucast (at s p 19)"

definition kernel_read_user ::
  "'a vma_scheme copy_user \<Rightarrow> u64 \<Rightarrow> u64 \<Rightarrow> u64 \<Rightarrow> u64 \<Rightarrow> 'a vma_scheme \<Rightarrow> (bool \<times> 'a vma_scheme) run" where
  "kernel_read_user arch_copy_user src sz dest proc s =
     (if src \<ge> KERNEL_VMA_START \<or> src + sz \<ge> KERNEL_VMA_START \<or> src + sz \<le> src then ret (False, s)
      else
        let s = set_reading_userspace proc 1 (vma_enable_read_user (irq_disable s))
        in bindr (arch_copy_user src sz dest s) (\<lambda>(response, s).
             ret (response = 0, irq_enable (vma_disable_read_user (set_reading_userspace proc 0 s)))))"

definition kernel_write_user ::
  "'a vma_scheme copy_user \<Rightarrow> u64 \<Rightarrow> u64 \<Rightarrow> u64 \<Rightarrow> u64 \<Rightarrow> 'a vma_scheme \<Rightarrow> (bool \<times> 'a vma_scheme) run" where
  "kernel_write_user arch_copy_user dest sz src proc s =
     (if dest \<ge> KERNEL_VMA_START \<or> dest + sz \<ge> KERNEL_VMA_START \<or> dest + dest \<le> dest then ret (False, s)
      else
        let s = set_reading_userspace proc 1 (vma_enable_read_user (irq_disable s))
        in bindr (arch_copy_user src sz dest s) (\<lambda>(response, s).
             ret (response = 0, irq_enable (vma_disable_read_user (set_reading_userspace proc 0 s)))))"

text \<open>A state in which everything is zero, for the witnesses.\<close>

definition blank_hart :: hart where
  "blank_hart = kernel.extend (sched.extend blank_sched (kernel.fields 0 0 0))
     (hart.fields 0 (\<lambda>_. 0) (\<lambda>_. 0) 0 (\<lambda>_. 0) [])"

end
