(* ===== verification/File_System.thy ===== *)
theory File_System
  imports Radix Trap_Frame
begin

text \<open>
  The in-memory file system: inodes (\<^verbatim>\<open>src/src/kernel/file_system/inode.c\<close>), directory entries
  (\<^verbatim>\<open>src/src/kernel/file_system/dentry.c\<close>) and open files
  (\<^verbatim>\<open>src/src/kernel/file_system/file_descriptor.c\<close>).

  The structs are blocks of words. An inode has \<open>open_refs\<close> and \<open>link_refs\<close> in the halves of word 0, its
  type in the low half of word 1, the file size at word 2 and the radix roots at words 3 to 18. A
  directory entry has its name in words 0 to 31, its type in the low half of word 32, the inode
  pointer at word 33 or the list of children at words 33 to 36, \<open>open_refs\<close> and \<open>link_refs\<close> in the
  halves of word 37 and its parent at word 38. An open file has the inode at word 0, the position at
  word 1, the access mode in the low byte of word 2 and the mapping at word 3. Buffers on the kernel
  stack are arguments, by their address; the addresses of the string constants are part of the state.
\<close>

record fs = hart +
  str_dot :: u64
  str_dotdot :: u64
  str_empty :: u64
  str_example_text :: u64
  str_example_name :: u64

abbreviation (input) INODE_FILE :: u32 where "INODE_FILE \<equiv> 0"
abbreviation (input) INODE_SOCKET :: u32 where "INODE_SOCKET \<equiv> 1"
abbreviation (input) INODE_PIPE :: u32 where "INODE_PIPE \<equiv> 2"
abbreviation (input) INODE_FOLDER :: u32 where "INODE_FOLDER \<equiv> 3"
abbreviation (input) DENTRY_FOLDER :: u32 where "DENTRY_FOLDER \<equiv> 0"
abbreviation (input) DENTRY_OTHER :: u32 where "DENTRY_OTHER \<equiv> 1"
abbreviation (input) INODE_FILE_RADIX_LEVEL_DEPTH :: nat where "INODE_FILE_RADIX_LEVEL_DEPTH \<equiv> 4"
abbreviation (input) INODE_FILE_RADIX_MAX_DEPTH :: nat where "INODE_FILE_RADIX_MAX_DEPTH \<equiv> 16"

text \<open>The high half of a word.\<close>

definition at_high32 :: "'a machine_scheme \<Rightarrow> u64 \<Rightarrow> u64 \<Rightarrow> u32" where
  "at_high32 s p i = ucast (drop_bit 32 (at s p i))"

definition set_at_high32 :: "u64 \<Rightarrow> u64 \<Rightarrow> u32 \<Rightarrow> 'a machine_scheme \<Rightarrow> 'a machine_scheme" where
  "set_at_high32 p i v s = set_at p i ((at s p i AND 0xFFFFFFFF) OR push_bit 32 (ucast v)) s"

section \<open>Inodes\<close>

definition cleanup_file :: "u64 \<Rightarrow> 'a allocator_scheme \<Rightarrow> (unit \<times> 'a allocator_scheme) run" where
  "cleanup_file file s = mem_free file s"

definition inode_inc_link :: "u64 \<Rightarrow> 'a machine_scheme \<Rightarrow> 'a machine_scheme" where
  "inode_inc_link file s = set_at_high32 file 0 (at_high32 s file 0 + 1) s"

definition inode_dec_link :: "u64 \<Rightarrow> 'a allocator_scheme \<Rightarrow> (unit \<times> 'a allocator_scheme) run" where
  "inode_dec_link file s =
     (let s = set_at_high32 file 0 (at_high32 s file 0 - 1) s
      in if at_high32 s file 0 = 0 \<and> at32 s file 0 = 0 then cleanup_file file s else ret ((), s))"

definition inode_inc_open_cnt :: "u64 \<Rightarrow> 'a machine_scheme \<Rightarrow> 'a machine_scheme" where
  "inode_inc_open_cnt file s = set_at_high32 file 0 (at_high32 s file 0 + 1) s"

definition inode_dec_open_cnt :: "u64 \<Rightarrow> 'a allocator_scheme \<Rightarrow> (unit \<times> 'a allocator_scheme) run" where
  "inode_dec_open_cnt file s =
     (let s = set_at_high32 file 0 (at_high32 s file 0 - 1) s
      in if at_high32 s file 0 = 0 \<and> at32 s file 0 = 0 then cleanup_file file s else ret ((), s))"

text \<open>The loop over the radix roots; each root has the one before it as its first child.\<close>

primrec inode_roots ::
  "nat \<Rightarrow> nat \<Rightarrow> u64 \<Rightarrow> u64 \<Rightarrow> 'a allocator_scheme \<Rightarrow> (unit \<times> 'a allocator_scheme) run" where
  "inode_roots 0 i cur_radix file s = ret ((), s)"
| "inode_roots (Suc n) i cur_radix file s =
     bindr (radix_create INODE_FILE_RADIX_LEVEL_DEPTH s) (\<lambda>(new_radix, s).
     bindr (radix_insert new_radix 0 cur_radix 1 INODE_FILE_RADIX_LEVEL_DEPTH s) (\<lambda>(_, s).
       inode_roots n (Suc i) new_radix file (set_at file (of_nat (3 + i)) new_radix s)))"

definition create_blank_inode_file :: "'a allocator_scheme \<Rightarrow> (u64 \<times> 'a allocator_scheme) run" where
  "create_blank_inode_file s =
     bindr (mem_alloc 152 s) (\<lambda>(file, s).
       let s = set_at32 file 1 INODE_FILE s;
           s = set_at_high32 file 0 0 s;
           s = set_at32 file 0 0 s;
           s = set_at file 2 0 s
       in bindr (inode_roots INODE_FILE_RADIX_MAX_DEPTH 0 0 file s) (\<lambda>(_, s). ret (file, s)))"

definition inject_page :: "u64 \<Rightarrow> u64 \<Rightarrow> u64 \<Rightarrow> u64 \<Rightarrow> u64 \<Rightarrow> mem \<Rightarrow> mem" where
  "inject_page src sz page_cnt i pg_addr m =
     (if i \<noteq> page_cnt - 1 then copy_words 512 pg_addr (src + 8 * (512 * i)) m
      else copy_bytes (unat (sz mod 4096)) pg_addr (src + 4096 * i) m)"

definition inode_file_debug_inject_data ::
  "u64 \<Rightarrow> u64 \<Rightarrow> u64 \<Rightarrow> 'a allocator_scheme \<Rightarrow> (unit \<times> 'a allocator_scheme) run" where
  "inode_file_debug_inject_data src sz file s =
     (if at32 s file 1 \<noteq> INODE_FILE then panic ''inode_file_debug_inject_data_ON_NON_FILE'' 0 0 0
      else
        let page_cnt = ROUND_MOD_UP sz 4096 div 4096
        in bindr (for_each [0..<unat page_cnt] (\<lambda>i s.
                    bindr (pg_alloc s) (\<lambda>(pg_addr, s).
                      let s = s\<lparr>kmem := inject_page src sz page_cnt (of_nat i) pg_addr (kmem s)\<rparr>
                      in bindr (radix_insert (at s file (of_nat (3 + (INODE_FILE_RADIX_MAX_DEPTH - 1)))) (of_nat i)
                                  pg_addr INODE_FILE_RADIX_MAX_DEPTH INODE_FILE_RADIX_LEVEL_DEPTH s) (\<lambda>(old_addr, s).
                           if old_addr \<noteq> 0 then panic ''inode_file_debug_inject_data_ALREADY_CONTENTS'' 0 0 0
                           else ret ((), s)))) s)
           (\<lambda>(_, s). ret ((), set_at file 2 sz s)))"

section \<open>Directory entries\<close>

definition children :: "'a machine_scheme \<Rightarrow> u64 \<Rightarrow> klist" where
  "children s d = \<lparr>first_section = at s d 33, section_size = at s d 34, item_cnt = at s d 35, item_size = at s d 36\<rparr>"

definition set_children :: "u64 \<Rightarrow> klist \<Rightarrow> 'a machine_scheme \<Rightarrow> 'a machine_scheme" where
  "set_children d l s =
     set_at d 36 (item_size l) (set_at d 35 (item_cnt l) (set_at d 34 (section_size l) (set_at d 33 (first_section l) s)))"

abbreviation (input) dentry_link_refs :: "'a machine_scheme \<Rightarrow> u64 \<Rightarrow> u32" where
  "dentry_link_refs s d \<equiv> at_high32 s d 37"

definition cleanup_dentry :: "u64 \<Rightarrow> 'a allocator_scheme \<Rightarrow> (unit \<times> 'a allocator_scheme) run" where
  "cleanup_dentry item s =
     (let parent = at s item 38;
          s = (if parent \<noteq> 0 then set_at_high32 parent 37 (dentry_link_refs s parent - 1) s else s)
      in mem_free item s)"

definition dentry_inc_link :: "u64 \<Rightarrow> 'a machine_scheme \<Rightarrow> 'a machine_scheme" where
  "dentry_inc_link entry s = set_at_high32 entry 37 (dentry_link_refs s entry + 1) s"

definition dentry_dec_link :: "u64 \<Rightarrow> 'a allocator_scheme \<Rightarrow> (unit \<times> 'a allocator_scheme) run" where
  "dentry_dec_link entry s =
     (let s = set_at_high32 entry 37 (dentry_link_refs s entry - 1) s
      in if dentry_link_refs s entry = 0 \<and> at32 s entry 37 = 0 then cleanup_dentry entry s else ret ((), s))"

definition dentry_inc_open_cnt :: "u64 \<Rightarrow> 'a machine_scheme \<Rightarrow> 'a machine_scheme" where
  "dentry_inc_open_cnt entry s = set_at_high32 entry 37 (dentry_link_refs s entry + 1) s"

definition dentry_dec_open_cnt :: "u64 \<Rightarrow> 'a allocator_scheme \<Rightarrow> (unit \<times> 'a allocator_scheme) run" where
  "dentry_dec_open_cnt entry s =
     (let s = set_at_high32 entry 37 (dentry_link_refs s entry - 1) s
      in if dentry_link_refs s entry = 0 \<and> at32 s entry 37 = 0 then cleanup_dentry entry s else ret ((), s))"

text \<open>
  The loops over the children test \<open>iter.cur_list->item_cnt\<close>, which is outside the list once the
  iterator has moved.
\<close>

partial_function (option) get_child_from ::
  "klist \<Rightarrow> list_iter \<Rightarrow> u64 \<Rightarrow> 'a machine_scheme \<Rightarrow> u64 run" where
  "get_child_from l it child_name s =
     (if cur_list it \<noteq> 0 then undef ''list pointer past its object''
      else if cur_upto it < item_cnt l then
        bindr (list_iter_next l it s) (\<lambda>(slot, it).
          let child = at s slot 0
          in bindr (strcmp child child_name (kmem s)) (\<lambda>c.
               if c = 0 then ret child else get_child_from l it child_name s))
      else ret 0)"

definition get_child :: "u64 \<Rightarrow> u64 \<Rightarrow> 'a fs_scheme \<Rightarrow> u64 run" where
  "get_child item child_name s =
     bindr (strcmp child_name (str_dot s) (kmem s)) (\<lambda>c.
       if c = 0 then ret item
       else bindr (strcmp child_name (str_dotdot s) (kmem s)) (\<lambda>c.
         if c = 0 then ret (at s item 38)
         else bindr (list_iter_create (children s item)) (\<lambda>it.
           get_child_from (children s item) it child_name s)))"

partial_function (option) remove_child_from ::
  "u64 \<Rightarrow> klist \<Rightarrow> list_iter \<Rightarrow> u64 \<Rightarrow> 'a allocator_scheme \<Rightarrow> (unit \<times> 'a allocator_scheme) run" where
  "remove_child_from folder l it child_name s =
     (if cur_list it \<noteq> 0 then undef ''list pointer past its object''
      else if cur_upto it < item_cnt l then
        bindr (list_iter_next l it s) (\<lambda>(slot, it).
          let child = at s slot 0
          in bindr (strcmp child child_name (kmem s)) (\<lambda>c.
               if c = 1 then
                 bindr (dentry_dec_link child s) (\<lambda>(_, s).
                 bindr (list_remove (children s child) (cur_upto it) s) (\<lambda>(l', s).
                   ret ((), set_children child l' s)))
               else remove_child_from folder l it child_name s))
      else panic ''DENTRY_FAILED_TO_REMOVE_CHILD'' folder 0 0)"

definition remove_child :: "u64 \<Rightarrow> u64 \<Rightarrow> 'a allocator_scheme \<Rightarrow> (unit \<times> 'a allocator_scheme) run" where
  "remove_child child child_name s =
     bindr (list_iter_create (children s child)) (\<lambda>it.
       remove_child_from child (children s child) it child_name s)"

definition insert_child :: "u64 \<Rightarrow> u64 \<Rightarrow> u64 \<Rightarrow> 'a allocator_scheme \<Rightarrow> (unit \<times> 'a allocator_scheme) run" where
  "insert_child item_slot folder dentry_item s =
     (let s = set_at item_slot 0 dentry_item s;
          s = dentry_inc_link dentry_item s
      in bindr (list_append (children s folder) item_slot s) (\<lambda>(l, s). ret ((), set_children folder l s)))"

partial_function (option) dentry_walk ::
  "u64 \<Rightarrow> u64 \<Rightarrow> u64 \<Rightarrow> 'a fs_scheme \<Rightarrow> (u64 \<times> 'a fs_scheme) run" where
  "dentry_walk filename cur_char cur_node s =
     (if ld8 (kmem s) cur_char = 0 then ret (cur_node, s)
      else
        bindr (strchr cur_char 47 (kmem s)) (\<lambda>slash.
        bindr (if slash = 0 then bindr (strlen cur_char (kmem s)) (\<lambda>n. ret (cur_char + n)) else ret slash) (\<lambda>next_slash.
          let name_size = next_slash - cur_char
          in if name_size > 256 then ret (0, s)
             else
               let s = s\<lparr>kmem := strscpy filename cur_char 257 (kmem s)\<rparr>
               in bindr (get_child cur_node filename s) (\<lambda>cur_node.
                    if cur_node = 0 then
                      bindr (uart_print_lit ''no child by name'' s) (\<lambda>(_, s).
                      bindr (uart_print_char 10 s) (\<lambda>(_, s). ret (0, s)))
                    else dentry_walk filename (next_slash + 1) cur_node s))))"

definition dentry_get_path :: "u64 \<Rightarrow> u64 \<Rightarrow> u64 \<Rightarrow> 'a fs_scheme \<Rightarrow> (u64 \<times> 'a fs_scheme) run" where
  "dentry_get_path filename cwd path_str s =
     (if ld8 (kmem s) path_str = 47 then dentry_walk filename (path_str + 1) (root_dentry_folder s) s
      else dentry_walk filename path_str cwd s)"

definition create_dentry ::
  "u64 \<Rightarrow> u64 \<Rightarrow> u64 \<Rightarrow> u64 \<Rightarrow> 'a allocator_scheme \<Rightarrow> (u64 \<times> 'a allocator_scheme) run" where
  "create_dentry item_slot parent name file s =
     (let s = (if parent \<noteq> 0 then set_at_high32 parent 37 (dentry_link_refs s parent + 1) s else s)
      in bindr (mem_alloc 312 s) (\<lambda>(folder, s).
           let s = set_at_high32 folder 37 0 s;
               s = set_at32 folder 37 0 s
           in bindr (if file = 0 then
                       let s = set_at32 folder 32 DENTRY_FOLDER s
                       in bindr (list_create 8 s) (\<lambda>(l, s). ret ((), set_children folder l s))
                     else
                       let s = inode_inc_link file s;
                           s = set_at32 folder 32 DENTRY_OTHER s
                       in ret ((), set_at folder 33 file s)) (\<lambda>(_, s).
              let s = s\<lparr>kmem := strscpy folder name 256 (kmem s)\<rparr>
              in bindr (if parent \<noteq> 0 then insert_child item_slot parent folder s else ret ((), s)) (\<lambda>(_, s).
                   ret (folder, s)))))"

definition init_dentry :: "u64 \<Rightarrow> 'a fs_scheme \<Rightarrow> (unit \<times> 'a fs_scheme) run" where
  "init_dentry item_slot s =
     bindr (create_dentry item_slot 0 (str_empty s) 0 s) (\<lambda>(folder, s).
       let s = set_at_high32 folder 37 100 s;
           s = s\<lparr>root_dentry_folder := folder\<rparr>
       in bindr (strlen (str_example_text s) (kmem s)) (\<lambda>len.
          bindr (create_blank_inode_file s) (\<lambda>(example_file, s).
          bindr (inode_file_debug_inject_data (str_example_text s) (len + 1) example_file s) (\<lambda>(_, s).
          bindr (create_dentry item_slot (root_dentry_folder s) (str_example_name s) example_file s) (\<lambda>(_, s).
            ret ((), s))))))"

section \<open>Open files\<close>

definition file_descriptor_open :: "u64 \<Rightarrow> 'a allocator_scheme \<Rightarrow> (u64 \<times> 'a allocator_scheme) run" where
  "file_descriptor_open file s =
     (if file = 0 then undef ''null pointer''
      else
        let s = inode_inc_open_cnt file s
        in bindr (mem_alloc 32 s) (\<lambda>(desc, s).
             let s = set_at desc 3 0 s;
                 s = set_at desc 2 (put8 0 0 (at s desc 2)) s;
                 s = set_at desc 1 0 s;
                 s = set_at desc 0 file s
             in ret (desc, s)))"

definition release_file_descriptor :: "u64 \<Rightarrow> 'a vma_scheme \<Rightarrow> (unit \<times> 'a vma_scheme) run" where
  "release_file_descriptor desc s =
     (let s = irq_disable s
      in if at s desc 3 \<noteq> 0 then panic ''RELEASE_MAPPED_FILE_DESCRIPTOR_NOT_SUPPORTED'' 0 0 0
         else bindr (inode_dec_open_cnt (at s desc 0) s) (\<lambda>(_, s).
              bindr (mem_free desc s) (\<lambda>(_, s). ret ((), irq_enable s))))"

partial_function (option) find_page_loop ::
  "u64 \<Rightarrow> u64 \<Rightarrow> nat \<Rightarrow> u64 \<Rightarrow> u64 \<Rightarrow> 'a allocator_scheme \<Rightarrow> (u64 \<times> 'a allocator_scheme) run" where
  "find_page_loop offset page_num radix_level file page_location s =
     (if page_location \<noteq> 0 then ret (page_location, s)
      else
        bindr (radix_get (at s file (of_nat (3 + radix_level))) page_num (radix_level + 1)
                 INODE_FILE_RADIX_LEVEL_DEPTH s) (\<lambda>page_location.
          if page_location \<noteq> 0 then find_page_loop offset page_num radix_level file page_location s
          else if offset \<ge> at s file 2 then
            bindr (pg_alloc s) (\<lambda>(page_location, s).
            bindr (radix_insert (at s file (of_nat (3 + radix_level))) page_num page_location (radix_level + 1)
                     INODE_FILE_RADIX_LEVEL_DEPTH s) (\<lambda>(_, s).
              find_page_loop offset page_num radix_level file page_location s))
          else panic ''READ/WRITE_OUT_OF_BOUNDS_FILE_DESC_UNIMPLENTED'' 0 0 0))"

definition find_page_start :: "u64 \<Rightarrow> u64 \<Rightarrow> 'a allocator_scheme \<Rightarrow> (u64 \<times> 'a allocator_scheme) run" where
  "find_page_start offset file s =
     (let page_num = offset div 4096;
          leading_zeros = clzl (page_num + 1);
          furthest_one = 63 - leading_zeros;
          radix_level = furthest_one div INODE_FILE_RADIX_LEVEL_DEPTH
      in find_page_loop offset page_num radix_level file 0 s)"

text \<open>The bytes of one page, from the file to the buffer and back; every byte steps both offsets.\<close>

primrec read_page :: "nat \<Rightarrow> u64 \<Rightarrow> u64 \<Rightarrow> u64 \<Rightarrow> mem \<Rightarrow> mem" where
  "read_page 0 page_start offset dest m = m"
| "read_page (Suc n) page_start offset dest m =
     read_page n page_start (offset + 1) (dest + 1) (st8 m dest (ld8 m (page_start + offset mod 4096)))"

primrec write_page :: "nat \<Rightarrow> u64 \<Rightarrow> u64 \<Rightarrow> u64 \<Rightarrow> mem \<Rightarrow> mem" where
  "write_page 0 page_start offset src m = m"
| "write_page (Suc n) page_start offset src m =
     write_page n page_start (offset + 1) (src + 1) (st8 m (page_start + offset mod 4096) (ld8 m src))"

definition page_end :: "u64 \<Rightarrow> u64 \<Rightarrow> u64" where
  "page_end size_left offset = min size_left (4096 - offset mod 4096)"

partial_function (option) file_read_loop ::
  "u64 \<Rightarrow> u64 \<Rightarrow> u64 \<Rightarrow> u64 \<Rightarrow> 'a allocator_scheme \<Rightarrow> (u64 \<times> 'a allocator_scheme) run" where
  "file_read_loop file size_left offset dest s =
     (if size_left > 0 then
        bindr (find_page_start offset file s) (\<lambda>(page_start, s).
          let n = page_end size_left offset
          in file_read_loop file (size_left - n) (offset + n) (dest + n)
               (s\<lparr>kmem := read_page (unat n) page_start offset dest (kmem s)\<rparr>))
      else ret (offset, s))"

partial_function (option) file_write_loop ::
  "u64 \<Rightarrow> u64 \<Rightarrow> u64 \<Rightarrow> u64 \<Rightarrow> 'a allocator_scheme \<Rightarrow> (u64 \<times> 'a allocator_scheme) run" where
  "file_write_loop file size_left offset src s =
     (if size_left > 0 then
        bindr (find_page_start offset file s) (\<lambda>(page_start, s).
          let n = page_end size_left offset
          in file_write_loop file (size_left - n) (offset + n) (src + n)
               (s\<lparr>kmem := write_page (unat n) page_start offset src (kmem s)\<rparr>))
      else ret (offset, s))"

text \<open>The early returns of the file branch leave the interrupts disabled.\<close>

definition file_descriptor_read :: "u64 \<Rightarrow> u64 \<Rightarrow> u64 \<Rightarrow> 'a vma_scheme \<Rightarrow> (u64 \<times> 'a vma_scheme) run" where
  "file_descriptor_read desc dest sz s =
     (let s = irq_disable s;
          file = at s desc 0
      in if at32 s file 1 = INODE_SOCKET then panic ''ATTEMPT WRITE TO socket'' 0 0 0
         else if at32 s file 1 = INODE_PIPE then panic ''ATTEMPT WRITE TO PIPE'' 0 0 0
         else if at32 s file 1 = INODE_FOLDER then panic ''ATTEMPT WRITE TO FOLDER'' 0 0 0
         else if at32 s file 1 = INODE_FILE then
           let read_size = min sz (at s file 2 - at s desc 1);
               offset = at s desc 1
           in if offset > at s file 2 then ret (0, s)
              else if read_size = 0 then ret (0, s)
              else bindr (file_read_loop file read_size offset dest s) (\<lambda>(offset, s).
                     ret (read_size, set_at desc 1 offset s))
         else panic ''UNKNOWN_READ_FILE_TYPE'' (ucast (at32 s file 1)) 0 0)"

definition file_descriptor_write :: "u64 \<Rightarrow> u64 \<Rightarrow> u64 \<Rightarrow> 'a vma_scheme \<Rightarrow> (u64 \<times> 'a vma_scheme) run" where
  "file_descriptor_write desc src sz s =
     (let s = irq_disable s;
          file = at s desc 0
      in if at32 s file 1 = INODE_SOCKET then panic ''ATTEMPT WRITE TO socket'' 0 0 0
         else if at32 s file 1 = INODE_PIPE then panic ''ATTEMPT WRITE TO PIPE'' 0 0 0
         else if at32 s file 1 = INODE_FOLDER then panic ''ATTEMPT WRITE TO FOLDER'' 0 0 0
         else if at32 s file 1 = INODE_FILE then
           bindr (file_write_loop file sz (at s desc 1) src s) (\<lambda>(offset, s).
             let s = set_at desc 1 offset s
             in ret (sz, set_at file 2 (max (at s file 2) (sz + at s desc 1)) s))
         else panic ''UNKNOWN_WRITE_FILE_TYPE'' (ucast (at32 s file 1)) 0 0)"

definition file_open_path :: "u64 \<Rightarrow> u64 \<Rightarrow> u64 \<Rightarrow> 'a fs_scheme \<Rightarrow> (u64 \<times> 'a fs_scheme) run" where
  "file_open_path filename cwd path_str s =
     (let s = irq_disable s
      in bindr (dentry_get_path filename cwd path_str s) (\<lambda>(dentry, s).
           if dentry = 0 then ret (0, s)
           else if at32 s dentry 32 \<noteq> DENTRY_OTHER then ret (0, s)
           else
             let file = at s dentry 33
             in if file = 0 then ret (0, s)
                else bindr (file_descriptor_open file s) (\<lambda>(file_desc, s). ret (file_desc, irq_enable s))))"

definition file_descriptor_seek :: "u64 \<Rightarrow> u64 \<Rightarrow> 'a vma_scheme \<Rightarrow> (unit \<times> 'a vma_scheme) run" where
  "file_descriptor_seek desc seek_pos s =
     (let s = irq_disable s in ret ((), irq_enable (set_at desc 1 seek_pos s)))"

end
