(* ===== verification/Syscall.thy ===== *)
theory Syscall
  imports File_System
begin

text \<open>
  The system calls: \<^verbatim>\<open>src/src/kernel/syscall/handler.c\<close>, \<^verbatim>\<open>src/src/kernel/syscall/uart/handler.c\<close>
  and \<^verbatim>\<open>src/src/kernel/syscall/file_system/handler.c\<close>.

  A handler gets the trap data and returns it with the result register the code sets. The routine that
  copies user memory and the addresses of the two path buffers on the kernel stack are arguments. The
  sizes of the read and write calls are signed, so their page count and rest are signed divisions.
\<close>

abbreviation (input) TRAP_HANDLED :: u64 where "TRAP_HANDLED \<equiv> 0"
abbreviation (input) TRAP_UNHANDLED :: u64 where "TRAP_UNHANDLED \<equiv> 1"
abbreviation (input) TRAP_SWAP_PROCESS :: u64 where "TRAP_SWAP_PROCESS \<equiv> 2"
abbreviation (input) SYSCALL_UART_PRINT :: u64 where "SYSCALL_UART_PRINT \<equiv> 1"
abbreviation (input) SYSCALL_IDLE_HANG :: u64 where "SYSCALL_IDLE_HANG \<equiv> 3"
abbreviation (input) SYSCALL_FS_OPEN :: u64 where "SYSCALL_FS_OPEN \<equiv> 4"
abbreviation (input) SYSCALL_FS_READ :: u64 where "SYSCALL_FS_READ \<equiv> 5"
abbreviation (input) SYSCALL_FS_WRITE :: u64 where "SYSCALL_FS_WRITE \<equiv> 6"
abbreviation (input) SYSCALL_FS_SEEK :: u64 where "SYSCALL_FS_SEEK \<equiv> 7"
abbreviation (input) MAX_OPEN_FILE_DESCRIPTORS :: u64 where "MAX_OPEN_FILE_DESCRIPTORS \<equiv> 1024"

section \<open>Printing\<close>

definition print_bytes :: "u64 \<Rightarrow> nat \<Rightarrow> 'a uart_scheme \<Rightarrow> (unit \<times> 'a uart_scheme) run" where
  "print_bytes location n s = for_each [0..<n] (\<lambda>i s. uart_print_char (ld8 (kmem s) (location + of_nat i)) s) s"

definition syscall_uart ::
  "'a vma_scheme copy_user \<Rightarrow> trap_data \<Rightarrow> bool \<Rightarrow> 'a vma_scheme \<Rightarrow> ((u64 \<times> trap_data) \<times> 'a vma_scheme) run" where
  "syscall_uart cp trap async s =
     (if arg1_reg trap = 0 then
        bindr (uart_print_char (ucast (arg2_reg trap)) s) (\<lambda>(_, s). ret ((TRAP_HANDLED, trap), s))
      else if arg1_reg trap = 1 then
        let str_src = arg2_reg trap;
            str_size = arg3_reg trap
        in if \<not> async then ret ((U64_MAX, trap), s)
           else if str_size > 512 \<or> str_size = 0 then ret ((TRAP_HANDLED, trap\<lparr>return_reg := U64_MAX\<rparr>), s)
           else
             bindr (mem_alloc str_size (irq_disable s)) (\<lambda>(location, s).
             bindr (kernel_read_user cp str_src str_size location (process_ptr trap) (irq_enable s)) (\<lambda>(response, s).
               let trap = trap\<lparr>return_reg := U64_MAX\<rparr>
               in bindr (if response then
                           bindr (print_bytes location (unat str_size) s) (\<lambda>(_, s).
                             ret (trap\<lparr>return_reg := 0\<rparr>, s))
                         else ret (trap, s)) (\<lambda>(trap, s).
                  bindr (mem_free location (irq_disable s)) (\<lambda>(_, s).
                    ret ((TRAP_HANDLED, trap), irq_enable s)))))
      else ret ((TRAP_UNHANDLED, trap), s))"

section \<open>The descriptors of a process\<close>

text \<open>
  A process has a chain of pages; word 0 of a page links the next one and the other 511 words hold
  descriptors.
\<close>

abbreviation (input) fd_page_cnt :: u64 where "fd_page_cnt \<equiv> 511"

primrec fd_page :: "nat \<Rightarrow> u64 \<Rightarrow> 'a machine_scheme \<Rightarrow> u64" where
  "fd_page 0 cur_page s = cur_page"
| "fd_page (Suc n) cur_page s =
     (let cur_page = at s cur_page 0 in if cur_page = 0 then 0 else fd_page n cur_page s)"

definition fd_get_local :: "u64 \<Rightarrow> u64 \<Rightarrow> 'a machine_scheme \<Rightarrow> u64" where
  "fd_get_local local_id proc s =
     (let page_num = local_id div fd_page_cnt;
          page_loc = local_id mod fd_page_cnt;
          cur_page = fd_page (unat page_num) (at s proc 8) s
      in if page_num > 0 \<and> cur_page = 0 then 0 else at s cur_page (page_loc + 2))"

definition fd_free_slot :: "u64 \<Rightarrow> 'a machine_scheme \<Rightarrow> nat option" where
  "fd_free_slot page s = find (\<lambda>i. at s page (of_nat i + 1) = 0) [0..<511]"

partial_function (option) fd_insert_from ::
  "u64 \<Rightarrow> u64 \<Rightarrow> u64 \<Rightarrow> 'a vma_scheme \<Rightarrow> (u64 \<times> 'a vma_scheme) run" where
  "fd_insert_from fd page page_num s =
     (case fd_free_slot page s of
        Some i \<Rightarrow> ret (page_num * fd_page_cnt + of_nat i, set_at page (of_nat i + 1) fd s)
      | None \<Rightarrow>
          bindr (if at s page 0 = 0 then
                   bindr (pg_alloc (irq_disable s)) (\<lambda>(p, s). ret ((), irq_enable (set_at page 0 p s)))
                 else ret ((), s)) (\<lambda>(_, s).
            fd_insert_from fd (at s page 0) (page_num + 1) s))"

definition fd_insert_local :: "u64 \<Rightarrow> u64 \<Rightarrow> 'a vma_scheme \<Rightarrow> (u64 \<times> 'a vma_scheme) run" where
  "fd_insert_local fd proc s = fd_insert_from fd (at s proc 8) 0 s"

definition fd_remove_local :: "u64 \<Rightarrow> u64 \<Rightarrow> 'a machine_scheme \<Rightarrow> 'a machine_scheme" where
  "fd_remove_local local_id proc s =
     (let page_num = local_id div fd_page_cnt;
          page_loc = local_id mod fd_page_cnt + 1;
          cur_page = fd_page (unat page_num) (at s proc 8) s
      in if page_num > 0 \<and> cur_page = 0 then s
         else if at s cur_page page_loc = 0 then s
         else set_at cur_page page_loc 0 s)"

section \<open>Files\<close>

definition clear_bytes :: "nat \<Rightarrow> u64 \<Rightarrow> mem \<Rightarrow> mem" where
  "clear_bytes n p m = fold (\<lambda>i m. st8 m (p + of_nat i) 0) [0..<n] m"

definition syscall_fs_open ::
  "'a fs_scheme copy_user \<Rightarrow> u64 \<Rightarrow> u64 \<Rightarrow> trap_data \<Rightarrow> 'a fs_scheme \<Rightarrow> (trap_data \<times> 'a fs_scheme) run" where
  "syscall_fs_open cp path_buf filename trap s =
     (let proc = process_ptr trap;
          failed = trap\<lparr>return_reg := U64_MAX\<rparr>
      in if at s proc 9 \<ge> MAX_OPEN_FILE_DESCRIPTORS then ret (failed, s)
         else
           let path_user_addr = arg1_reg trap;
               s = s\<lparr>kmem := clear_bytes 257 path_buf (kmem s)\<rparr>
           in bindr (kernel_read_user cp path_user_addr 256 path_buf proc s) (\<lambda>(_, s).
                if ld8 (kmem s) path_buf = 0 then ret (failed, s)
                else bindr (file_open_path filename (at s proc 12) path_buf s) (\<lambda>(fd, s).
                  if fd = 0 then ret (failed, s)
                  else bindr (fd_insert_local fd proc s) (\<lambda>(local_id, s).
                    ret (trap\<lparr>return_reg := local_id\<rparr>, set_at proc 9 (at s proc 9 + 1) s)))))"

definition signed_pages :: "u64 \<Rightarrow> u64" where
  "signed_pages sz = word_of_int (sint sz sdiv 4096)"

definition signed_rest :: "u64 \<Rightarrow> u64" where
  "signed_rest sz = word_of_int (sint sz smod 4096)"

text \<open>The loops over whole pages return whether they ran to the end.\<close>

primrec fs_read_pages ::
  "nat \<Rightarrow> 'a vma_scheme copy_user \<Rightarrow> u64 \<Rightarrow> u64 \<Rightarrow> u64 \<Rightarrow> u64 \<Rightarrow> u64 \<Rightarrow> 'a vma_scheme
    \<Rightarrow> ((bool \<times> u64 \<times> u64) \<times> 'a vma_scheme) run" where
  "fs_read_pages 0 cp fd page proc cur_addr read_size s = ret ((True, cur_addr, read_size), s)"
| "fs_read_pages (Suc n) cp fd page proc cur_addr read_size s =
     bindr (file_descriptor_read fd page 4096 s) (\<lambda>(read_cnt, s).
       let read_size = read_size + read_cnt
       in if read_cnt < 4096 then ret ((False, cur_addr, read_size), s)
          else bindr (kernel_write_user cp cur_addr 4096 page proc s) (\<lambda>(_, s).
            fs_read_pages n cp fd page proc (cur_addr + 4096) read_size s))"

definition syscall_fs_read ::
  "'a vma_scheme copy_user \<Rightarrow> trap_data \<Rightarrow> 'a vma_scheme \<Rightarrow> (trap_data \<times> 'a vma_scheme) run" where
  "syscall_fs_read cp trap s =
     (let proc = process_ptr trap;
          sz = arg3_reg trap;
          fd = fd_get_local (arg1_reg trap) proc s
      in if fd = 0 then ret (trap\<lparr>return_reg := U64_MAX\<rparr>, s)
         else
           bindr (pg_alloc (irq_disable s)) (\<lambda>(page, s).
           bindr (fs_read_pages (unat (signed_pages sz)) cp fd page proc (arg2_reg trap) 0 (irq_enable s))
             (\<lambda>((all_read, cur_addr, read_size), s).
                let size_left = (if all_read then signed_rest sz else 0)
                in bindr (if size_left > 0 then
                            bindr (file_descriptor_read fd page size_left s) (\<lambda>(read_cnt, s).
                            bindr (kernel_write_user cp cur_addr read_cnt page proc s) (\<lambda>(_, s).
                              ret (read_size + read_cnt, s)))
                          else ret (read_size, s)) (\<lambda>(read_size, s).
                   bindr (pg_free page (irq_disable s)) (\<lambda>(_, s).
                     ret (trap\<lparr>return_reg := read_size\<rparr>, irq_enable s))))))"

primrec fs_write_pages ::
  "nat \<Rightarrow> 'a vma_scheme copy_user \<Rightarrow> u64 \<Rightarrow> u64 \<Rightarrow> u64 \<Rightarrow> u64 \<Rightarrow> u64 \<Rightarrow> 'a vma_scheme
    \<Rightarrow> ((bool \<times> u64 \<times> u64) \<times> 'a vma_scheme) run" where
  "fs_write_pages 0 cp fd page proc cur_addr write_size s = ret ((True, cur_addr, write_size), s)"
| "fs_write_pages (Suc n) cp fd page proc cur_addr write_size s =
     bindr (kernel_read_user cp cur_addr 4096 page proc s) (\<lambda>(is_user_read, s).
       if \<not> is_user_read then ret ((False, cur_addr, write_size), s)
       else
         bindr (file_descriptor_write fd page 4096 s) (\<lambda>(write_cnt, s).
           let write_size = write_size + write_cnt
           in if write_cnt < 4096 then ret ((False, cur_addr, write_size), s)
              else fs_write_pages n cp fd page proc (cur_addr + 4096) write_size s))"

definition syscall_fs_write ::
  "'a vma_scheme copy_user \<Rightarrow> trap_data \<Rightarrow> 'a vma_scheme \<Rightarrow> (trap_data \<times> 'a vma_scheme) run" where
  "syscall_fs_write cp trap s =
     (let proc = process_ptr trap;
          sz = arg3_reg trap;
          fd = fd_get_local (arg1_reg trap) proc s
      in if fd = 0 then ret (trap\<lparr>return_reg := U64_MAX\<rparr>, s)
         else
           bindr (pg_alloc (irq_disable s)) (\<lambda>(page, s).
           bindr (fs_write_pages (unat (signed_pages sz)) cp fd page proc (arg2_reg trap) 0 (irq_enable s))
             (\<lambda>((all_written, cur_addr, write_size), s).
                let size_left = (if all_written then signed_rest sz else 0)
                in bindr (if size_left > 0 then
                            bindr (kernel_read_user cp cur_addr size_left page proc s) (\<lambda>(is_user_read, s).
                            bindr (file_descriptor_write fd page (if is_user_read then size_left else 0) s) (\<lambda>(write_cnt, s).
                              ret (write_size + write_cnt, s)))
                          else ret (write_size, s)) (\<lambda>(write_size, s).
                   bindr (pg_free page (irq_disable s)) (\<lambda>(_, s).
                     ret (trap\<lparr>return_reg := write_size\<rparr>, irq_enable s))))))"

definition syscall_fs_seek :: "trap_data \<Rightarrow> 'a machine_scheme \<Rightarrow> trap_data \<times> 'a machine_scheme" where
  "syscall_fs_seek trap s =
     (let fd = fd_get_local (arg1_reg trap) (process_ptr trap) s
      in if fd = 0 then (trap\<lparr>return_reg := U64_MAX\<rparr>, s)
         else (trap, set_at fd 1 (arg2_reg trap) s))"

section \<open>Dispatch\<close>

definition syscall_sync_handler ::
  "'a vma_scheme copy_user \<Rightarrow> trap_data \<Rightarrow> 'a vma_scheme \<Rightarrow> ((u64 \<times> trap_data) \<times> 'a vma_scheme) run" where
  "syscall_sync_handler cp trap s =
     (if arg0_reg trap = SYSCALL_UART_PRINT then syscall_uart cp trap False s
      else ret ((TRAP_UNHANDLED, trap), s))"

definition print_entry :: "string \<Rightarrow> u64 \<Rightarrow> 'a uart_scheme \<Rightarrow> (unit \<times> 'a uart_scheme) run" where
  "print_entry label v s = bindr (uart_print_lit label s) (\<lambda>(_, s). uart_println_u64 v s)"

definition unknown_syscall :: "trap_data \<Rightarrow> 'a uart_scheme \<Rightarrow> (unit \<times> 'a uart_scheme) run" where
  "unknown_syscall trap s =
     bindr (uart_print_lit ''process error: unknown syscall '' s) (\<lambda>(_, s).
     bindr (uart_print_char 10 s) (\<lambda>(_, s).
     bindr (print_entry ''process ID: '' (ucast (process_id s (process_ptr trap))) s) (\<lambda>(_, s).
     bindr (print_entry ''arg0: '' (arg0_reg trap) s) (\<lambda>(_, s).
     bindr (print_entry ''arg1: '' (arg1_reg trap) s) (\<lambda>(_, s).
     bindr (print_entry ''arg2: '' (arg2_reg trap) s) (\<lambda>(_, s).
       print_entry ''arg3: '' (arg3_reg trap) s))))))"

definition syscall_async_handler ::
  "'a fs_scheme copy_user \<Rightarrow> u64 \<Rightarrow> u64 \<Rightarrow> trap_data \<Rightarrow> 'a fs_scheme \<Rightarrow> ((u64 \<times> trap_data) \<times> 'a fs_scheme) run" where
  "syscall_async_handler cp path_buf filename trap s =
     (if arg0_reg trap = SYSCALL_UART_PRINT then syscall_uart cp trap True s
      else if arg0_reg trap = SYSCALL_IDLE_HANG then
        bindr (idle_loop_system s) (\<lambda>(_, s). ret ((TRAP_HANDLED, trap), s))
      else if arg0_reg trap = SYSCALL_FS_OPEN then
        bindr (syscall_fs_open cp path_buf filename trap s) (\<lambda>(trap, s). ret ((TRAP_HANDLED, trap), s))
      else if arg0_reg trap = SYSCALL_FS_READ then
        bindr (syscall_fs_read cp trap s) (\<lambda>(trap, s). ret ((TRAP_HANDLED, trap), s))
      else if arg0_reg trap = SYSCALL_FS_WRITE then
        bindr (syscall_fs_write cp trap s) (\<lambda>(trap, s). ret ((TRAP_HANDLED, trap), s))
      else if arg0_reg trap = SYSCALL_FS_SEEK then
        (case syscall_fs_seek trap s of (trap, s) \<Rightarrow> ret ((TRAP_HANDLED, trap), s))
      else bindr (unknown_syscall trap s) (\<lambda>(_, s). ret ((TRAP_UNHANDLED, trap), s)))"

end
