(* ===== verification/Trap.thy ===== *)
theory Trap
  imports Syscall
begin

text \<open>
  The trap handlers: \<^verbatim>\<open>src/src/kernel/trap/handler.c\<close> with the directories \<^verbatim>\<open>uninterruptible\<close>,
  \<^verbatim>\<open>interruptible\<close> and \<^verbatim>\<open>page_fault\<close> beside it, and \<^verbatim>\<open>src/src/kernel/trap/process_handler.c\<close>.

  A trap first enters \<open>handle_sync_trap\<close> on the stack of the hart. Its result 0 means that the trap is
  dealt with; any other result is the stack on which the assembly code calls \<open>handle_async_trap\<close>.
\<close>

abbreviation (input) PROC_TRAP_PROCESS_UNINTERRUPTABLE_TRAP :: u32 where
  "PROC_TRAP_PROCESS_UNINTERRUPTABLE_TRAP \<equiv> 1"
abbreviation (input) PROC_TRAP_PROCESS_INTERRUPTABLE_TRAP :: u32 where
  "PROC_TRAP_PROCESS_INTERRUPTABLE_TRAP \<equiv> 2"
abbreviation (input) PROC_TRAP_PROCESS_READ_USERSPACE :: u32 where
  "PROC_TRAP_PROCESS_READ_USERSPACE \<equiv> 3"

abbreviation (input) trap_state :: "'a machine_scheme \<Rightarrow> u64 \<Rightarrow> u32" where "trap_state s p \<equiv> at32 s p 2"

section \<open>Traps handled on the stack of the hart\<close>

definition trap_change_process :: "trap_data \<Rightarrow> 'a hart_scheme \<Rightarrow> (unit \<times> 'a hart_scheme) run" where
  "trap_change_process trap s =
     (let old_process = process_ptr trap
      in bindr (if process_type s old_process = PROC_TYPE_NORMAL \<and> at s old_process 1 = 0
                then scheduler_queue_process old_process s else ret ((), s)) (\<lambda>(_, s).
         bindr (scheduler_next (hart_id trap) s) (\<lambda>(next_process, s).
         bindr (context_change_process next_process (hart_id trap) s) (\<lambda>(_, s).
           timer_set_future_ms 4 s))))"

text \<open>The three handlers that kill a process on a fault differ in the message of their panic.\<close>

definition kill_faulting ::
  "string \<Rightarrow> trap_data \<Rightarrow> u32 \<Rightarrow> 'a hart_scheme \<Rightarrow> (u64 \<times> 'a hart_scheme) run" where
  "kill_faulting msg trap past_proc_state s =
     (if past_proc_state \<noteq> PROC_TRAP_PROCESS \<or> privilege trap \<noteq> TRAP_MODE_USER then
        panic msg (mode_num (privilege trap)) (fault_addr trap) (fault_pc trap)
      else bindr (kill_process (process_id s (process_ptr trap)) s) (\<lambda>(_, s).
           bindr (trap_change_process trap s) (\<lambda>(_, s). ret (TRAP_HANDLED, s))))"

definition uninterruptible_trap_access_misaligned ::
  "trap_data \<Rightarrow> u32 \<Rightarrow> 'a hart_scheme \<Rightarrow> (u64 \<times> 'a hart_scheme) run" where
  "uninterruptible_trap_access_misaligned = kill_faulting ''KERNEL_TRAP_ACCESS_MISALIGNED''"

definition uninterruptible_trap_access_fault ::
  "trap_data \<Rightarrow> u32 \<Rightarrow> 'a hart_scheme \<Rightarrow> (u64 \<times> 'a hart_scheme) run" where
  "uninterruptible_trap_access_fault = kill_faulting ''KERNEL_TRAP_ACCESS_FAULT''"

definition uninterruptible_trap_instruction_invalid ::
  "trap_data \<Rightarrow> u32 \<Rightarrow> 'a hart_scheme \<Rightarrow> (u64 \<times> 'a hart_scheme) run" where
  "uninterruptible_trap_instruction_invalid = kill_faulting ''KERNEL_TRAP_INSTRUCTION_INVALID''"

definition uninterruptible_trap_page_fault ::
  "trap_data \<Rightarrow> u32 \<Rightarrow> 'a machine_scheme \<Rightarrow> (u64 \<times> 'a machine_scheme) run" where
  "uninterruptible_trap_page_fault trap past_proc_state s =
     (if past_proc_state \<noteq> PROC_TRAP_PROCESS \<and> reading_userspace s (process_ptr trap) = 0 then
        panic ''KERNEL_TRAP_PAGE_FAULT'' (mode_num (privilege trap)) (fault_addr trap) (fault_pc trap)
      else ret (TRAP_UNHANDLED, s))"

definition uninterruptible_trap_syscall ::
  "'a vma_scheme copy_user \<Rightarrow> trap_data \<Rightarrow> 'a vma_scheme \<Rightarrow> (u64 \<times> 'a vma_scheme) run" where
  "uninterruptible_trap_syscall cp trap s =
     bindr (syscall_sync_handler cp trap s) (\<lambda>((response, trap), s).
       if response = TRAP_UNHANDLED then ret (TRAP_UNHANDLED, s)
       else bindr (trap_data_set_response trap s) (\<lambda>(_, s).
            bindr (trap_data_iter_instruction s) (\<lambda>(_, s). ret (TRAP_HANDLED, s))))"

definition uninterruptible_trap_timer :: "trap_data \<Rightarrow> 'a machine_scheme \<Rightarrow> (u64 \<times> 'a machine_scheme) run" where
  "uninterruptible_trap_timer trap s =
     (if privilege trap \<noteq> TRAP_MODE_SUPERVISOR then
        panic ''KERNEL_TRAP_TIMER_NON_SUPERVISOR_PRIVILEGE'' (mode_num (privilege trap)) (fault_addr trap) (fault_pc trap)
      else ret (TRAP_SWAP_PROCESS, s))"

text \<open>The switch over the cause. Every cause has a case, so its \<open>default\<close> is not reached.\<close>

definition sync_dispatch ::
  "'a hart_scheme copy_user \<Rightarrow> trap_data \<Rightarrow> u32 \<Rightarrow> 'a hart_scheme \<Rightarrow> (u64 \<times> 'a hart_scheme) run" where
  "sync_dispatch cp trap past_proc_state s =
     (let stop = (\<lambda>msg. panic msg (mode_num (privilege trap)) (fault_addr trap) (fault_pc trap))
      in case trap_cause trap of
           TRAP_ACCESS_MISALIGNED \<Rightarrow> uninterruptible_trap_access_misaligned trap past_proc_state s
         | TRAP_ACCESS_FAULT \<Rightarrow> uninterruptible_trap_access_fault trap past_proc_state s
         | TRAP_INSTRUCTION_INVALID \<Rightarrow> uninterruptible_trap_instruction_invalid trap past_proc_state s
         | TRAP_BREAKPOINT \<Rightarrow> stop ''KERNEL_TRAP_UNIMPLENTED_BREAKPOINT''
         | TRAP_SYSCALL \<Rightarrow> uninterruptible_trap_syscall cp trap s
         | TRAP_PAGE_FAULT \<Rightarrow> uninterruptible_trap_page_fault trap past_proc_state s
         | TRAP_DOUBLE_TRAP \<Rightarrow> stop ''KERNEL_TRAP_DOUBLE_TRAP''
         | TRAP_SOFTWARE_CHECK \<Rightarrow> stop ''KERNEL_TRAP_UNIMPLENTED_SOFTWARE_CHECK''
         | TRAP_HARDWARE_ERROR \<Rightarrow> stop ''KERNEL_TRAP_UNIMPLENTED_HARDWARE_ERROR''
         | TRAP_SOFTWARE_INTERRUPT \<Rightarrow> stop ''KERNEL_TRAP_UNIMPLENTED_SOFTWARE_INTERRUPT''
         | TRAP_TIMER_INTERRUPT \<Rightarrow> uninterruptible_trap_timer trap s
         | TRAP_EXTERNAL_INTERRUPT \<Rightarrow> stop ''KERNEL_TRAP_UNIMPLENTED_EXTERNAL_INTERRUPT'')"

text \<open>
  \<open>stack\<close> is what the uninitialised \<open>trap_data\<close> on the stack held. For a trap taken inside the handler,
  the code computes a stack pointer and drops it, so the result stays 1.
\<close>

definition handle_sync_trap ::
  "'a hart_scheme copy_user \<Rightarrow> trap_data \<Rightarrow> 'a hart_scheme \<Rightarrow> (u64 \<times> 'a hart_scheme) run" where
  "handle_sync_trap cp stack s =
     bindr (trapframe_parse stack s) (\<lambda>trap.
       let proc = process_ptr trap;
           past_proc_state = trap_state s proc;
           s = set_at32 proc 2 PROC_TRAP_PROCESS_UNINTERRUPTABLE_TRAP s
       in bindr (sync_dispatch cp trap past_proc_state s) (\<lambda>(is_handled, s).
            let s = set_at32 proc 2 past_proc_state s
            in if is_handled = TRAP_UNHANDLED then
                 ret (if past_proc_state = PROC_TRAP_PROCESS_UNINTERRUPTABLE_TRAP then is_handled
                      else ROUND_MOD_DOWN (PROC_KERN_STACK_TOP - 8) 8, s)
               else if is_handled = TRAP_SWAP_PROCESS then
                 bindr (trap_change_process trap s) (\<lambda>(_, s). ret (TRAP_HANDLED, s))
               else ret (is_handled, s)))"

section \<open>Traps handled on the stack of the process\<close>

record interruptable_trap_response =
  queued_response :: u64
  skip_instruction :: bool
  kill_process_flag :: bool
  send_response :: bool

definition pgfault_load :: "trap_data \<Rightarrow> bool" where
  "pgfault_load trap = False"

definition interruptable_trap_page_fault ::
  "trap_data \<Rightarrow> interruptable_trap_response \<Rightarrow> 'a uart_scheme \<Rightarrow> (interruptable_trap_response \<times> 'a uart_scheme) run" where
  "interruptable_trap_page_fault trap response s =
     (let page_loaded = pgfault_load trap
      in if trap_state s (process_ptr trap) = PROC_TRAP_PROCESS_READ_USERSPACE then
           ret (response\<lparr>queued_response := (if page_loaded then 0 else 1), send_response := \<not> page_loaded,
                         skip_instruction := \<not> page_loaded\<rparr>, s)
         else if \<not> page_loaded then
           bindr (uart_print_lit ''process set to be killed. Invalid page for page fault'' s) (\<lambda>(_, s).
           bindr (uart_print_char 10 s) (\<lambda>(_, s). ret (response\<lparr>kill_process_flag := True\<rparr>, s)))
         else ret (response, s))"

definition interruptable_trap_syscall ::
  "'a fs_scheme copy_user \<Rightarrow> u64 \<Rightarrow> u64 \<Rightarrow> trap_data \<Rightarrow> interruptable_trap_response \<Rightarrow> 'a fs_scheme
    \<Rightarrow> ((interruptable_trap_response \<times> trap_data) \<times> 'a fs_scheme) run" where
  "interruptable_trap_syscall cp path_buf filename trap response s =
     bindr (syscall_async_handler cp path_buf filename trap s) (\<lambda>((async_response, trap), s).
       let response = (if async_response = TRAP_UNHANDLED then response\<lparr>kill_process_flag := True\<rparr> else response)
       in ret ((response\<lparr>skip_instruction := True\<rparr>, trap), s))"

text \<open>Entering the handler: which trap frame the next trap uses.\<close>

definition async_enter :: "trap_data \<Rightarrow> u32 \<Rightarrow> 'a vma_scheme \<Rightarrow> (unit \<times> 'a vma_scheme) run" where
  "async_enter trap past_proc_state s =
     (let proc = process_ptr trap;
          frame_at = (\<lambda>field s. vma_map_kernel (at s proc 6) (at s proc 7) TRAPFRAME_ADDRESS KERNEL_PAGE_SIZE
                                  (at s proc field) (VMA_READ OR VMA_WRITE) s)
      in if past_proc_state = PROC_TRAP_PROCESS_UNINTERRUPTABLE_TRAP then
           panic ''INTERRUPTABLE_TRAP_ENTERED_FROM_UNINTERRUPTABLE'' 0 0 0
         else if past_proc_state = PROC_TRAP_PROCESS_INTERRUPTABLE_TRAP then
           if trap_cause trap \<noteq> TRAP_PAGE_FAULT \<or> reading_userspace s proc = 0 then
             panic ''DOUBLE_PROCESS_TRAP_NOT_PAGE_FAULT'' (code_num (trap_cause trap)) (ucast (process_id s proc)) 0
           else bindr (frame_at 5 s) (\<lambda>(_, s). ret ((), set_at32 proc 2 PROC_TRAP_PROCESS_READ_USERSPACE s))
         else if past_proc_state = PROC_TRAP_PROCESS then
           bindr (frame_at 4 s) (\<lambda>(_, s). ret ((), set_at32 proc 2 PROC_TRAP_PROCESS_INTERRUPTABLE_TRAP s))
         else if past_proc_state = PROC_TRAP_PROCESS_READ_USERSPACE then
           panic ''PAGE_FAULT_FROM_KERNEL_READ_USERSPACE'' (code_num (trap_cause trap)) (ucast (process_id s proc)) 0
         else ret ((), s))"

definition async_leave :: "trap_data \<Rightarrow> u32 \<Rightarrow> 'a vma_scheme \<Rightarrow> (unit \<times> 'a vma_scheme) run" where
  "async_leave trap past_proc_state s =
     (let proc = process_ptr trap;
          frame_at = (\<lambda>field s. vma_map_kernel (at s proc 6) (at s proc 7) TRAPFRAME_ADDRESS KERNEL_PAGE_SIZE
                                  (at s proc field) (VMA_READ OR VMA_WRITE) s)
      in if past_proc_state = PROC_TRAP_PROCESS then frame_at 3 s
         else if past_proc_state = PROC_TRAP_PROCESS_INTERRUPTABLE_TRAP then frame_at 4 s
         else if past_proc_state = PROC_TRAP_PROCESS_UNINTERRUPTABLE_TRAP then
           panic ''UNEXPECTED_UNINTERUPTABLE_EXIT_WITH_PROC_TRAP_PROCESS_UNINTERRUPTABLE_TRAP'' 0 0 0
         else if past_proc_state = PROC_TRAP_PROCESS_READ_USERSPACE then
           panic ''UNEXPECTED_UNINTERUPTABLE_EXIT_WITH_PROC_TRAP_PROCESS_READ_USERSPACE'' 0 0 0
         else ret ((), s))"

definition async_dispatch ::
  "'a fs_scheme copy_user \<Rightarrow> u64 \<Rightarrow> u64 \<Rightarrow> trap_data \<Rightarrow> 'a fs_scheme
    \<Rightarrow> ((interruptable_trap_response \<times> trap_data) \<times> 'a fs_scheme) run" where
  "async_dispatch cp path_buf filename trap s =
     (let response = \<lparr>queued_response = 0, skip_instruction = False, kill_process_flag = False, send_response = False\<rparr>
      in case trap_cause trap of
           TRAP_SYSCALL \<Rightarrow> interruptable_trap_syscall cp path_buf filename trap response s
         | TRAP_PAGE_FAULT \<Rightarrow>
             bindr (interruptable_trap_page_fault trap response s) (\<lambda>(response, s). ret ((response, trap), s))
         | _ \<Rightarrow> panic ''UNHANDLED_KERNEL_PROCESS_TRAP'' (code_num (trap_cause trap)) (fault_addr trap) (fault_pc trap))"

definition async_finish ::
  "interruptable_trap_response \<Rightarrow> trap_data \<Rightarrow> 'a hart_scheme \<Rightarrow> (unit \<times> 'a hart_scheme) run" where
  "async_finish response trap s =
     bindr (if send_response response
            then trap_data_set_response (trap\<lparr>return_reg := queued_response response\<rparr>) s else ret ((), s)) (\<lambda>(_, s).
     bindr (if skip_instruction response then trap_data_iter_instruction s else ret ((), s)) (\<lambda>(_, s).
       if kill_process_flag response then
         bindr (trap_change_process trap s) (\<lambda>(_, s). kill_process (process_id s (process_ptr trap)) s)
       else ret ((), s)))"

definition handle_async_trap ::
  "'a fs_scheme copy_user \<Rightarrow> u64 \<Rightarrow> u64 \<Rightarrow> trap_data \<Rightarrow> 'a fs_scheme \<Rightarrow> (unit \<times> 'a fs_scheme) run" where
  "handle_async_trap cp path_buf filename stack s =
     bindr (trapframe_parse stack s) (\<lambda>trap.
       let past_proc_state = trap_state s (process_ptr trap)
       in bindr (async_enter trap past_proc_state s) (\<lambda>(_, s).
          bindr (async_dispatch cp path_buf filename trap (irq_enable s)) (\<lambda>((response, trap), s).
          bindr (async_leave trap past_proc_state (irq_disable s)) (\<lambda>(_, s).
            async_finish response trap (set_at32 (process_ptr trap) 2 past_proc_state s)))))"

end
