(* ===== verification/Trap_Switch.thy ===== *)
theory Trap_Switch
  imports Trap
begin

text \<open>
  What a trap that switches processes does to the state: the scheduler's queue, the switch to the next
  process and the marks in both processes, and the timer. The lemmas compose the results for the
  scheduler, the page tables and the switch of the address space.
\<close>

section \<open>Frames\<close>

lemma dequeue_frame:
  assumes "scheduler_next h s = ret (x, s')"
  shows "\<exists>a c. s' = s\<lparr>process_queue_start := a, process_queue_count := c\<rparr>"
proof (cases "process_queue_count s = 0")
  case True
  then show ?thesis using assms
    by (intro exI [of _ "process_queue_start s"] exI [of _ "process_queue_count s"]) (simp add: scheduler_next_def)
next
  case False
  then show ?thesis using assms by (auto simp: scheduler_next_def Let_def split: if_splits)
qed

lemma enqueue_frame:
  assumes inv: "sched_inv h s" and run: "scheduler_queue_process x s = ret ((), s')"
  shows "writes {process_queue s} s s'" and "pager_live s' = pager_live s"
    and "\<exists>c. pager.more s' = pager.more (s\<lparr>process_queue_count := c\<rparr>)"
proof -
  note i = sched_invD [OF inv]
  define k where "k = unat ((process_queue_start s + process_queue_count s) mod 512)"
  have k: "k < 512" by (simp add: k_def unat_mod)
  define s1 where "s1 = set_at (process_queue s) (of_nat k) x s"
  have s': "s' = s1\<lparr>process_queue_count := process_queue_count s + 1\<rparr>"
    using run i(3) by (auto simp: scheduler_queue_process_def Let_def k_def s1_def set_at_def split: if_splits)
  have s1: "writes {process_queue s} s s1" "pager_inv s1" "pager_live s1 = pager_live s"
    unfolding s1_def using writes_set_at [OF i(1,2) k] set_at_inv [OF i(1,2) k] by auto
  have same: "pager_same s1 s'" "kmem s' = kmem s1" by (simp_all add: s')
  show "writes {process_queue s} s s'" using writes_trans [OF s1(1) writes_same [OF s1(2) same]] by simp
  show "pager_live s' = pager_live s" using pager_same_inv(4) [OF same(1) s1(2)] s1(3) by simp
  show "\<exists>c. pager.more s' = pager.more (s\<lparr>process_queue_count := c\<rparr>)"
    by (cases s) (auto simp: s' s1_def set_at_def)
qed

text \<open>The tables are read from memory alone.\<close>

lemma sv39_page_kmem:
  assumes "kmem s' = kmem s"
  shows "sv39_page root n s' = sv39_page root n s"
proof -
  have "ewalk l e n s' = ewalk l e n s" for l e
    using assms by (induction l arbitrary: e) (simp_all add: at_def)
  then show ?thesis by (simp only: sv39_page_def)
qed

text \<open>The queue depends on its globals and its page.\<close>

lemma ring_items_cong:
  assumes "process_queue s' = process_queue s" "process_queue_count s' = process_queue_count s"
    "process_queue_start s' = process_queue_start s" and "\<And>j. j < 512 \<Longrightarrow> ent s' (process_queue s) j = ent s (process_queue s) j"
  shows "ring_items s' = ring_items s"
  using assms by (simp add: ring_items_def ring_slot_def)

lemma switchable_writes:
  assumes sw: "switchable p P a s" and w: "writes W s s'" and W: "W \<inter> tables (at s p 6) s = {}" "P \<notin> W"
    and H: "hart_stacks_list s' = hart_stacks_list s" and live: "pager_live s' = pager_live s"
  shows "switchable p P a s'" and "i < 24 \<Longrightarrow> at s' p (of_nat i) = at s p (of_nat i)"
proof -
  have p: "p = P + 8 * of_nat a" "a + 24 \<le> 512" "vma_tree (at s p 6) s" "P \<in> pager_live s" "kernel_pool s"
    using sw by (auto simp: switchable_def)
  have at: "at s' p (of_nat i) = at s p (of_nat i)" if "i < 24" for i
    unfolding p(1) at_offset using writes_at [OF w p(4) W(2), of "a + i"] p(2) that by simp
  then show "i < 24 \<Longrightarrow> at s' p (of_nat i) = at s p (of_nat i)" .
  have "at s' p 6 = at s p 6" using at [of 6] by simp
  moreover have "kernel_pool s'" using p(5) w by (simp add: kernel_pool_def writes_def)
  ultimately show "switchable p P a s'"
    using sw vma_tree_writes [OF p(3) w W(1)] H live by (auto simp: switchable_def)
qed

text \<open>Words of the blocks of two processes.\<close>

definition proc_at :: "u64 \<Rightarrow> u64 \<Rightarrow> nat \<Rightarrow> bool" where
  "proc_at p P a \<longleftrightarrow> p = P + 8 * of_nat a \<and> a + 24 \<le> 512"

lemma block_word: "proc_at p P a \<Longrightarrow> at s p (of_nat i) = ent s P (a + i)"
  and set_block_word: "proc_at p P a \<Longrightarrow> set_at p (of_nat i) v s = set_at P (of_nat (a + i)) v s"
  unfolding proc_at_def using at_offset [of s P a i] set_at_offset [of P a i v s] by simp_all

text \<open>Restoring the state of the trap leaves no trace.\<close>

lemma put32_restore: "put32 (ucast w) (put32 v w) = w"
  unfolding put32_def
  by (rule bit_word_eqI) (simp only: bit_unsigned_iff bit_or_iff bit_and_iff bit_high_half, auto dest: bit_imp_le_length)

lemma set_at32_restore: "set_at32 p i (at32 s p i) (set_at32 p i v s) = s"
  by (simp add: set_at32_def set_at_def at_def at32_def put32_restore)


section \<open>Preemption\<close>

text \<open>
  A process that runs, with its trap frame at the fixed address: its tables are loaded, and neither
  they nor the frame lie in the page of the queue.
\<close>

definition runs :: "u64 \<Rightarrow> u64 \<Rightarrow> 'a sched_scheme \<Rightarrow> bool" where
  "runs old frame s \<longleftrightarrow> vma_tree (satp_root s) s \<and> trapframe_page 1 s = ret frame \<and> at s frame 35 = old
     \<and> frame \<in> pager_live s \<and> process_queue s \<noteq> frame \<and> process_queue s \<notin> tables (satp_root s) s"

lemma runs_writes:
  assumes r: "runs old frame s" and w: "writes {process_queue s} s s'" and g: "satp s' = satp s" "process_queue s' = process_queue s"
  shows "runs old frame s'"
proof -
  have t: "vma_tree (satp_root s) s" "{process_queue s} \<inter> tables (satp_root s) s = {}"
    "frame \<in> pager_live s" "frame \<notin> {process_queue s}" "at s frame 35 = old" "trapframe_page 1 s = ret frame"
    using r by (auto simp: runs_def)
  note tw = vma_tree_writes [OF t(1) w t(2)]
  have root: "satp_root s' = satp_root s" using g by (simp add: satp_root_def)
  have "at s' frame 35 = old" using writes_at_word [OF w t(3,4), of 35] t(5) by simp
  moreover have "trapframe_page 1 s' = ret frame"
    using t(6) by (simp only: trapframe_page_def tw(2) g(1) root)
  moreover have "frame \<in> pager_live s'" using w t(3) by (auto simp: writes_def)
  ultimately show ?thesis using tw t(2,4) g(2) root by (auto simp: runs_def)
qed


text \<open>Switching from a normal process to another one.\<close>

definition apart_blocks :: "u64 \<Rightarrow> nat \<Rightarrow> u64 \<Rightarrow> nat \<Rightarrow> bool" where
  "apart_blocks P a Q b \<longleftrightarrow> (P = Q \<longrightarrow> a + 24 \<le> b \<or> b + 24 \<le> a)"

lemma apart_word: "apart_blocks P a Q b \<Longrightarrow> i < 24 \<Longrightarrow> j < 24 \<Longrightarrow> P = Q \<Longrightarrow> a + i \<noteq> b + j"
  by (auto simp: apart_blocks_def)

lemma mark_running:
  fixes s :: "'a kernel_scheme" and h :: u64
  assumes inv: "pager_inv s" and P: "proc_at p P a" "P \<in> pager_live s" and Q: "proc_at old Q b" "Q \<in> pager_live s"
    and ap: "apart_blocks P a Q b"
  defines "s' \<equiv> set_running old 0 (set_at p 20 h (set_running p 1 s))"
  shows "writes {P, Q} s s'" and "pager_live s' = pager_live s" and "pager.more s' = pager.more s"
    and "running s' p = 1" and "running s' old = 0" and "at s' p 20 = h"
    and "process_type (set_at p 20 h (set_running p 1 s)) old = process_type s old"
proof -
  have a: "a + 10 < 512" "a + 20 < 512" "b + 10 < 512" "b + 13 < 512" using P(1) Q(1) by (auto simp: proc_at_def)
  define v1 v2 where "v1 = put8 2 1 (at s p 10)" and "v2 = put8 2 0 (ent s Q (b + 10))"
  define s1 where "s1 = set_at P (of_nat (a + 10)) v1 s"
  define s2 where "s2 = set_at P (of_nat (a + 20)) h s1"
  define s3 where "s3 = set_at Q (of_nat (b + 10)) v2 s2"
  note i1 = set_at_inv [OF inv P(2) a(1), of v1, folded s1_def]
  have P1: "P \<in> pager_live s1" using P(2) i1 by simp
  note i2 = set_at_inv [OF i1(1) P1 a(2), of h, folded s2_def]
  have Q2: "Q \<in> pager_live s2" "P \<in> pager_live s2" using Q(2) P(2) i1 i2 by simp_all
  note i3 = set_at_inv [OF i2(1) Q2(1) a(3), of v2, folded s3_def]
  have w: "writes {P} s s1" "writes {P} s1 s2" "writes {Q} s2 s3"
    unfolding s1_def s2_def s3_def
    using writes_set_at [OF inv P(2) a(1)] writes_set_at [OF i1(1) P1 a(2)] writes_set_at [OF i2(1) Q2(1) a(3)]
    by (simp_all add: s1_def s2_def)
  have e1: "ent s1 R j = (if P = R \<and> a + 10 = j then v1 else ent s R j)" if "R \<in> pager_live s" "j < 512" for R j
    unfolding s1_def by (rule at_set_at [OF inv P(2) that(1) a(1) that(2)])
  have e2: "ent s2 R j = (if P = R \<and> a + 20 = j then h else ent s1 R j)" if "R \<in> pager_live s" "j < 512" for R j
    unfolding s2_def using at_set_at [OF i1(1) P1 _ a(2) that(2)] that(1) i1(2) by simp
  have e3: "ent s3 R j = (if Q = R \<and> b + 10 = j then v2 else ent s2 R j)" if "R \<in> pager_live s" "j < 512" for R j
    unfolding s3_def using at_set_at [OF i2(1) Q2(1) _ a(3) that(2)] that(1) i1(2) i2(2) by simp
  have p2: "set_at p 20 h (set_running p 1 s) = s2"
    using set_block_word [OF P(1), of 10 v1 s] set_block_word [OF P(1), of 20 h s1]
    by (simp add: set_running_def s1_def s2_def v1_def)
  have old: "ent s2 Q (b + i) = ent s Q (b + i)" if "i < 24" for i
  proof -
    have j: "b + i < 512" using Q(1) that by (simp add: proc_at_def)
    show ?thesis
      using e1 [OF Q(2) j] e2 [OF Q(2) j] apart_word [OF ap, of 10 i] apart_word [OF ap, of 20 i] that
      by (auto simp del: of_nat_add split: if_splits)
  qed
  have s3: "s' = s3"
    unfolding s'_def p2 unfolding set_running_def
    using block_word [OF Q(1), of s2 10] set_block_word [OF Q(1), of 10 v2 s2] old [of 10]
    by (simp add: s3_def v2_def)
  show "writes {P, Q} s s'" unfolding s3 using writes_trans [OF writes_trans [OF w(1,2)] w(3)] by (simp add: insert_commute)
  show "pager_live s' = pager_live s" unfolding s3 using i1 i2 i3 by simp
  show "pager.more s' = pager.more s" unfolding s3 s3_def s2_def s1_def by (simp add: set_at_def)
  have new: "ent s3 P (a + i) = (if i = 20 then h else if i = 10 then v1 else ent s P (a + i))" if "i < 24" for i
  proof -
    have j: "a + i < 512" using P(1) that by (simp add: proc_at_def)
    show ?thesis
      using e1 [OF P(2) j] e2 [OF P(2) j] e3 [OF P(2) j] apart_word [OF ap, of i 10] that
      by (auto simp del: of_nat_add split: if_splits)
  qed
  have "at s3 p (of_nat 20) = h" "at s3 p (of_nat 10) = v1" "at s3 old (of_nat 10) = v2" "at s2 old (of_nat 13) = at s old (of_nat 13)"
    unfolding block_word [OF P(1)] block_word [OF Q(1)] using new [of 20] new [of 10] e3 [OF Q(2) a(3)] old [of 13] by (simp_all del: of_nat_add)
  then show "running s' p = 1" and "running s' old = 0" and "at s' p 20 = h"
    and "process_type (set_at p 20 h (set_running p 1 s)) old = process_type s old"
    unfolding s3 p2 unfolding running_def at32_def v1_def v2_def by (simp_all add: put8_running)
qed


lemma context_change_run:
  fixes s :: "'a kernel_scheme"
  assumes r: "runs old frame s" and sw: "switchable p P a s" and ne: "p \<noteq> old"
    and Q: "proc_at old Q b" "Q \<in> pager_live s - tables (at s p 6) s" and ap: "apart_blocks P a Q b"
    and ty: "process_type s old = PROC_TYPE_NORMAL"
    and h: "unat h < 128" "8 \<le> free_pages s" "\<forall>i<4. kernel_page (hart_stack s h i)" "max_asid s < 2 ^ 16"
    "has_asid p s \<longrightarrow> at s p 7 \<le> max_asid s" "max_asid s = 0 \<or> has_asid p s \<or> current_highest_asid s < max_asid s"
  shows "\<exists>s'. context_change_process p h s = ret ((), s') \<and> pager_inv s' \<and> vma.more s' = vma.more s
    \<and> satp_root s' = at s p 6 \<and> drop_bit 60 (satp s') = 8 \<and> running s' p = 1 \<and> running s' old = 0
    \<and> (\<forall>q \<in> pager_live s - tables (at s p 6) s - {P, Q}. q \<in> pager_live s' \<and> (\<forall>j<512. ent s' q j = ent s q j))
    \<and> (\<forall>frame f. sv39_page (at s p 6) (2 ^ 27 - 2) s = Some (frame, f) \<and> bit f 1 \<and> \<not> bit f 4
        \<longrightarrow> trapframe_page 1 s' = ret frame)"
proof -
  define root where "root = at s p 6"
  obtain s1 where s1: "change_context p h s = ret ((), s1)" "vma_tree root s1" "process_frame root P {a + 7, a + 20} s s1"
    "vma.more s1 = vma.more s" "satp_root s1 = root" "drop_bit 60 (satp s1) = 8"
    "\<forall>frame f. sv39_page root (2 ^ 27 - 2) s = Some (frame, f) \<and> bit f 1 \<and> \<not> bit f 4 \<longrightarrow> trapframe_page 1 s1 = ret frame"
    using change_context_run [OF sw h] unfolding root_def by blast
  have inv: "pager_inv s1" by (rule vma_treeD(2) [OF s1(2)])
  have P: "proc_at p P a" "P \<in> pager_live s - tables root s" using sw by (auto simp: switchable_def proc_at_def root_def)
  have Q': "Q \<in> pager_live s - tables root s" using Q(2) by (simp add: root_def)
  note P1 = process_frameD(1) [OF s1(3) P(2)] and Q1 = process_frameD(1) [OF s1(3) Q']
  have P2: "P \<in> pager_live s1" "Q \<in> pager_live s1" using P1 Q1 by auto
  note m = mark_running [OF inv P(1) P2(1) Q(1) P2(2) ap, of h]
  define s' where "s' = set_running old 0 (set_at p 20 h (set_running p 1 s1))"
  have "ent s1 Q (b + 13) = ent s Q (b + 13)"
    by (rule process_frameD(2) [OF s1(3) Q']) (use Q(1) apart_word [OF ap, of 7 13] apart_word [OF ap, of 20 13] in \<open>auto simp: proc_at_def\<close>)
  then have "process_type s1 old = PROC_TYPE_NORMAL"
    using ty block_word [OF Q(1), of s1 13] block_word [OF Q(1), of s 13] by (simp add: at32_def del: of_nat_add)
  then have run: "context_change_process p h s = ret ((), s')"
    using r ne s1(1) m(7) by (simp add: context_change_process_def runs_def s'_def Let_def)
  have PQ: "{P, Q} \<inter> tables root s1 = {}" using P1 Q1 by auto
  note m' = m(1-6) [folded s'_def]
  note t = vma_tree_writes [OF s1(2) m'(1) PQ]
  have g: "satp s' = satp s1" "vma.more s' = vma.more s1" using m'(3) by (cases s'; cases s1; simp)+
  have tf: "trapframe_page 1 s' = trapframe_page 1 s1"
    using g(1) s1(5) by (simp only: trapframe_page_def satp_root_def t(2))
  have "q \<in> pager_live s' \<and> (\<forall>j<512. ent s' q j = ent s q j)" if "q \<in> pager_live s - tables root s - {P, Q}" for q
  proof -
    have q: "q \<in> pager_live s - tables root s" "q \<noteq> P" "q \<notin> {P, Q}" using that by auto
    have q1: "q \<in> pager_live s1" using process_frameD(1) [OF s1(3) q(1)] by simp
    then show ?thesis
      using process_frameD(2) [OF s1(3) q(1)] q(2) writes_at [OF m'(1) q1 q(3)] m'(2) by simp
  qed
  moreover have "pager_inv s'" by (rule vma_treeD(2) [OF t(1)])
  moreover have "satp_root s' = root" "drop_bit 60 (satp s') = 8" using g(1) s1(5,6) by (simp_all add: satp_root_def)
  ultimately show ?thesis
    unfolding root_def [symmetric] using run g(2) s1(4,7) m'(4,5) tf by (intro exI [of _ s'] conjI) auto
qed


text \<open>
  What a hart needs to switch to a process: stack pages for the hart, pages for tables, and an address
  space identifier for the process.
\<close>

definition hart_ready :: "u64 \<Rightarrow> u64 \<Rightarrow> 'a vma_scheme \<Rightarrow> bool" where
  "hart_ready h p s \<longleftrightarrow> unat h < 128 \<and> 8 \<le> free_pages s \<and> (\<forall>i<4. kernel_page (hart_stack s h i)) \<and> max_asid s < 2 ^ 16
     \<and> (has_asid p s \<longrightarrow> at s p 7 \<le> max_asid s) \<and> (max_asid s = 0 \<or> has_asid p s \<or> current_highest_asid s < max_asid s)"

text \<open>
  The process \<open>old\<close> runs, is normal and waits for nothing; \<open>p\<close> can be switched to; the queue has a page
  of its own.
\<close>

definition preemptible ::
  "u64 \<Rightarrow> u64 \<Rightarrow> u64 \<Rightarrow> nat \<Rightarrow> u64 \<Rightarrow> u64 \<Rightarrow> nat \<Rightarrow> u64 \<Rightarrow> 'a sched_scheme \<Rightarrow> bool" where
  "preemptible h old Q b p P a frame s \<longleftrightarrow> sched_inv h s \<and> runs old frame s \<and> switchable p P a s \<and> hart_ready h p s
     \<and> proc_at old Q b \<and> apart_blocks P a Q b \<and> p \<noteq> old
     \<and> {Q, process_queue s, hart_idle_process s} \<subseteq> pager_live s - tables (at s p 6) s
     \<and> process_queue s \<notin> {P, Q, hart_stacks_list s} \<and> hart_idle_process s \<notin> {P, Q}
     \<and> process_type s old = PROC_TYPE_NORMAL \<and> at s old 1 = 0"

lemma preemptible_writes:
  assumes pre: "preemptible h old Q b p P a frame s" and w: "writes {process_queue s} s s'" and live: "pager_live s' = pager_live s"
    and sc: "sched_inv h s'" and v: "satp s' = satp s" "hart_stacks_list s' = hart_stacks_list s" "max_asid s' = max_asid s"
    "current_highest_asid s' = current_highest_asid s" "process_queue s' = process_queue s"
    "hart_idle_process s' = hart_idle_process s"
  shows "preemptible h old Q b p P a frame s'" and "at s' p 6 = at s p 6" and "tables (at s p 6) s' = tables (at s p 6) s"
    and "sv39_page (at s p 6) q s' = sv39_page (at s p 6) q s"
proof -
  have pr: "runs old frame s" "switchable p P a s" "hart_ready h p s" "proc_at old Q b" "Q \<in> pager_live s" "Q \<notin> {process_queue s}"
    "{process_queue s} \<inter> tables (at s p 6) s = {}" "P \<notin> {process_queue s}" "process_queue s \<noteq> hart_stacks_list s"
    "process_type s old = PROC_TYPE_NORMAL" "at s old 1 = 0"
    using pre by (auto simp: preemptible_def)
  note sw = switchable_writes [OF pr(2) w pr(7,8) v(2) live]
  have tree: "vma_tree (at s p 6) s" "hart_stacks_list s \<in> pager_live s" using pr(2) by (auto simp: switchable_def)
  note t = vma_tree_writes [OF tree(1) w pr(7)]
  show p6: "at s' p 6 = at s p 6" and "tables (at s p 6) s' = tables (at s p 6) s"
    and "sv39_page (at s p 6) q s' = sv39_page (at s p 6) q s"
    using sw(2) [of 6] t(2,3) by simp_all
  have "hart_stack s' h i = hart_stack s h i" if "i < 4" for i
  proof -
    have "unat h < 128" using pr(3) by (simp add: hart_ready_def)
    then have j: "i + unat h * 4 < 512" using that by simp
    have "ent s' (hart_stacks_list s) (i + unat h * 4) = ent s (hart_stacks_list s) (i + unat h * 4)"
      by (rule writes_at [OF w tree(2) _ j]) (use pr(9) in simp)
    then show ?thesis by (simp add: hart_stack_def v(2))
  qed
  moreover have "at s' p 7 = at s p 7" using sw(2) [of 7] by simp
  moreover have "free_pages s' = free_pages s" using w live by (simp add: writes_def)
  ultimately have "hart_ready h p s'" using pr(3) v by (simp add: hart_ready_def has_asid_def)
  moreover have old: "at s' old (of_nat i) = at s old (of_nat i)" if "i < 24" for i
  proof -
    have "b + i < 512" using pr(4) that by (simp add: proc_at_def)
    then show ?thesis unfolding block_word [OF pr(4)] by (rule writes_at [OF w pr(5,6)])
  qed
  have "at s' old 1 = 0" "process_type s' old = PROC_TYPE_NORMAL"
    using old [of 1] old [of 13] pr(10,11) by (simp_all add: at32_def)
  ultimately show "preemptible h old Q b p P a frame s'"
    using pre sc sw(1) runs_writes [OF pr(1) w v(1,5)] p6 t(3) live v unfolding preemptible_def by auto
qed


lemma trap_change_run:
  fixes s :: "'a hart_scheme"
  assumes pre: "preemptible h old Q b p P a frame s" and items: "ring_items s = p # ps" and room: "length ps < 511"
    and trap: "process_ptr trap = old" "hart_id trap = h" and sbi: "\<And>t. sbi_timer s t = 0"
  shows "\<exists>s'. trap_change_process trap s = ret ((), s') \<and> sched_inv h s' \<and> ring_items s' = ps @ [old]
    \<and> satp_root s' = at s p 6 \<and> drop_bit 60 (satp s') = 8 \<and> running s' p = 1 \<and> running s' old = 0
    \<and> timers s' = timers s @ [time_dev s (time_reads s) + 40000]
    \<and> (\<forall>frame f. sv39_page (at s p 6) (2 ^ 27 - 2) s = Some (frame, f) \<and> bit f 1 \<and> \<not> bit f 4
        \<longrightarrow> trapframe_page 1 s' = ret frame)"
proof -
  have pr: "sched_inv h s" "process_type s old = PROC_TYPE_NORMAL" "at s old 1 = 0" using pre by (auto simp: preemptible_def)
  have cap: "ring_cap s = 512" using sched_invD(3) [OF pr(1)] by (simp add: ring_cap_def)
  have "length (ring_items s) < ring_cap s" using room items cap by simp
  from enqueue_ring [OF pr(1) this, of old] obtain s1 where s1: "scheduler_queue_process old s = ret ((), s1)"
    "sched_inv h s1" "ring_items s1 = p # ps @ [old]" using items by auto
  note f1 = enqueue_frame [OF pr(1) s1(1)]
  from dequeue_ring [OF s1(2,3)] obtain s2 where s2: "scheduler_next h s1 = ret (p, s2)" "sched_inv h s2" "ring_items s2 = ps @ [old]"
    by auto
  obtain c d e where fields: "pager.more s1 = pager.more (s\<lparr>process_queue_count := e\<rparr>)"
    "s2 = s1\<lparr>process_queue_start := c, process_queue_count := d\<rparr>"
    using f1(3) dequeue_frame [OF s2(1)] by blast
  have inv1: "pager_inv s1" using s1(2) by (simp add: sched_inv_def)
  have same: "pager_same s1 s2" "kmem s2 = kmem s1" by (simp_all add: fields(2) pager_same_def)
  have w: "writes {process_queue s} s s2" using writes_trans [OF f1(1) writes_same [OF inv1 same]] by simp
  have live: "pager_live s2 = pager_live s" using pager_same_inv(4) [OF same(1) inv1] f1(2) by simp
  have v: "satp s2 = satp s" "hart_stacks_list s2 = hart_stacks_list s" "max_asid s2 = max_asid s"
    "current_highest_asid s2 = current_highest_asid s" "process_queue s2 = process_queue s"
    "hart_idle_process s2 = hart_idle_process s" "sbi_timer s2 = sbi_timer s" "timers s2 = timers s" "time_dev s2 = time_dev s" "time_reads s2 = time_reads s"
    using fields(1) by (cases s; cases s1; simp add: fields(2))+
  note p2 = preemptible_writes [OF pre w live s2(2) v(1-6)]
  have q: "runs old frame s2" "switchable p P a s2" "p \<noteq> old" "proc_at old Q b" "Q \<in> pager_live s2 - tables (at s2 p 6) s2"
    "apart_blocks P a Q b" "process_type s2 old = PROC_TYPE_NORMAL" "hart_ready h p s2"
    "process_queue s2 \<in> pager_live s2 - tables (at s2 p 6) s2 - {P, Q}"
    "hart_idle_process s2 \<in> pager_live s2 - tables (at s2 p 6) s2 - {P, Q}"
    using p2(1) by (auto simp: preemptible_def)
  have hr: "unat h < 128" "8 \<le> free_pages s2" "\<forall>i<4. kernel_page (hart_stack s2 h i)" "max_asid s2 < 2 ^ 16"
    "has_asid p s2 \<longrightarrow> at s2 p 7 \<le> max_asid s2" "max_asid s2 = 0 \<or> has_asid p s2 \<or> current_highest_asid s2 < max_asid s2"
    using q(8) by (auto simp: hart_ready_def)
  obtain s3 where s3: "context_change_process p h s2 = ret ((), s3)" "pager_inv s3" "vma.more s3 = vma.more s2"
    "satp_root s3 = at s p 6" "drop_bit 60 (satp s3) = 8" "running s3 p = 1" "running s3 old = 0"
    "\<And>q. q \<in> pager_live s2 - tables (at s2 p 6) s2 - {P, Q} \<Longrightarrow> q \<in> pager_live s3 \<and> (\<forall>j<512. ent s3 q j = ent s2 q j)"
    "\<forall>frame f. sv39_page (at s p 6) (2 ^ 27 - 2) s = Some (frame, f) \<and> bit f 1 \<and> \<not> bit f 4 \<longrightarrow> trapframe_page 1 s3 = ret frame"
    using context_change_run [OF q(1-7) hr] unfolding p2(2) p2(4) by blast
  have g: "process_queue s3 = process_queue s2" "process_queue_size s3 = process_queue_size s2"
    "process_queue_count s3 = process_queue_count s2" "process_queue_start s3 = process_queue_start s2"
    "hart_idle_process s3 = hart_idle_process s2" "sbi_timer s3 = sbi_timer s2" "timers s3 = timers s2"
    "time_dev s3 = time_dev s2" "time_reads s3 = time_reads s2"
    using s3(3) by (cases s2; cases s3; simp)+
  define s' where "s' = s3\<lparr>time_reads := time_reads s3 + 1, timers := timers s3 @ [time_dev s3 (time_reads s3) + 40000]\<rparr>"
  have "timer_set_future_ms 4 s3 = ret ((), s')"
    using sbi g v by (simp add: timer_set_future_ms_def time_cnt_def timer_set_def open_sbi_set_timer_def s'_def)
  then have run: "trap_change_process trap s = ret ((), s')"
    using trap pr s1(1) s2(1) s3(1) by (simp add: trap_change_process_def)
  have same': "pager_same s3 s'" "kmem s' = kmem s3" by (simp_all add: s'_def pager_same_def)
  note i' = pager_same_inv [OF same'(1) s3(2)]
  have "sched_inv h s'"
    using s2(2) i' g s3(8) [OF q(9)] s3(8) [OF q(10)] by (simp add: sched_inv_def s'_def)
  moreover have "ring_items s' = ring_items s2"
    by (rule ring_items_cong) (use g s3(8) [OF q(9)] in \<open>simp_all add: s'_def at_def\<close>)
  moreover have "trapframe_page 1 s' = trapframe_page 1 s3"
    unfolding trapframe_page_def sv39_page_kmem [OF same'(2)] by (simp add: satp_root_def s'_def)
  ultimately show ?thesis
    using run s2(3) s3(4-7,9) g v by (intro exI [of _ s'] conjI) (simp_all add: s'_def satp_root_def running_def at_def)
qed

end
