(* ===== verification/Trap_Handling.thy ===== *)
theory Trap_Handling
  imports Trap_Switch
begin

text \<open>
  What the trap handlers do: preemption by the timer, system calls answered at once, faults, and the
  checks around accesses to user memory.
\<close>

section \<open>The trap frame\<close>

lemma trapframe_page_writes:
  assumes "vma_tree (satp_root s) s" and "writes W s s'" and "W \<inter> tables (satp_root s) s = {}" and "satp s' = satp s"
  shows "trapframe_page k s' = trapframe_page k s" and "vma_tree (satp_root s') s'"
    and "tables (satp_root s') s' = tables (satp_root s) s"
proof -
  note t = vma_tree_writes [OF assms(1-3)]
  have root: "satp_root s' = satp_root s" using assms(4) by (simp add: satp_root_def)
  show "trapframe_page k s' = trapframe_page k s" by (simp only: trapframe_page_def t(2) root assms(4))
  show "vma_tree (satp_root s') s'" "tables (satp_root s') s' = tables (satp_root s) s" using t root by simp_all
qed

text \<open>
  A process in a trap: its trap frame is mapped for reading and writing at the fixed address and
  points back to it, and neither the frame nor the process lies in the page tables.
\<close>

definition in_trap :: "u64 \<Rightarrow> u64 \<Rightarrow> nat \<Rightarrow> u64 \<Rightarrow> 'a vma_scheme \<Rightarrow> bool" where
  "in_trap p P a frame s \<longleftrightarrow> vma_tree (satp_root s) s \<and> trapframe_page 1 s = ret frame \<and> trapframe_page 2 s = ret frame
     \<and> at s frame 35 = p \<and> proc_at p P a \<and> {P, frame} \<subseteq> pager_live s - tables (satp_root s) s \<and> P \<noteq> frame"

text \<open>Storing into one of the two pages.\<close>

lemma in_trap_set_at:
  assumes t: "in_trap p P a frame s" and R: "R \<in> {P, frame}" and i: "i < 512" "R = frame \<longrightarrow> i \<noteq> 35"
  shows "in_trap p P a frame (set_at R (of_nat i) v s)"
    and "q \<in> pager_live s \<Longrightarrow> j < 512 \<Longrightarrow> ent (set_at R (of_nat i) v s) q j = (if q = R \<and> j = i then v else ent s q j)"
    and "pager_live (set_at R (of_nat i) v s) = pager_live s"
proof -
  define s' where "s' = set_at R (of_nat i) v s"
  have tr: "vma_tree (satp_root s) s" "R \<in> pager_live s" "{R} \<inter> tables (satp_root s) s = {}" "frame \<in> pager_live s"
    using t R by (auto simp: in_trap_def)
  have inv: "pager_inv s" by (rule vma_treeD(2) [OF tr(1)])
  have w: "writes {R} s s'" unfolding s'_def by (rule writes_set_at [OF inv tr(2) i(1)])
  have sp: "satp s' = satp s" by (simp add: s'_def set_at_def)
  note k = trapframe_page_writes [OF tr(1) w tr(3) sp]
  show live: "pager_live (set_at R (of_nat i) v s) = pager_live s" by (rule set_at_inv [OF inv tr(2) i(1)])
  have e: "ent s' q j = (if q = R \<and> j = i then v else ent s q j)" if "q \<in> pager_live s" "j < 512" for q j
    unfolding s'_def using at_set_at [OF inv tr(2) that(1) i(1) that(2), of v] by auto
  then show "q \<in> pager_live s \<Longrightarrow> j < 512 \<Longrightarrow> ent (set_at R (of_nat i) v s) q j = (if q = R \<and> j = i then v else ent s q j)"
    by (simp add: s'_def)
  have "at s' frame 35 = at s frame 35" using e [OF tr(4), of 35] i(2) by auto
  then show "in_trap p P a frame (set_at R (of_nat i) v s)"
    using t k live unfolding in_trap_def s'_def [symmetric] by auto
qed

lemma in_trap_same:
  assumes "in_trap p P a frame s" and "kmem s' = kmem s" and "pager_same s s'" and "satp s' = satp s"
  shows "in_trap p P a frame s'" and "pager_live s' = pager_live s"
proof -
  have tr: "vma_tree (satp_root s) s" using assms(1) by (simp add: in_trap_def)
  note i = vma_treeD(2) [OF tr]
  note k = trapframe_page_writes [OF tr writes_same [OF i assms(3,2)] _ assms(4), simplified]
  show l: "pager_live s' = pager_live s" by (rule pager_same_inv(4) [OF assms(3) i])
  show "in_trap p P a frame s'" using assms(1,2) k l by (simp add: in_trap_def at_def)
qed


text \<open>The end of a system call dealt with at once: the result and the next instruction.\<close>

lemma finish_syscall:
  assumes t: "in_trap p P a frame s"
  shows "bindr (trap_data_set_response trap s) (\<lambda>(_, s). bindr (trap_data_iter_instruction s) (\<lambda>(_, s). ret (r, s))) =
    ret (r, set_at frame 32 (at s frame 32 + 4) (set_at frame 9 (return_reg trap) s))"
proof -
  define s1 where "s1 = set_at frame (of_nat 9) (return_reg trap) s"
  have t1: "in_trap p P a frame s1" unfolding s1_def by (rule in_trap_set_at(1) [OF t]) simp_all
  have "frame \<in> pager_live s" using t by (simp add: in_trap_def)
  from in_trap_set_at(2) [OF t, where R = frame and i = 9 and q = frame and j = 32 and v = "return_reg trap"] this
  have "at s1 frame 32 = at s frame 32" by (simp add: s1_def)
  then show ?thesis using t t1
    by (simp add: trap_data_set_response_def trap_data_iter_instruction_def in_trap_def s1_def)
qed

text \<open>
  A system call from user mode that the first handler answers, with an effect that leaves memory and
  the address space alone.
\<close>

lemma sync_syscall_run:
  fixes s :: "'a hart_scheme"
  assumes t: "in_trap p P a frame s" and cause: "at s frame 31 = 8" and a0: "at s frame 9 = SYSCALL_UART_PRINT"
    and f: "\<forall>trap. arg1_reg trap = at s frame 10 \<and> arg2_reg trap = at s frame 11 \<and> arg3_reg trap = at s frame 12 \<longrightarrow>
        syscall_uart cp trap False (set_at32 p 2 1 s) = ret ((resp, trap), s2)"
    and resp: "resp \<noteq> TRAP_UNHANDLED"
    and g: "kmem s2 = kmem (set_at32 p 2 1 s)" "pager_same (set_at32 p 2 1 s) s2" "satp s2 = satp s"
  shows "\<exists>s'. handle_sync_trap cp stack s = ret (0, s') \<and> uart_writes s' = uart_writes s2
    \<and> at s' frame 32 = at s frame 32 + 4
    \<and> (\<forall>q \<in> pager_live s. \<forall>j<512. q = frame \<and> j = 32 \<or> ent s' q j = ent s q j)"
proof -
  have fr: "trapframe_page 1 s = ret frame" "at s frame 35 = p" "proc_at p P a" "P \<in> pager_live s" "frame \<in> pager_live s" "P \<noteq> frame"
    using t by (auto simp: in_trap_def)
  obtain trap where trap: "trapframe_parse stack s = ret trap" "process_ptr trap = p" "trap_cause trap = TRAP_SYSCALL"
    "arg0_reg trap = 1" "arg1_reg trap = at s frame 10" "arg2_reg trap = at s frame 11" "arg3_reg trap = at s frame 12"
    "return_reg trap = at s frame 9"
    using fr(1,2) cause a0 by (simp add: trapframe_parse_def parse_exception_def Let_def BIT_def)
  define s1 where "s1 = set_at32 p 2 1 s"
  have a2: "a + 2 < 512" using fr(3) by (simp add: proc_at_def)
  have s1: "s1 = set_at P (of_nat (a + 2)) (put32 1 (at s p 2)) s"
    unfolding s1_def set_at32_def using set_block_word [OF fr(3), of 2] by simp
  have t1: "in_trap p P a frame s1" unfolding s1 by (rule in_trap_set_at(1) [OF t _ a2]) (use fr(6) in simp_all)
  have "satp s2 = satp s1" using g(3) by (simp add: s1_def set_at32_def set_at_def)
  note t2 = in_trap_same [OF t1 g(1,2) [folded s1_def] this]
  define s3 where "s3 = set_at frame 32 (at s2 frame 32 + 4) (set_at frame 9 (return_reg trap) s2)"
  have "uninterruptible_trap_syscall cp trap s1 = ret (0, s3)"
    using f trap(4-7) resp finish_syscall [OF t2(1), of trap 0]
    by (simp add: uninterruptible_trap_syscall_def syscall_sync_handler_def s1_def s3_def)
  then have run: "handle_sync_trap cp stack s = ret (0, set_at32 p 2 (at32 s p 2) s3)"
    using trap(1-3) by (simp add: handle_sync_trap_def sync_dispatch_def s1_def [symmetric] Let_def)
  define s' where "s' = set_at32 p 2 (at32 s p 2) s3"
  define w where "w = ent s P (a + 2)"
  have w: "at x p 2 = ent x P (a + 2)" for x :: "'a hart_scheme" using block_word [OF fr(3), of x 2] by simp
  have fP: "frame \<in> {P, frame}" "P \<in> {P, frame}" "(9 :: nat) < 512" "(32 :: nat) < 512" "frame = frame \<longrightarrow> (9 :: nat) \<noteq> 35"
    "frame = frame \<longrightarrow> (32 :: nat) \<noteq> 35" "P = frame \<longrightarrow> a + 2 \<noteq> 35" using fr(6) by simp_all
  define s2' where "s2' = set_at frame (of_nat 9) (return_reg trap) s2"
  have s3': "s3 = set_at frame (of_nat 32) (at s2 frame 32 + 4) s2'" by (simp add: s3_def s2'_def)
  note t2' = in_trap_set_at [OF t2(1) fP(1,3,5), where v = "return_reg trap", folded s2'_def]
  note t3 = in_trap_set_at [OF t2'(1) fP(1,4,6), where v = "at s2 frame 32 + 4", folded s3']
  have l1: "pager_live s1 = pager_live s" unfolding s1 by (rule in_trap_set_at(3) [OF t fP(2) a2 fP(7)])
  have live: "pager_live s2 = pager_live s" "pager_live s2' = pager_live s" "pager_live s3 = pager_live s"
    using l1 t2(2) t2'(3) t3(3) by simp_all
  have e1: "ent s1 q j = (if q = P \<and> j = a + 2 then put32 1 w else ent s q j)" if "q \<in> pager_live s" "j < 512" for q j
    unfolding s1 using in_trap_set_at(2) [OF t fP(2) a2 fP(7) that] by (simp only: w w_def)
  have e2: "ent s2 q j = ent s1 q j" for q j using g(1) by (simp add: at_def s1_def)
  have e3: "ent s3 q j = (if q = frame \<and> j = 32 then at s2 frame 32 + 4 else if q = frame \<and> j = 9 then return_reg trap
      else ent s1 q j)" if "q \<in> pager_live s" "j < 512" for q j
  proof -
    have "q \<in> pager_live s2'" "q \<in> pager_live s2" using that live by simp_all
    from t3(2) [OF this(1) that(2)] t2'(2) [OF this(2) that(2)] show ?thesis by (simp only: e2)
  qed
  have P3: "ent s3 P (a + 2) = put32 1 w" using e3 [OF fr(4) a2] e1 [OF fr(4) a2] fr(6) by simp
  have s'w: "s' = set_at P (of_nat (a + 2)) w s3"
    unfolding s'_def set_at32_def at32_def w P3 w_def [symmetric] put32_restore using set_block_word [OF fr(3), of 2 w s3] by simp
  have e4: "ent s' q j = (if q = P \<and> j = a + 2 then w else ent s3 q j)" if "q \<in> pager_live s" "j < 512" for q j
  proof -
    have "q \<in> pager_live s3" using that live by simp
    then show ?thesis unfolding s'w by (rule in_trap_set_at(2) [OF t3(1) fP(2) a2 fP(7) _ that(2)])
  qed
  have "at s2 frame 32 = at s frame 32" using e2 [of frame 32] e1 [OF fr(5), of 32] fr(6) by auto
  then have "at s' frame 32 = at s frame 32 + 4" using e4 [OF fr(5), of 32] e3 [OF fr(5), of 32] fr(6) by auto
  moreover have "q = frame \<and> j = 32 \<or> ent s' q j = ent s q j" if "q \<in> pager_live s" "j < 512" for q j
  proof (cases "q = frame \<and> j = 9")
    case True
    then show ?thesis using e4 [OF that] e3 [OF that] trap(8) fr(6) by auto
  next
    case False
    then show ?thesis using e4 [OF that] e3 [OF that] e1 [OF that] fr(6) unfolding w_def by (auto split: if_splits)
  qed
  moreover have "uart_writes s' = uart_writes s2" by (simp add: s'_def s3_def set_at32_def set_at_def)
  ultimately show ?thesis using run unfolding s'_def [symmetric] by blast
qed

text \<open>Storing words into a page outside the tables.\<close>

lemma poke:
  fixes s :: "'a pager_scheme" and w :: "nat \<Rightarrow> u64"
  assumes tree: "vma_tree root s" and q: "q \<in> pager_live s - tables root s" and n: "n \<le> 512"
  defines "s' \<equiv> put_words n q w s"
  shows "vma_tree root s'" and "tables root s' = tables root s" and "sv39_page root k s' = sv39_page root k s"
    and "pager_live s' = pager_live s" and "pager_pool s' = pager_pool s" and "pager.more s' = pager.more s"
    and "r \<in> pager_live s \<Longrightarrow> j < 512 \<Longrightarrow> ent s' r j = (if r = q \<and> j < n then w j else ent s r j)"
proof -
  have inv: "pager_inv s" and ql: "q \<in> pager_live s" using vma_treeD(2) [OF tree] q by auto
  have "0 + n \<le> 512" using n by simp
  from put_words_writes [OF inv ql this, of w]
  have pw: "writes {q} s s'" "pager_live s' = pager_live s" "pager.more s' = pager.more s"
    "\<forall>j<512. ent s' q j = (if j < n then w j else ent s q j)" by (simp_all add: s'_def)
  have "{q} \<inter> tables root s = {}" using q by simp
  note t = vma_tree_writes [OF tree pw(1) this]
  show "vma_tree root s'" "tables root s' = tables root s" "sv39_page root k s' = sv39_page root k s" by (rule t)+
  show "pager_live s' = pager_live s" "pager.more s' = pager.more s" by (rule pw)+
  show "pager_pool s' = pager_pool s" using pw(1) by (simp add: writes_def)
  show "ent s' r j = (if r = q \<and> j < n then w j else ent s r j)" if "r \<in> pager_live s" "j < 512"
    using pw(4) that writes_at [OF pw(1) that(1) _ that(2)] by (cases "r = q") simp_all
qed

section \<open>A process in a trap\<close>

lemma demo_pages:
  obtains s1 :: hart and u a0 a1 a2 a3 P H C I where
    "pager_inv s1" "kernel_pool s1" "40 \<le> free_pages s1" "distinct [u, a0, a1, a2, a3, P, H, C, I]"
    "pager_live s1 = {u, a0, a1, a2, a3, P, H, C, I}" "max_asid s1 = 0" "\<forall>t. sbi_timer s1 t = 0" "timers s1 = []"
    "\<forall>q \<in> pager_live s1. kernel_page q"
proof -
  define b where "b = pager_publish [demo_region] blank_hart"
  have "pager_bitmap_list blank_hart = 0xffffffc080280000" "last_free_bitmap blank_hart = 0" "last_free_page_num blank_hart = 0"
    by (simp_all add: blank_hart_def blank_sched_def blank_vma_def vma.defs sched.defs kernel.defs hart.defs)
  note d = demo_publish [OF this, folded b_def]
  have "9 + 40 \<le> free_pages b" using d(3) by simp
  then obtain ps s1 where a: "length ps = 9" "distinct ps" "set ps \<subseteq> pager_pool b"
    "pager_live s1 = pager_live b \<union> set ps" "writes {} b s1" "pager.more s1 = pager.more b" "40 \<le> free_pages s1"
    using alloc_pages_sound [OF d(1)] by blast
  obtain u a0 a1 a2 a3 P H C I where ps: "ps = [u, a0, a1, a2, a3, P, H, C, I]"
  proof -
    have "length ps = Suc (Suc (Suc (Suc (Suc (Suc (Suc (Suc (Suc 0))))))))" using a(1) by simp
    then show ?thesis using that by (auto simp: length_Suc_conv)
  qed
  have i1: "pager_inv s1" "kernel_pool s1" using a(5) d(4) by (auto simp: writes_def kernel_pool_def)
  have kp: "kernel_page q" if "q \<in> pager_live s1" for q
    using that live_page_aligned [OF i1(1), of q] a(3,4) d(2,4) by (auto simp: kernel_page_def kernel_pool_def)
  have "max_asid b = 0" "sbi_timer b = (\<lambda>_. 0)" "timers b = []"
    by (simp_all add: b_def pager_publish_def set_region_def Let_def blank_hart_def blank_sched_def blank_vma_def
        vma.defs sched.defs kernel.defs hart.defs)
  then have "max_asid s1 = 0" "\<forall>t. sbi_timer s1 t = 0" "timers s1 = []" using a(6) by (cases b; cases s1; simp)+
  then show ?thesis using that [of s1 u a0 a1 a2 a3 P H C I] i1 a kp d(2) by (simp add: ps)
qed


text \<open>
  Two processes in one page, one of them running with the other queued, and any words in the trap
  frame.
\<close>

text \<open>The memory of the sample machine: a process with its address space, a trap frame, a stack list and a queue.\<close>

lemma demo_trap_memory:
  obtains u P H C I root st and s :: hart where "distinct [u, P, H, C, I]"
    and "{u, P, H, C, I} \<subseteq> pager_live s - tables root s" and "vma_tree root s" and "kernel_pool s" and "8 \<le> free_pages s"
    and "\<forall>i<4. kernel_page (st ! i)" and "\<forall>q<2 ^ 27. sv39_page root q s = process_map u st q" and "max_asid s = 0"
    and "\<forall>t. sbi_timer s t = 0" and "timers s = []"
    and "\<forall>i<48. ent s P i = (if i = 6 then root else 0)" and "\<forall>i<35. ent s u i = f i" and "at s u 35 = P + 8 * of_nat 24"
    and "\<forall>i<4. ent s H i = st ! i" and "at s C 0 = P"
proof -
  obtain s1 :: hart and u a0 a1 a2 a3 P H C I where s1: "pager_inv s1" "kernel_pool s1" "40 \<le> free_pages s1"
    "distinct [u, a0, a1, a2, a3, P, H, C, I]" "pager_live s1 = {u, a0, a1, a2, a3, P, H, C, I}" "max_asid s1 = 0"
    "\<forall>t. sbi_timer s1 t = 0" "timers s1 = []" "\<forall>q \<in> pager_live s1. kernel_page q" by (rule demo_pages)
  define st where "st = [a0, a1, a2, a3]"
  have st: "kernel_page (st ! i)" if "i < 4" for i
  proof -
    have "i \<in> {0, 1, 2, 3}" using that by auto
    then show ?thesis using s1(5,9) by (auto simp: st_def)
  qed
  have "12 + 20 < free_pages s1" "kernel_page u" using s1(3,5,9) by auto
  then obtain root s2 where s2: "vma_tree root s2" "globals_kept s1 s2" "20 \<le> free_pages s2"
    "pager_live s1 \<subseteq> pager_live s2 - tables root s2" "pager_pool s2 = pager_pool s1"
    "\<forall>q<2 ^ 27. sv39_page root q s2 = process_map u st q"
    using process_space_maps [OF s1(1,2) _ _ st] by blast
  define wP wu where "wP = (\<lambda>i :: nat. if i = 6 then root else 0)"
    and "wu = (\<lambda>i :: nat. if i < 35 then f i else P + 8 * of_nat 24 :: u64)"
  define s3 where "s3 = put_words 48 P wP s2"
  define s4 where "s4 = put_words 4 H (\<lambda>i. st ! i) s3"
  define s5 where "s5 = put_words 1 C (\<lambda>_. P) s4"
  define s where "s = put_words 36 u wu s5"
  have l2: "{u, P, H, C, I} \<subseteq> pager_live s2 - tables root s2" using s2(4) s1(5) by auto
  have q: "P \<in> pager_live s2 - tables root s2" "(48 :: nat) \<le> 512" using l2 by auto
  note k3 = poke [OF s2(1) q, where w = wP, folded s3_def]
  have q: "H \<in> pager_live s3 - tables root s3" "(4 :: nat) \<le> 512" using l2 k3(2,4) by auto
  note k4 = poke [OF k3(1) q, where w = "\<lambda>i. st ! i", folded s4_def]
  have q: "C \<in> pager_live s4 - tables root s4" "(1 :: nat) \<le> 512" using l2 k3(2,4) k4(2,4) by auto
  note k5 = poke [OF k4(1) q, where w = "\<lambda>_. P", folded s5_def]
  have q: "u \<in> pager_live s5 - tables root s5" "(36 :: nat) \<le> 512" using l2 k3(2,4) k4(2,4) k5(2,4) by auto
  note k6 = poke [OF k5(1) q, where w = wu, folded s_def]
  note same = k3(2-6) k4(2-6) k5(2-6) k6(2-6)
  have live2: "u \<in> pager_live s2" "P \<in> pager_live s2" "H \<in> pager_live s2" "C \<in> pager_live s2" using l2 by auto
  have ne: "P \<noteq> u" "P \<noteq> C" "P \<noteq> H" "H \<noteq> u" "H \<noteq> C" "C \<noteq> u" using s1(4) by auto
  have ent: "ent s r j = (if r = u \<and> j < 36 then wu j else if r = C \<and> j < 1 then P else if r = H \<and> j < 4 then st ! j
      else if r = P \<and> j < 48 then wP j else ent s2 r j)" if "r \<in> pager_live s2" "j < 512" for r j
  proof -
    have r: "r \<in> pager_live s3" "r \<in> pager_live s4" "r \<in> pager_live s5" using that same by simp_all
    show ?thesis unfolding k6(7) [OF r(3) that(2)] k5(7) [OF r(2) that(2)] k4(7) [OF r(1) that(2)] k3(7) [OF that] ..
  qed
  have glob: "max_asid s = 0" "\<forall>t. sbi_timer s t = 0" "timers s = []"
  proof -
    have "pager.more s = pager.more s2" using same by simp
    then have "max_asid s = max_asid s2" "vma.more s = vma.more s2" by (cases s; cases s2; simp)+
    moreover have "vma.more s2 = vma.more s1" "max_asid s2 = 0" using globals_kept_fields(7,10) [OF s2(2)] s1(6) by simp_all
    ultimately show "max_asid s = 0" "\<forall>t. sbi_timer s t = 0" "timers s = []" using s1(7,8) by (cases s; cases s1; simp)+
  qed
  show thesis
  proof (rule that [OF _ _ k6(1) _ _ _ _ glob])
    show "\<forall>i<48. ent s P i = (if i = 6 then root else 0)" "\<forall>i<35. ent s u i = f i" "\<forall>i<4. ent s H i = st ! i"
      using ent live2 ne by (simp_all add: wP_def wu_def)
    show "at s u 35 = P + 8 * of_nat 24" using ent [OF live2(1), of 35] by (simp add: wu_def)
    show "at s C 0 = P" using ent [OF live2(4), of 0] ne by simp
    show "distinct [u, P, H, C, I]" using s1(4) by auto
    show "{u, P, H, C, I} \<subseteq> pager_live s - tables root s" using l2 same by simp
    show "kernel_pool s" "8 \<le> free_pages s" using s2(3,5) s1(2) same by (simp_all add: kernel_pool_def)
    show "\<forall>i<4. kernel_page (st ! i)" using st by blast
    show "\<forall>q<2 ^ 27. sv39_page root q s = process_map u st q" using s2(6) same by simp
  qed
qed

lemma demo_trap:
  obtains old Q b p P a frame and s :: hart where "preemptible 0 old Q b p P a frame s" and "in_trap old Q b frame s"
    and "ring_items s = [p]" and "\<And>i. i < 35 \<Longrightarrow> ent s frame i = f i" and "\<forall>t. sbi_timer s t = 0" and "timers s = []"
    and "uart_ready s" and "uart_writes s = []"
proof -
  obtain u P H C I root st and s6 :: hart where m: "distinct [u, P, H, C, I]"
    "{u, P, H, C, I} \<subseteq> pager_live s6 - tables root s6" "vma_tree root s6" "kernel_pool s6" "8 \<le> free_pages s6"
    "\<forall>i<4. kernel_page (st ! i)" "\<forall>q<2 ^ 27. sv39_page root q s6 = process_map u st q" "max_asid s6 = 0"
    "\<forall>t. sbi_timer s6 t = 0" "timers s6 = []"
    "\<forall>i<48. ent s6 P i = (if i = 6 then root else 0)" "\<forall>i<35. ent s6 u i = f i" "at s6 u 35 = P + 8 * of_nat 24"
    "\<forall>i<4. ent s6 H i = st ! i" "at s6 C 0 = P"
    by (rule demo_trap_memory)
  define v where "v = push_bit 44 0 OR push_bit 60 8 OR ((root - KERNEL_VMA_START) div 4096)"
  define s where "s = s6\<lparr>hart_stacks_list := H, satp := v, process_queue := C, process_queue_size := 512,
     process_queue_count := 1, process_queue_start := 0, hart_idle_process := I,
     uart_dev := (\<lambda>_ _. 32), uart_writes := []\<rparr>"
  have same: "pager_same s6 s" "kmem s = kmem s6" by (simp_all add: s_def pager_same_def)
  have at: "at s q i = at s6 q i" for q i by (simp add: at_def same(2))
  have "kernel_page root" by (rule vma_treeD(1) [OF m(3)])
  then have kr: "unat ((root - KERNEL_VMA_START) div 4096) < 2 ^ 44" "(root - KERNEL_VMA_START) div 4096 * 4096 + KERNEL_VMA_START = root"
    using kernel_page_number [of root] kernel_page_split by (auto simp: kernel_page_def)
  have "unat (0 :: u64) < 2 ^ 16" by simp
  note sb = satp_bits [OF this kr(1) bit_8, folded v_def]
  have sroot: "satp_root s = root" "drop_bit 60 (satp s) = 8" using sb(1,3) kr(2) by (simp_all add: satp_root_def s_def)
  have inv6: "pager_inv s6" by (rule vma_treeD(2) [OF m(3)])
  note ps = pager_same_inv [OF same(1) inv6]
  have "writes {} s6 s" by (rule writes_same [OF inv6 same])
  note t = vma_tree_writes [OF m(3) this]
  have sv: "sv39_page root q s = process_map u st q" if "q < 2 ^ 27" for q using t(2) m(7) that by simp
  have l: "{u, P, H, C, I} \<subseteq> pager_live s - tables root s" using m(2) ps(4) t(3) by simp
  have ne: "P \<noteq> u" "P \<noteq> C" "P \<noteq> H" "H \<noteq> u" "H \<noteq> C" "C \<noteq> u" "I \<noteq> P" "I \<noteq> C" using m(1) by auto
  have p: "proc_at P P 0" "proc_at (P + 8 * of_nat 24) P 24" "apart_blocks P 0 P 24" by (simp_all add: proc_at_def apart_blocks_def)
  have wd: "ent s P i = (if i = 6 then root else 0)" if "i < 48" for i using m(11) that at by simp
  have P6: "at s P 6 = root" "at s P 7 = 0" "at s (P + 8 * of_nat 24) 1 = 0" "at s (P + 8 * of_nat 24) 13 = 0"
    using wd [of 6] wd [of 7] wd [of 25] wd [of 37] at_offset [of s P 24 1] at_offset [of s P 24 13] by simp_all
  have tf: "trapframe_page 1 s = ret u" "trapframe_page 2 s = ret u"
    using sroot sv by (simp_all add: trapframe_page_def process_map_def)
  have g: "process_queue s = C" "hart_idle_process s = I" "process_queue_size s = 512" "process_queue_count s = 1"
    "process_queue_start s = 0" "hart_stacks_list s = H" "max_asid s = 0" "\<forall>t. sbi_timer s t = 0" "timers s = []"
    using m(8-10) by (simp_all add: s_def)
  have U: "at s u 35 = P + 8 * of_nat 24" using m(13) at by simp
  have r: "runs (P + 8 * of_nat 24) u s" unfolding runs_def sroot(1) g using t tf U l ne by simp
  have sw: "switchable P P 0 s"
    unfolding switchable_def P6(1) g using t(1) m(4) sv ps(2) l ne by (simp add: process_map_def kernel_pool_def)
  have hr: "hart_ready 0 P s"
    unfolding hart_ready_def using m(5,6,14) at ps(2,4) g by (simp add: has_asid_def hart_stack_def)
  have si: "sched_inv 0 s" unfolding sched_inv_def g using ps(1) l ne by simp
  have items: "ring_items s = [P]" using m(15) at by (simp add: ring_items_def ring_slot_def g)
  have "P \<noteq> P + 8 * of_nat 24" by simp
  then have "preemptible 0 (P + 8 * of_nat 24) P 24 P P 0 u s"
    unfolding preemptible_def g P6(1) using si r sw hr p l ne P6(3,4) by (simp add: at32_def)
  moreover have "in_trap (P + 8 * of_nat 24) P 24 u s"
    unfolding in_trap_def sroot(1) using t tf U p(2) l ne by simp
  moreover have "uart_ready s" "uart_writes s = []" by (auto simp: uart_ready_def s_def)
  moreover have "ent s u i = f i" if "i < 35" for i using m(12) at that by simp
  ultimately show ?thesis using that items g(8,9) by blast
qed

section \<open>Properties\<close>

text \<open>
  C1. Preemption: on a supervisor timer interrupt taken by a normal process while others are queued,
  the handler succeeds; the interrupted process is queued last, the process at the head of the queue
  becomes the running one with its address space loaded and its trap frame at the fixed address, the
  next timer is requested 4 ms ahead, and the queue's invariant holds again.
\<close>

theorem timer_preempts:
  fixes s :: "'a hart_scheme"
  assumes "preemptible (hart_id stack) old Q b p P a frame s" and "at s frame 31 = 0x8000000000000005"
    and "ring_items s = p # ps" and "length ps < 511" and "\<forall>t. sbi_timer s t = 0"
  shows "\<exists>s'. handle_sync_trap cp stack s = ret (0, s') \<and> sched_inv (hart_id stack) s' \<and> ring_items s' = ps @ [old]
    \<and> satp_root s' = at s p 6 \<and> drop_bit 60 (satp s') = 8 \<and> running s' p = 1 \<and> running s' old = 0
    \<and> timers s' = timers s @ [time_dev s (time_reads s) + 40000]
    \<and> (\<forall>frame f. sv39_page (at s p 6) (2 ^ 27 - 2) s = Some (frame, f) \<and> bit f 1 \<and> \<not> bit f 4
        \<longrightarrow> trapframe_page 1 s' = ret frame)"
proof -
  have fr: "trapframe_page 1 s = ret frame" "at s frame 35 = old" using assms(1) by (auto simp: preemptible_def runs_def)
  obtain trap where trap: "trapframe_parse stack s = ret trap" "process_ptr trap = old" "hart_id trap = hart_id stack"
    "trap_cause trap = TRAP_TIMER_INTERRUPT" "privilege trap = TRAP_MODE_SUPERVISOR"
    using fr assms(2) by (simp add: trapframe_parse_def parse_interrupt_def Let_def BIT_def)
  have sbi: "\<And>t. sbi_timer s t = 0" using assms(5) by blast
  have "handle_sync_trap cp stack s = bindr (trap_change_process trap s) (\<lambda>(_, s). ret (0, s))"
    using trap by (simp add: handle_sync_trap_def sync_dispatch_def uninterruptible_trap_timer_def set_at32_restore Let_def)
  then show ?thesis using trap_change_run [OF assms(1,3,4) trap(2,3) sbi] by fastforce
qed

definition demo_stack :: trap_data where
  "demo_stack = \<lparr>process_ptr = 0, trap_kind = TRAP_TYPE_INTERRUPT, privilege = TRAP_MODE_USER,
     trap_cause = TRAP_BREAKPOINT, fault_pc = 0, fault_addr = 0, arg0_reg = 0, arg1_reg = 0, arg2_reg = 0,
     arg3_reg = 0, return_reg = 0, hart_id = 0\<rparr>"

abbreviation (input) demo_copy :: "'s copy_user" where "demo_copy \<equiv> (\<lambda>_ _ _ s. ret (0, s))"

theorem timer_preempts_witness:
  "\<exists>old p (s :: hart) s'. ring_items s = [p] \<and> handle_sync_trap demo_copy demo_stack s = ret (0, s')
     \<and> ring_items s' = [old] \<and> running s' p = 1 \<and> running s' old = 0 \<and> satp_root s' = at s p 6"
proof -
  obtain old Q b p P a frame and s :: hart where s: "preemptible 0 old Q b p P a frame s" "ring_items s = [p]"
    "\<And>i. i < 35 \<Longrightarrow> ent s frame i = 0x8000000000000005" "\<forall>t. sbi_timer s t = 0"
    by (rule demo_trap [of "\<lambda>_. 0x8000000000000005"]) (rule that)
  have "at s frame 31 = 0x8000000000000005" using s(3) [of 31] by simp
  then show ?thesis
    using timer_preempts [of demo_stack old Q b p P a frame s "[]" demo_copy] s(1,2,4) by (auto simp: demo_stack_def)
qed

text \<open>
  C14. The system call that prints a character, from user mode: the low byte of its argument goes to
  the serial device, a line feed followed by a carriage return; the handler reports the trap as dealt
  with, the process goes on behind its \<open>ecall\<close>, and no other word in use changes, the state of the
  process included.
\<close>

theorem uart_char_syscall_sound:
  fixes s :: "'a hart_scheme"
  assumes "in_trap p P a frame s" and "uart_ready s" and "at s frame 31 = 8" and "at s frame 9 = 1" and "at s frame 10 = 0"
  defines "c \<equiv> ucast (at s frame 11) :: u8"
  shows "\<exists>s'. handle_sync_trap cp stack s = ret (0, s')
    \<and> uart_writes s' = uart_writes s @ map (Pair 0) (if c = 10 then [10, 13] else [c])
    \<and> at s' frame 32 = at s frame 32 + 4
    \<and> (\<forall>q \<in> pager_live s. \<forall>j<512. q = frame \<and> j = 32 \<or> ent s' q j = ent s q j)"
proof -
  define s1 where "s1 = set_at32 p 2 1 s"
  define out where "out = map (Pair (0 :: u64)) (if c = 10 then [10, 13] else [c])"
  have "uart_ready s1" using assms(2) by (simp add: s1_def set_at32_def set_at_def uart_ready_def)
  from print_char_prints [OF this, of c] obtain k where
    k: "uart_print_char c s1 = ret ((), s1\<lparr>uart_reads := k, uart_writes := uart_writes s1 @ out\<rparr>)"
    by (auto simp: prints_def out_def)
  define s2 where "s2 = s1\<lparr>uart_reads := k, uart_writes := uart_writes s1 @ out\<rparr>"
  have f: "\<forall>trap. arg1_reg trap = at s frame 10 \<and> arg2_reg trap = at s frame 11 \<and> arg3_reg trap = at s frame 12 \<longrightarrow>
      syscall_uart cp trap False (set_at32 p 2 1 s) = ret ((0, trap), s2)"
    using k assms(5) by (simp add: syscall_uart_def s2_def s1_def c_def)
  have g: "kmem s2 = kmem (set_at32 p 2 1 s)" "pager_same (set_at32 p 2 1 s) s2" "satp s2 = satp s"
    and w: "uart_writes s2 = uart_writes s @ out"
    by (simp_all add: s2_def s1_def pager_same_def set_at32_def set_at_def)
  show ?thesis
    using sync_syscall_run [OF assms(1,3,4) f _ g, of stack] unfolding w out_def by simp
qed

theorem uart_char_syscall_sound_witness:
  "\<exists>(s :: hart) s'. handle_sync_trap demo_copy demo_stack s = ret (0, s') \<and> uart_writes s' = [(0, 65)]"
proof -
  define f where "f = (\<lambda>i :: nat. if i = 31 then 8 else if i = 9 then 1 else if i = 11 then 65 else 0 :: u64)"
  obtain old Q b p P a frame and s :: hart where s: "in_trap old Q b frame s"
    "\<And>i. i < 35 \<Longrightarrow> ent s frame i = f i" "uart_ready s" "uart_writes s = []"
    by (rule demo_trap [of f]) (rule that)
  have w: "at s frame 31 = 8" "at s frame 9 = 1" "at s frame 10 = 0" "at s frame 11 = 65"
    using s(2) [of 31] s(2) [of 9] s(2) [of 10] s(2) [of 11] by (simp_all add: f_def)
  show ?thesis
    using uart_char_syscall_sound [OF s(1,3) w(1-3), of demo_copy demo_stack] w(4) s(4) by auto
qed

text \<open>
  The system call that prints a string is dropped: the first handler means to leave it to the second
  one, but answers with a number that the caller takes for success.
\<close>

lemma uart_string_syscall_dropped:
  fixes s :: "'a hart_scheme"
  assumes "in_trap p P a frame s" and "at s frame 31 = 8" and "at s frame 9 = 1" and "at s frame 10 = 1"
  shows "\<exists>s'. handle_sync_trap cp stack s = ret (0, s') \<and> uart_writes s' = uart_writes s \<and> at s' frame 32 = at s frame 32 + 4"
proof -
  have f: "\<forall>trap. arg1_reg trap = at s frame 10 \<and> arg2_reg trap = at s frame 11 \<and> arg3_reg trap = at s frame 12 \<longrightarrow>
      syscall_uart cp trap False (set_at32 p 2 1 s) = ret ((U64_MAX, trap), set_at32 p 2 1 s)"
    using assms(4) by (simp add: syscall_uart_def)
  have "satp (set_at32 p 2 1 s) = satp s" "uart_writes (set_at32 p 2 1 s) = uart_writes s"
    by (simp_all add: set_at32_def set_at_def)
  then show ?thesis
    using sync_syscall_run [OF assms(1-3) f, of stack] by (auto simp: pager_same_def)
qed

text \<open>
  C17. A misaligned access, an access fault or an invalid instruction stops the kernel, whatever the
  mode the hart was in and whatever the state of the process: the parser takes the mode from the cause
  register, so the handlers never see user mode, and none of them kills the process.
\<close>

theorem user_fault_panics:
  fixes s :: "'a hart_scheme"
  assumes "trapframe_page 1 s = ret frame" and "at s frame 31 \<in> {0, 1, 2, 4, 5, 6, 7}"
  shows "handle_sync_trap cp stack s =
    panic (if at s frame 31 = 2 then ''KERNEL_TRAP_INSTRUCTION_INVALID''
           else if at s frame 31 \<in> {0, 4, 6} then ''KERNEL_TRAP_ACCESS_MISALIGNED'' else ''KERNEL_TRAP_ACCESS_FAULT'')
      1 (at s frame 33) (at s frame 32)"
proof -
  define c where "c = at s frame 31"
  have "c = 0 \<or> c = 1 \<or> c = 2 \<or> c = 4 \<or> c = 5 \<or> c = 6 \<or> c = 7" using assms(2) by (simp add: c_def)
  then show ?thesis
    unfolding handle_sync_trap_def trapframe_parse_def c_def [symmetric]
    by (elim disjE) (simp_all add: assms(1) [simplified] parse_exception_def sync_dispatch_def kill_faulting_def
        uninterruptible_trap_access_misaligned_def uninterruptible_trap_access_fault_def
        uninterruptible_trap_instruction_invalid_def Let_def BIT_def c_def)
qed


theorem user_fault_panics_witness:
  "\<exists>s :: hart. handle_sync_trap demo_copy demo_stack s = panic ''KERNEL_TRAP_INSTRUCTION_INVALID'' 1 2 2"
proof -
  obtain old Q b p P a frame and s :: hart where s: "in_trap old Q b frame s" "\<And>i. i < 35 \<Longrightarrow> ent s frame i = 2"
    by (rule demo_trap [of "\<lambda>_. 2"]) (rule that)
  have "at s frame 31 = 2" "at s frame 32 = 2" "at s frame 33 = 2"
    using s(2) [of 31] s(2) [of 32] s(2) [of 33] by simp_all
  moreover have "trapframe_page 1 s = ret frame" using s(1) by (simp add: in_trap_def)
  ultimately show ?thesis using user_fault_panics [of s frame demo_copy demo_stack] by auto
qed

lemma reading_flag: "reading_userspace (set_reading_userspace p v s) p = v"
proof -
  have "ucast (put8 0 v w) = v" for w :: u64
    unfolding put8_def
    by (rule bit_word_eqI) (use bit_splice [of _ w 0 v] in \<open>simp only: bit_unsigned_iff comp_def\<close>, auto)
  then show ?thesis by (simp add: reading_userspace_def set_reading_userspace_def set_at_def at_def)
qed

text \<open>
  C15. Reading user memory: the copy routine is called only for a range that is not empty and lies
  below the kernel in unbounded arithmetic, and then with interrupts off, access to user pages on and
  the process marked; afterwards all three are back. Any other range is refused and changes nothing.
\<close>

theorem kernel_read_user_guarded:
  assumes "\<forall>s. \<exists>r s'. cp src sz dest s = ret (r, s') \<and> sstatus s' = sstatus s"
  shows "if 0 < unat sz \<and> unat src + unat sz < unat KERNEL_VMA_START
    then \<exists>s1 r s2 s'. cp src sz dest s1 = ret (r, s2) \<and> bit (sstatus s1) 18 \<and> \<not> bit (sstatus s1) 1
        \<and> reading_userspace s1 proc = 1 \<and> kernel_read_user cp src sz dest proc s = ret (r = 0, s')
        \<and> \<not> bit (sstatus s') 18 \<and> bit (sstatus s') 1 \<and> reading_userspace s' proc = 0
    else kernel_read_user cp src sz dest proc s = ret (False, s)"
proof (cases "0 < unat sz \<and> unat src + unat sz < unat KERNEL_VMA_START")
  case True
  define s1 where "s1 = set_reading_userspace proc 1 (vma_enable_read_user (irq_disable s))"
  have "unat (src + sz) = unat src + unat sz" using True by (simp add: unat_word_ariths)
  then have "\<not> (src \<ge> KERNEL_VMA_START \<or> src + sz \<ge> KERNEL_VMA_START \<or> src + sz \<le> src)"
    using True by (simp add: word_le_nat_alt)
  moreover obtain r s2 where cp: "cp src sz dest s1 = ret (r, s2)" "sstatus s2 = sstatus s1" using assms by blast
  ultimately have "kernel_read_user cp src sz dest proc s =
      ret (r = 0, irq_enable (vma_disable_read_user (set_reading_userspace proc 0 s2)))"
    by (simp add: kernel_read_user_def s1_def)
  moreover have "bit (sstatus s1) 18" "\<not> bit (sstatus s1) 1" "reading_userspace s1 proc = 1"
    by (simp_all add: s1_def reading_flag) (simp_all add: set_reading_userspace_def set_at_def vma_enable_read_user_def
      irq_disable_def bit_BIT bit_or_iff bit_and_iff bit_not_iff)
  moreover have "\<not> bit (sstatus x) 18" "bit (sstatus x) 1" "reading_userspace x proc = 0"
    if "x = irq_enable (vma_disable_read_user (set_reading_userspace proc 0 s2))" for x
    unfolding that by (simp_all add: irq_enable_def vma_disable_read_user_def bit_BIT bit_or_iff bit_and_iff bit_not_iff)
      (use reading_flag [of proc 0 s2] in \<open>simp add: reading_userspace_def at_def\<close>)
  ultimately show ?thesis using True cp(1) by auto
next
  case False
  have "src + sz \<ge> KERNEL_VMA_START \<or> src + sz \<le> src"
  proof (cases "unat src + unat sz < 2 ^ 64")
    case True
    then have "unat (src + sz) = unat src + unat sz" by (simp add: unat_word_ariths)
    then show ?thesis using False by (auto simp: word_le_nat_alt)
  next
    case False
    have "unat sz < 2 ^ 64" "unat src < 2 ^ 64" using unsigned_less [where ?'a = nat, of sz] unsigned_less [where ?'a = nat, of src] by simp_all
    then have "unat (src + sz) = unat src + unat sz - 2 ^ 64"
      using False by (simp add: unat_word_ariths le_mod_geq)
    then have "unat (src + sz) \<le> unat src" using \<open>unat sz < 2 ^ 64\<close> by linarith
    then show ?thesis by (simp add: word_le_nat_alt)
  qed
  then show ?thesis unfolding if_not_P [OF False] by (auto simp: kernel_read_user_def)
qed

theorem kernel_read_user_guarded_witness:
  "\<exists>s'. kernel_read_user demo_copy 0x1000 64 0 0 blank_hart = ret (True, s') \<and> bit (sstatus s') 1"
proof -
  show ?thesis
    using kernel_read_user_guarded [of demo_copy "0x1000" 64 0 0 blank_hart] by auto
qed

text \<open>Writing checks the wrong sum, so a range that wraps around into the kernel is copied.\<close>

lemma kernel_write_user_wraps:
  "kernel_write_user (\<lambda>_ _ _ _. undef ''copied'') 0x1000 0xFFFFFFFFFFFFF800 src proc s = undef ''copied''"
  by (simp add: kernel_write_user_def)

text \<open>A descriptor is read back from the slot behind the one it was stored in.\<close>

lemma fd_slots_differ:
  fixes s :: "'a vma_scheme" and proc :: u64
  defines "page \<equiv> at s proc 8"
  assumes "at s page 1 = 0" and "at s page 2 = 0" and "proc + 64 \<noteq> page + 8"
  shows "\<exists>s'. fd_insert_local fd proc s = ret (0, s') \<and> at s' page 1 = fd \<and> fd_get_local 0 proc s' = 0"
proof -
  have slot: "fd_free_slot page s = Some 0" using assms(2) by (simp add: fd_free_slot_def upt_rec)
  define s' where "s' = set_at page 1 fd s"
  have "fd_insert_local fd proc s = ret (0, s')"
    unfolding fd_insert_local_def page_def [symmetric] by (subst fd_insert_from.simps) (simp add: slot s'_def)
  moreover have "at s' page 1 = fd" "at s' page 2 = 0" "at s' proc 8 = page"
    using assms(3,4) by (simp_all add: s'_def at_def set_at_def page_def)
  ultimately show ?thesis by (simp add: fd_get_local_def)
qed

end
