(* ===== verification/Device_Tree.thy ===== *)
theory Device_Tree
  imports File_System
begin

text \<open>
  The device tree: the parser of the flattened tree the firmware hands over
  (\<^verbatim>\<open>src/src/arch/risc-v/arch_device_tree/dtb.c\<close>) and what the kernel keeps of it
  (\<^verbatim>\<open>src/src/kernel/devices/device_tree.c\<close>).

  A \<open>device_info\<close> is six words of memory: first child, next sibling, name, the byte \<open>is_leaf\<close>, value and
  length of the value. The addresses of the string constants are part of the state, the array
  \<open>node_stack\<close> is an argument with what the stack held before.
\<close>

section \<open>State\<close>

record devices = fs +
  endian_type :: u16
  dtb :: u64
  root_device_node :: u64
  kernel_device_end :: u64
  str_address_cells :: u64
  str_size_cells :: u64
  str_memory :: u64
  str_reg :: u64
  str_reserved_memory :: u64
  kernel_start :: u64

text \<open>The fields of a \<open>device_info\<close>.\<close>

abbreviation (input) first_child :: "u64 \<Rightarrow> u64" where "first_child p \<equiv> p"
abbreviation (input) next_sibling :: "u64 \<Rightarrow> u64" where "next_sibling p \<equiv> p + 8"
abbreviation (input) dev_name :: "u64 \<Rightarrow> u64" where "dev_name p \<equiv> p + 16"
abbreviation (input) is_leaf :: "u64 \<Rightarrow> u64" where "is_leaf p \<equiv> p + 24"
abbreviation (input) dev_value :: "u64 \<Rightarrow> u64" where "dev_value p \<equiv> p + 32"
abbreviation (input) value_len :: "u64 \<Rightarrow> u64" where "value_len p \<equiv> p + 40"

section \<open>The flattened tree\<close>

definition dtb_read_int :: "mem \<Rightarrow> u64 \<Rightarrow> u32" where
  "dtb_read_int m ptr =
     push_bit 24 (ucast (ld8 m ptr)) OR push_bit 16 (ucast (ld8 m (ptr + 1)))
     OR push_bit 8 (ucast (ld8 m (ptr + 2))) OR ucast (ld8 m (ptr + 3))"

text \<open>\<open>&dtb[i]\<close> for a 32-bit index.\<close>

definition dtb_at :: "u64 \<Rightarrow> u32 \<Rightarrow> u64" where
  "dtb_at base i = base + ucast i"

definition dtb_link :: "u64 \<Rightarrow> u64 list \<Rightarrow> nat \<Rightarrow> mem \<Rightarrow> u64 list \<times> mem" where
  "dtb_link node node_stack node_depth m =
     (let m = (if node_stack ! node_depth \<noteq> 0 then m(next_sibling (node_stack ! node_depth) := node) else m);
          m = (if node_depth > 0 \<and> m (first_child (node_stack ! (node_depth - 1))) = 0
               then m(first_child (node_stack ! (node_depth - 1)) := node) else m)
      in (node_stack[node_depth := node], m))"

definition dtb_node :: "u64 \<Rightarrow> u64 \<Rightarrow> mem \<Rightarrow> mem" where
  "dtb_node node name m =
     (let m = m(dev_name node := name);
          m = st8 m (is_leaf node) 0
      in m(first_child node := 0, next_sibling node := 0))"

definition dtb_property :: "u64 \<Rightarrow> u64 \<Rightarrow> u64 \<Rightarrow> u64 \<Rightarrow> mem \<Rightarrow> mem" where
  "dtb_property device prop_name val prop_size m =
     (let m = st8 m (is_leaf device) 1
      in m(dev_name device := prop_name, dev_value device := val, value_len device := prop_size,
           next_sibling device := 0, first_child device := 0))"

text \<open>The loop over the name of a node; the counter is a signed 32-bit number.\<close>

partial_function (option) dtb_name_len :: "mem \<Rightarrow> u64 \<Rightarrow> u32 \<Rightarrow> u32 \<Rightarrow> u32 run" where
  "dtb_name_len m base byte_location offset =
     (if ld8 m (dtb_at base (byte_location + offset + 4)) = 0 then ret offset
      else if offset = 0x7FFFFFFF then undef ''signed overflow''
      else dtb_name_len m base byte_location (offset + 1))"

text \<open>
  The loop over the structure block, up to \<open>limit\<close>. The padded length of a property, an \<open>s32\<close> in the code,
  is kept as the 32-bit word it is added as; the two values just below \<open>2 ^ 31\<close> whose sum with 8 would
  overflow belong to properties of 2 GiB. A missing parent is address 0, which is memory like any other.
\<close>

partial_function (option) dtb_parse ::
  "u64 \<Rightarrow> u32 \<Rightarrow> u32 \<Rightarrow> u32 \<Rightarrow> u64 \<Rightarrow> u64 list \<Rightarrow> nat \<Rightarrow> mem \<Rightarrow> ((u64 \<times> u64 list) \<times> mem) run" where
  "dtb_parse base strings_offset limit byte_location cur_loc node_stack node_depth m =
     (if byte_location < limit then
        let item_value = dtb_read_int m (dtb_at base byte_location)
        in if item_value = 1 then
             let node = cur_loc;
                 m = dtb_node node (dtb_at base (byte_location + 4)) m;
                 (node_stack, m) = dtb_link node node_stack node_depth m;
                 node_depth = node_depth + 1
             in if node_depth \<ge> 14 then panic ''DTB_STACK_DEPTH_TO_HIGH'' (ucast byte_location) 0 0
                else bindr (dtb_name_len m base byte_location 0) (\<lambda>offset.
                  if offset > 0x7FFFFFFB then undef ''signed overflow''
                  else let offset = ((offset + 4) div 4) * 4
                       in dtb_parse base strings_offset limit (byte_location + offset + 4) (cur_loc + 48)
                            node_stack node_depth m)
           else if item_value = 2 then
             let node_stack = node_stack[node_depth := 0]
             in if node_depth = 0 then panic ''DTB_STACK_DEPTH_LESS_ZERO'' (ucast byte_location) 0 0
                else dtb_parse base strings_offset limit (byte_location + 4) cur_loc node_stack (node_depth - 1) m
           else if item_value = 4 then
             dtb_parse base strings_offset limit (byte_location + 4) cur_loc node_stack node_depth m
           else if item_value = 3 then
             let prop_size = dtb_read_int m (dtb_at base (byte_location + 4));
                 name_offset = dtb_read_int m (dtb_at base (byte_location + 8));
                 prop_name = dtb_at base (strings_offset + name_offset);
                 device = cur_loc;
                 m = dtb_property device prop_name (dtb_at base (byte_location + 12)) (ucast prop_size) m;
                 (node_stack, m) = dtb_link device node_stack node_depth m;
                 padded_len = ((prop_size + 3) div 4) * 4
             in dtb_parse base strings_offset limit (byte_location + (padded_len + 8) + 4) (cur_loc + 48)
                  node_stack node_depth m
           else if item_value = 9 then
             dtb_parse base strings_offset limit (byte_location + 4) cur_loc node_stack node_depth m
           else panic ''DTB_UNEXPECTED_CODE'' (ucast item_value) (ucast byte_location) 0
      else ret ((cur_loc, node_stack), m))"

definition dtb_set_dst :: "u64 \<Rightarrow> 'a devices_scheme \<Rightarrow> 'a devices_scheme" where
  "dtb_set_dst new_dtb s = s\<lparr>dtb := new_dtb\<rparr>"

text \<open>
  The result is \<open>response\<close>, first the root and then the end. \<open>node_stack\<close> holds what was on the stack
  before its first three entries are cleared. The test of \<open>&dtb\<close>, the address of a global, never
  succeeds.
\<close>

definition dtb_dump ::
  "u64 list \<Rightarrow> u64 \<Rightarrow> 'a devices_scheme \<Rightarrow> ((u64 \<times> u64) \<times> 'a devices_scheme) run" where
  "dtb_dump node_stack output_location s =
     bindr (uart_println_lit ''Parsing DTB'' s) (\<lambda>(_, s).
       let field = (\<lambda>i. dtb_read_int (kmem s) (dtb s + i));
           magic_header = field 0; struct_offset = field 8; strings_offset = field 12;
           version = field 20; comptaible_version = field 24; struct_size = field 36
       in if magic_header \<noteq> 0xD00DFEED then panic ''INCORRECT_DTB_MAGIC_HEADER'' (ucast comptaible_version) 0 0
          else if comptaible_version \<noteq> 16 then
            panic ''INCORRECT_DTB_VERSION'' (ucast comptaible_version) (ucast version) 0
          else
            let node_stack = node_stack[0 := 0, 1 := 0, 2 := 0]
            in bindr (dtb_parse (dtb s) strings_offset (struct_offset + struct_size) struct_offset
                        output_location node_stack 0 (kmem s)) (\<lambda>((cur_loc, node_stack), m).
                 if output_location = 0 then panic ''INVALID_DEVICE_TREE_DUMP_LOCATION'' 0 0 0
                 else ret ((node_stack ! 0, cur_loc), s\<lparr>kmem := m\<rparr>)))"

definition dtb_hart_cnt :: u64 where
  "dtb_hart_cnt = 1"

partial_function (option) prefix_get_child_from ::
  "mem \<Rightarrow> u64 \<Rightarrow> u64 \<Rightarrow> u32 \<Rightarrow> u32 \<Rightarrow> u64 run" where
  "prefix_get_child_from m cur_device pre iter_num iter_upto =
     (if cur_device \<noteq> 0 then
        bindr (str_starts_with (m (dev_name cur_device)) pre m) (\<lambda>found.
          if found then
            if iter_num = iter_upto then ret cur_device
            else prefix_get_child_from m (m (next_sibling cur_device)) pre iter_num (iter_upto + 1)
          else prefix_get_child_from m (m (next_sibling cur_device)) pre iter_num iter_upto)
      else ret 0)"

definition device_tree_prefix_get_child :: "u64 \<Rightarrow> u64 \<Rightarrow> u32 \<Rightarrow> mem \<Rightarrow> u64 run" where
  "device_tree_prefix_get_child device pre iter_num m =
     prefix_get_child_from m (m (first_child device)) pre iter_num 0"

section \<open>The device tree\<close>

text \<open>A 32-bit load from any address, little endian as RISC-V is.\<close>

definition ld32 :: "mem \<Rightarrow> u64 \<Rightarrow> u32" where
  "ld32 m a = load Little_Host (map (\<lambda>i. ld8 m (a + of_nat i)) [0..<4])"

text \<open>Reading the fields of a null root is left to the memory, as the code does not test it.\<close>

definition device_tree_init :: "u64 list \<Rightarrow> u64 \<Rightarrow> 'a devices_scheme \<Rightarrow> (unit \<times> 'a devices_scheme) run" where
  "device_tree_init node_stack kernel_end s =
     bindr (dtb_dump node_stack kernel_end s) (\<lambda>((root, end_loc), s).
     let s = s\<lparr>kernel_device_end := end_loc, root_device_node := root\<rparr>
     in bindr (uart_println_lit ''printing out devices'' s) (\<lambda>(_, s).
        bindr (device_tree_prefix_get_child (root_device_node s) (str_address_cells s) 0 (kmem s)) (\<lambda>address_cells_device.
        if address_cells_device = 0 then panic ''FAILED_TO_GET_ADDRESS_CELL_SIZE_INFO'' 0 0 0
        else bindr (device_tree_prefix_get_child (root_device_node s) (str_size_cells s) 0 (kmem s)) (\<lambda>cell_size_device.
        if cell_size_device = 0 then panic ''FAILED_TO_GET_ADDRESS_CELL_SIZE_INFO'' 0 0 0
        else
          let address_cells = big_endian_u32_to_host (endian_type s)
                (ld32 (kmem s) (kmem s (dev_value address_cells_device)));
              cell_size = big_endian_u32_to_host (endian_type s)
                (ld32 (kmem s) (kmem s (dev_value cell_size_device)))
          in if address_cells \<noteq> 2 then panic ''THE_ADDRESS_CELL_NOT_TWO'' (ucast address_cells) 0 0
             else if cell_size \<noteq> 2 then panic ''THE_CELL_SIZE_NOT_TWO'' (ucast cell_size) 0 0
             else ret ((), s)))))"

definition device_tree_ptr :: "'a devices_scheme \<Rightarrow> u64 run" where
  "device_tree_ptr s =
     (if kernel_device_end s = 0 then panic ''DEVICE_TREE_FETCHED_BUT_NOT_INIT'' 0 0 0
      else ret (root_device_node s))"

definition device_tree_end_ptr :: "'a devices_scheme \<Rightarrow> u64 run" where
  "device_tree_end_ptr s =
     (if kernel_device_end s = 0 then panic ''DEVICE_TREE_FETCHED_BUT_NOT_INIT'' 0 0 0
      else ret (kernel_device_end s))"

definition print_indent :: "u64 \<Rightarrow> 'a uart_scheme \<Rightarrow> (unit \<times> 'a uart_scheme) run" where
  "print_indent cur_depth s = for_each [0..<unat cur_depth] (\<lambda>_. uart_print_lit '' | '') s"

definition device_tree_print_leaf :: "u64 \<Rightarrow> u64 \<Rightarrow> 'a uart_scheme \<Rightarrow> (unit \<times> 'a uart_scheme) run" where
  "device_tree_print_leaf device cur_depth s =
     bindr (print_indent cur_depth s) (\<lambda>(_, s).
     bindr (uart_print_lit ''  ^ len : '' s) (\<lambda>(_, s).
     bindr (uart_println_u64 (kmem s (value_len device)) s) (\<lambda>(_, s).
     bindr (print_indent cur_depth s) (\<lambda>(_, s).
     bindr (uart_print_lit ''  ^ value : '' s) (\<lambda>(_, s).
     bindr (for_each [0..<unat (kmem s (value_len device))]
              (\<lambda>i s. uart_print_u8_hex (ld8 (kmem s) (kmem s (dev_value device) + of_nat i)) s) s) (\<lambda>(_, s).
       uart_println_lit '''' s))))))"

partial_function (option) device_tree_print_node ::
  "u64 \<Rightarrow> u64 \<Rightarrow> 'a uart_scheme \<Rightarrow> (unit \<times> 'a uart_scheme) run" where
  "device_tree_print_node device cur_depth s =
     bindr (print_indent cur_depth s) (\<lambda>(_, s).
     bindr (if ld8 (kmem s) (is_leaf device) = 1 then uart_print_lit ''- '' s else uart_print_lit ''> '' s) (\<lambda>(_, s).
     bindr (uart_println_str (kmem s (dev_name device)) s) (\<lambda>(_, s).
     bindr (if ld8 (kmem s) (is_leaf device) = 1 then device_tree_print_leaf device cur_depth s else ret ((), s)) (\<lambda>(_, s).
     bindr (if kmem s (first_child device) \<noteq> 0
            then device_tree_print_node (kmem s (first_child device)) (cur_depth + 1) s else ret ((), s)) (\<lambda>(_, s).
       if kmem s (next_sibling device) \<noteq> 0
       then device_tree_print_node (kmem s (next_sibling device)) cur_depth s else ret ((), s))))))"

definition device_tree_print :: "'a devices_scheme \<Rightarrow> (unit \<times> 'a devices_scheme) run" where
  "device_tree_print s =
     bindr (device_tree_ptr s) (\<lambda>root_device. device_tree_print_node (root_device_node s) 0 s)"

end
