(* ===== verification/Device_Parse.thy ===== *)
theory Device_Parse
  imports Device_Tree
begin

text \<open>
  What the parser of the device tree does. A tree is a value of type \<open>dt\<close>: a sequence of nodes, with a
  name and children, and properties, with a name and a value, as the device tree specification has
  them; \<open>enc\<close> is its structure block. The lemmas follow the loop along the encoding (\<open>parses_node\<close>,
  \<open>parses_prop\<close>, \<open>parses_nop\<close>): the devices are laid out in the order of the tags, each linked into its
  older sibling or its parent. The result is a linked tree in memory that denotes the encoded one
  (\<open>dev_forest\<close>), on which a lookup by a prefix of the name finds the child it should.
\<close>

section \<open>Bytes\<close>

definition be32 :: "u32 \<Rightarrow> u8 list" where
  "be32 w = [ucast (drop_bit 24 w), ucast (drop_bit 16 w), ucast (drop_bit 8 w), ucast w]"

definition holds :: "mem \<Rightarrow> u64 \<Rightarrow> u8 list \<Rightarrow> bool" where
  "holds m a bs \<longleftrightarrow> (\<forall>i<length bs. ld8 m (a + of_nat i) = bs ! i)"

lemma holds_simps [simp]:
  "holds m a []" "holds m a (b # bs) \<longleftrightarrow> ld8 m a = b \<and> holds m (a + 1) bs"
  by (auto simp: holds_def less_Suc_eq_0_disj algebra_simps)

lemma holds_append [simp]:
  "holds m a (xs @ ys) \<longleftrightarrow> holds m a xs \<and> holds m (a + of_nat (length xs)) ys"
  by (induction xs arbitrary: a) (simp_all add: algebra_simps)

lemma length_be32 [simp]: "length (be32 w) = 4"
  by (simp add: be32_def)

lemma read_be32: "holds m a (be32 w) \<Longrightarrow> dtb_read_int m a = w"
proof -
  assume "holds m a (be32 w)"
  then have e: "dtb_read_int m a = push_bit 24 (ucast (ucast (drop_bit 24 w) :: u8)) OR
      push_bit 16 (ucast (ucast (drop_bit 16 w) :: u8)) OR push_bit 8 (ucast (ucast (drop_bit 8 w) :: u8)) OR
      ucast (ucast w :: u8)"
    by (simp add: dtb_read_int_def be32_def algebra_simps)
  have "bit (dtb_read_int m a) n = bit w n" if "n < 32" for n
  proof -
    consider "n < 8" | "8 \<le> n" "n < 16" | "16 \<le> n" "n < 24" | "24 \<le> n" using that by linarith
    then show ?thesis
      by cases (use that in \<open>simp add: e bit_or_iff bit_push_bit_iff bit_unsigned_iff bit_drop_bit_eq, linarith?\<close>)+
  qed
  then show ?thesis by (intro bit_word_eqI) simp
qed

lemma holds_frame:
  assumes "holds m a bs" and "\<And>x. x \<notin> W \<Longrightarrow> m' x = m x" and "\<And>i. i < length bs \<Longrightarrow> cell_of (a + of_nat i) \<notin> W"
  shows "holds m' a bs"
  using assms by (simp add: holds_def ld8_def)

lemma holds_cstr: "holds m a (cs @ [0]) \<Longrightarrow> 0 \<notin> set cs \<Longrightarrow> cstr m a cs"
  by (induction cs arbitrary: a) auto

section \<open>Device trees\<close>

datatype dt = DEnd | DNop dt | DNode "u8 list" dt dt | DProp u32 "u8 list" "u8 list" dt

definition padded :: "nat \<Rightarrow> nat" where
  "padded n = (n + 3) div 4 * 4"

definition pad4 :: "u8 list \<Rightarrow> u8 list" where
  "pad4 bs = bs @ replicate (padded (length bs) - length bs) 0"

fun enc :: "dt \<Rightarrow> u8 list" where
  "enc DEnd = []"
| "enc (DNop r) = be32 4 @ enc r"
| "enc (DNode nm c r) = be32 1 @ pad4 (nm @ [0]) @ enc c @ be32 2 @ enc r"
| "enc (DProp off nm v r) = be32 3 @ be32 (of_nat (length v)) @ be32 off @ pad4 v @ enc r"

fun dev_cnt :: "dt \<Rightarrow> nat" where
  "dev_cnt DEnd = 0"
| "dev_cnt (DNop r) = dev_cnt r"
| "dev_cnt (DNode nm c r) = 1 + dev_cnt c + dev_cnt r"
| "dev_cnt (DProp off nm v r) = 1 + dev_cnt r"

fun dt_height :: "dt \<Rightarrow> nat" where
  "dt_height DEnd = 0"
| "dt_height (DNop r) = dt_height r"
| "dt_height (DNode nm c r) = max (1 + dt_height c) (dt_height r)"
| "dt_height (DProp off nm v r) = dt_height r"

fun dt_names :: "dt \<Rightarrow> bool" where
  "dt_names DEnd = True"
| "dt_names (DNop r) = dt_names r"
| "dt_names (DNode nm c r) \<longleftrightarrow> 0 \<notin> set nm \<and> length nm < 2 ^ 31 - 4 \<and> dt_names c \<and> dt_names r"
| "dt_names (DProp off nm v r) \<longleftrightarrow> dt_names r"

lemma padded_ge: "n \<le> padded n"
  unfolding padded_def by presburger

lemma length_pad4 [simp]: "length (pad4 bs) = padded (length bs)"
  using padded_ge [of "length bs"] by (simp add: pad4_def)

section \<open>Devices in memory\<close>

definition fld :: "u64 \<Rightarrow> nat \<Rightarrow> nat \<Rightarrow> u64" where
  "fld out i f = out + 8 * of_nat (6 * i + f)"

definition dev :: "u64 \<Rightarrow> nat \<Rightarrow> u64" where
  "dev out i = out + 48 * of_nat i"

lemma dev_fld: "dev out i = fld out i 0" "fld out i 0 + 8 = fld out i 1" "fld out i 0 + 16 = fld out i 2"
  "fld out i 0 + 24 = fld out i 3" "fld out i 0 + 32 = fld out i 4" "fld out i 0 + 40 = fld out i 5"
  by (simp_all add: fld_def dev_def algebra_simps)

lemma dev_Suc: "dev out i + 48 = dev out (Suc i)"
  by (simp add: dev_def algebra_simps)

definition dev_room :: "u64 \<Rightarrow> nat \<Rightarrow> bool" where
  "dev_room out N \<longleftrightarrow> out \<noteq> 0 \<and> unat out mod 8 = 0 \<and> unat out + 48 * N \<le> 2 ^ 64"

lemma unat_fld:
  assumes "dev_room out N" and "i < N" and "f < 6"
  shows "unat (fld out i f) = unat out + 8 * (6 * i + f)"
proof -
  have lt: "unat out + 8 * (6 * i + f) < 2 ^ 64" using assms by (simp add: dev_room_def)
  then have "unat (8 * of_nat (6 * i + f) :: u64) = 8 * (6 * i + f)"
    using unat_small [of "8 * (6 * i + f)"] by simp
  then show ?thesis using lt unfolding fld_def by (subst unat_plus_if_size) (simp add: word_size)
qed

lemma fld_eq:
  assumes r: "dev_room out N" and i: "i < N" "f < 6" and j: "j < N" "g < 6"
  shows "fld out i f = fld out j g \<longleftrightarrow> i = j \<and> f = g"
proof
  assume "fld out i f = fld out j g"
  then have "6 * i + f = 6 * j + g" using unat_fld [OF r i] unat_fld [OF r j] by simp
  then have "(6 * i + f) div 6 = (6 * j + g) div 6" "(6 * i + f) mod 6 = (6 * j + g) mod 6" by simp_all
  then show "i = j \<and> f = g" using i(2) j(2) by simp
qed simp

lemma fld_nonzero: "dev_room out N \<Longrightarrow> i < N \<Longrightarrow> f < 6 \<Longrightarrow> fld out i f \<noteq> 0"
  using unat_fld [of out N i f] by (auto simp: dev_room_def unat_eq_0)

lemma cell_of_fld: "dev_room out N \<Longrightarrow> i < N \<Longrightarrow> f < 6 \<Longrightarrow> cell_of (fld out i f) = fld out i f"
proof -
  assume a: "dev_room out N" "i < N" "f < 6"
  then have "unat (fld out i f) mod 8 = 0" unfolding unat_fld [OF a] using a(1) by (simp only: dev_room_def mod_mult_self2)
  then show ?thesis by (metis add.right_neutral mult_div_mod_eq unat_cell_of word_unat_eq_iff)
qed

definition devs :: "u64 \<Rightarrow> nat \<Rightarrow> nat \<Rightarrow> u64 set" where
  "devs out i n = {fld out j f | j f. i \<le> j \<and> j < n \<and> f < 6}"

lemma in_devs: "dev_room out N \<Longrightarrow> j < N \<Longrightarrow> f < 6 \<Longrightarrow> n \<le> N \<Longrightarrow> fld out j f \<in> devs out i n \<longleftrightarrow> i \<le> j \<and> j < n"
proof -
  assume a: "dev_room out N" "j < N" "f < 6" "n \<le> N"
  have "fld out j f = fld out k g \<longleftrightarrow> j = k \<and> f = g" if "k < n" "g < 6" for k g
    using fld_eq [OF a(1-3)] that a(4) by simp
  then show ?thesis using a(3) by (auto simp: devs_def)
qed

definition first_dev :: "u64 \<Rightarrow> nat \<Rightarrow> dt \<Rightarrow> u64" where
  "first_dev out i t = (if dev_cnt t = 0 then 0 else dev out i)"

fun placed :: "mem \<Rightarrow> u64 \<Rightarrow> u32 \<Rightarrow> u64 \<Rightarrow> nat \<Rightarrow> nat \<Rightarrow> dt \<Rightarrow> bool" where
  "placed m base so out pos i DEnd \<longleftrightarrow> True"
| "placed m base so out pos i (DNop r) \<longleftrightarrow> placed m base so out (pos + 4) i r"
| "placed m base so out pos i (DNode nm c r) \<longleftrightarrow>
     m (fld out i 0) = first_dev out (Suc i) c \<and> m (fld out i 1) = first_dev out (Suc i + dev_cnt c) r
     \<and> m (fld out i 2) = base + of_nat (pos + 4) \<and> ld8 m (fld out i 3) = 0
     \<and> placed m base so out (pos + 4 + padded (length nm + 1)) (Suc i) c
     \<and> placed m base so out (pos + 4 + padded (length nm + 1) + length (enc c) + 4) (Suc i + dev_cnt c) r"
| "placed m base so out pos i (DProp off nm v r) \<longleftrightarrow>
     m (fld out i 0) = 0 \<and> m (fld out i 1) = first_dev out (Suc i) r
     \<and> m (fld out i 2) = dtb_at base (so + off) \<and> ld8 m (fld out i 3) = 1
     \<and> m (fld out i 4) = base + of_nat (pos + 12) \<and> m (fld out i 5) = of_nat (length v)
     \<and> placed m base so out (pos + 12 + padded (length v)) (Suc i) r"

lemma placed_frame:
  assumes "placed m base so out pos i t" and "dev_room out N" and "i + dev_cnt t \<le> N"
    and "\<And>j f. i \<le> j \<Longrightarrow> j < i + dev_cnt t \<Longrightarrow> f < 6 \<Longrightarrow> m' (fld out j f) = m (fld out j f)"
  shows "placed m' base so out pos i t"
  using assms
proof (induction t arbitrary: pos i)
  case (DNode nm c r)
  have "ld8 m' (fld out i 3) = ld8 m (fld out i 3)"
    unfolding ld8_def using DNode.prems(4) [of i 3] cell_of_fld [OF DNode.prems(2), of i 3] DNode.prems(3) by simp
  then show ?case using DNode by simp
next
  case (DProp off nm v r)
  have "ld8 m' (fld out i 3) = ld8 m (fld out i 3)"
    unfolding ld8_def using DProp.prems(4) [of i 3] cell_of_fld [OF DProp.prems(2), of i 3] DProp.prems(3) by simp
  then show ?case using DProp by simp
qed simp_all

section \<open>Parsing\<close>

lemma dtb_at_of_nat: "p < 2 ^ 32 \<Longrightarrow> dtb_at base (of_nat p) = base + of_nat p"
  by (simp add: dtb_at_def unsigned_of_nat take_bit_nat_eq_self)

lemma u32_div4: "n + 4 < 2 ^ 32 \<Longrightarrow> (of_nat n + 3) div 4 * 4 = (of_nat (padded n) :: u32)"
proof -
  assume n: "n + 4 < 2 ^ 32"
  have "unat (of_nat (n + 3) :: u32) = n + 3" using n by (simp only: unat_of_nat) simp
  then have "unat ((of_nat (n + 3) :: u32) div 4) = (n + 3) div 4" by (simp only: unat_div) simp
  then have "(of_nat (n + 3) :: u32) div 4 = of_nat ((n + 3) div 4)" using n by (simp add: word_unat_eq_iff unat_of_nat)
  then show ?thesis by (simp add: padded_def)
qed

lemma holdsD: "holds m a bs \<Longrightarrow> i < length bs \<Longrightarrow> ld8 m (a + of_nat i) = bs ! i"
  by (simp add: holds_def)

lemma name_len:
  assumes "holds m (base + of_nat (pos + 4)) (nm @ [0])" and "0 \<notin> set nm" and "pos + 4 + length nm < 2 ^ 32"
    and "length nm < 2 ^ 31" and "k \<le> length nm"
  shows "dtb_name_len m base (of_nat pos) (of_nat k) = ret (of_nat (length nm))"
  using assms(5)
proof (induction "length nm - k" arbitrary: k)
  case 0
  have c: "ld8 m (base + of_nat (pos + 4 + k)) = (nm @ [0]) ! k"
    using assms(1) 0 by (simp add: holds_def algebra_simps)
  have "dtb_at base (of_nat pos + of_nat k + 4) = base + of_nat (pos + 4 + k)"
    using dtb_at_of_nat [of "pos + 4 + k" base] 0 assms(3) by (simp add: algebra_simps)
  moreover have "k = length nm" using 0 by simp
  ultimately show ?case using c by (subst dtb_name_len.simps) simp
next
  case (Suc n)
  then have k: "k < length nm" by simp
  have c: "ld8 m (base + of_nat (pos + 4 + k)) = (nm @ [0]) ! k"
    using holdsD [OF assms(1), of k] k by (simp add: algebra_simps)
  have "dtb_at base (of_nat pos + of_nat k + 4) = base + of_nat (pos + 4 + k)"
    using dtb_at_of_nat [of "pos + 4 + k" base] k assms(3) by (simp add: algebra_simps)
  moreover have "(nm @ [0]) ! k \<noteq> 0" using assms(2) k unfolding nth_append by (metis nth_mem)
  moreover have "(of_nat k :: u32) \<noteq> 0x7FFFFFFF"
  proof
    assume "(of_nat k :: u32) = 0x7FFFFFFF"
    then have "unat (of_nat k :: u32) = 0x7FFFFFFF" by simp
    then show False using k assms(4) by (simp add: unat_of_nat)
  qed
  moreover have "dtb_name_len m base (of_nat pos) (of_nat (Suc k)) = ret (of_nat (length nm))"
    using Suc.hyps(1) [of "Suc k"] Suc.hyps(2) k by simp
  ultimately show ?case using c by (subst dtb_name_len.simps) (simp add: add.commute)
qed

lemma token:
  assumes "pos < lim" and "lim < 2 ^ 32"
  shows "(of_nat pos :: u32) < of_nat lim" and "holds m (base + of_nat pos) (be32 w) \<Longrightarrow> dtb_read_int m (dtb_at base (of_nat pos)) = w"
  using assms by (simp_all add: word_less_nat_alt unat_of_nat dtb_at_of_nat read_be32)

lemma parse_skip:
  assumes "pos < lim" and "lim < 2 ^ 32" and "holds m (base + of_nat pos) (be32 w)" and "w = 4 \<or> w = 9"
  shows "dtb_parse base so (of_nat lim) (of_nat pos) cur stk d m = dtb_parse base so (of_nat lim) (of_nat (pos + 4)) cur stk d m"
proof -
  have "of_nat pos + 4 = (of_nat (pos + 4) :: u32)" by simp
  then show ?thesis using token(1) [OF assms(1,2)] token(2) [OF assms(1,2,3)] assms(4)
    by (subst dtb_parse.simps) (elim disjE; simp del: of_nat_add)
qed

lemma parse_end:
  assumes "pos < lim" and "lim < 2 ^ 32" and "holds m (base + of_nat pos) (be32 2)"
  shows "dtb_parse base so (of_nat lim) (of_nat pos) cur stk (Suc d) m =
    dtb_parse base so (of_nat lim) (of_nat (pos + 4)) cur (stk[Suc d := 0]) d m"
proof -
  have "of_nat pos + 4 = (of_nat (pos + 4) :: u32)" by simp
  then show ?thesis using token(1) [OF assms(1,2)] token(2) [OF assms]
    by (subst dtb_parse.simps) (simp del: of_nat_add)
qed

lemma parse_node:
  assumes pos: "pos + 4 + padded (length nm + 1) \<le> lim" "lim < 2 ^ 32" and d: "Suc d < 14"
    and b: "holds m (base + of_nat pos) (be32 1)"
    and l: "dtb_link cur stk d (dtb_node cur (base + of_nat (pos + 4)) m) = (stk1, m1)"
    and nm: "holds m1 (base + of_nat (pos + 4)) (nm @ [0])" "0 \<notin> set nm" "length nm < 2 ^ 31 - 4"
  shows "dtb_parse base so (of_nat lim) (of_nat pos) cur stk d m =
    dtb_parse base so (of_nat lim) (of_nat (pos + 4 + padded (length nm + 1))) (cur + 48) stk1 (Suc d) m1"
proof -
  have p: "pos < lim" "pos + 4 < 2 ^ 32" using pos by simp_all
  have q: "pos + 4 + length nm < 2 ^ 32" using pos padded_ge [of "length nm + 1"] by linarith
  have a: "dtb_at base (of_nat pos + 4) = base + of_nat (pos + 4)" using dtb_at_of_nat [OF p(2), of base] by (simp add: add.commute)
  have n: "dtb_name_len m1 base (of_nat pos) 0 = ret (of_nat (length nm))"
    using name_len [OF nm(1,2) q, of 0] nm(3) by simp
  have ge: "\<not> 0x7FFFFFFB < (of_nat (length nm) :: u32)" using nm(3) by (simp add: word_less_nat_alt unat_of_nat)
  have "length nm + 1 + 4 < 2 ^ 32" using nm(3) by simp
  from u32_div4 [OF this] have o: "(of_nat (length nm) + 4) div 4 * 4 = (of_nat (padded (length nm + 1)) :: u32)" by (simp add: add.commute)
  define k where "k = padded (length nm + 1)"
  have e: "of_nat pos + of_nat k + 4 = (of_nat (pos + 4 + k) :: u32)" by simp
  show ?thesis unfolding k_def [symmetric]
    using token(1) [OF p(1) pos(2)] token(2) [OF p(1) pos(2) b] d
    by (subst dtb_parse.simps) (simp add: a l n ge o [folded k_def] e Let_def del: of_nat_add)
qed

lemma parse_prop:
  assumes pos: "pos + 12 + padded (length v) \<le> lim" "lim < 2 ^ 32"
    and b: "holds m (base + of_nat pos) (be32 3 @ be32 (of_nat (length v)) @ be32 off)"
    and l: "dtb_link cur stk d (dtb_property cur (dtb_at base (so + off)) (base + of_nat (pos + 12)) (of_nat (length v)) m) = (stk1, m1)"
  shows "dtb_parse base so (of_nat lim) (of_nat pos) cur stk d m =
    dtb_parse base so (of_nat lim) (of_nat (pos + 12 + padded (length v))) (cur + 48) stk1 d m1"
proof -
  have p: "pos < lim" "pos + 4 < lim" "pos + 8 < lim" "pos + 12 < 2 ^ 32" using pos by simp_all
  have v: "length v + 4 < 2 ^ 32" using pos padded_ge [of "length v"] by linarith
  have b': "holds m (base + of_nat pos) (be32 3)" "holds m (base + of_nat (pos + 4)) (be32 (of_nat (length v)))"
    "holds m (base + of_nat (pos + 8)) (be32 off)"
    using b by (simp_all add: algebra_simps)
  note t = token(2) [OF p(1) pos(2) b'(1)] token(2) [OF p(2) pos(2) b'(2)] token(2) [OF p(3) pos(2) b'(3)]
  have a: "dtb_at base (of_nat pos + 12) = base + of_nat (pos + 12)" using dtb_at_of_nat [OF p(4), of base] by (simp add: add.commute)
  have u: "(ucast (of_nat (length v) :: u32) :: u64) = of_nat (length v)" using v by (simp add: unsigned_of_nat take_bit_nat_eq_self)
  have c: "of_nat pos + 4 = (of_nat (pos + 4) :: u32)" "of_nat pos + 8 = (of_nat (pos + 8) :: u32)" by simp_all
  have e: "12 + (of_nat pos + of_nat (padded (length v))) = (of_nat (pos + 12 + padded (length v)) :: u32)" by simp
  show ?thesis
    using token(1) [OF p(1) pos(2)]
    by (subst dtb_parse.simps) (simp add: t c a u l u32_div4 [OF v] Let_def del: of_nat_add, simp only: e)
qed

text \<open>The words of other devices that a new device is hooked into.\<close>

definition hooked :: "u64 \<Rightarrow> u64 \<Rightarrow> u64 \<Rightarrow> mem \<Rightarrow> mem" where
  "hooked node prev par m x = (if prev \<noteq> 0 \<and> x = prev + 8 \<or> x = par \<and> m par = 0 then node else m x)"

lemma dtb_link_hooked:
  assumes "0 < d" and "stk ! d \<noteq> 0 \<Longrightarrow> stk ! d + 8 \<noteq> stk ! (d - 1)"
  shows "dtb_link node stk d m = (stk[d := node], hooked node (stk ! d) (stk ! (d - 1)) m)"
  using assms by (auto simp: dtb_link_def hooked_def Let_def fun_eq_iff)

definition fresh_at :: "u64 \<Rightarrow> nat \<Rightarrow> u64 \<Rightarrow> mem \<Rightarrow> mem \<Rightarrow> bool" where
  "fresh_at out i name m m' \<longleftrightarrow> m' (fld out i 0) = 0 \<and> m' (fld out i 1) = 0 \<and> m' (fld out i 2) = name
     \<and> (\<forall>x. x \<notin> devs out i (Suc i) \<longrightarrow> m' x = m x)"

lemma devs_one: "devs out i (Suc i) = {fld out i f | f. f < 6}"
  by (auto simp: devs_def less_Suc_eq_le le_antisym)

lemma not_devs_one: "x \<notin> devs out i (Suc i) \<Longrightarrow> f < 6 \<Longrightarrow> x \<noteq> fld out i f"
  by (auto simp: devs_one)

lemma dtb_node_fresh:
  assumes "dev_room out N" and "i < N"
  shows "fresh_at out i name m (dtb_node (dev out i) name m)" and "ld8 (dtb_node (dev out i) name m) (fld out i 3) = 0"
proof -
  note f = fld_eq [OF assms(1,2) _ assms(2)] cell_of_fld [OF assms]
  show "fresh_at out i name m (dtb_node (dev out i) name m)"
    unfolding fresh_at_def dtb_node_def dev_fld Let_def
    by (auto simp: f st8_other_cell not_devs_one)
  have "ld8 (dtb_node (dev out i) name m) (fld out i 3) = ld8 (st8 (m(fld out i 2 := name)) (fld out i 3) 0) (fld out i 3)"
    unfolding dtb_node_def dev_fld Let_def ld8_def by (simp add: f)
  then show "ld8 (dtb_node (dev out i) name m) (fld out i 3) = 0" by (simp add: ld8_st8)
qed

lemma dtb_property_fresh:
  fixes m :: mem and name val len :: u64
  assumes "dev_room out N" and "i < N"
  defines "m' \<equiv> dtb_property (dev out i) name val len m"
  shows "fresh_at out i name m m'" and "ld8 m' (fld out i 3) = 1" and "m' (fld out i 4) = val" and "m' (fld out i 5) = len"
proof -
  note f = fld_eq [OF assms(1,2) _ assms(2)] cell_of_fld [OF assms(1,2)]
  show "fresh_at out i name m m'"
    unfolding fresh_at_def m'_def dtb_property_def dev_fld Let_def
    by (auto simp: f st8_other_cell not_devs_one)
  show "m' (fld out i 4) = val" "m' (fld out i 5) = len"
    unfolding m'_def dtb_property_def dev_fld Let_def by (simp_all add: f)
  have "ld8 m' (fld out i 3) = ld8 (st8 m (fld out i 3) 1) (fld out i 3)"
    unfolding m'_def dtb_property_def dev_fld Let_def ld8_def by (simp add: f)
  then show "ld8 m' (fld out i 3) = 1" by (simp add: ld8_st8)
qed

text \<open>The stack while the devices below an open node are read.\<close>

definition stack_ok :: "nat \<Rightarrow> u64 \<Rightarrow> nat \<Rightarrow> nat \<Rightarrow> u64 list \<Rightarrow> bool" where
  "stack_ok H out i d stk \<longleftrightarrow> 0 < d \<and> d \<le> H \<and> H < 14 \<and> length stk = 16 \<and> (\<forall>e\<le>H. d < e \<longrightarrow> stk ! e = 0)
     \<and> (stk ! d = 0 \<or> (\<exists>j<i. stk ! d = dev out j)) \<and> (\<exists>k<i. stk ! (d - 1) = dev out k)"

text \<open>A new device, linked.\<close>

lemma hook_in:
  assumes st: "stack_ok H out i d stk" and r: "dev_room out N" and i: "i < N"
    and fr: "fresh_at out i name m m0"
  defines "m1 \<equiv> hooked (dev out i) (stk ! d) (stk ! (d - 1)) m0"
  shows "dtb_link (dev out i) stk d m0 = (stk[d := dev out i], m1)"
    and "f < 6 \<Longrightarrow> m1 (fld out i f) = m0 (fld out i f)"
    and "x \<notin> devs out i (Suc i) \<Longrightarrow> m1 x = hooked (dev out i) (stk ! d) (stk ! (d - 1)) m x"
    and "m1 (stk ! (d - 1)) \<noteq> 0" and "x \<notin> devs out 0 (Suc i) \<Longrightarrow> m1 x = m x"
proof -
  obtain k where k: "k < i" "stk ! (d - 1) = dev out k" using st by (auto simp: stack_ok_def)
  have p: "stk ! d = 0 \<or> (\<exists>j<i. stk ! d = dev out j)" using st by (simp add: stack_ok_def)
  note f = fld_eq [OF r] in_devs [OF r] fld_nonzero [OF r]
  have ne: "stk ! d + 8 \<noteq> stk ! (d - 1)" if "stk ! d \<noteq> 0" using p that k i by (auto simp: dev_fld f)
  have d0: "0 < d" using st by (simp add: stack_ok_def)
  show "dtb_link (dev out i) stk d m0 = (stk[d := dev out i], m1)" unfolding m1_def by (rule dtb_link_hooked [OF d0 ne])
  show "m1 (fld out i f) = m0 (fld out i f)" if "f < 6" using p k i that by (auto simp: m1_def hooked_def dev_fld f)
  have par: "stk ! (d - 1) \<notin> devs out i (Suc i)" using k i by (simp add: dev_fld f)
  then have m0: "m0 (stk ! (d - 1)) = m (stk ! (d - 1))" using fr by (simp add: fresh_at_def)
  then show "m1 x = hooked (dev out i) (stk ! d) (stk ! (d - 1)) m x" if "x \<notin> devs out i (Suc i)"
    using fr that by (simp add: m1_def hooked_def fresh_at_def)
  show "m1 (stk ! (d - 1)) \<noteq> 0" using i by (simp add: m1_def hooked_def dev_fld f)
  show "m1 x = m x" if x: "x \<notin> devs out 0 (Suc i)"
  proof -
    have sub: "x \<notin> devs out i (Suc i)" using x by (auto simp: devs_def)
    have "x \<noteq> stk ! (d - 1)" using x k i by (auto simp: dev_fld f)
    moreover have "x \<noteq> stk ! d + 8" if "stk ! d \<noteq> 0" using p that x i by (auto simp: dev_fld f)
    ultimately show ?thesis using fr sub by (auto simp: m1_def hooked_def fresh_at_def)
  qed
qed

lemma stack_ok_next:
  assumes "stack_ok H out i d stk" and "length stk' = 16" and "\<forall>e<16. e \<noteq> d \<longrightarrow> stk' ! e = stk ! e" and "i \<le> n"
    and "stk' ! d = dev out j" and "j < n"
  shows "stack_ok H out n d stk'"
  using assms unfolding stack_ok_def by (auto intro: less_le_trans)

lemma stack_ok_open:
  assumes "stack_ok H out i d stk" and "Suc d \<le> H"
  shows "stack_ok H out (Suc i) (Suc d) (stk[d := dev out i])"
  using assms unfolding stack_ok_def by (auto simp: nth_list_update)

lemma devs_mono: "i \<le> i' \<Longrightarrow> n' \<le> n \<Longrightarrow> devs out i' n' \<subseteq> devs out i n"
  unfolding devs_def by fastforce

lemma devs_cells: "devs out 0 N = cells out (6 * N)"
proof (intro equalityI subsetI)
  fix x assume "x \<in> devs out 0 N"
  then obtain j f where x: "x = fld out j f" "j < N" "f < 6" by (auto simp: devs_def)
  then have "6 * j + f < 6 * N" by linarith
  then show "x \<in> cells out (6 * N)" unfolding x(1) fld_def cells_def by blast
next
  fix x assume "x \<in> cells out (6 * N)"
  then obtain k where k: "x = out + 8 * of_nat k" "k < 6 * N" by (auto simp: cells_def)
  then have "x = fld out (k div 6) (k mod 6)" "k div 6 < N" by (simp_all add: fld_def div_less_iff_less_mult mult.commute)
  then show "x \<in> devs out 0 N" unfolding devs_def by force
qed

text \<open>The blob lies outside the devices.\<close>

definition blob_apart :: "u64 \<Rightarrow> nat \<Rightarrow> u64 \<Rightarrow> nat \<Rightarrow> bool" where
  "blob_apart out N base len \<longleftrightarrow> (\<forall>p<len. cell_of (base + of_nat p) \<notin> cells out (6 * N))"

lemma holds_blob:
  assumes "holds m (base + of_nat p) bs" and "blob_apart out N base len" and "p + length bs \<le> len"
    and "\<And>x. x \<notin> devs out 0 N \<Longrightarrow> m' x = m x"
  shows "holds m' (base + of_nat p) bs"
proof (rule holds_frame [OF assms(1,4)])
  fix i assume "i < length bs"
  then have "p + i < len" using assms(3) by simp
  then have "cell_of (base + of_nat (p + i)) \<notin> devs out 0 N" using assms(2) by (simp add: blob_apart_def devs_cells del: of_nat_add)
  then show "cell_of (base + of_nat p + of_nat i) \<notin> devs out 0 N" by (simp add: add.assoc)
qed

definition parsed where
  "parsed base so lim out N pos i d t stk m stk' m' \<longleftrightarrow>
     dtb_parse base so (of_nat lim) (of_nat pos) (dev out i) stk d m
       = dtb_parse base so (of_nat lim) (of_nat (pos + length (enc t))) (dev out (i + dev_cnt t)) stk' d m'
     \<and> length stk' = 16 \<and> (\<forall>e<16. e \<noteq> d \<longrightarrow> stk' ! e = stk ! e)
     \<and> placed m' base so out pos i t
     \<and> (\<forall>x. x \<notin> devs out i (i + dev_cnt t) \<longrightarrow>
          m' x = (if dev_cnt t = 0 then m x else hooked (dev out i) (stk ! d) (stk ! (d - 1)) m x))"

text \<open>The devices behind a device and its children.\<close>

lemma rest_frame:
  assumes r: "dev_room out N" and st: "stack_ok H out i d stk" and n: "i < n" "n + dev_cnt t \<le> N"
    and stkH: "stkH ! d = dev out i" "stkH ! (d - 1) = stk ! (d - 1)"
    and mH: "mH (stk ! (d - 1)) \<noteq> 0" "mH (fld out i 1) = 0"
      "\<And>x. x \<notin> devs out i n \<Longrightarrow> mH x = hooked (dev out i) (stk ! d) (stk ! (d - 1)) m x"
    and p: "parsed base so lim out N pos n d t stkH mH stk2 m2"
  shows "x \<notin> devs out i (n + dev_cnt t) \<Longrightarrow> m2 x = hooked (dev out i) (stk ! d) (stk ! (d - 1)) m x"
    and "i \<le> j \<Longrightarrow> j < n \<Longrightarrow> f < 6 \<Longrightarrow> (j, f) \<noteq> (i, 1) \<Longrightarrow> m2 (fld out j f) = mH (fld out j f)"
    and "m2 (fld out i 1) = first_dev out n t"
proof -
  obtain k where k: "k < i" "stk ! (d - 1) = dev out k" using st by (auto simp: stack_ok_def)
  note f = fld_eq [OF r] in_devs [OF r] fld_nonzero [OF r]
  have m2: "m2 x = (if dev_cnt t \<noteq> 0 \<and> x = fld out i 1 then dev out n else mH x)" if "x \<notin> devs out n (n + dev_cnt t)" for x
    using p that mH(1) stkH n k unfolding parsed_def by (simp add: hooked_def dev_fld f)
  show "m2 x = hooked (dev out i) (stk ! d) (stk ! (d - 1)) m x" if x: "x \<notin> devs out i (n + dev_cnt t)"
  proof -
    have "x \<notin> devs out n (n + dev_cnt t)" "x \<notin> devs out i n" "x \<noteq> fld out i 1"
      using x n devs_mono [of i n "n + dev_cnt t" "n + dev_cnt t" out] devs_mono [of i i n "n + dev_cnt t" out]
      by (auto simp: f)
    then show ?thesis using m2 mH(3) by simp
  qed
  show "m2 (fld out j f) = mH (fld out j f)" if "i \<le> j" "j < n" "f < 6" "(j, f) \<noteq> (i, 1)"
    using m2 [of "fld out j f"] that n by (auto simp: f)
  show "m2 (fld out i 1) = first_dev out n t"
    using m2 [of "fld out i 1"] mH(2) n by (simp add: f first_dev_def)
qed

lemma children_frame:
  assumes r: "dev_room out N" and n: "Suc i + dev_cnt c \<le> N" and stk: "stk ! Suc d = 0" "stk ! d = dev out i"
    and z: "m (fld out i 0) = 0" and p: "parsed base so lim out N pos (Suc i) (Suc d) c stk m stk' m'"
  shows "x \<notin> devs out (Suc i) (Suc i + dev_cnt c) \<Longrightarrow> x \<noteq> fld out i 0 \<Longrightarrow> m' x = m x"
    and "m' (fld out i 0) = first_dev out (Suc i) c"
proof -
  note f = fld_eq [OF r] in_devs [OF r]
  have m': "m' x = (if dev_cnt c \<noteq> 0 \<and> x = fld out i 0 then dev out (Suc i) else m x)"
    if "x \<notin> devs out (Suc i) (Suc i + dev_cnt c)" for x
    using p that stk z unfolding parsed_def by (simp add: hooked_def dev_fld)
  show "m' x = m x" if "x \<notin> devs out (Suc i) (Suc i + dev_cnt c)" "x \<noteq> fld out i 0" using m' [OF that(1)] that(2) by simp
  show "m' (fld out i 0) = first_dev out (Suc i) c" using m' [of "fld out i 0"] n z by (simp add: f first_dev_def)
qed

text \<open>The loop reads the encoding of a forest at every depth from which its nodes do not reach the limit.\<close>

definition parses :: "u64 \<Rightarrow> u32 \<Rightarrow> nat \<Rightarrow> u64 \<Rightarrow> nat \<Rightarrow> nat \<Rightarrow> dt \<Rightarrow> bool" where
  "parses base so lim out N H t \<longleftrightarrow> (\<forall>pos i d stk m. holds m (base + of_nat pos) (enc t) \<longrightarrow> pos + length (enc t) \<le> lim
     \<longrightarrow> i + dev_cnt t \<le> N \<longrightarrow> d + dt_height t \<le> H \<longrightarrow> stack_ok H out i d stk
     \<longrightarrow> (\<exists>stk' m'. parsed base so lim out N pos i d t stk m stk' m'))"

lemma parsesD:
  assumes "parses base so lim out N H t" and "holds m (base + of_nat pos) (enc t)" and "pos + length (enc t) \<le> lim"
    and "i + dev_cnt t \<le> N" and "d + dt_height t \<le> H" and "stack_ok H out i d stk"
  obtains stk' m' where "parsed base so lim out N pos i d t stk m stk' m'"
  using assms unfolding parses_def by meson

lemma parses_nop:
  assumes IH: "parses base so lim out N H t" and lim: "lim < 2 ^ 32"
  shows "parses base so lim out N H (DNop t)"
  unfolding parses_def
proof (intro allI impI)
  fix pos i d stk m
  assume p: "holds m (base + of_nat pos) (enc (DNop t))" "pos + length (enc (DNop t)) \<le> lim"
    "i + dev_cnt (DNop t) \<le> N" "d + dt_height (DNop t) \<le> H" "stack_ok H out i d stk"
  have b: "holds m (base + of_nat pos) (be32 4)" "holds m (base + of_nat (pos + 4)) (enc t)"
    using p(1) by (simp_all add: add.assoc)
  have e: "pos + length (enc (DNop t)) = pos + 4 + length (enc t)" by simp
  have "pos < lim" using p(2) by simp
  note st = parse_skip [OF this lim b(1) disjI1 [OF refl]]
  obtain stk' m' where "parsed base so lim out N (pos + 4) i d t stk m stk' m'"
    by (rule parsesD [OF IH b(2) _ _ _ p(5)]) (use p in simp_all)
  then have "parsed base so lim out N pos i d (DNop t) stk m stk' m'"
    unfolding parsed_def st e dev_cnt.simps placed.simps .
  then show "\<exists>stk' m'. parsed base so lim out N pos i d (DNop t) stk m stk' m'" by blast
qed

lemma parses_prop:
  assumes IH: "parses base so lim out N H t" and r: "dev_room out N" and apart: "blob_apart out N base lim" and lim: "lim < 2 ^ 32"
  shows "parses base so lim out N H (DProp off nm v t)"
  unfolding parses_def
proof (intro allI impI)
  fix pos i d stk m
  assume p: "holds m (base + of_nat pos) (enc (DProp off nm v t))" "pos + length (enc (DProp off nm v t)) \<le> lim"
    "i + dev_cnt (DProp off nm v t) \<le> N" "d + dt_height (DProp off nm v t) \<le> H" "stack_ok H out i d stk"
  define pos1 where "pos1 = pos + 12 + padded (length v)"
  have b: "holds m (base + of_nat pos) (be32 3 @ be32 (of_nat (length v)) @ be32 off)" "holds m (base + of_nat pos1) (enc t)"
    using p(1) by (simp_all add: pos1_def algebra_simps)
  have e: "pos + length (enc (DProp off nm v t)) = pos1 + length (enc t)" "i + dev_cnt (DProp off nm v t) = Suc i + dev_cnt t"
    by (simp_all add: pos1_def)
  have len: "pos1 \<le> lim" "pos1 + length (enc t) \<le> lim" using p(2) unfolding e by simp_all
  have i: "i < N" "Suc i + dev_cnt t \<le> N" using p(3) by simp_all
  define m0 where "m0 = dtb_property (dev out i) (dtb_at base (so + off)) (base + of_nat (pos + 12)) (of_nat (length v)) m"
  define m1 where "m1 = hooked (dev out i) (stk ! d) (stk ! (d - 1)) m0"
  define stk1 where "stk1 = stk[d := dev out i]"
  note fr = dtb_property_fresh [OF r i(1), where m = m and name = "dtb_at base (so + off)" and
      val = "base + of_nat (pos + 12)" and len = "of_nat (length v)", folded m0_def]
  note h = hook_in [OF p(5) r i(1) fr(1), folded m1_def stk1_def]
  have ok: "stack_ok H out (Suc i) d stk1"
    by (rule stack_ok_next [OF p(5), where j = i]) (use p(5) in \<open>auto simp: stk1_def stack_ok_def\<close>)
  have b1: "holds m1 (base + of_nat pos1) (enc t)"
    by (rule holds_blob [OF b(2) apart len(2)]) (rule h(5), use i(1) devs_mono [of 0 0 "Suc i" N out] in auto)
  obtain stk2 m2 where q: "parsed base so lim out N pos1 (Suc i) d t stk1 m1 stk2 m2"
    by (rule parsesD [OF IH b1 len(2) i(2) _ ok]) (use p in simp_all)
  have sk: "stk1 ! d = dev out i" "stk1 ! (d - 1) = stk ! (d - 1)" "\<forall>e<16. e \<noteq> d \<longrightarrow> stk1 ! e = stk ! e"
    using p(5) by (auto simp: stk1_def stack_ok_def)
  have z: "m1 (fld out i 1) = 0" using h(2) [of 1] fr(1) by (simp add: fresh_at_def)
  note o = rest_frame [OF r p(5) lessI i(2) sk(1,2) h(4) z h(3) q]
  have m2: "m2 (fld out i f) = m0 (fld out i f)" if "f < 6" "f \<noteq> 1" for f using o(2) [of i f] h(2) [OF that(1)] that by simp
  then have "ld8 m2 (fld out i 3) = ld8 m0 (fld out i 3)" using cell_of_fld [OF r i(1), of 3] by (simp add: ld8_def)
  then have pl: "placed m2 base so out pos i (DProp off nm v t)"
    using m2 o(3) fr q by (simp add: parsed_def fresh_at_def pos1_def)
  have st: "dtb_parse base so (of_nat lim) (of_nat pos) (dev out i) stk d m =
      dtb_parse base so (of_nat lim) (of_nat pos1) (dev out (Suc i)) stk1 d m1"
    using parse_prop [OF len(1) [unfolded pos1_def] lim b(1) h(1) [unfolded m0_def]] unfolding dev_Suc pos1_def .
  have "parsed base so lim out N pos i d (DProp off nm v t) stk m stk2 m2"
    unfolding parsed_def st e using q o(1) pl sk(3) by (simp add: parsed_def)
  then show "\<exists>stk' m'. parsed base so lim out N pos i d (DProp off nm v t) stk m stk' m'" by blast
qed

text \<open>A node and its children, with the tag that closes it.\<close>

lemma open_node:
  assumes IH: "parses base so lim out N H c" and r: "dev_room out N" and apart: "blob_apart out N base lim" and lim: "lim < 2 ^ 32"
    and nm: "0 \<notin> set nm" "length nm < 2 ^ 31 - 4" and d: "Suc d + dt_height c \<le> H" "H < 14"
    and stk: "stk1 = stk[d := dev out i]" "stack_ok H out (Suc i) (Suc d) stk1" "stk ! Suc d = 0" "length stk = 16"
    and i: "i < N" "Suc i + dev_cnt c \<le> N"
    and fr: "fresh_at out i (base + of_nat (pos + 4)) m m0" "m0 = dtb_node (dev out i) (base + of_nat (pos + 4)) m"
    and link: "dtb_link (dev out i) stk d m0 = (stk1, m1)" "\<And>f. f < 6 \<Longrightarrow> m1 (fld out i f) = m0 (fld out i f)"
      "\<And>x. x \<notin> devs out 0 (Suc i) \<Longrightarrow> m1 x = m x"
    and b: "holds m (base + of_nat pos) (be32 1 @ pad4 (nm @ [0]) @ enc c @ be32 2)"
    and pos2: "pos2 = pos + 4 + padded (length nm + 1) + length (enc c)" "pos2 + 4 \<le> lim"
  obtains stk3 m2 where
    "dtb_parse base so (of_nat lim) (of_nat pos) (dev out i) stk d m
       = dtb_parse base so (of_nat lim) (of_nat (pos2 + 4)) (dev out (Suc i + dev_cnt c)) stk3 d m2"
    and "length stk3 = 16" and "\<forall>e<16. e \<noteq> d \<longrightarrow> stk3 ! e = stk ! e" and "stk3 ! d = dev out i"
    and "m2 (fld out i 0) = first_dev out (Suc i) c" and "\<And>f. f < 6 \<Longrightarrow> f \<noteq> 0 \<Longrightarrow> m2 (fld out i f) = m0 (fld out i f)"
    and "placed m2 base so out (pos + 4 + padded (length nm + 1)) (Suc i) c"
    and "\<And>x. x \<notin> devs out i (Suc i + dev_cnt c) \<Longrightarrow> m2 x = m1 x"
proof -
  define pos1 where "pos1 = pos + 4 + padded (length nm + 1)"
  define n where "n = Suc i + dev_cnt c"
  note f = fld_eq [OF r] in_devs [OF r]
  have b: "holds m (base + of_nat pos) (be32 1)" "holds m (base + of_nat (pos + 4)) (nm @ [0])"
    "holds m (base + of_nat pos1) (enc c)" "holds m (base + of_nat pos2) (be32 2)"
    using b by (simp_all add: pad4_def pos1_def pos2(1) algebra_simps padded_ge)
  have pos: "pos + 4 + length (nm @ [0]) \<le> lim" "pos1 + length (enc c) \<le> lim" "pos1 \<le> lim" "pos2 < lim"
    using pos2 padded_ge [of "length nm + 1"] by (simp_all add: pos1_def)
  have o1: "m1 x = m x" if "x \<notin> devs out 0 N" for x
    by (rule link(3)) (use i(1) devs_mono [of 0 0 "Suc i" N out] that in auto)
  have st1: "dtb_parse base so (of_nat lim) (of_nat pos) (dev out i) stk d m =
      dtb_parse base so (of_nat lim) (of_nat pos1) (dev out (Suc i)) stk1 (Suc d) m1"
    unfolding pos1_def dev_Suc [symmetric]
    by (rule parse_node [OF _ lim _ b(1) link(1) [unfolded fr(2)] holds_blob [OF b(2) apart pos(1) o1] nm])
      (use pos(3) d in \<open>simp_all add: pos1_def\<close>)
  obtain stk2 m2 where q: "parsed base so lim out N pos1 (Suc i) (Suc d) c stk1 m1 stk2 m2"
    by (rule parsesD [OF IH holds_blob [OF b(3) apart pos(2) o1] pos(2) i(2) d(1) stk(2)])
  have sk: "stk1 ! Suc d = 0" "stk1 ! d = dev out i" "length stk = 16"
    using stk d by (auto simp: stack_ok_def)
  have z: "m1 (fld out i 0) = 0" using link(2) [of 0] fr(1) by (simp add: fresh_at_def)
  note c = children_frame [OF r i(2) sk(1,2) z q, folded n_def]
  have o2: "m2 x = m1 x" if "x \<notin> devs out i n" for x
    by (rule c(1)) (use that i devs_mono [of i "Suc i" n n out] in_devs [OF r i(1), of 0 n i] in \<open>auto simp: n_def\<close>)
  have o3: "m2 x = m x" if "x \<notin> devs out 0 N" for x
    using o1 [OF that] o2 [of x] that i devs_mono [of 0 i n N out] by (auto simp: n_def)
  have "holds m2 (base + of_nat pos2) (be32 2)" by (rule holds_blob [OF b(4) apart _ o3]) (use pos2 in simp_all)
  note st2 = parse_end [OF pos(4) lim this, where so = so and cur = "dev out n" and stk = stk2 and d = d]
  have q1: "dtb_parse base so (of_nat lim) (of_nat pos1) (dev out (Suc i)) stk1 (Suc d) m1 =
      dtb_parse base so (of_nat lim) (of_nat pos2) (dev out n) stk2 (Suc d) m2"
    using q unfolding parsed_def pos2(1) pos1_def [symmetric] n_def [symmetric] by (elim conjE)
  show ?thesis
  proof (rule that [of "stk2[Suc d := 0]" m2, folded n_def pos1_def])
    show "dtb_parse base so (of_nat lim) (of_nat pos) (dev out i) stk d m
       = dtb_parse base so (of_nat lim) (of_nat (pos2 + 4)) (dev out n) (stk2[Suc d := 0]) d m2"
      unfolding st1 q1 st2 ..
    show "m2 (fld out i f) = m0 (fld out i f)" if "f < 6" "f \<noteq> 0" for f
      using c(1) [of "fld out i f"] link(2) [of f] that i by (simp add: f n_def)
    show "\<forall>e<16. e \<noteq> d \<longrightarrow> stk2[Suc d := 0] ! e = stk ! e" "stk2[Suc d := 0] ! d = dev out i" "length (stk2[Suc d := 0]) = 16"
      using q sk stk d by (auto simp: parsed_def nth_list_update stack_ok_def)
  qed (use q c(2) o2 in \<open>simp_all add: parsed_def\<close>)
qed

lemma parses_node:
  assumes IH: "parses base so lim out N H c" "parses base so lim out N H t" and nm: "0 \<notin> set nm" "length nm < 2 ^ 31 - 4"
    and r: "dev_room out N" and apart: "blob_apart out N base lim" and lim: "lim < 2 ^ 32"
  shows "parses base so lim out N H (DNode nm c t)"
  unfolding parses_def
proof (intro allI impI)
  fix pos i d stk m
  assume p: "holds m (base + of_nat pos) (enc (DNode nm c t))" "pos + length (enc (DNode nm c t)) \<le> lim"
    "i + dev_cnt (DNode nm c t) \<le> N" "d + dt_height (DNode nm c t) \<le> H" "stack_ok H out i d stk"
  define pos2 where "pos2 = pos + 4 + padded (length nm + 1) + length (enc c)"
  define n where "n = Suc i + dev_cnt c"
  have e: "pos + length (enc (DNode nm c t)) = pos2 + 4 + length (enc t)" "i + dev_cnt (DNode nm c t) = n + dev_cnt t"
    by (simp_all add: pos2_def n_def)
  have b: "holds m (base + of_nat pos) (be32 1 @ pad4 (nm @ [0]) @ enc c @ be32 2)" "holds m (base + of_nat (pos2 + 4)) (enc t)"
    using p(1) by (simp_all add: pos2_def algebra_simps)
  have len: "pos2 + 4 + length (enc t) \<le> lim" "pos2 + 4 \<le> lim" "n + dev_cnt t \<le> N" using p(2,3) unfolding e by simp_all
  have i: "i < N" "Suc i + dev_cnt c \<le> N" "i < n" using len by (simp_all add: n_def)
  have hd: "Suc d + dt_height c \<le> H" "d + dt_height t \<le> H" "Suc d \<le> H" "H < 14" using p(4,5) by (simp_all add: stack_ok_def)
  define m0 where "m0 = dtb_node (dev out i) (base + of_nat (pos + 4)) m"
  define m1 where "m1 = hooked (dev out i) (stk ! d) (stk ! (d - 1)) m0"
  define stk1 where "stk1 = stk[d := dev out i]"
  note fr = dtb_node_fresh [OF r i(1), where m = m and name = "base + of_nat (pos + 4)", folded m0_def]
  note h = hook_in [OF p(5) r i(1) fr(1), folded m1_def stk1_def]
  have ok: "stack_ok H out (Suc i) (Suc d) stk1" unfolding stk1_def by (rule stack_ok_open [OF p(5) hd(3)])
  have z0: "stk ! Suc d = 0" "length stk = 16" using p(5) hd(3) by (simp_all add: stack_ok_def)
  obtain stk3 m2 where s3: "dtb_parse base so (of_nat lim) (of_nat pos) (dev out i) stk d m
       = dtb_parse base so (of_nat lim) (of_nat (pos2 + 4)) (dev out n) stk3 d m2"
    "length stk3 = 16" "\<forall>e<16. e \<noteq> d \<longrightarrow> stk3 ! e = stk ! e" "stk3 ! d = dev out i" "m2 (fld out i 0) = first_dev out (Suc i) c"
    "\<And>f. f < 6 \<Longrightarrow> f \<noteq> 0 \<Longrightarrow> m2 (fld out i f) = m0 (fld out i f)"
    "placed m2 base so out (pos + 4 + padded (length nm + 1)) (Suc i) c" "\<And>x. x \<notin> devs out i n \<Longrightarrow> m2 x = m1 x"
    by (rule open_node [OF IH(1) r apart lim nm hd(1,4) stk1_def ok z0 i(1,2) fr(1) m0_def h(1,2,5) b(1) pos2_def len(2), folded n_def])
      (assumption | rule that)+
  obtain k where k: "k < i" "stk ! (d - 1) = fld out k 0" using p(5) by (auto simp: stack_ok_def dev_fld)
  note f = fld_eq [OF r] in_devs [OF r]
  have z: "m2 (stk ! (d - 1)) \<noteq> 0" "m2 (fld out i 1) = 0"
    using s3(8) [of "stk ! (d - 1)"] h(4) s3(6) [of 1] fr(1) k i len by (simp_all add: f fresh_at_def)
  have o: "m2 x = hooked (dev out i) (stk ! d) (stk ! (d - 1)) m x" if "x \<notin> devs out i n" for x
    using s3(8) [OF that] h(3) [of x] that i devs_mono [of i i "Suc i" n out] by auto
  have o2: "m2 x = m x" if "x \<notin> devs out 0 N" for x
  proof -
    have "devs out i n \<subseteq> devs out 0 N" "devs out 0 (Suc i) \<subseteq> devs out 0 N" using i len by (simp_all add: devs_mono)
    then have "x \<notin> devs out i n" "x \<notin> devs out 0 (Suc i)" using that by blast+
    then show ?thesis using s3(8) h(5) by simp
  qed
  have "stack_ok H out n d stk3" by (rule stack_ok_next [OF p(5) s3(2,3) _ s3(4) i(3)]) (use i in simp)
  from parsesD [OF IH(2) holds_blob [OF b(2) apart len(1) o2] len(1,3) hd(2) this] obtain stk4 m4 where
    q: "parsed base so lim out N (pos2 + 4) n d t stk3 m2 stk4 m4" by blast
  have "0 < d" "d < 16" using p(5) by (simp_all add: stack_ok_def)
  then have par: "stk3 ! (d - 1) = stk ! (d - 1)" using s3(3) by simp
  note g = rest_frame [OF r p(5) i(3) len(3) s3(4) par z o q]
  have m4: "m4 (fld out i f) = m2 (fld out i f)" if "f < 6" "f \<noteq> 1" for f using g(2) [of i f] that i by simp
  have l: "ld8 m4 (fld out i 3) = 0" using m4 [of 3] s3(6) [of 3] cell_of_fld [OF r i(1), of 3] fr(2) by (simp add: ld8_def)
  have pc: "placed m4 base so out (pos + 4 + padded (length nm + 1)) (Suc i) c"
    by (rule placed_frame [OF s3(7) r i(2)]) (use g(2) in \<open>simp add: n_def\<close>)
  then have pl: "placed m4 base so out pos i (DNode nm c t)"
    using q g(3) m4 [of 0] m4 [of 2] s3(5) s3(6) [of 2] l fr unfolding placed.simps pos2_def [symmetric] n_def [symmetric]
    by (simp add: parsed_def fresh_at_def)
  have "parsed base so lim out N pos i d (DNode nm c t) stk m stk4 m4"
    unfolding parsed_def s3(1) e using q g(1) pl s3(3) by (simp add: parsed_def n_def)
  then show "\<exists>stk' m'. parsed base so lim out N pos i d (DNode nm c t) stk m stk' m'" by blast
qed

lemma parses_forest:
  assumes "dev_room out N" and "blob_apart out N base lim" and "lim < 2 ^ 32" and "dt_names t"
  shows "parses base so lim out N H t"
  using assms(4)
proof (induction t)
  case DEnd
  then show ?case by (auto simp: parses_def parsed_def stack_ok_def)
qed (simp_all add: parses_nop [OF _ assms(3)] parses_prop [OF _ assms(1-3)] parses_node [OF _ _ _ _ assms(1-3)])

section \<open>The tree a blob denotes\<close>

fun dev_forest :: "mem \<Rightarrow> u64 \<Rightarrow> dt \<Rightarrow> bool" where
  "dev_forest m p DEnd \<longleftrightarrow> p = 0"
| "dev_forest m p (DNop r) \<longleftrightarrow> dev_forest m p r"
| "dev_forest m p (DNode nm c r) \<longleftrightarrow> p \<noteq> 0 \<and> cstr m (m (dev_name p)) nm \<and> ld8 m (is_leaf p) = 0
     \<and> dev_forest m (m (first_child p)) c \<and> dev_forest m (m (next_sibling p)) r"
| "dev_forest m p (DProp off nm v r) \<longleftrightarrow> p \<noteq> 0 \<and> cstr m (m (dev_name p)) nm \<and> ld8 m (is_leaf p) = 1
     \<and> m (first_child p) = 0 \<and> m (value_len p) = of_nat (length v) \<and> holds m (m (dev_value p)) v
     \<and> dev_forest m (m (next_sibling p)) r"

text \<open>The names of the properties are in the strings block.\<close>

fun props_in :: "u8 list \<Rightarrow> dt \<Rightarrow> bool" where
  "props_in strs DEnd = True"
| "props_in strs (DNop r) = props_in strs r"
| "props_in strs (DNode nm c r) \<longleftrightarrow> props_in strs c \<and> props_in strs r"
| "props_in strs (DProp off nm v r) \<longleftrightarrow> 0 \<notin> set nm \<and> take (length nm + 1) (drop (unat off) strs) = nm @ [0] \<and> props_in strs r"

lemma holds_sub: "holds m a bs \<Longrightarrow> take n (drop k bs) = cs \<Longrightarrow> cs \<noteq> [] \<Longrightarrow> holds m (a + of_nat k) cs"
proof -
  assume h: "holds m a bs" and t: "take n (drop k bs) = cs" "cs \<noteq> []"
  then have "k < length bs" by (metis drop_eq_Nil leI take_Nil)
  then have "holds m a (take k bs @ cs @ drop n (drop k bs))" using h t(1) by (metis append_take_drop_id)
  with \<open>k < length bs\<close> show ?thesis by simp
qed

lemma prop_name:
  assumes "holds m (base + of_nat sp) strs" and "sp + length strs < 2 ^ 32"
    and "0 \<notin> set nm" and "take (length nm + 1) (drop (unat off) strs) = nm @ [0]"
  shows "cstr m (dtb_at base (of_nat sp + off)) nm"
proof -
  have off: "unat off < length strs" using assms(4) by (metis append_is_Nil_conv drop_eq_Nil leI list.simps(3) take_Nil)
  have "(of_nat sp + off :: u32) = of_nat (sp + unat off)" by simp
  then have "dtb_at base (of_nat sp + off) = base + of_nat sp + of_nat (unat off)"
    using dtb_at_of_nat [of "sp + unat off" base] off assms(2) by (simp add: add.assoc)
  then show ?thesis using holds_sub [OF assms(1,4)] holds_cstr assms(3) by auto
qed

lemma placed_forest:
  assumes r: "dev_room out N" and s: "holds m (base + of_nat sp) strs" "sp + length strs < 2 ^ 32"
    and "placed m base (of_nat sp) out pos i t" and "holds m (base + of_nat pos) (enc t)" and "dt_names t" and "props_in strs t"
    and "i + dev_cnt t \<le> N"
  shows "dev_forest m (first_dev out i t) t"
  using assms(4-)
proof (induction t arbitrary: pos i)
  case DEnd
  then show ?case by (simp add: first_dev_def)
next
  case (DNop t)
  have "holds m (base + of_nat (pos + 4)) (enc t)" using DNop.prems(2) by (simp add: add.assoc)
  then show ?case using DNop.IH [of "pos + 4" i] DNop.prems by (simp add: first_dev_def)
next
  case (DProp off nm v t)
  have i: "i < N" using DProp.prems(5) by simp
  have b: "holds m (base + of_nat (pos + 12)) v" "holds m (base + of_nat (pos + 12 + padded (length v))) (enc t)"
    using DProp.prems(2) by (simp_all add: pad4_def algebra_simps padded_ge)
  have "cstr m (dtb_at base (of_nat sp + off)) nm" by (rule prop_name [OF s]) (use DProp.prems(4) in simp_all)
  then show ?case using DProp.IH [OF _ b(2), of "Suc i"] DProp.prems b(1) fld_nonzero [OF r i, of 0]
    by (simp add: first_dev_def [of out i] dev_fld)
next
  case (DNode nm c t)
  define pos1 where "pos1 = pos + 4 + padded (length nm + 1)"
  define pos2 where "pos2 = pos1 + length (enc c) + 4"
  have i: "i < N" using DNode.prems(5) by simp
  have b: "holds m (base + of_nat (pos + 4)) (nm @ [0])" "holds m (base + of_nat pos1) (enc c)" "holds m (base + of_nat pos2) (enc t)"
    using DNode.prems(2) by (simp_all add: pad4_def pos1_def pos2_def algebra_simps padded_ge)
  have nm: "cstr m (base + of_nat (pos + 4)) nm" by (rule holds_cstr [OF b(1)]) (use DNode.prems(3) in simp)
  note p = DNode.prems(1) [unfolded placed.simps, folded pos1_def, folded pos2_def]
  have c: "dev_forest m (first_dev out (Suc i) c) c" "dev_forest m (first_dev out (Suc i + dev_cnt c) t) t"
    by (rule DNode.IH(1) [of pos1] DNode.IH(2) [of pos2]; use p b DNode.prems in simp)+
  show ?case using p c nm fld_nonzero [OF r i, of 0] unfolding dev_forest.simps by (simp add: first_dev_def [of out i] dev_fld)
qed

text \<open>
  The blob for the tree below a root: the header, the structure block, the strings block. Everything
  lies within \<open>len\<close> bytes.
\<close>

definition dtb_blob :: "mem \<Rightarrow> u64 \<Rightarrow> nat \<Rightarrow> u8 list \<Rightarrow> dt \<Rightarrow> u8 list \<Rightarrow> bool" where
  "dtb_blob m base len nm c strs \<longleftrightarrow> (\<exists>st sp.
     holds m base (be32 0xD00DFEED) \<and> holds m (base + 24) (be32 16)
     \<and> holds m (base + 8) (be32 (of_nat st)) \<and> holds m (base + 12) (be32 (of_nat sp))
     \<and> holds m (base + 36) (be32 (of_nat (length (enc (DNode nm c DEnd)) + 4)))
     \<and> holds m (base + of_nat st) (enc (DNode nm c DEnd) @ be32 9) \<and> holds m (base + of_nat sp) strs
     \<and> st + length (enc (DNode nm c DEnd)) + 4 \<le> len \<and> sp + length strs \<le> len) \<and> len < 2 ^ 32"

lemma parse_root:
  assumes r: "dev_room out N" "N = Suc (dev_cnt c)" and apart: "blob_apart out N base len" and lim: "st + length (enc (DNode nm c DEnd)) + 4 = lim" "lim \<le> len" "len < 2 ^ 32"
    and b: "holds m (base + of_nat st) (enc (DNode nm c DEnd) @ be32 9)" and nm: "dt_names (DNode nm c DEnd)"
    and stk: "length stk = 16" "\<forall>e\<le>1 + dt_height c. stk ! e = 0" "dt_height c < 13"
  obtains stk' m' where "dtb_parse base so (of_nat lim) (of_nat st) out stk 0 m = ret ((out + 48 * of_nat N, stk'), m')"
    and "stk' ! 0 = out" and "placed m' base so out st 0 (DNode nm c DEnd)" and "\<And>x. x \<notin> devs out 0 N \<Longrightarrow> m' x = m x"
proof -
  have lim': "lim < 2 ^ 32" "blob_apart out N base lim" using lim apart by (auto simp: blob_apart_def)
  have i: "0 < N" "Suc 0 + dev_cnt c \<le> N" using r(2) by simp_all
  define m0 where "m0 = dtb_node (dev out 0) (base + of_nat (st + 4)) m"
  define stk1 where "stk1 = stk[0 := dev out 0]"
  note fr = dtb_node_fresh [OF r(1) i(1), where m = m and name = "base + of_nat (st + 4)", folded m0_def]
  have l: "dtb_link (dev out 0) stk 0 m0 = (stk1, m0)" using stk by (simp add: dtb_link_def stk1_def Let_def)
  have ok: "stack_ok (1 + dt_height c) out (Suc 0) (Suc 0) stk1" using stk by (auto simp: stack_ok_def stk1_def nth_list_update)
  have IH: "parses base so lim out N (1 + dt_height c) c" by (rule parses_forest [OF r(1) lim'(2,1)]) (use nm in simp)
  define pos2 where "pos2 = st + 4 + padded (length nm + 1) + length (enc c)"
  have b': "holds m (base + of_nat st) (be32 1 @ pad4 (nm @ [0]) @ enc c @ be32 2)" "holds m (base + of_nat (pos2 + 4)) (be32 9)"
    using b by (simp_all add: pos2_def algebra_simps)
  have p2: "pos2 + 4 \<le> lim" "pos2 + 4 < lim" "pos2 + 4 + 4 = lim" using lim by (simp_all add: pos2_def)
  have o0: "m0 x = m x" if "x \<notin> devs out 0 (Suc 0)" for x using fr(1) that by (simp add: fresh_at_def)
  have h: "Suc 0 + dt_height c \<le> 1 + dt_height c" "1 + dt_height c < 14" "stk ! Suc 0 = 0" "0 \<notin> set nm" "length nm < 2 ^ 31 - 4" using stk nm by simp_all
  obtain stk3 m2 where s3: "dtb_parse base so (of_nat lim) (of_nat st) (dev out 0) stk 0 m
       = dtb_parse base so (of_nat lim) (of_nat (pos2 + 4)) (dev out (Suc 0 + dev_cnt c)) stk3 0 m2"
    "stk3 ! 0 = dev out 0" "m2 (fld out 0 0) = first_dev out (Suc 0) c"
    "\<And>f. f < 6 \<Longrightarrow> f \<noteq> 0 \<Longrightarrow> m2 (fld out 0 f) = m0 (fld out 0 f)"
    "placed m2 base so out (st + 4 + padded (length nm + 1)) (Suc 0) c" "\<And>x. x \<notin> devs out 0 (Suc 0 + dev_cnt c) \<Longrightarrow> m2 x = m0 x"
    by (rule open_node [OF IH r(1) lim'(2,1) h(4,5,1,2) stk1_def ok h(3) stk(1) i fr(1) m0_def l refl o0 b'(1) pos2_def p2(1)])
      (assumption | rule that)+
  have o2: "m2 x = m x" if "x \<notin> devs out 0 N" for x
    using s3(6) [of x] o0 [of x] that r(2) devs_mono [of 0 0 "Suc 0" N out] by auto
  have "holds m2 (base + of_nat (pos2 + 4)) (be32 9)" by (rule holds_blob [OF b'(2) lim'(2) _ o2]) (use p2 in simp_all)
  note st = parse_skip [OF p2(2) lim'(1) this disjI2 [OF refl]]
  have l2: "ld8 m2 (fld out 0 3) = 0" using s3(4) [of 3] cell_of_fld [OF r(1) i(1), of 3] fr(2) by (simp add: ld8_def)
  show ?thesis
  proof (rule that [of stk3 m2])
    show "dtb_parse base so (of_nat lim) (of_nat st) out stk 0 m = ret ((out + 48 * of_nat N, stk3), m2)"
      using s3(1) unfolding st p2(3) dtb_parse.simps [of base so "of_nat lim" "of_nat lim"] by (simp add: dev_def r(2))
    show "placed m2 base so out st 0 (DNode nm c DEnd)"
      using s3(3,5) s3(4) [of 1] s3(4) [of 2] l2 fr(1) by (simp add: first_dev_def [of _ _ DEnd] fresh_at_def)
  qed (use s3(2) o2 in \<open>simp_all add: dev_def\<close>)
qed

section \<open>Looking up devices\<close>

fun find_child :: "u8 list \<Rightarrow> nat \<Rightarrow> dt \<Rightarrow> dt option" where
  "find_child ps n DEnd = None"
| "find_child ps n (DNop r) = find_child ps n r"
| "find_child ps n (DNode nm c r) =
     (if prefix ps nm then if n = 0 then Some (DNode nm c r) else find_child ps (n - 1) r else find_child ps n r)"
| "find_child ps n (DProp off nm v r) =
     (if prefix ps nm then if n = 0 then Some (DProp off nm v r) else find_child ps (n - 1) r else find_child ps n r)"

fun found :: "mem \<Rightarrow> u64 \<Rightarrow> dt option \<Rightarrow> bool" where
  "found m q None \<longleftrightarrow> q = 0"
| "found m q (Some t) \<longleftrightarrow> dev_forest m q t"

lemma iter_step: "iter_num \<noteq> k \<Longrightarrow> unat (iter_num - (k + 1)) = unat (iter_num - k) - 1" for iter_num k :: u32
  by (simp add: diff_diff_eq [symmetric] unat_minus_one)

lemma prefix_get_child_step:
  assumes "p \<noteq> 0" and "cstr m (m (p + 16)) nm" and "cstr m pre ps"
  shows "prefix_get_child_from m p pre iter_num k =
    (if prefix ps nm then if iter_num = k then ret p else prefix_get_child_from m (m (p + 8)) pre iter_num (k + 1)
     else prefix_get_child_from m (m (p + 8)) pre iter_num k)"
  using assms(1) by (subst prefix_get_child_from.simps) (simp add: str_starts_with_cstr [OF assms(2,3)])

lemma prefix_get_child_from_forest:
  assumes "dev_forest m p t" and "cstr m pre ps"
  shows "\<exists>q. prefix_get_child_from m p pre iter_num k = ret q \<and> found m q (find_child ps (unat (iter_num - k)) t)"
  using assms(1)
proof (induction t arbitrary: p k)
  case DEnd
  then show ?case by (simp add: prefix_get_child_from.simps)
next
  case (DNode nm c t)
  then have "cstr m (m (p + 16)) nm" "p \<noteq> 0" by simp_all
  then show ?case using DNode.IH(2) [of "m (p + 8)" k] DNode.IH(2) [of "m (p + 8)" "k + 1"] DNode.prems
    by (auto simp: prefix_get_child_step [OF _ _ assms(2)] iter_step unat_eq_0)
next
  case (DProp off nm v t)
  then have "cstr m (m (p + 16)) nm" "p \<noteq> 0" by simp_all
  then show ?case using DProp.IH [of "m (p + 8)" k] DProp.IH [of "m (p + 8)" "k + 1"] DProp.prems
    by (auto simp: prefix_get_child_step [OF _ _ assms(2)] iter_step unat_eq_0)
qed simp

section \<open>A small blob\<close>

primrec put_bytes :: "u64 \<Rightarrow> u8 list \<Rightarrow> mem \<Rightarrow> mem" where
  "put_bytes a [] m = m"
| "put_bytes a (b # bs) m = put_bytes (a + 1) bs (st8 m a b)"

lemma put_bytes_other: "\<forall>i<length bs. x \<noteq> a + of_nat i \<Longrightarrow> ld8 (put_bytes a bs m) x = ld8 m x"
proof (induction bs arbitrary: a m)
  case (Cons b bs)
  have "x \<noteq> a + 1 + of_nat i" if "i < length bs" for i using Cons.prems that by (auto dest: spec [of _ "Suc i"] simp: add.assoc)
  moreover have "x \<noteq> a" using Cons.prems by (auto dest: spec [of _ 0])
  ultimately show ?case using Cons.IH [of "a + 1"] by (simp add: ld8_st8)
qed simp

lemma put_bytes_holds: "length bs < 2 ^ 64 \<Longrightarrow> holds (put_bytes a bs m) a bs"
proof (induction bs arbitrary: a m)
  case (Cons b bs)
  have "a \<noteq> a + 1 + of_nat i" if "i < length bs" for i
  proof
    assume "a = a + 1 + of_nat i"
    then have "(of_nat (Suc i) :: u64) = 0" by (simp add: add.assoc)
    then have "unat (of_nat (Suc i) :: u64) = 0" by (simp only: unat_0)
    then show False using unat_small [of "Suc i"] Cons.prems that by simp
  qed
  then show ?case using Cons put_bytes_other [of bs a "a + 1"] by (simp add: ld8_st8)
qed simp

text \<open>A root with one property \<open>r\<close> and one node \<open>m\<close>, at address 4096, and devices from address 8192 on.\<close>

definition demo_dt :: dt where
  "demo_dt = DProp 0 [0x72] [0, 0, 0, 2] (DNode [0x6D] DEnd DEnd)"

definition demo_blob :: "u8 list" where
  "demo_blob = be32 0xD00DFEED @ be32 86 @ be32 40 @ be32 84 @ be32 0 @ be32 17 @ be32 16 @ be32 0 @ be32 2 @ be32 44
     @ enc (DNode [] demo_dt DEnd) @ be32 9 @ [0x72, 0]"

definition demo_devices :: devices where
  "demo_devices = fs.extend (hart.extend blank_hart (fs.fields 0 0 0 0 0)) (devices.fields 1 4096 0 0 0 0 0 0 0 0)
     \<lparr>uart_dev := (\<lambda>_ _. 0x20), kmem := put_bytes 4096 demo_blob (\<lambda>_. 0)\<rparr>"

lemma demo_length: "length (enc (DNode [] demo_dt DEnd)) = 40" "dev_cnt demo_dt = 2" "dt_height demo_dt = 1" "length demo_blob = 86"
  by (simp_all add: demo_dt_def demo_blob_def padded_def)

lemma demo_devices_simps:
  "kmem demo_devices = put_bytes 4096 demo_blob (\<lambda>_. 0)" "dtb demo_devices = 4096" "uart_ready demo_devices"
  by (auto simp: demo_devices_def uart_ready_def fs.defs hart.defs devices.defs)

lemma demo_blob_ok: "dtb_blob (kmem demo_devices) 4096 86 [] demo_dt [0x72, 0]"
proof -
  have "holds (kmem demo_devices) 4096 demo_blob" unfolding demo_devices_simps by (rule put_bytes_holds) (simp add: demo_length)
  then show ?thesis
    unfolding dtb_blob_def demo_blob_def
    by (intro conjI exI [of _ 40] exI [of _ 84]) (simp_all add: demo_length del: enc.simps)
qed

lemma demo_apart: "blob_apart 8192 (Suc (dev_cnt demo_dt)) 4096 86"
  unfolding blob_apart_def demo_length
proof (intro allI impI notI)
  fix p :: nat assume "p < 86" and "cell_of (4096 + of_nat p) \<in> cells 8192 (6 * Suc 2)"
  then obtain k where k: "k < 18" "cell_of (4096 + of_nat p) = 8192 + 8 * of_nat k" by (auto simp: cells_def)
  have "unat (4096 + of_nat p :: u64) = 4096 + p" using unat_small [of "4096 + p"] \<open>p < 86\<close> by simp
  moreover have "unat (8192 + 8 * of_nat k :: u64) = 8192 + 8 * k" using unat_small [of "8192 + 8 * k"] k(1) by simp
  ultimately show False using unat_cell_of [of "4096 + of_nat p"] k(2) \<open>p < 86\<close> by simp
qed

definition demo_tree_mem :: mem where
  "demo_tree_mem = (\<lambda>_. 0)(8192 := 8240, 8208 := 4096, 8256 := 4104, 4104 := 0x6D)"

lemma demo_tree: "dev_forest demo_tree_mem 8192 (DNode [] (DNode [0x6D] DEnd DEnd) DEnd)" "cstr demo_tree_mem 4104 [0x6D]"
  by (simp_all add: demo_tree_mem_def ld8_def cell_of_def lane_of_def)

lemma dtb_dump_run:
  assumes "uart_ready s" and blob: "dtb_blob (kmem s) (dtb s) len nm c strs" and nm: "dt_names (DNode nm c DEnd)" "props_in strs c"
    and out: "dev_room out (Suc (dev_cnt c))" "blob_apart out (Suc (dev_cnt c)) (dtb s) len"
    and stk: "length node_stack = 16" "dt_height c < 13" "\<forall>e. 3 \<le> e \<and> e \<le> 1 + dt_height c \<longrightarrow> node_stack ! e = 0"
  shows "\<exists>k m'. dtb_dump node_stack out s = ret ((out, out + 48 * of_nat (Suc (dev_cnt c))),
      s\<lparr>uart_reads := k, uart_writes := uart_writes s @ map (Pair 0) (map of_char ''Parsing DTB'' @ [10, 13]), kmem := m'\<rparr>)
    \<and> dev_forest m' out (DNode nm c DEnd)
    \<and> (\<forall>x. x \<notin> cells out (6 * Suc (dev_cnt c)) \<longrightarrow> m' x = kmem s x)"
proof -
  define N where "N = Suc (dev_cnt c)"
  obtain st sp where b: "holds (kmem s) (dtb s) (be32 0xD00DFEED)" "holds (kmem s) (dtb s + 24) (be32 16)"
    "holds (kmem s) (dtb s + 8) (be32 (of_nat st))" "holds (kmem s) (dtb s + 12) (be32 (of_nat sp))"
    "holds (kmem s) (dtb s + 36) (be32 (of_nat (length (enc (DNode nm c DEnd)) + 4)))"
    "holds (kmem s) (dtb s + of_nat st) (enc (DNode nm c DEnd) @ be32 9)" "holds (kmem s) (dtb s + of_nat sp) strs"
    "st + length (enc (DNode nm c DEnd)) + 4 \<le> len" "sp + length strs \<le> len" and len: "len < 2 ^ 32"
    using blob unfolding dtb_blob_def by blast
  define lim where "lim = st + length (enc (DNode nm c DEnd)) + 4"
  define stk0 where "stk0 = node_stack[0 := 0, 1 := 0, 2 := 0]"
  have "\<forall>e\<le>1 + dt_height c. stk0 ! e = 0"
  proof (intro allI impI)
    fix e assume "e \<le> 1 + dt_height c"
    then show "stk0 ! e = 0" using stk by (cases "e = 0 \<or> e = 1 \<or> e = 2") (auto simp: stk0_def)
  qed
  then obtain stk' m' where p: "dtb_parse (dtb s) (of_nat sp) (of_nat lim) (of_nat st) out stk0 0 (kmem s) = ret ((out + 48 * of_nat N, stk'), m')"
    "stk' ! 0 = out" "placed m' (dtb s) (of_nat sp) out st 0 (DNode nm c DEnd)" "\<And>x. x \<notin> devs out 0 N \<Longrightarrow> m' x = kmem s x"
    using parse_root [OF out(1) refl out(2) lim_def [symmetric] _ len b(6) nm(1), of stk0 "of_nat sp"] b(8) stk
    unfolding lim_def N_def by (auto simp: stk0_def)
  note apart = out(2) [folded N_def]
  have "holds m' (dtb s + of_nat sp) strs" "holds m' (dtb s + of_nat st) (enc (DNode nm c DEnd))"
    by (rule holds_blob [OF _ apart _ p(4)]; use b in simp)+
  then have f: "dev_forest m' (first_dev out 0 (DNode nm c DEnd)) (DNode nm c DEnd)"
    by (intro placed_forest [OF out(1) _ _ p(3)]) (use b(9) len nm in simp_all)
  obtain k where k: "uart_println_lit ''Parsing DTB'' s
      = ret ((), s\<lparr>uart_reads := k, uart_writes := uart_writes s @ map (Pair 0) (map of_char ''Parsing DTB'' @ [10, 13])\<rparr>)"
    using println_lit_prints [OF assms(1), of "''Parsing DTB''"] unfolding prints_def by blast
  have o: "out \<noteq> 0" using out(1) by (simp add: dev_room_def)
  have lim: "of_nat st + of_nat (length (enc (DNode nm c DEnd)) + 4) = (of_nat lim :: u32)" by (simp add: lim_def)
  have "dtb_dump node_stack out s = ret ((out, out + 48 * of_nat N),
      s\<lparr>uart_reads := k, uart_writes := uart_writes s @ map (Pair 0) (map of_char ''Parsing DTB'' @ [10, 13]), kmem := m'\<rparr>)"
    unfolding dtb_dump_def k bindr_simps Let_def
    using b(1-5) [THEN read_be32] p(1) [unfolded stk0_def] p(2) o
    by (simp add: lim del: of_nat_add of_nat_Suc map_append list.map enc.simps)
  then show ?thesis using f p(4) unfolding N_def devs_cells by (auto simp: first_dev_def dev_def)
qed

section \<open>Properties\<close>

text \<open>
  C7. \<open>dtb_dump\<close> builds the tree it is given: for a blob that is the flattened form of a tree (version
  16, names without zero bytes, at most thirteen levels of nodes below the root) and lies outside the
  output area, it returns the root at the start of the area and the end behind the last device, the
  linked devices denote exactly that tree, and no word outside the area changes. The entries of
  \<open>node_stack\<close> beyond the third that the tree reaches must happen to be null, as the code does not
  clear them.
\<close>

theorem dtb_dump_sound:
  assumes "uart_ready s" and blob: "dtb_blob (kmem s) (dtb s) len nm c strs" and nm: "dt_names (DNode nm c DEnd)" "props_in strs c"
    and out: "dev_room out (Suc (dev_cnt c))" "blob_apart out (Suc (dev_cnt c)) (dtb s) len"
    and stk: "length node_stack = 16" "dt_height c < 13" "\<forall>e. 3 \<le> e \<and> e \<le> 1 + dt_height c \<longrightarrow> node_stack ! e = 0"
  shows "\<exists>k m'. dtb_dump node_stack out s = ret ((out, out + 48 * of_nat (Suc (dev_cnt c))),
      s\<lparr>uart_reads := k, uart_writes := uart_writes s @ map (Pair 0) (map of_char ''Parsing DTB'' @ [10, 13]), kmem := m'\<rparr>)
    \<and> dev_forest m' out (DNode nm c DEnd)
    \<and> (\<forall>x. x \<notin> cells out (6 * Suc (dev_cnt c)) \<longrightarrow> m' x = kmem s x)"
  by (rule dtb_dump_run [OF assms])

theorem dtb_dump_sound_witness:
  "\<exists>k m'. dtb_dump (replicate 16 7) 8192 demo_devices = ret ((8192, 8336),
      demo_devices\<lparr>uart_reads := k, uart_writes := uart_writes demo_devices @ map (Pair 0) (map of_char ''Parsing DTB'' @ [10, 13]), kmem := m'\<rparr>)
    \<and> dev_forest m' 8192 (DNode [] demo_dt DEnd)"
proof -
  have "dev_room 8192 (Suc (dev_cnt demo_dt))" by (simp add: dev_room_def demo_length)
  moreover have "dt_names (DNode [] demo_dt DEnd)" "props_in [0x72, 0] demo_dt" by (simp_all add: demo_dt_def)
  ultimately obtain k m' where "dtb_dump (replicate 16 7) 8192 demo_devices = ret ((8192, 8192 + 48 * of_nat (Suc (dev_cnt demo_dt))),
      demo_devices\<lparr>uart_reads := k, uart_writes := uart_writes demo_devices @ map (Pair 0) (map of_char ''Parsing DTB'' @ [10, 13]), kmem := m'\<rparr>)"
    "dev_forest m' 8192 (DNode [] demo_dt DEnd)"
    using dtb_dump_sound [OF demo_devices_simps(3), unfolded demo_devices_simps(2), OF demo_blob_ok _ _ _ demo_apart, of "replicate 16 7"]
    by (auto simp: demo_length simp del: of_nat_Suc)
  then show ?thesis unfolding demo_length by (intro exI [of _ k] exI [of _ m'] conjI) simp_all
qed

text \<open>
  C39. A lookup by prefix returns and gives the child it should: the one with number \<open>iter_num\<close> among the
  children, in order, whose names start with the prefix, or null when there are not that many.
\<close>

theorem device_tree_prefix_get_child_sound:
  assumes "dev_forest m p (DNode nm c r)" and "cstr m pre ps"
  shows "\<exists>q. device_tree_prefix_get_child p pre iter_num m = ret q \<and> found m q (find_child ps (unat iter_num) c)"
  using prefix_get_child_from_forest [of m "m p" c pre ps iter_num 0] assms by (simp add: device_tree_prefix_get_child_def)

theorem device_tree_prefix_get_child_sound_witness:
  "(\<exists>q. device_tree_prefix_get_child 8192 4104 0 demo_tree_mem = ret q \<and> dev_forest demo_tree_mem q (DNode [0x6D] DEnd DEnd))
     \<and> device_tree_prefix_get_child 8192 4104 1 demo_tree_mem = ret 0"
  using device_tree_prefix_get_child_sound [OF demo_tree, of 0] device_tree_prefix_get_child_sound [OF demo_tree, of 1]
  by (auto simp del: dev_forest.simps)

end
