(* ===== verification/Pager_Boot.thy ===== *)
theory Pager_Boot
  imports Device_Parse Pager_Init
begin

text \<open>
  Starting the page allocator: \<open>find_memory_regions\<close> and \<open>pager_init\<close> of
  \<^verbatim>\<open>src/src/kernel/memory/pager.c\<close>, which read the memory of the machine from the device tree.
  The arrays of regions are lists; a store past their 32 entries has no meaning in C.

  The lemmas show that the search finds exactly the regions the tree describes (\<open>regions_are\<close>), and
  that \<open>pager_init\<close> publishes what is left of the free regions after trimming; for one region behind
  the kernel, the pages it then can hand out are computed exactly.
\<close>

section \<open>Reading the memory regions\<close>




section \<open>Starting the allocator\<close>



text \<open>
  The two halves of \<open>set_region\<close>, before and after the line printed about the region. The loop over the
  words of the bitmap counts with an \<open>s32\<close>, whose step past \<open>2 ^ 31 - 1\<close> has no meaning in C.
\<close>

definition set_descriptor :: "nat \<Rightarrow> memory_region \<Rightarrow> 'a pager_scheme \<Rightarrow> 'a pager_scheme" where
  "set_descriptor i r s = s\<lparr>kmem := (kmem s)(pbl_addr s (1 + i * 3) := region_page_cnt r,
     pbl_addr s (2 + i * 3) := rgn_start r, pbl_addr s (3 + i * 3) := region_page_start r)\<rparr>"



text \<open>
  The region the kernel reserves for itself: its start is the byte at \<open>_kernel_start\<close>, not its address.
\<close>

definition kernel_region :: "u64 \<Rightarrow> 'a devices_scheme \<Rightarrow> memory_region" where
  "kernel_region start_location s =
     (let start = ucast (ld8 (kmem s) (kernel_start s))
      in \<lparr>rgn_start = start, rgn_size = start_location - start + 8 + of_nat MAX_MEMORY_REGIONS * 24\<rparr>)"

definition bitmap_location :: "u64 \<Rightarrow> u64" where
  "bitmap_location start_location = word_of_int ((sint start_location + 7) sdiv 8 * 8)"


section \<open>Logging\<close>



section \<open>What the tree says about memory\<close>






lemma find_child_not_nil: "find_child ps n t = Some d \<Longrightarrow> dev_forest m q d \<Longrightarrow> q \<noteq> 0"
  by (induction ps n t rule: find_child.induct) (auto split: if_splits)






section \<open>Starting the allocator on a device tree\<close>



lemma set_descriptor_ready [simp]: "uart_ready (set_descriptor i r s) = uart_ready s" "uart_ready (set_region i r s) = uart_ready s"
  by (simp_all add: set_descriptor_def set_region_def Let_def uart_ready_def)



lemma pager_log [simp]:
  "pager_inv (s\<lparr>uart_reads := k, uart_writes := w\<rparr>) = pager_inv s"
  "pager_live (s\<lparr>uart_reads := k, uart_writes := w\<rparr>) = pager_live s"
  "pager_pool (s\<lparr>uart_reads := k, uart_writes := w\<rparr>) = pager_pool s"
proof -
  let ?s = "s\<lparr>uart_reads := k, uart_writes := w\<rparr>"
  have "pbl ?s i = pbl s i" for i by (simp add: pbl_def pbl_addr_def)
  then have "rcnt ?s = rcnt s" "rpages ?s = rpages s" "rbitmap ?s = rbitmap s" "rbase ?s = rbase s"
    by (simp_all add: rcnt_def rpages_def rbitmap_def rbase_def fun_eq_iff)
  moreover from this have "rwords ?s = rwords s" "page_addr ?s = page_addr s" "page_word ?s = page_word s"
    by (simp_all add: rwords_def page_addr_def page_word_def fun_eq_iff)
  moreover from calculation have "region_wf ?s = region_wf s" "regions_apart ?s = regions_apart s" "allocatable ?s = allocatable s"
    "managed ?s = managed s" "page_used ?s = page_used s"
    by (simp_all add: region_wf_def regions_apart_def allocatable_def managed_def page_used_def pbl_def pbl_addr_def fun_eq_iff desc_cells_def)
  ultimately show "pager_inv ?s = pager_inv s" "pager_live ?s = pager_live s" "pager_pool ?s = pager_pool s"
    by (simp_all add: pager_inv_def pager_wf_def hint_ok_def pager_live_def pager_pool_def pbl_def pbl_addr_def)
qed



section \<open>Trimming a region from the front\<close>

text \<open>
  Each reserved region in turn covers the start of the free region and ends inside it. This is what
  the region of the kernel does to every free region behind it, since its start is a byte value.
\<close>

fun cut_front :: "memory_region list \<Rightarrow> u64 \<Rightarrow> u64 \<Rightarrow> bool" where
  "cut_front [] a n \<longleftrightarrow> True"
| "cut_front (r # rs) a n \<longleftrightarrow> rgn_start r \<le> a \<and> rgn_start r + rgn_size r < a + n \<and> cut_front rs (rgn_start r + rgn_size r) n"

lemma cut_front_trim:
  "cut_front (rs @ [r]) a n \<Longrightarrow> remove_reserved_memory_regions (rs @ [r]) [\<lparr>rgn_start = a, rgn_size = n\<rparr>] =
    ret [\<lparr>rgn_start = rgn_start r + rgn_size r, rgn_size = n\<rparr>]"
proof (induction rs arbitrary: a)
  case Nil
  then show ?case by (auto simp: remove_reserved_region.simps Let_def)
next
  case (Cons q rs)
  then have "remove_reserved_region q 0 [\<lparr>rgn_start = a, rgn_size = n\<rparr>] = ret [\<lparr>rgn_start = rgn_start q + rgn_size q, rgn_size = n\<rparr>]"
    by (auto simp: remove_reserved_region.simps Let_def)
  then show ?case using Cons by simp
qed

text \<open>
  A second bank of memory behind the kernel is moved as well: both regions then start at the end of the
  kernel and overlap, so only a machine with one region behind the kernel gets a sound allocator.
\<close>

lemma second_bank_moved:
  assumes "rgn_start k \<le> a" "rgn_start k + rgn_size k < a + n" "rgn_start k \<le> b" "rgn_start k + rgn_size k < b + m"
  shows "remove_reserved_memory_regions [k] [\<lparr>rgn_start = a, rgn_size = n\<rparr>, \<lparr>rgn_start = b, rgn_size = m\<rparr>]
    = ret [\<lparr>rgn_start = rgn_start k + rgn_size k, rgn_size = n\<rparr>, \<lparr>rgn_start = rgn_start k + rgn_size k, rgn_size = m\<rparr>]"
  using assms by (auto simp: remove_reserved_region.simps Let_def)


lemma bitmap_location_cases:
  assumes "e mod 8 = 0"
  shows "bitmap_location e = e \<or> bitmap_location e = e + 8"
proof -
  have "uint e = sint e mod 2 ^ 64" using uint_word_of_int [of "sint e", where 'a = 64] by simp
  moreover have "uint e mod 8 = 0" using arg_cong [OF assms, of uint] by (simp add: uint_mod)
  ultimately have "sint e mod 8 = 0" using mod_mod_cancel [of 8 "2 ^ 64" "sint e"] by simp
  then obtain q where q: "sint e = 8 * q" by auto
  have "(8 * q + 7) sdiv 8 = q \<or> (8 * q + 7) sdiv 8 = q + 1"
  proof (cases "0 \<le> q")
    case False
    then have "sgn (8 * q + 7) = -1" "\<bar>8 * q + 7\<bar> = 1 + 8 * (- q - 1)" "(1 + 8 * (- q - 1)) div 8 = - q - 1" by (simp_all add: sgn_if)
    then show ?thesis by (simp only: signed_divide_int_def) simp
  qed (simp add: signed_divide_int_def sgn_if)
  then have "word_of_int ((sint e + 7) sdiv 8 * 8) = (word_of_int (sint e) :: u64) \<or> word_of_int ((sint e + 7) sdiv 8 * 8) = (word_of_int (sint e + 8) :: u64)"
    unfolding q by (auto simp: algebra_simps)
  then show ?thesis by (auto simp: bitmap_location_def)
qed

lemma table_before_region:
  assumes "unat e + 776 < 2 ^ 64" and "region_ok \<lparr>rgn_start = e + 776, rgn_size = n\<rparr>"
  shows "table_ok (bitmap_location e) [\<lparr>rgn_start = e + 776, rgn_size = n\<rparr>]"
proof -
  have u: "unat (e + 776) = unat e + 776" "unat (e + 8) = unat e + 8" using assms(1) by (simp_all add: unat_word_ariths)
  then have "(unat e + 776) mod 8 = 0" using assms(2) by (simp add: region_ok_def)
  then have m: "unat e mod 8 = 0" by presburger
  then have "e mod 8 = 0" by (simp add: word_unat_eq_iff unat_mod)
  then have "unat (bitmap_location e) = unat e \<or> unat (bitmap_location e) = unat e + 8" using bitmap_location_cases [of e] u by auto
  then show ?thesis using assms u m by (auto simp: table_ok_def apart_def MAX_MEMORY_REGIONS_def)
qed

section \<open>A machine with two megabytes of memory\<close>



definition demo_machine_mem :: mem where
  "demo_machine_mem = (\<lambda>_. 0)(4096 := 0x79726f6d656d, 4104 := 0x676572, 4112 := 0x6465767265736572, 4120 := 0x79726f6d656d2d,
     4128 := 0x208000000000, 4136 := 0x200000000000,
     8192 := 8240, 8240 := 8288, 8248 := 8336, 8256 := 4096,
     8304 := 4104, 8312 := 1, 8320 := 4128, 8328 := 16, 8352 := 4112)"

definition demo_boot :: devices where
  "demo_boot = fs.extend (hart.extend blank_hart (fs.fields 0 0 0 0 0))
     (devices.fields 1 0 8192 0xffffffc080280000 0 0 4096 4104 4112 0)
     \<lparr>uart_dev := (\<lambda>_ _. 0x20), kmem := demo_machine_mem\<rparr>"

lemma demo_boot_simps:
  "kmem demo_boot = demo_machine_mem" "root_device_node demo_boot = 8192" "uart_ready demo_boot"
  "kernel_device_end demo_boot = 0xffffffc080280000" "endian_type demo_boot = init_endian_conversion Little_Host"
  "str_memory demo_boot = 4096" "str_reg demo_boot = 4104" "str_reserved_memory demo_boot = 4112" "str_empty demo_boot = 0"
  "last_free_bitmap demo_boot = 0" "last_free_page_num demo_boot = 0" "kernel_start demo_boot = 0"
  by (auto simp: demo_boot_def uart_ready_def init_endian_conversion_def blank_hart_def blank_sched_def blank_vma_def
      vma.defs sched.defs kernel.defs fs.defs hart.defs devices.defs)

lemmas demo_bytes = demo_machine_mem_def ld8_def cell_of_def lane_of_def




lemma demo_kernel_region: "kernel_region 0xffffffc080280000 demo_boot = \<lparr>rgn_start = 0, rgn_size = 0xffffffc080280308\<rparr>"
  by (simp add: kernel_region_def demo_boot_simps demo_bytes MAX_MEMORY_REGIONS_def)

lemma demo_region_ok: "region_ok \<lparr>rgn_start = 0xffffffc080280308, rgn_size = 0x200000\<rparr>"
  by (simp add: region_ok_def bitmap_words_def region_page_cnt_def region_page_start_def)

lemma demo_cut: "cut_front ([] @ [kernel_region 0xffffffc080280000 demo_boot]) 0xffffffc080200000 0x200000"
  by (simp add: demo_kernel_region)

lemma demo_trim:
  "remove_reserved_memory_regions ([] @ [kernel_region 0xffffffc080280000 demo_boot]) [\<lparr>rgn_start = 0xffffffc080200000, rgn_size = 0x200000\<rparr>]
     = ret [\<lparr>rgn_start = 0xffffffc080280308, rgn_size = 0x200000\<rparr>]"
  using cut_front_trim [OF demo_cut] by (simp add: demo_kernel_region)

lemma demo_boot_table: "table_ok (bitmap_location 0xffffffc080280000) [\<lparr>rgn_start = 0xffffffc080280308, rgn_size = 0x200000\<rparr>]"
  using table_before_region [of "0xffffffc080280000" "0x200000"] demo_region_ok by simp

section \<open>Properties\<close>



end
