(* ===== verification/Elf.thy ===== *)
theory Elf
  imports Device_Parse
begin

text \<open>
  The parser of executables, \<^verbatim>\<open>src/src/kernel/process/elf_parser.c\<close>. It reads the header and the
  tables of an ELF file; nothing is loaded yet. The buffers on the stack are arguments, by their
  address, and so are the structs the code leaves partly unset.

  The lemmas show that the numbers are read in the byte order the header declares, and which answer
  the header gets.
\<close>

abbreviation (input) KEP_SUCCESS :: u64 where "KEP_SUCCESS \<equiv> 0"
abbreviation (input) KEP_IMH :: u64 where "KEP_IMH \<equiv> 2"
abbreviation (input) KEP_IV :: u64 where "KEP_IV \<equiv> 3"
abbreviation (input) KEP_NSET :: u64 where "KEP_NSET \<equiv> 5"
abbreviation (input) KEP_NSAM :: u64 where "KEP_NSAM \<equiv> 6"
abbreviation (input) KEP_IBF :: u64 where "KEP_IBF \<equiv> 7"
abbreviation (input) KEP_IOC :: u64 where "KEP_IOC \<equiv> 8"
abbreviation (input) KEP_RF :: u64 where "KEP_RF \<equiv> 9"
abbreviation (input) OS_CODE :: u8 where "OS_CODE \<equiv> 0x54"
abbreviation (input) ELF_TYPE_EXECUTABLE :: u16 where "ELF_TYPE_EXECUTABLE \<equiv> 2"
abbreviation (input) ELF_MACHINE_RISC_V :: u16 where "ELF_MACHINE_RISC_V \<equiv> 0xF3"

record elf_header =
  is_big_endian :: bool
  operating_system :: u8
  abi :: u8
  object_type :: u16
  arch_type :: u16
  entry :: u64
  start_program_header :: u64
  start_section_header :: u64
  cnt_program_header :: u64
  cnt_section_header :: u64
  idx_section_names :: u64
  arch_flags :: u32

record elf_section =
  sec_type :: u32
  sec_flags :: u64
  sec_virt_addr :: u64
  sec_file_loc :: u64
  sec_size :: u64
  linked_section_idx :: u32
  extra_info :: u32
  sec_alignment :: u64
  entrys_size :: u64

record elf_program =
  prog_type :: u32
  prog_flags :: u32
  prog_file_loc :: u64
  virt_mem_addr :: u64
  phys_mem_addr :: u64
  file_size :: u64
  mem_size :: u64
  prog_alignment :: u64

section \<open>Reading numbers\<close>

definition ld16 :: "mem \<Rightarrow> u64 \<Rightarrow> u16" where
  "ld16 m a = load Little_Host (map (\<lambda>i. ld8 m (a + of_nat i)) [0..<2])"

definition read_u8 :: "u64 \<Rightarrow> 'a devices_scheme \<Rightarrow> u8" where
  "read_u8 ptr s = ld8 (kmem s) ptr"

definition read_u16 :: "u64 \<Rightarrow> elf_header \<Rightarrow> 'a devices_scheme \<Rightarrow> u16" where
  "read_u16 ptr header s =
     (if is_big_endian header then big_endian_u16_to_host (endian_type s) (ld16 (kmem s) ptr)
      else little_endian_u16_to_host (endian_type s) (ld16 (kmem s) ptr))"

definition read_u32 :: "u64 \<Rightarrow> elf_header \<Rightarrow> 'a devices_scheme \<Rightarrow> u32" where
  "read_u32 ptr header s =
     (if is_big_endian header then big_endian_u32_to_host (endian_type s) (ld32 (kmem s) ptr)
      else little_endian_u32_to_host (endian_type s) (ld32 (kmem s) ptr))"

definition read_u64 :: "u64 \<Rightarrow> elf_header \<Rightarrow> 'a devices_scheme \<Rightarrow> u64" where
  "read_u64 ptr header s =
     (if is_big_endian header then big_endian_u64_to_host (endian_type s) (ld64 (kmem s) ptr)
      else little_endian_u64_to_host (endian_type s) (ld64 (kmem s) ptr))"

section \<open>The tables\<close>

definition print_os_code :: "u8 \<Rightarrow> 'a uart_scheme \<Rightarrow> (unit \<times> 'a uart_scheme) run" where
  "print_os_code code s =
     bindr (uart_print_lit ''ELF_PARSER : Invalid OS code ('' s) (\<lambda>(_, s).
     bindr (uart_print_u8_hex code s) (\<lambda>(_, s). uart_print_lit '')'' s))"

text \<open>A line printed before a result is returned.\<close>

definition reject ::
  "('a devices_scheme \<Rightarrow> (unit \<times> 'a devices_scheme) run) \<Rightarrow> u64 \<Rightarrow> elf_header \<Rightarrow> 'a devices_scheme
    \<Rightarrow> ((u64 \<times> elf_header) \<times> 'a devices_scheme) run" where
  "reject print code header s = bindr (print s) (\<lambda>(_, s). ret ((code, header), s))"

text \<open>What \<open>parse_header\<close> does with the 64 bytes it has read; every return leaves the fields set so far.\<close>

definition check_header :: "u64 \<Rightarrow> elf_header \<Rightarrow> 'a devices_scheme \<Rightarrow> ((u64 \<times> elf_header) \<times> 'a devices_scheme) run" where
  "check_header read_data header s =
     (if read_u32 read_data header s = 0x7F454c46 then reject (uart_println_lit ''ELF_PARSER : Invalid magic header'') KEP_IMH header s
      else if read_u8 (read_data + 4) s \<noteq> 2 then reject (uart_println_lit ''ELF_PARSER : Incorrect arch bit format'') KEP_IBF header s
      else
        let header = header\<lparr>is_big_endian := read_u8 (read_data + 5) s = 2\<rparr>;
            header = header\<lparr>operating_system := read_u8 (read_data + 7) s\<rparr>;
            header = header\<lparr>abi := read_u8 (read_data + 8) s\<rparr>
        in if operating_system header \<noteq> OS_CODE then
             reject (print_os_code (operating_system header)) KEP_IOC header s
           else
             let header = header\<lparr>object_type := read_u16 (read_data + 0x10) header s\<rparr>;
                 header = header\<lparr>arch_type := read_u16 (read_data + 0x12) header s\<rparr>
             in if object_type header \<noteq> ELF_TYPE_EXECUTABLE then reject (uart_println_lit ''ELF_PARSER : Unsupported elf type'') KEP_NSET header s
                else if arch_type header \<noteq> ELF_MACHINE_RISC_V then
                  reject (uart_println_lit ''ELF_PARSER : Unsupported architecture machine'') KEP_NSAM header s
                else if read_u8 (read_data + 0x14) s \<noteq> 1 then reject (uart_println_lit ''ELF_PARSER : Unsupported elf version'') KEP_IV header s
                else
                  let header = header\<lparr>entry := read_u64 (read_data + 0x18) header s\<rparr>;
                      header = header\<lparr>start_program_header := read_u64 (read_data + 0x20) header s\<rparr>;
                      header = header\<lparr>start_section_header := read_u64 (read_data + 0x28) header s\<rparr>;
                      header = header\<lparr>arch_flags := read_u32 (read_data + 0x30) header s\<rparr>;
                      header = header\<lparr>cnt_program_header := ucast (read_u16 (read_data + 0x38) header s)\<rparr>;
                      header = header\<lparr>cnt_section_header := ucast (read_u16 (read_data + 0x3C) header s)\<rparr>;
                      header = header\<lparr>idx_section_names := ucast (read_u16 (read_data + 0x3E) header s)\<rparr>
                  in ret ((KEP_SUCCESS, header), s))"

definition parse_header ::
  "u64 \<Rightarrow> u64 \<Rightarrow> elf_header \<Rightarrow> u64 \<Rightarrow> 'a devices_scheme \<Rightarrow> ((u64 \<times> elf_header) \<times> 'a devices_scheme) run" where
  "parse_header read_data file header offset s =
     (let header = header\<lparr>is_big_endian := True\<rparr>
      in bindr (file_descriptor_seek file offset s) (\<lambda>(_, s).
         bindr (file_descriptor_read file read_data 0x40 s) (\<lambda>(read, s).
           if read < 0x40 then ret ((KEP_RF, header), s) else check_header read_data header s)))"

definition section_at :: "u64 \<Rightarrow> elf_header \<Rightarrow> 'a devices_scheme \<Rightarrow> elf_section" where
  "section_at read_data mheader s =
     \<lparr>sec_type = read_u32 (read_data + 0x04) mheader s, sec_flags = read_u64 (read_data + 0x08) mheader s,
      sec_virt_addr = read_u64 (read_data + 0x10) mheader s, sec_file_loc = read_u64 (read_data + 0x18) mheader s,
      sec_size = read_u64 (read_data + 0x20) mheader s, linked_section_idx = read_u32 (read_data + 0x28) mheader s,
      extra_info = read_u32 (read_data + 0x2C) mheader s, sec_alignment = read_u64 (read_data + 0x30) mheader s,
      entrys_size = read_u64 (read_data + 0x38) mheader s\<rparr>"

definition parse_section ::
  "u64 \<Rightarrow> u64 \<Rightarrow> elf_section \<Rightarrow> u64 \<Rightarrow> elf_header \<Rightarrow> 'a devices_scheme \<Rightarrow> ((u64 \<times> elf_section) \<times> 'a devices_scheme) run" where
  "parse_section read_data file header offset mheader s =
     bindr (file_descriptor_seek file offset s) (\<lambda>(_, s).
     bindr (file_descriptor_read file read_data 0x40 s) (\<lambda>(read, s).
       if read < 0x40 then ret ((KEP_RF, header), s) else ret ((KEP_SUCCESS, section_at read_data mheader s), s)))"

definition program_at :: "u64 \<Rightarrow> elf_header \<Rightarrow> 'a devices_scheme \<Rightarrow> elf_program" where
  "program_at read_data mheader s =
     \<lparr>prog_type = read_u32 read_data mheader s, prog_flags = read_u32 (read_data + 0x4) mheader s,
      prog_file_loc = read_u64 (read_data + 0x08) mheader s, virt_mem_addr = read_u64 (read_data + 0x10) mheader s,
      phys_mem_addr = read_u64 (read_data + 0x18) mheader s, file_size = read_u64 (read_data + 0x20) mheader s,
      mem_size = read_u64 (read_data + 0x28) mheader s, prog_alignment = read_u64 (read_data + 0x30) mheader s\<rparr>"

definition parse_program ::
  "u64 \<Rightarrow> u64 \<Rightarrow> elf_program \<Rightarrow> u64 \<Rightarrow> elf_header \<Rightarrow> 'a devices_scheme \<Rightarrow> ((u64 \<times> elf_program) \<times> 'a devices_scheme) run" where
  "parse_program read_data file header offset mheader s =
     bindr (file_descriptor_seek file offset s) (\<lambda>(_, s).
     bindr (file_descriptor_read file read_data 0x38 s) (\<lambda>(read, s).
       if read < 0x38 then ret ((KEP_RF, header), s) else ret ((KEP_SUCCESS, program_at read_data mheader s), s)))"

text \<open>
  The results of the three parsers are dropped. \<open>header\<close>, \<open>program\<close> and \<open>section\<close> hold what the stack held
  before, \<open>read_data\<close> is the address of the buffer of the function called.
\<close>

definition parse_elf ::
  "u64 \<Rightarrow> elf_header \<Rightarrow> elf_program \<Rightarrow> elf_section \<Rightarrow> u64 \<Rightarrow> 'a devices_scheme \<Rightarrow> (u64 \<times> 'a devices_scheme) run" where
  "parse_elf read_data header program sec file s =
     bindr (parse_header read_data file header 0 s) (\<lambda>((_, header), s).
     bindr (for_each [0..<unat (cnt_program_header header)] (\<lambda>i s.
              bindr (parse_program read_data file program (start_program_header header + 0x38 * of_nat i) header s)
                (\<lambda>(_, s). ret ((), s))) s) (\<lambda>(_, s).
     bindr (for_each [0..<unat (cnt_section_header header)] (\<lambda>i s.
              bindr (parse_section read_data file sec (start_section_header header + 0x40 * of_nat i) header s)
                (\<lambda>(_, s). ret ((), s))) s) (\<lambda>(_, s).
       ret (1, s))))"

section \<open>What the header means\<close>

text \<open>A number in a buffer, in the byte order the header declares.\<close>

definition num_at :: "bool \<Rightarrow> u8 list \<Rightarrow> nat \<Rightarrow> nat \<Rightarrow> 'w::len word" where
  "num_at big bs off n = of_bytes (if big then take n (drop off bs) else rev (take n (drop off bs)))"

text \<open>What the fields of the header say, read as the ELF format lays them out.\<close>

definition elf_magic :: "u8 list \<Rightarrow> bool" where
  "elf_magic bs \<longleftrightarrow> take 4 bs = [0x7F, 0x45, 0x4C, 0x46]"

definition elf_type :: "u8 list \<Rightarrow> u16" where
  "elf_type bs = num_at (bs ! 5 = 2) bs 0x10 2"

definition elf_machine :: "u8 list \<Rightarrow> u16" where
  "elf_machine bs = num_at (bs ! 5 = 2) bs 0x12 2"

definition elf_supported :: "u8 list \<Rightarrow> bool" where
  "elf_supported bs \<longleftrightarrow> bs ! 4 = 2 \<and> bs ! 7 = OS_CODE \<and> elf_type bs = ELF_TYPE_EXECUTABLE
     \<and> elf_machine bs = ELF_MACHINE_RISC_V \<and> bs ! 0x14 = 1"

definition elf_fields :: "u8 list \<Rightarrow> elf_header" where
  "elf_fields bs =
     (let big = bs ! 5 = 2
      in \<lparr>is_big_endian = big, operating_system = bs ! 7, abi = bs ! 8, object_type = num_at big bs 0x10 2,
          arch_type = num_at big bs 0x12 2, entry = num_at big bs 0x18 8, start_program_header = num_at big bs 0x20 8,
          start_section_header = num_at big bs 0x28 8, cnt_program_header = ucast (num_at big bs 0x38 2 :: u16),
          cnt_section_header = ucast (num_at big bs 0x3C 2 :: u16), idx_section_names = ucast (num_at big bs 0x3E 2 :: u16),
          arch_flags = num_at big bs 0x30 4\<rparr>)"

lemma holds_bytes:
  assumes "holds m a bs" and "off + n \<le> length bs"
  shows "map (\<lambda>i. ld8 m (a + of_nat off + of_nat i)) [0..<n] = take n (drop off bs)"
  by (rule nth_equalityI) (use holdsD [OF assms(1)] assms(2) in \<open>simp_all add: add.assoc flip: of_nat_add\<close>)

lemma read_num:
  assumes h: "holds (kmem s) a bs" and e: "endian_type s = init_endian_conversion Little_Host"
  shows "off + 2 \<le> length bs \<Longrightarrow> read_u16 (a + of_nat off) header s = num_at (is_big_endian header) bs off 2"
    and "off + 4 \<le> length bs \<Longrightarrow> read_u32 (a + of_nat off) header s = num_at (is_big_endian header) bs off 4"
    and "off + 8 \<le> length bs \<Longrightarrow> read_u64 (a + of_nat off) header s = num_at (is_big_endian header) bs off 8"
    and "off < length bs \<Longrightarrow> read_u8 (a + of_nat off) s = bs ! off"
  unfolding read_u16_def read_u32_def read_u64_def read_u8_def ld16_def ld32_def ld64_def e num_at_def
  by (simp_all add: holds_bytes [OF h] holdsD [OF h]
      e16.big_load [where h = Little_Host, simplified] e16.little_load [where h = Little_Host, simplified]
      e32.big_load [where h = Little_Host, simplified] e32.little_load [where h = Little_Host, simplified]
      e64.big_load [where h = Little_Host, simplified] e64.little_load [where h = Little_Host, simplified])

lemma of_bytes_4_inj:
  assumes "length xs = 4" and "length ys = 4" and "(of_bytes xs :: u32) = of_bytes ys"
  shows "xs = ys"
proof (rule nth_equalityI)
  show "length xs = length ys" using assms by simp
  fix i assume "i < length xs"
  then have i: "i < 4" using assms by simp
  show "xs ! i = ys ! i"
  proof (rule bit_word_eqI)
    fix k :: nat assume "k < LENGTH(8)"
    then have "k < 8" by simp
    let ?n = "8 * (3 - i) + k"
    have n: "?n < 32" "?n div 8 = 3 - i" "?n mod 8 = k" using \<open>k < 8\<close> i by simp_all
    have "bit (of_bytes xs :: u32) ?n = bit (of_bytes ys :: u32) ?n" using assms(3) by simp
    then show "bit (xs ! i) k = bit (ys ! i) k" using n i assms(1,2) by (simp add: bit_of_bytes rev_nth)
  qed
qed

lemma magic_bytes:
  assumes "4 \<le> length bs"
  shows "(num_at True bs 0 4 :: u32) = 0x7F454C46 \<longleftrightarrow> take 4 bs = [0x7F, 0x45, 0x4C, 0x46]"
proof -
  have "(of_bytes [0x7F, 0x45, 0x4C, 0x46] :: u32) = 0x7F454C46" by (simp add: of_bytes_def)
  then show ?thesis using of_bytes_4_inj [of "take 4 bs" "[0x7F, 0x45, 0x4C, 0x46]"] assms by (auto simp: num_at_def)
qed

text \<open>What an answer says about the buffer.\<close>

definition code_ok :: "u8 list \<Rightarrow> u64 \<Rightarrow> bool" where
  "code_ok bs code \<longleftrightarrow> (code = KEP_IMH \<longleftrightarrow> elf_magic bs) \<and> (code = KEP_SUCCESS \<longleftrightarrow> \<not> elf_magic bs \<and> elf_supported bs)
     \<and> (code = KEP_IBF \<longrightarrow> bs ! 4 \<noteq> 2) \<and> (code = KEP_IOC \<longrightarrow> bs ! 7 \<noteq> OS_CODE)
     \<and> (code = KEP_NSET \<longrightarrow> elf_type bs \<noteq> ELF_TYPE_EXECUTABLE) \<and> (code = KEP_NSAM \<longrightarrow> elf_machine bs \<noteq> ELF_MACHINE_RISC_V)
     \<and> (code = KEP_IV \<longrightarrow> bs ! 0x14 \<noteq> 1)
     \<and> code \<in> {KEP_IMH, KEP_IBF, KEP_IOC, KEP_NSET, KEP_NSAM, KEP_IV, KEP_SUCCESS}"

definition answers :: "'a devices_scheme \<Rightarrow> u8 list \<Rightarrow> ((u64 \<times> elf_header) \<times> 'a devices_scheme) run \<Rightarrow> bool" where
  "answers s bs r \<longleftrightarrow> (\<exists>code header k w. r = ret ((code, header), s\<lparr>uart_reads := k, uart_writes := w\<rparr>)
     \<and> code_ok bs code \<and> (code = KEP_SUCCESS \<longrightarrow> header = elf_fields bs))"

lemma reject_answers: "logs s (print s) \<Longrightarrow> code_ok bs code \<Longrightarrow> code \<noteq> 0 \<Longrightarrow> answers s bs (reject print code header s)"
  by (auto simp: answers_def reject_def logs_def)

lemma accept_answers: "code_ok bs KEP_SUCCESS \<Longrightarrow> answers s bs (ret ((KEP_SUCCESS, elf_fields bs), s))"
  by (auto simp: answers_def intro!: exI [of _ "uart_reads s"] exI [of _ "uart_writes s"])

lemma os_code_logs: "uart_ready s \<Longrightarrow> logs s (print_os_code code s)"
  unfolding print_os_code_def uart_print_u8_hex_def
  by (intro logs_bind logs_print prints_logs [OF print_hex_prints]) simp_all

lemma check_header_answers:
  assumes h: "holds (kmem s) a bs" "length bs = 64" and e: "endian_type s = init_endian_conversion Little_Host"
    and ready: "uart_ready s" and b: "is_big_endian header"
  shows "answers s bs (check_header a header s)"
proof -
  note r = read_num [OF h(1) e, unfolded h(2)]
  have n: "read_u32 a header s = num_at True bs 0 4" "read_u8 (a + 4) s = bs ! 4" "read_u8 (a + 5) s = bs ! 5" "read_u8 (a + 7) s = bs ! 7"
    "read_u8 (a + 8) s = bs ! 8" "read_u8 (a + 0x14) s = bs ! 0x14"
    using r(2) [where off = "0" and header = header] r(4) [where off = "4"] r(4) [where off = "5"] r(4) [where off = "7"] r(4) [where off = "8"] r(4) [where off = "0x14"] b by simp_all
  have m: "read_u16 (a + 0x10) g s = num_at (is_big_endian g) bs 0x10 2" "read_u16 (a + 0x12) g s = num_at (is_big_endian g) bs 0x12 2"
    "read_u64 (a + 0x18) g s = num_at (is_big_endian g) bs 0x18 8" "read_u64 (a + 0x20) g s = num_at (is_big_endian g) bs 0x20 8"
    "read_u64 (a + 0x28) g s = num_at (is_big_endian g) bs 0x28 8" "read_u32 (a + 0x30) g s = num_at (is_big_endian g) bs 0x30 4"
    "read_u16 (a + 0x38) g s = num_at (is_big_endian g) bs 0x38 2" "read_u16 (a + 0x3C) g s = num_at (is_big_endian g) bs 0x3C 2"
    "read_u16 (a + 0x3E) g s = num_at (is_big_endian g) bs 0x3E 2" for g
    using r(1) [where off = "0x10" and header = g] r(1) [where off = "0x12" and header = g] r(3) [where off = "0x18" and header = g] r(3) [where off = "0x20" and header = g] r(3) [where off = "0x28" and header = g] r(2) [where off = "0x30" and header = g] r(1) [where off = "0x38" and header = g]
      r(1) [where off = "0x3C" and header = g] r(1) [where off = "0x3E" and header = g] by simp_all
  have mg: "(num_at True bs 0 4 :: u32) = 0x7F454C46 \<longleftrightarrow> take 4 bs = [0x7F, 0x45, 0x4C, 0x46]" by (rule magic_bytes) (simp add: h(2))
  define g1 where "g1 = header\<lparr>is_big_endian := bs ! 5 = 2, operating_system := bs ! 7, abi := bs ! 8\<rparr>"
  define g2 where "g2 = g1\<lparr>object_type := num_at (bs ! 5 = 2) bs 0x10 2, arch_type := num_at (bs ! 5 = 2) bs 0x12 2\<rparr>"
  have run: "check_header a header s =
    (if take 4 bs = [0x7F, 0x45, 0x4C, 0x46] then reject (uart_println_lit ''ELF_PARSER : Invalid magic header'') KEP_IMH header s
     else if bs ! 4 \<noteq> 2 then reject (uart_println_lit ''ELF_PARSER : Incorrect arch bit format'') KEP_IBF header s
     else if bs ! 7 \<noteq> OS_CODE then reject (print_os_code (bs ! 7)) KEP_IOC g1 s
     else if num_at (bs ! 5 = 2) bs 0x10 2 \<noteq> ELF_TYPE_EXECUTABLE then reject (uart_println_lit ''ELF_PARSER : Unsupported elf type'') KEP_NSET g2 s
     else if num_at (bs ! 5 = 2) bs 0x12 2 \<noteq> ELF_MACHINE_RISC_V then reject (uart_println_lit ''ELF_PARSER : Unsupported architecture machine'') KEP_NSAM g2 s
     else if bs ! 0x14 \<noteq> 1 then reject (uart_println_lit ''ELF_PARSER : Unsupported elf version'') KEP_IV g2 s
     else ret ((KEP_SUCCESS, elf_fields bs), s))"
    unfolding check_header_def n m mg Let_def
    by (intro if_cong refl) (simp_all add: g1_def g2_def elf_fields_def Let_def m)
  show ?thesis
    unfolding run
    by (simp add: reject_answers accept_answers logs_print [OF ready] os_code_logs [OF ready] code_ok_def elf_magic_def
        elf_supported_def elf_type_def elf_machine_def del: One_nat_def)
qed

text \<open>A header that is accepted, but for the magic number that is asked not to be there.\<close>

definition demo_elf :: "u8 list" where
  "demo_elf = [0, 0, 0, 0, 2, 1, 1, 0x54, 0, 0, 0, 0, 0, 0, 0, 0, 2, 0, 0xF3, 0, 1, 0, 0, 0, 0, 0x10, 0, 0, 0, 0, 0, 0] @ replicate 32 0"

definition demo_loader :: devices where
  "demo_loader = demo_devices\<lparr>kmem := put_bytes 4096 demo_elf (\<lambda>_. 0)\<rparr>"

lemma demo_loader_simps:
  "holds (kmem demo_loader) 4096 demo_elf" "length demo_elf = 64" "endian_type demo_loader = init_endian_conversion Little_Host" "uart_ready demo_loader"
  using put_bytes_holds [of demo_elf 4096] demo_devices_simps(3)
  by (simp_all add: demo_loader_def demo_elf_def demo_devices_def init_endian_conversion_def uart_ready_def fs.defs hart.defs devices.defs)

lemma demo_elf_code: "\<not> elf_magic demo_elf" "elf_supported demo_elf" "entry (elf_fields demo_elf) = 0x1000"
  by (simp_all add: elf_magic_def elf_supported_def elf_type_def elf_machine_def elf_fields_def demo_elf_def num_at_def of_bytes_def)

section \<open>Properties\<close>

text \<open>
  C18. What the answer of \<open>check_header\<close>, the part of \<open>parse_header\<close> behind the read, says about the 64 bytes
  in the buffer. The code for a bad start of the file is the answer exactly when the buffer does start
  with the ELF magic number: the test is the wrong way round, so that no ELF file is ever accepted. A
  buffer without the magic number is accepted exactly when its fields describe a 64-bit executable of
  version 1 for RISC-V and for this system, and then every field of the header is the number in the
  buffer, in the byte order the buffer declares. Each of the other codes is answered only when the field
  it stands for is wrong. Apart from a line printed nothing changes.
\<close>

theorem check_header_sound:
  assumes "holds (kmem s) a bs" "length bs = 64" and "endian_type s = init_endian_conversion Little_Host"
    and "uart_ready s" and "is_big_endian header"
  shows "\<exists>code header' k w. check_header a header s = ret ((code, header'), s\<lparr>uart_reads := k, uart_writes := w\<rparr>)
    \<and> (code = KEP_IMH \<longleftrightarrow> elf_magic bs) \<and> (code = KEP_SUCCESS \<longleftrightarrow> \<not> elf_magic bs \<and> elf_supported bs)
    \<and> (code = KEP_SUCCESS \<longrightarrow> header' = elf_fields bs)
    \<and> (code = KEP_IBF \<longrightarrow> bs ! 4 \<noteq> 2) \<and> (code = KEP_IOC \<longrightarrow> bs ! 7 \<noteq> OS_CODE)
    \<and> (code = KEP_NSET \<longrightarrow> elf_type bs \<noteq> ELF_TYPE_EXECUTABLE) \<and> (code = KEP_NSAM \<longrightarrow> elf_machine bs \<noteq> ELF_MACHINE_RISC_V)
    \<and> (code = KEP_IV \<longrightarrow> bs ! 0x14 \<noteq> 1)
    \<and> code \<in> {KEP_IMH, KEP_IBF, KEP_IOC, KEP_NSET, KEP_NSAM, KEP_IV, KEP_SUCCESS}"
  using check_header_answers [OF assms] unfolding answers_def code_ok_def by blast

theorem check_header_sound_witness:
  "\<exists>header k w. check_header 4096 ((elf_fields [])\<lparr>is_big_endian := True\<rparr>) demo_loader
     = ret ((KEP_SUCCESS, header), demo_loader\<lparr>uart_reads := k, uart_writes := w\<rparr>) \<and> entry header = 0x1000"
  using check_header_sound [OF demo_loader_simps, of "(elf_fields [])\<lparr>is_big_endian := True\<rparr>"] demo_elf_code by auto

text \<open>A buffer that starts with the magic number is refused, whatever follows.\<close>

lemma elf_magic_refused:
  assumes "holds (kmem s) a bs" and "length bs = 64" and "endian_type s = init_endian_conversion Little_Host"
    and "uart_ready s" and "is_big_endian header" and "elf_magic bs"
  shows "\<exists>header' s'. check_header a header s = ret ((KEP_IMH, header'), s')"
  using check_header_answers [OF assms(1-5)] assms(6) unfolding answers_def code_ok_def by blast

end
