(* ===== verification/Drivers.thy ===== *)
theory Drivers
  imports Device_Parse
begin

text \<open>
  The list of drivers to start, \<^verbatim>\<open>src/src/kernel/devices/driver_manager.c\<close>: entries of two words,
  the boot stage in the low half of the first and the next entry in the second, in the order of
  their stages. The lemmas show that appending is insertion into a sorted list.
\<close>

record drivers = devices +
  root_entry :: u64

abbreviation (input) DBS_ALLOCATOR :: u32 where "DBS_ALLOCATOR \<equiv> 0"

abbreviation (input) next_entry :: "'a machine_scheme \<Rightarrow> u64 \<Rightarrow> u64" where "next_entry s e \<equiv> at s e 1"

definition stage :: "'a machine_scheme \<Rightarrow> u64 \<Rightarrow> u32" where
  "stage s e = at32 s e 0"

partial_function (option) append_driver_from ::
  "u64 \<Rightarrow> u64 \<Rightarrow> 'a drivers_scheme \<Rightarrow> (unit \<times> 'a drivers_scheme) run" where
  "append_driver_from new_entry cur_entry s =
     (let nxt = next_entry s cur_entry
      in if nxt = 0 then ret ((), set_at cur_entry 1 new_entry s)
         else if stage s new_entry \<le> stage s nxt then
           ret ((), set_at cur_entry 1 new_entry (set_at new_entry 1 nxt s))
         else append_driver_from new_entry nxt s)"

definition append_driver :: "u64 \<Rightarrow> 'a drivers_scheme \<Rightarrow> (unit \<times> 'a drivers_scheme) run" where
  "append_driver new_entry s =
     (let s = set_at new_entry 1 0 s
      in if root_entry s = 0 then ret ((), s\<lparr>root_entry := new_entry\<rparr>)
         else if stage s new_entry \<le> stage s (root_entry s) then
           ret ((), (set_at new_entry 1 (root_entry s) s)\<lparr>root_entry := new_entry\<rparr>)
         else append_driver_from new_entry (root_entry s) s)"

definition fetch_driver :: "u32 \<Rightarrow> 'a drivers_scheme \<Rightarrow> u64 \<times> 'a drivers_scheme" where
  "fetch_driver cur_stage s =
     (if root_entry s = 0 then (0, s)
      else if cur_stage < stage s (root_entry s) then (0, s)
      else (root_entry s, s\<lparr>root_entry := next_entry s (root_entry s)\<rparr>))"

definition init_drivers :: "'a drivers_scheme \<Rightarrow> 'a drivers_scheme" where
  "init_drivers s = s\<lparr>root_entry := 0\<rparr>"

section \<open>The list of drivers\<close>

fun driver_chain :: "'a machine_scheme \<Rightarrow> u64 \<Rightarrow> u64 list \<Rightarrow> bool" where
  "driver_chain s p [] \<longleftrightarrow> p = 0"
| "driver_chain s p (x # xs) \<longleftrightarrow> p = x \<and> x \<noteq> 0 \<and> driver_chain s (next_entry s x) xs"

text \<open>Two-word entries that do not overlap.\<close>

definition entries :: "u64 list \<Rightarrow> bool" where
  "entries xs \<longleftrightarrow> distinct xs \<and> (\<forall>x \<in> set xs. \<forall>y \<in> set xs. x + 8 \<noteq> y)"

lemma entry_set [simp]:
  "at (set_at x 1 v s) y 1 = (if x = y then v else at s y 1)"
  "x + 8 \<noteq> y \<Longrightarrow> stage (set_at x 1 v s) y = stage s y"
  "root_entry (set_at x 1 v t) = root_entry t"
  "at (t\<lparr>root_entry := v\<rparr>) y i = at t y i"
  by (simp_all add: at_def set_at_def stage_def at32_def)

lemma chain_set: "x \<notin> set xs \<Longrightarrow> driver_chain (set_at x 1 v s) p xs = driver_chain s p xs"
  by (induction xs arbitrary: p) auto

lemma chain_root: "driver_chain (t\<lparr>root_entry := v\<rparr>) p xs = driver_chain t p xs"
  by (induction xs arbitrary: p) (auto simp: at_def)

lemma insort_key_same: "\<forall>y \<in> set (n # xs). f y = g y \<Longrightarrow> insort_key f n xs = insort_key g n xs"
  by (induction xs) auto

lemma entriesD:
  assumes "entries (x # xs)"
  shows "x \<notin> set xs" "entries xs" "y \<in> set (x # xs) \<Longrightarrow> z \<in> set (x # xs) \<Longrightarrow> y + 8 \<noteq> z"
  using assms by (auto simp: entries_def)

lemma entries_swap: "entries (n # x # xs) \<Longrightarrow> entries (n # xs)"
  by (auto simp: entries_def)

text \<open>The loop, from an entry with a smaller stage on.\<close>

lemma append_driver_from_sound:
  fixes s :: "'a drivers_scheme"
  assumes "driver_chain s x (x # xs)" and "entries (n # x # xs)" and "n \<noteq> 0" and "stage s x < stage s n" and "next_entry s n = 0"
  shows "\<exists>s'. append_driver_from n x s = ret ((), s') \<and> driver_chain s' x (x # insort_key (stage s) n xs)
    \<and> root_entry s' = root_entry s \<and> (\<forall>y \<in> set (n # x # xs). stage s' y = stage s y)
    \<and> (\<forall>a. a \<notin> (\<lambda>e. e + 8) ` set (n # x # xs) \<longrightarrow> kmem s' a = kmem s a)"
  using assms
proof (induction xs arbitrary: x)
  case Nil
  then show ?case by (subst append_driver_from.simps) (auto simp: entries_def at_def set_at_def stage_def at32_def)
next
  case (Cons y ys)
  have y: "next_entry s x = y" "y \<noteq> 0" "driver_chain s y (y # ys)" using Cons.prems(1) by auto
  show ?case
  proof (cases "stage s n \<le> stage s y")
    case True
    define s' where "s' = set_at x 1 n (set_at n 1 y s)"
    have run: "append_driver_from n x s = ret ((), s')"
      by (subst append_driver_from.simps) (simp add: y True s'_def)
    have e: "x \<noteq> n" "x \<notin> set (y # ys)" "n \<notin> set (y # ys)" "\<forall>z \<in> set (n # x # y # ys). x + 8 \<noteq> z \<and> n + 8 \<noteq> z"
      using Cons.prems(2) by (auto simp: entries_def)
    have "driver_chain s' x (x # insort_key (stage s) n (y # ys))"
      using e y True Cons.prems by (simp add: s'_def chain_set del: driver_chain.simps(2)) (simp add: chain_set)
    moreover have "\<forall>z \<in> set (n # x # y # ys). stage s' z = stage s z" using e(4) by (simp add: s'_def)
    moreover have "\<forall>a. a \<notin> (\<lambda>e. e + 8) ` set (n # x # y # ys) \<longrightarrow> kmem s' a = kmem s a" by (auto simp: s'_def set_at_def)
    ultimately show ?thesis using run by (auto simp: s'_def)
  next
    case False
    then have "append_driver_from n x s = append_driver_from n y s"
      by (subst append_driver_from.simps) (simp add: y)
    moreover have "entries (n # y # ys)" by (rule entries_swap [OF Cons.prems(2)])
    moreover have "stage s y < stage s n" using False by simp
    ultimately have run: "append_driver_from n x s = append_driver_from n y s" and
      IH: "\<exists>s'. append_driver_from n y s = ret ((), s') \<and> driver_chain s' y (y # insort_key (stage s) n ys)
        \<and> root_entry s' = root_entry s \<and> (\<forall>z \<in> set (n # y # ys). stage s' z = stage s z)
        \<and> (\<forall>a. a \<notin> (\<lambda>e. e + 8) ` set (n # y # ys) \<longrightarrow> kmem s' a = kmem s a)"
      using Cons.IH [OF y(3) _ Cons.prems(3) _ Cons.prems(5)] by simp_all
    from IH obtain s' where s': "append_driver_from n x s = ret ((), s')" "driver_chain s' y (y # insort_key (stage s) n ys)"
      "root_entry s' = root_entry s" "\<forall>z \<in> set (n # y # ys). stage s' z = stage s z"
      "\<forall>a. a \<notin> (\<lambda>e. e + 8) ` set (n # y # ys) \<longrightarrow> kmem s' a = kmem s a" unfolding run by blast
    have "x + 8 \<notin> (\<lambda>e. e + 8) ` set (n # y # ys)" "x \<notin> (\<lambda>e. e + 8) ` set (n # y # ys)"
      using Cons.prems(2) by (auto simp: entries_def)
    then have "kmem s' (x + 8) = kmem s (x + 8)" "kmem s' x = kmem s x" using s'(5) by blast+
    then have "next_entry s' x = y" "stage s' x = stage s x" using y(1) by (simp_all add: at_def stage_def at32_def)
    then show ?thesis using s' False Cons.prems(1) by auto
  qed
qed

text \<open>A list of one driver of stage 1 at address 4096, and a driver of stage 0 at 8192.\<close>

definition demo_drivers :: drivers where
  "demo_drivers = devices.extend demo_devices (drivers.fields 4096)\<lparr>kmem := (\<lambda>_. 0)(4096 := 1)\<rparr>"

lemma demo_drivers_list: "driver_chain demo_drivers (root_entry demo_drivers) [4096]" "stage demo_drivers 4096 = 1" "stage demo_drivers 8192 = 0"
  by (simp_all add: demo_drivers_def drivers.defs devices.defs at_def stage_def at32_def)

section \<open>Properties\<close>

text \<open>
  C40. \<open>append_driver\<close> puts an entry into the list in front of the first entry of the same or a later
  stage, so that a list in the order of the stages stays in order; it keeps the stage of every entry
  and changes nothing but the links of the entries.
\<close>

theorem append_driver_sound:
  fixes s :: "'a drivers_scheme"
  assumes c: "driver_chain s (root_entry s) xs" and e: "entries (n # xs)" and n: "n \<noteq> 0"
  shows "\<exists>s'. append_driver n s = ret ((), s') \<and> driver_chain s' (root_entry s') (insort_key (stage s) n xs)
    \<and> (\<forall>y \<in> set (n # xs). stage s' y = stage s y)
    \<and> (\<forall>a. a \<notin> (\<lambda>e. e + 8) ` set (n # xs) \<longrightarrow> kmem s' a = kmem s a)
    \<and> (sorted (map (stage s) xs) \<longrightarrow> sorted (map (stage s') (insort_key (stage s) n xs)))"
proof -
  define s0 where "s0 = set_at n 1 0 s"
  have st: "\<forall>y \<in> set (n # xs). stage s0 y = stage s y" using e by (auto simp: s0_def entries_def)
  have c0: "driver_chain s0 (root_entry s0) xs" using c entriesD(1) [OF e] by (simp add: s0_def chain_set)
  have k0: "\<forall>a. a \<notin> (\<lambda>e. e + 8) ` set (n # xs) \<longrightarrow> kmem s0 a = kmem s a" by (auto simp: s0_def set_at_def)
  have "\<exists>s'. append_driver n s = ret ((), s') \<and> driver_chain s' (root_entry s') (insort_key (stage s) n xs)
    \<and> (\<forall>y \<in> set (n # xs). stage s' y = stage s y) \<and> (\<forall>a. a \<notin> (\<lambda>e. e + 8) ` set (n # xs) \<longrightarrow> kmem s' a = kmem s a)"
  proof (cases xs)
    case Nil
    then show ?thesis using c n st k0 by (auto simp: append_driver_def Let_def s0_def [symmetric] s0_def at_def set_at_def stage_def at32_def)
  next
    case (Cons x ys)
    have x: "root_entry s = x" "x \<noteq> 0" "driver_chain s0 x (x # ys)" "root_entry s0 = x" using c c0 Cons by (auto simp: s0_def)
    show ?thesis
    proof (cases "stage s n \<le> stage s x")
      case True
      define s' where "s' = (set_at n 1 x s0)\<lparr>root_entry := n\<rparr>"
      have run: "append_driver n s = ret ((), s')"
        using True x st Cons by (simp add: append_driver_def Let_def s0_def [symmetric] s'_def)
      have "n \<notin> set (x # ys)" using entriesD(1) [OF e] Cons by simp
      from chain_set [OF this, of x s0 x] have "driver_chain (set_at n 1 x s0) x (x # ys)" using x(3) by simp
      then have "driver_chain s' n (n # x # ys)" unfolding s'_def chain_root driver_chain.simps(2) [of _ _ n] using n by simp
      moreover have "\<forall>y \<in> set (n # xs). stage s' y = stage s y" using st e by (auto simp: s'_def entries_def stage_def at32_def at_def set_at_def)
      moreover have "\<forall>a. a \<notin> (\<lambda>e. e + 8) ` set (n # xs) \<longrightarrow> kmem s' a = kmem s a" using k0 by (auto simp: s'_def set_at_def)
      ultimately show ?thesis using run True Cons by (auto simp: s'_def)
    next
      case False
      have run: "append_driver n s = append_driver_from n x s0"
        using False x st Cons by (simp add: append_driver_def Let_def s0_def [symmetric])
      have z: "next_entry s0 n = 0" "stage s0 x < stage s0 n" using False st Cons by (simp_all add: s0_def)
      obtain s' where s': "append_driver_from n x s0 = ret ((), s')" "driver_chain s' x (x # insort_key (stage s0) n ys)" "root_entry s' = x"
        "\<forall>y \<in> set (n # xs). stage s' y = stage s0 y" "\<forall>a. a \<notin> (\<lambda>e. e + 8) ` set (n # xs) \<longrightarrow> kmem s' a = kmem s0 a"
        using append_driver_from_sound [OF x(3) e [unfolded Cons] n z(2,1)] x(4) Cons by auto
      have "insort_key (stage s0) n ys = insort_key (stage s) n ys" by (rule insort_key_same) (use st Cons in auto)
      then show ?thesis using run s' st k0 False Cons by auto
    qed
  qed
  then obtain s' where s': "append_driver n s = ret ((), s')" "driver_chain s' (root_entry s') (insort_key (stage s) n xs)"
    "\<forall>y \<in> set (n # xs). stage s' y = stage s y" "\<forall>a. a \<notin> (\<lambda>e. e + 8) ` set (n # xs) \<longrightarrow> kmem s' a = kmem s a" by blast
  have eq: "map (stage s') (insort_key (stage s) n xs) = map (stage s) (insort_key (stage s) n xs)"
    using s'(3) by (intro map_cong refl) (auto simp: set_insort_key)
  have "sorted (map (stage s) xs) \<longrightarrow> sorted (map (stage s') (insort_key (stage s) n xs))" unfolding eq by (simp add: sorted_insort_key)
  then show ?thesis using s' by blast
qed

theorem append_driver_sound_witness:
  "\<exists>s'. append_driver 8192 demo_drivers = ret ((), s') \<and> driver_chain s' (root_entry s') [8192, 4096] \<and> stage s' 4096 = 1"
proof -
  have "entries [8192, 4096]" by (simp add: entries_def)
  from append_driver_sound [OF demo_drivers_list(1) this] show ?thesis using demo_drivers_list by auto
qed

end
