(* ===== verification/File_Rw.thy ===== *)
theory File_Rw
  imports File_System
begin

text \<open>
  Writing to a file and reading back, within the first page of the file: the loops over the bytes of
  a page are copies of memory, and the page is found through the first radix root of the inode.
\<close>

section \<open>Bytes of one page\<close>

definition span :: "u64 \<Rightarrow> nat \<Rightarrow> u64 set" where
  "span a n = {cell_of (a + of_nat i) | i. i < n}"

lemma copy_bytes_front: "copy_bytes (Suc n) dst src m = copy_bytes n (dst + 1) (src + 1) (st8 m dst (ld8 m src))"
proof (induction n)
  case (Suc n)
  show ?case unfolding copy_bytes.simps(2) [of "Suc n"] Suc by (simp add: Let_def add.assoc)
qed simp

lemma copy_bytes_frame: "x \<notin> span dst n \<Longrightarrow> copy_bytes n dst src m x = m x"
proof (induction n)
  case (Suc n)
  then have "x \<notin> span dst n" "x \<noteq> cell_of (dst + of_nat n)" by (auto simp: span_def)
  then show ?case using Suc.IH by (simp add: Let_def st8_other_cell)
qed simp

lemma page_offset: "off < 4096 \<Longrightarrow> (of_nat off :: u64) mod 4096 = of_nat off"
  by (simp add: word_unat_eq_iff unat_mod unat_of_nat)

lemma write_page_copy: "off + n \<le> 4096 \<Longrightarrow> write_page n P (of_nat off) src m = copy_bytes n (P + of_nat off) src m"
proof (induction n arbitrary: off src m)
  case (Suc n)
  have e: "of_nat off + 1 = (of_nat (Suc off) :: u64)" "P + of_nat off + 1 = P + of_nat (Suc off)" by simp_all
  show ?case using Suc.prems Suc.IH [of "Suc off" "src + 1"]
    unfolding write_page.simps copy_bytes_front e by (simp add: page_offset del: of_nat_Suc)
qed simp

lemma read_page_copy: "off + n \<le> 4096 \<Longrightarrow> read_page n P (of_nat off) dst m = copy_bytes n dst (P + of_nat off) m"
proof (induction n arbitrary: off dst m)
  case (Suc n)
  have e: "of_nat off + 1 = (of_nat (Suc off) :: u64)" "P + of_nat off + 1 = P + of_nat (Suc off)" by simp_all
  show ?case using Suc.prems Suc.IH [of "Suc off" "dst + 1"]
    unfolding read_page.simps copy_bytes_front e by (simp add: page_offset del: of_nat_Suc)
qed simp

section \<open>The first page of a file\<close>

text \<open>An open file with its first page \<open>P\<close>, found through the first radix root.\<close>

definition first_page :: "u64 \<Rightarrow> u64 \<Rightarrow> u64 \<Rightarrow> u64 \<Rightarrow> 'a machine_scheme \<Rightarrow> bool" where
  "first_page desc file root P s \<longleftrightarrow> at s desc 0 = file \<and> at32 s file 1 = INODE_FILE \<and> at s file 3 = root \<and> at s root 0 = P \<and> P \<noteq> 0"

definition file_words :: "u64 \<Rightarrow> u64 \<Rightarrow> u64 \<Rightarrow> u64 set" where
  "file_words desc file root = {desc, desc + 8, file + 8, file + 16, file + 24, root}"

lemma clzl_1: "clzl 1 = 63"
  by (simp add: clzl_def) code_simp

lemma find_first_page:
  assumes "first_page desc file root P s" and "off < 4096"
  shows "find_page_start (of_nat off) file s = ret (P, s)"
proof -
  have "(of_nat off :: u64) div 4096 = 0" using assms(2) by (simp add: word_unat_eq_iff unat_div unat_of_nat)
  then show ?thesis using assms(1) unfolding find_page_start_def
    by (simp add: clzl_1 find_page_loop.simps radix_get_def radix_mask_def first_page_def)
qed

lemma first_page_frame:
  assumes "first_page desc file root P s" and "\<And>x. x \<in> {desc, file + 8, file + 24, root} \<Longrightarrow> kmem s' x = kmem s x"
  shows "first_page desc file root P s'"
  using assms by (auto simp: first_page_def at_def at32_def)

lemma page_end_within: "0 < n \<Longrightarrow> pos + n \<le> 4096 \<Longrightarrow> page_end (of_nat n) (of_nat pos) = of_nat n"
proof -
  assume n: "0 < n" "pos + n \<le> 4096"
  then have "(4096 :: u64) - of_nat pos = of_nat (4096 - pos)" by (simp add: of_nat_diff)
  moreover have "unat (of_nat n :: u64) = n" "unat (of_nat (4096 - pos) :: u64) = 4096 - pos"
    using unat_small [of n] unat_small [of "4096 - pos"] n by simp_all
  then have "(of_nat n :: u64) \<le> of_nat (4096 - pos)" using n by (simp only: word_le_nat_alt)
  ultimately show ?thesis using n by (simp add: page_end_def page_offset)
qed

lemma write_loop_page:
  assumes f: "first_page desc file root P s" and n: "0 < n" "pos + n \<le> 4096"
  shows "file_write_loop file (of_nat n) (of_nat pos) src s =
    ret (of_nat (pos + n), s\<lparr>kmem := copy_bytes n (P + of_nat pos) src (kmem s)\<rparr>)"
proof -
  have u: "unat (of_nat n :: u64) = n" "(0 :: u64) < of_nat n" using n by (simp_all add: unat_of_nat word_less_nat_alt)
  have "file_write_loop file 0 (of_nat (pos + n)) (src + of_nat n) t = ret (of_nat (pos + n), t)" for t :: "'a allocator_scheme"
    by (subst file_write_loop.simps) simp
  then show ?thesis
    using u n by (subst file_write_loop.simps) (simp add: find_first_page [OF f] page_end_within write_page_copy Let_def)
qed

lemma read_loop_page:
  assumes f: "first_page desc file root P s" and n: "0 < n" "pos + n \<le> 4096"
  shows "file_read_loop file (of_nat n) (of_nat pos) dst s =
    ret (of_nat (pos + n), s\<lparr>kmem := copy_bytes n dst (P + of_nat pos) (kmem s)\<rparr>)"
proof -
  have u: "unat (of_nat n :: u64) = n" "(0 :: u64) < of_nat n" using n by (simp_all add: unat_of_nat word_less_nat_alt)
  have "file_read_loop file 0 (of_nat (pos + n)) (dst + of_nat n) t = ret (of_nat (pos + n), t)" for t :: "'a allocator_scheme"
    by (subst file_read_loop.simps) simp
  then show ?thesis
    using u n by (subst file_read_loop.simps) (simp add: find_first_page [OF f] page_end_within read_page_copy Let_def)
qed

section \<open>Writing and reading back\<close>

lemma irq_disable_kmem: "(irq_disable s)\<lparr>kmem := kmem s\<rparr> = irq_disable s" "irq_disable ((irq_disable s)\<lparr>kmem := m\<rparr>) = (irq_disable s)\<lparr>kmem := m\<rparr>"
  "irq_disable (irq_enable ((irq_disable s)\<lparr>kmem := m\<rparr>)) = (irq_disable s)\<lparr>kmem := m\<rparr>"
  by (simp_all add: irq_disable_def irq_enable_def and.assoc bit.conj_disj_distrib2)

lemma write_page_run:
  assumes f: "first_page desc file root P s" and p: "at s desc 1 = of_nat pos" and n: "0 < n" "pos + n \<le> 4096"
    and w: "distinct [desc, desc + 8, file + 8, file + 16, file + 24, root]"
    and apart: "file_words desc file root \<inter> span (P + of_nat pos) n = {}"
  shows "file_descriptor_write desc src (of_nat n) s = ret (of_nat n, (irq_disable s)\<lparr>kmem := (copy_bytes n (P + of_nat pos) src (kmem s))
    (desc + 8 := of_nat (pos + n), file + 16 := max (at s file 2) (of_nat (pos + 2 * n)))\<rparr>)"
proof -
  define m1 where "m1 = copy_bytes n (P + of_nat pos) src (kmem s)"
  define s0 where "s0 = irq_disable s"
  have k0: "kmem s0 = kmem s" by (simp add: s0_def irq_disable_def)
  have a0: "at s0 a i = at s a i" "at32 s0 a i = at32 s a i" for a i by (simp_all add: k0 at_def at32_def)
  have f0: "first_page desc file root P s0" by (rule first_page_frame [OF f]) (simp add: k0)
  define s1 where "s1 = s0\<lparr>kmem := m1\<rparr>"
  have m1: "m1 x = kmem s x" if "x \<in> file_words desc file root" for x
    unfolding m1_def by (rule copy_bytes_frame) (use that apart in blast)
  have loop: "file_write_loop file (of_nat n) (at s0 desc 1) src s0 = ret (of_nat (pos + n), s1)"
    using write_loop_page [OF f0 n, of src] p by (simp add: a0 k0 s1_def m1_def)
  define s2 where "s2 = set_at desc 1 (of_nat (pos + n)) s1"
  have "at s2 file 2 = at s file 2" "at s2 desc 1 = of_nat (pos + n)"
    using w m1 [of "file + 16"] by (auto simp: s2_def s1_def at_def set_at_def file_words_def)
  moreover have "of_nat n + of_nat (pos + n) = (of_nat (pos + 2 * n) :: u64)" by simp
  ultimately have "file_descriptor_write desc src (of_nat n) s = ret (of_nat n, set_at file 2 (max (at s file 2) (of_nat (pos + 2 * n))) s2)"
    using f loop unfolding file_descriptor_write_def s0_def [symmetric] Let_def
    by (simp add: a0 first_page_def s2_def [symmetric] del: of_nat_add)
  then show ?thesis by (simp add: s2_def s1_def s0_def m1_def set_at_def)
qed

lemma read_page_run:
  assumes f: "first_page desc file root P s" and p: "at s desc 1 = of_nat pos" and n: "0 < n" "pos + n \<le> 4096"
    and size: "of_nat (pos + 2 * n) \<le> at s file 2"
  shows "file_descriptor_read desc dst (of_nat n) s = ret (of_nat n, (irq_disable s)\<lparr>kmem :=
    (copy_bytes n dst (P + of_nat pos) (kmem s))(desc + 8 := of_nat (pos + n))\<rparr>)"
proof -
  define s0 where "s0 = irq_disable s"
  have k0: "kmem s0 = kmem s" by (simp add: s0_def irq_disable_def)
  have a0: "at s0 a i = at s a i" "at32 s0 a i = at32 s a i" for a i by (simp_all add: k0 at_def at32_def)
  have f0: "first_page desc file root P s0" by (rule first_page_frame [OF f]) (simp add: k0)
  have u: "pos + 2 * n \<le> unat (at s file 2)" using size n by (simp add: word_le_nat_alt unat_of_nat del: of_nat_add of_nat_mult)
  have up: "unat (of_nat pos :: u64) = pos" "unat (of_nat n :: u64) = n" using n by (simp_all add: unat_of_nat)
  have le: "(of_nat pos :: u64) \<le> at s file 2" using u up by (simp add: word_le_nat_alt)
  then have "unat (at s file 2 - of_nat pos) = unat (at s file 2) - pos" using up by (simp add: unat_sub)
  then have m: "min (of_nat n) (at s file 2 - of_nat pos) = (of_nat n :: u64)" using u up by (intro min_absorb1) (simp add: word_le_nat_alt)
  have nz: "(of_nat n :: u64) \<noteq> 0" using up(2) n(1) by auto
  define s1 where "s1 = s0\<lparr>kmem := copy_bytes n dst (P + of_nat pos) (kmem s)\<rparr>"
  have loop: "file_read_loop file (of_nat n) (of_nat pos) dst s0 = ret (of_nat (pos + n), s1)"
    using read_loop_page [OF f0 n, of dst] by (simp add: k0 s1_def)
  have "file_descriptor_read desc dst (of_nat n) s = ret (of_nat n, set_at desc 1 (of_nat (pos + n)) s1)"
    using f loop le nz unfolding file_descriptor_read_def s0_def [symmetric] Let_def
    by (simp add: a0 first_page_def p m del: of_nat_add)
  then show ?thesis by (simp add: s1_def s0_def set_at_def)
qed

text \<open>An open file with one page, at position 5, and three bytes to write.\<close>

definition demo_file :: hart where
  "demo_file = blank_hart\<lparr>kmem := (\<lambda>_. 0)(4120 := 8192, 8192 := 16384, 12288 := 4096, 12296 := 5, 20480 := 0x216968)\<rparr>"

lemma span_3: "span a 3 = {cell_of a, cell_of (a + 1), cell_of (a + 2)}" "bytes a 3 = {a, a + 1, a + 2}"
  by (auto simp: span_def bytes_def numeral_3_eq_3 less_Suc_eq intro: exI [of _ 0] exI [of _ 1] exI [of _ 2])

lemma demo_file_ok: "first_page 12288 4096 8192 16384 demo_file" "at demo_file 12288 1 = of_nat 5"
  by (simp_all add: first_page_def demo_file_def at_def at32_def)

lemma demo_file_apart:
  "file_words 12288 4096 8192 \<inter> span (16384 + of_nat 5) 3 = {}" "file_words 12288 4096 8192 \<inter> span 24576 3 = {}"
  "bytes (16384 + of_nat 5) 3 \<inter> bytes 20480 3 = {}" "bytes 24576 3 \<inter> bytes (16384 + of_nat 5) 3 = {}"
  by (simp_all add: span_3 file_words_def cell_of_def)

section \<open>Properties\<close>

text \<open>
  C16. What is written to a file is read back: writing \<open>n\<close> bytes at a position, seeking back to the
  position and reading \<open>n\<close> bytes, all within the first page of an open file, return \<open>n\<close> and put the bytes
  of the source into the page of the file and into the destination. The position is then behind these
  bytes, and the size is at least the position plus \<open>n\<close> once more, since the code adds the length to the
  position it has already moved. Every other byte of memory keeps its value. Writing and reading both
  return with the interrupts switched off: the \<open>return\<close> inside the \<open>switch\<close> skips \<open>irq_enable\<close>. Nothing
  else of the machine changes.
\<close>

theorem file_write_read_back:
  assumes f: "first_page desc file root P s" and p: "at s desc 1 = of_nat pos" and n: "0 < n" "pos + n \<le> 4096"
    and w: "distinct [desc, desc + 8, file + 8, file + 16, file + 24, root]"
    and apart: "file_words desc file root \<inter> span (P + of_nat pos) n = {}" "file_words desc file root \<inter> span dst n = {}"
      "bytes (P + of_nat pos) n \<inter> bytes src n = {}" "bytes dst n \<inter> bytes (P + of_nat pos) n = {}"
  shows "\<exists>m1 s2 m3. file_descriptor_write desc src (of_nat n) s = ret (of_nat n, (irq_disable s)\<lparr>kmem := m1\<rparr>)
    \<and> file_descriptor_seek desc (of_nat pos) ((irq_disable s)\<lparr>kmem := m1\<rparr>) = ret ((), s2)
    \<and> file_descriptor_read desc dst (of_nat n) s2 = ret (of_nat n, (irq_disable s)\<lparr>kmem := m3\<rparr>)
    \<and> (\<forall>i<n. ld8 m1 (P + of_nat pos + of_nat i) = ld8 (kmem s) (src + of_nat i)
        \<and> ld8 m3 (P + of_nat pos + of_nat i) = ld8 (kmem s) (src + of_nat i) \<and> ld8 m3 (dst + of_nat i) = ld8 (kmem s) (src + of_nat i))
    \<and> m3 (desc + 8) = of_nat (pos + n) \<and> m3 (file + 16) = max (at s file 2) (of_nat (pos + 2 * n))
    \<and> (\<forall>a. a \<notin> bytes (P + of_nat pos) n \<and> cell_of a \<notin> {desc + 8, file + 16} \<longrightarrow>
        ld8 m1 a = ld8 (kmem s) a \<and> (a \<notin> bytes dst n \<longrightarrow> ld8 m3 a = ld8 (kmem s) a))"
proof -
  let ?P = "P + of_nat pos" and ?size = "max (at s file 2) (of_nat (pos + 2 * n))"
  define c1 where "c1 = copy_bytes n ?P src (kmem s)"
  define m2 where "m2 = c1(desc + 8 := of_nat pos, file + 16 := ?size)"
  define s2 where "s2 = irq_enable ((irq_disable s)\<lparr>kmem := m2\<rparr>)"
  define c3 where "c3 = copy_bytes n dst ?P m2"
  let ?m1 = "c1(desc + 8 := of_nat (pos + n), file + 16 := ?size)" and ?m3 = "c3(desc + 8 := of_nat (pos + n))"
  have wr: "file_descriptor_write desc src (of_nat n) s = ret (of_nat n, (irq_disable s)\<lparr>kmem := ?m1\<rparr>)"
    unfolding c1_def by (rule write_page_run [OF f p n w apart(1)])
  have ne: "file + 16 \<noteq> desc + 8" using w by auto
  have seek: "file_descriptor_seek desc (of_nat pos) ((irq_disable s)\<lparr>kmem := ?m1\<rparr>) = ret ((), s2)"
    using ne by (simp add: file_descriptor_seek_def irq_disable_kmem s2_def set_at_def m2_def fun_upd_twist)
  have k2: "kmem s2 = m2" by (simp add: s2_def irq_enable_def)
  have f2: "first_page desc file root P s2"
  proof (rule first_page_frame [OF f])
    fix x assume x: "x \<in> {desc, file + 8, file + 24, root}"
    then have "x \<notin> span ?P n" using apart(1) by (auto simp: file_words_def)
    then show "kmem s2 x = kmem s x" using copy_bytes_frame [of x ?P n] x w by (auto simp: k2 m2_def c1_def)
  qed
  have "at s2 desc 1 = of_nat pos" "of_nat (pos + 2 * n) \<le> at s2 file 2" using ne by (simp_all add: at_def k2 m2_def)
  then have rd: "file_descriptor_read desc dst (of_nat n) s2 = ret (of_nat n, (irq_disable s)\<lparr>kmem := ?m3\<rparr>)"
    using read_page_run [OF f2 _ n, of dst] by (simp add: k2 [unfolded s2_def] c3_def s2_def irq_disable_kmem)
  have c: "n \<le> 2 ^ 64" using n by simp
  have out: "desc + 8 \<notin> span dst n" "desc + 8 \<notin> span ?P n" "file + 16 \<notin> span ?P n" "file + 16 \<notin> span dst n"
    using apart(1,2) by (auto simp: file_words_def)
  note b1 = copy_bytes_ld8 [OF apart(3) c, of _ "kmem s", folded c1_def] and b3 = copy_bytes_ld8 [OF apart(4) c, of _ m2, folded c3_def]
  have "ld8 ?m1 (?P + of_nat i) = ld8 (kmem s) (src + of_nat i)
      \<and> ld8 ?m3 (?P + of_nat i) = ld8 (kmem s) (src + of_nat i) \<and> ld8 ?m3 (dst + of_nat i) = ld8 (kmem s) (src + of_nat i)" if i: "i < n" for i
  proof -
    have e: "cell_of (dst + of_nat i) \<noteq> desc + 8" "cell_of (?P + of_nat i) \<noteq> desc + 8" "cell_of (?P + of_nat i) \<noteq> file + 16"
      using out i by (auto simp: span_def)
    have "?P + of_nat i \<in> bytes ?P n" using i by (auto simp: bytes_def)
    then have "?P + of_nat i \<notin> bytes dst n" using apart(4) by blast
    from b3(1) [OF i] b3(2) [OF this] b1(1) [OF i] e show ?thesis by (simp add: ld8_def m2_def)
  qed
  moreover have "ld8 ?m1 a = ld8 (kmem s) a \<and> (a \<notin> bytes dst n \<longrightarrow> ld8 ?m3 a = ld8 (kmem s) a)"
    if "a \<notin> bytes ?P n" "cell_of a \<notin> {desc + 8, file + 16}" for a
    using that(2) b1(2) [OF that(1)] b3(2) [of a] by (auto simp: ld8_def m2_def)
  moreover have "?m3 (desc + 8) = of_nat (pos + n)" "?m3 (file + 16) = ?size"
    using ne copy_bytes_frame [OF out(4)] by (simp_all add: c3_def m2_def)
  ultimately show ?thesis using wr seek rd by blast
qed

theorem file_write_read_back_witness:
  "\<exists>m1 s2 m3. file_descriptor_write 12288 20480 3 demo_file = ret (3, (irq_disable demo_file)\<lparr>kmem := m1\<rparr>)
    \<and> file_descriptor_seek 12288 5 ((irq_disable demo_file)\<lparr>kmem := m1\<rparr>) = ret ((), s2)
    \<and> file_descriptor_read 12288 24576 3 s2 = ret (3, (irq_disable demo_file)\<lparr>kmem := m3\<rparr>)
    \<and> ld8 m3 24576 = 0x68 \<and> ld8 m3 24577 = 0x69 \<and> ld8 m3 24578 = 0x21 \<and> m3 12296 = 8 \<and> m3 4112 = 11"
proof -
  have src: "ld8 (kmem demo_file) 20480 = 0x68" "ld8 (kmem demo_file) 20481 = 0x69" "ld8 (kmem demo_file) 20482 = 0x21" "at demo_file 4096 2 = 0"
    by (simp_all add: demo_file_def ld8_def cell_of_def lane_of_def at_def)
  obtain m1 s2 m3 where s: "file_descriptor_write 12288 20480 (of_nat 3) demo_file = ret (of_nat 3, (irq_disable demo_file)\<lparr>kmem := m1\<rparr>)"
    "file_descriptor_seek 12288 (of_nat 5) ((irq_disable demo_file)\<lparr>kmem := m1\<rparr>) = ret ((), s2)"
    "file_descriptor_read 12288 24576 (of_nat 3) s2 = ret (of_nat 3, (irq_disable demo_file)\<lparr>kmem := m3\<rparr>)"
    "\<forall>i<3. ld8 m3 (24576 + of_nat i) = ld8 (kmem demo_file) (20480 + of_nat i)"
    "m3 (12288 + 8) = of_nat (5 + 3)" "m3 (4096 + 16) = max (at demo_file 4096 2) (of_nat (5 + 2 * 3))"
    using file_write_read_back [OF demo_file_ok _ _ _ demo_file_apart] by auto
  have "ld8 m3 24576 = 0x68" "ld8 m3 24577 = 0x69" "ld8 m3 24578 = 0x21" "m3 12296 = 8" "m3 4112 = 11"
    using s(4) [rule_format, of 0] s(4) [rule_format, of 1] s(4) [rule_format, of 2] s(5,6) src by simp_all
  moreover have "of_nat 3 = (3 :: u64)" "of_nat 5 = (5 :: u64)" by simp_all
  ultimately show ?thesis using s(1-3) by metis
qed

end
