(* ===== verification/Panic.thy ===== *)
theory Panic
  imports Trap_Frame
begin

text \<open>
  The end of the machine: \<open>kernel_panic\<close> (\<^verbatim>\<open>src/src/kernel/safety/panic.c\<close>), which the \<open>PANIC\<close> macro
  calls, and \<open>freeze_system\<close> of \<^verbatim>\<open>src/src/arch/risc-v/arch_cpu.c\<close>.

  In the other theories a panic is an outcome that carries the message and the three values. This
  theory opens that box: it shows what is sent to the serial port for it, that the report ends, and that
  nothing runs afterwards. The strings of the compiler (the version, the date, the file and the function)
  and the value of the cycle register are arguments.
\<close>

section \<open>Stopping the machine\<close>

definition freeze_system :: "'a vma_scheme \<Rightarrow> (unit \<times> 'a vma_scheme) run" where
  "freeze_system s = wfi_loop (s\<lparr>sstatus := sstatus s AND NOT (BIT 1)\<rparr>)"

section \<open>The report\<close>

definition panic_messages :: "string list" where
  "panic_messages = [
     ''The experts call this not good and I call this not good.'',
     ''Who burnt the toast?'',
     ''<Insert funny joke>'',
     ''Call it a feature and ship it!'',
     ''I blame the t2 register again.'',
     ''Stack overflow?'',
     ''Ask r/osdev'',
     ''At least it didn't pan-Never mind actually.'',
     ''EVERYBODY PANIC'',
     ''Wait, why are we panicking?'',
     ''Time for a devlog entry!'',
     ''Clearly at least one of the lines of code was wrong.'',
     ''Rust would probably have fixed this.'',
     ''Must have been a hardware issue.'',
     ''For a full description of error load linux and 'cat /dev/urandom' and have a hunt.'',
     ''Fix for this issue can be found at 'cat /dev/urandom' (on linux computer). Just remove the boilerplate around it!'',
     ''Must have been a fault with qemu.'',
     ''Maybe the integer wasn't signed?'',
     ''Panic has been handled gracefully by forcefully killing everything.'',
     ''Was definitely userspace couldn't have been the kernel.'',
     ''The computer might be tired and needs more sleep.'',
     ''Might need to download more ram.'',
     ''ERROR: Couldn't pick a message in time.'',
     ''ERROR: Message too long.'',
     ''Error running linu-I mean toastium.'',
     ''The system as run into a err-INTERUPT: Invalid instruction.-or and wasn't able to recover.'',
     ''Could have been too many recursion layers deep.'',
     ''Good luck figuring out what the random data below means lol.'',
     ''Maybe https://osdev.org talks about this.'',
     ''Could have trapped badly.'',
     ''Likely users fault.'',
     ''Time to commit to a new commit.'',
     ''Bad pointer.'',
     ''Null pointer reference.'',
     ''Something went wrong, not sure what though.'',
     ''Might be bed time?'',
     ''Maybe it was named dinnerbone.'',
     ''Segmentation Fault Error. Not teapot'',
     ''Likely missing a semicolon'',
     ''FATAL : Off by one error... Or maybe off by a few... In a few different places'',
     ''ERROR: Undefined behavior, Expected to not panic'',
     ''Ran out of memory trying to remember everything being remembered.'',
     ''Race condition. System panicked after it lost the bet it had placed'',
     ''This message has just been printed now! So the code printing this is the latest to run as its being printed.'',
     ''Interrupt handler error. Was unable to handle it.'',
     ''Loaded in 65bit mode on mistake.'',
     ''Kernel lost he pointer, failed finding it.'',
     ''Throw some more bitwise math at it!'',
     ''CPU is taking a break from functioning correctly.'',
     ''Must be a CPU bug.'',
     ''The RNG was to random.'',
     ''Im hungry.'',
     ''What do you think the issue was?'',
     ''Im not sure...'',
     ''Not enough operating for the system.'',
     ''Accidentally clicked panic button.'',
     ''EMERGENCY MEETING!'',
     ''There is an imposter among us...'',
     ''The cake was a lie.'',
     ''GAME OVER'']"

definition PANIC_MESSAGE_CNT :: u64 where
  "PANIC_MESSAGE_CNT = of_nat (length panic_messages)"

text \<open>The banner; a percent sign stands for the backslash, which a literal cannot hold.\<close>

definition panic_banner :: "string list" where
  "panic_banner = map (map (\<lambda>c. if c = CHR ''%'' then CHR 0x5C else c)) [
     [],
     '' _  ________ _____  _   _ ______ _        _____        _   _ _____ _____ '',
     ''| |/ /  ____|  __ %| % | |  ____| |      |  __ % /%   | % | |_   _/ ____|'',
     ''| ' /| |__  | |__) |  %| | |__  | |      | |__) /  %  |  %| | | || |     '',
     ''|  < |  __| |  _  /| . ` |  __| | |      |  ___/ /% % | . ` | | || |     '',
     ''| . %| |____| | % %| |%  | |____| |____  | |  / ____ %| |%  |_| || |____ '',
     ''|_|%_%______|_|  %_%_| %_|______|______| |_| /_/    %_%_| %_|_____%_____|'']"

text \<open>
  The message is chosen by the sum of the clock, the cycle counter and the values. The pointers of the
  array are link-time addresses; the code adds the load address of the kernel to get the string.
\<close>

definition panic_index :: "u64 \<Rightarrow> u64 \<Rightarrow> u64 \<Rightarrow> u64 \<Rightarrow> u64 \<Rightarrow> nat" where
  "panic_index time extra_value_1 extra_value_2 extra_value_3 cycle =
     unat ((time + extra_value_1 + extra_value_2 + extra_value_3 + cycle) mod PANIC_MESSAGE_CNT)"

text \<open>One of the three lines that give a value in both bases.\<close>

definition panic_value :: "string \<Rightarrow> u64 \<Rightarrow> 'a uart_scheme \<Rightarrow> (unit \<times> 'a uart_scheme) run" where
  "panic_value title extra_value s =
     bindr (uart_print_lit title s) (\<lambda>(_, s).
     bindr (uart_print_u64_hex extra_value s) (\<lambda>(_, s).
     bindr (uart_print_lit '' - ('' s) (\<lambda>(_, s).
     bindr (uart_print_s64 extra_value s) (\<lambda>(_, s).
       uart_println_lit '')'' s))))"

text \<open>The lines on the version and on the place of the panic.\<close>

definition panic_location ::
  "string \<Rightarrow> string \<Rightarrow> string \<Rightarrow> u64 \<Rightarrow> string \<Rightarrow> 'a uart_scheme \<Rightarrow> (unit \<times> 'a uart_scheme) run" where
  "panic_location version date src_file file_line func s =
     bindr (uart_print_lit ''GIT VERSION HASH : '' s) (\<lambda>(_, s).
     bindr (uart_print_lit version s) (\<lambda>(_, s).
     bindr (uart_print_lit '', COMPILE DATE : '' s) (\<lambda>(_, s).
     bindr (uart_println_lit date s) (\<lambda>(_, s).
     bindr (uart_print_lit ''LOCATION : '' s) (\<lambda>(_, s).
     bindr (uart_print_lit src_file s) (\<lambda>(_, s).
     bindr (uart_print_lit '':'' s) (\<lambda>(_, s).
     bindr (uart_print_s64 file_line s) (\<lambda>(_, s).
     bindr (uart_print_lit '' ('' s) (\<lambda>(_, s).
     bindr (uart_print_lit func s) (\<lambda>(_, s).
       uart_println_lit '')'' s))))))))))"

text \<open>Everything after the message is chosen.\<close>

definition panic_body ::
  "string \<Rightarrow> string \<Rightarrow> string \<Rightarrow> string \<Rightarrow> u64 \<Rightarrow> string \<Rightarrow> string \<Rightarrow> u64 \<Rightarrow> u64 \<Rightarrow> u64
    \<Rightarrow> 'a uart_scheme \<Rightarrow> (unit \<times> 'a uart_scheme) run" where
  "panic_body joke version date src_file file_line func message extra_value_1 extra_value_2 extra_value_3 s =
     bindr (uart_println_lit joke s) (\<lambda>(_, s).
     bindr (uart_println_lit [] s) (\<lambda>(_, s).
     bindr (uart_println_lit ''Here is some info relating to what went wrong...'' s) (\<lambda>(_, s).
     bindr (uart_println_lit ''-------------------------------------------------------------------------'' s) (\<lambda>(_, s).
     bindr (panic_location version date src_file file_line func s) (\<lambda>(_, s).
     bindr (uart_print_lit ''REASON   : '' s) (\<lambda>(_, s).
     bindr (uart_println_lit message s) (\<lambda>(_, s).
     bindr (panic_value ''VALUE 1 : 0x'' extra_value_1 s) (\<lambda>(_, s).
     bindr (panic_value ''VALUE 2 : 0x'' extra_value_2 s) (\<lambda>(_, s).
       panic_value ''VALUE 3 : 0x'' extra_value_3 s)))))))))"

definition panic_report ::
  "string \<Rightarrow> string \<Rightarrow> u64 \<Rightarrow> string \<Rightarrow> u64 \<Rightarrow> string \<Rightarrow> string \<Rightarrow> u64 \<Rightarrow> u64 \<Rightarrow> u64
    \<Rightarrow> 'a hart_scheme \<Rightarrow> (unit \<times> 'a hart_scheme) run" where
  "panic_report version date cycle src_file file_line func message extra_value_1 extra_value_2 extra_value_3 s =
     bindr (for_each panic_banner uart_println_lit s) (\<lambda>(_, s).
     let (time, s) = time_cnt s;
         joke = panic_messages ! panic_index time extra_value_1 extra_value_2 extra_value_3 cycle
     in panic_body joke version date src_file file_line func message extra_value_1 extra_value_2 extra_value_3 s)"

definition kernel_panic ::
  "string \<Rightarrow> string \<Rightarrow> u64 \<Rightarrow> string \<Rightarrow> u64 \<Rightarrow> string \<Rightarrow> string \<Rightarrow> u64 \<Rightarrow> u64 \<Rightarrow> u64
    \<Rightarrow> 'a hart_scheme \<Rightarrow> (unit \<times> 'a hart_scheme) run" where
  "kernel_panic version date cycle src_file file_line func message extra_value_1 extra_value_2 extra_value_3 s =
     bindr (panic_report version date cycle src_file file_line func message extra_value_1 extra_value_2 extra_value_3 s) (\<lambda>(_, s).
       freeze_system s)"

section \<open>What the report sends\<close>

text \<open>The bytes of a text, of a line and of a number in decimal, as the port receives them.\<close>

definition text_bytes :: "string \<Rightarrow> u8 list" where
  "text_bytes t = map of_char t"

definition line_bytes :: "string \<Rightarrow> u8 list" where
  "line_bytes t = map of_char t @ [10, 13]"

definition s64_bytes :: "u64 \<Rightarrow> u8 list" where
  "s64_bytes n = (if sint n < 0 then [0x2D] else []) @ map (\<lambda>d. of_nat (48 + d)) (dec_digits (nat \<bar>sint n\<bar>))"

definition hex_bytes :: "u64 \<Rightarrow> u8 list" where
  "hex_bytes n = map ((!) hex_list) (hex_digits 16 n)"

definition value_bytes :: "string \<Rightarrow> u64 \<Rightarrow> u8 list" where
  "value_bytes t n = text_bytes t @ hex_bytes n @ text_bytes '' - ('' @ s64_bytes n @ line_bytes '')''"

definition location_bytes :: "string \<Rightarrow> string \<Rightarrow> string \<Rightarrow> u64 \<Rightarrow> string \<Rightarrow> u8 list" where
  "location_bytes version date src_file file_line func =
     text_bytes ''GIT VERSION HASH : '' @ text_bytes version @ text_bytes '', COMPILE DATE : '' @ line_bytes date
     @ text_bytes ''LOCATION : '' @ text_bytes src_file @ text_bytes '':'' @ s64_bytes file_line @ text_bytes '' (''
     @ text_bytes func @ line_bytes '')''"

text \<open>The smallest 64-bit number is the one \<open>uart_print_s64\<close> cannot print.\<close>

abbreviation printable :: "u64 \<Rightarrow> bool" where
  "printable n \<equiv> sint n \<noteq> - (2 ^ 63)"

lemma freeze_system_never [simp]: "freeze_system s = None"
  by (simp add: freeze_system_def wfi_loop_never)

lemmas print_pieces = print_lit_prints [folded text_bytes_def] println_lit_prints [folded line_bytes_def]
  print_s64_prints [folded s64_bytes_def]

lemma print_hex_bytes: "uart_ready s \<Longrightarrow> prints s (hex_bytes n) (uart_print_u64_hex n s)"
  using print_hex_prints by (simp add: uart_print_u64_hex_def hex_bytes_def)

lemma panic_value_prints:
  assumes "uart_ready s" and "printable n"
  shows "prints s (value_bytes t n) (panic_value t n s)"
  unfolding value_bytes_def panic_value_def
  by (intro prints_bind print_pieces print_hex_bytes) (use assms in simp_all)

lemma panic_location_prints:
  assumes "uart_ready s" and "printable n"
  shows "prints s (location_bytes v d f n g) (panic_location v d f n g s)"
  unfolding location_bytes_def panic_location_def
  by (intro prints_bind print_pieces) (use assms in simp_all)

lemma println_all_prints:
  "uart_ready s \<Longrightarrow> prints s (concat (map line_bytes ts)) (for_each ts uart_println_lit s)"
proof (induction ts arbitrary: s)
  case (Cons t ts)
  show ?case
    unfolding for_each.simps list.map concat.simps
    by (rule prints_bind [OF print_pieces(2) [OF Cons.prems] Cons.IH]) (simp add: Cons.prems)
qed simp

text \<open>What follows the banner, given the message that was chosen.\<close>

definition body_bytes ::
  "string \<Rightarrow> string \<Rightarrow> string \<Rightarrow> string \<Rightarrow> u64 \<Rightarrow> string \<Rightarrow> string \<Rightarrow> u64 \<Rightarrow> u64 \<Rightarrow> u64 \<Rightarrow> u8 list" where
  "body_bytes joke version date src_file file_line func message v1 v2 v3 =
     line_bytes joke @ line_bytes [] @ line_bytes ''Here is some info relating to what went wrong...''
     @ line_bytes ''-------------------------------------------------------------------------''
     @ location_bytes version date src_file file_line func @ text_bytes ''REASON   : '' @ line_bytes message
     @ value_bytes ''VALUE 1 : 0x'' v1 @ value_bytes ''VALUE 2 : 0x'' v2 @ value_bytes ''VALUE 3 : 0x'' v3"

lemma panic_index_lt: "panic_index t a b c d < length panic_messages"
proof -
  have n: "unat PANIC_MESSAGE_CNT = length panic_messages"
    by (simp add: PANIC_MESSAGE_CNT_def panic_messages_def)
  moreover have "length panic_messages \<noteq> 0" by (simp add: panic_messages_def)
  ultimately show ?thesis
    unfolding panic_index_def unat_mod n by (intro mod_less_divisor) simp
qed

lemma panic_body_prints:
  assumes "uart_ready s" and "printable file_line" "printable v1" "printable v2" "printable v3"
  shows "prints s (body_bytes joke version date src_file file_line func message v1 v2 v3)
    (panic_body joke version date src_file file_line func message v1 v2 v3 s)"
  unfolding body_bytes_def panic_body_def
  by (intro prints_bind print_pieces panic_value_prints panic_location_prints) (use assms in simp_all)

lemma panic_report_run:
  fixes cycle :: u64
  assumes ready: "uart_ready s" and p: "printable file_line" "printable v1" "printable v2" "printable v3"
  shows "\<exists>k. panic_report version date cycle src_file file_line func message v1 v2 v3 s
    = ret ((), s\<lparr>uart_reads := k, time_reads := Suc (time_reads s), uart_writes := uart_writes s @ map (Pair 0)
        (concat (map line_bytes panic_banner) @ body_bytes
           (panic_messages ! panic_index (time_dev s (time_reads s)) v1 v2 v3 cycle)
           version date src_file file_line func message v1 v2 v3)\<rparr>)"
proof -
  let ?j = "panic_messages ! panic_index (time_dev s (time_reads s)) v1 v2 v3 cycle"
  obtain k where b: "for_each panic_banner uart_println_lit s
      = ret ((), s\<lparr>uart_reads := k, uart_writes := uart_writes s @ map (Pair 0) (concat (map line_bytes panic_banner))\<rparr>)"
    using println_all_prints [OF ready, of panic_banner] unfolding prints_def by blast
  define s1 where "s1 = s\<lparr>uart_reads := k, uart_writes := uart_writes s @ map (Pair 0) (concat (map line_bytes panic_banner)),
    time_reads := Suc (time_reads s)\<rparr>"
  have "uart_ready s1" using ready by (simp add: s1_def uart_ready_def)
  from panic_body_prints [OF this p, where joke = ?j]
  have "\<exists>k. panic_body ?j version date src_file file_line func message v1 v2 v3 s1 = ret ((), s1\<lparr>uart_reads := k,
      uart_writes := uart_writes s1 @ map (Pair 0) (body_bytes ?j version date src_file file_line func message v1 v2 v3)\<rparr>)"
    unfolding prints_def .
  moreover have "panic_report version date cycle src_file file_line func message v1 v2 v3 s
      = panic_body ?j version date src_file file_line func message v1 v2 v3 s1"
    unfolding panic_report_def b bindr_simps prod.case time_cnt_def Let_def by (simp add: s1_def)
  ultimately obtain k' where r: "panic_report version date cycle src_file file_line func message v1 v2 v3 s = ret ((), s1\<lparr>uart_reads := k',
      uart_writes := uart_writes s1 @ map (Pair 0) (body_bytes ?j version date src_file file_line func message v1 v2 v3)\<rparr>)" by auto
  show ?thesis unfolding r s1_def by (intro exI [of _ k']) (cases s, simp)
qed

section \<open>Properties\<close>

text \<open>
  C21. A panic is reported in full and is the end. On a serial port that keeps becoming ready,
  \<open>kernel_panic\<close> sends the banner, one of the messages, the version, the place, the reason and the three
  values in hexadecimal and decimal, byte for byte, and changes nothing else but the count of clock reads;
  then it never returns. The values must not be the smallest 64-bit number.
\<close>

theorem kernel_panic_sound:
  assumes "uart_ready s" and "printable file_line" "printable v1" "printable v2" "printable v3"
  shows "\<exists>k. \<exists>joke \<in> set panic_messages.
      panic_report version date cycle src_file file_line func message v1 v2 v3 s
        = ret ((), s\<lparr>uart_reads := k, time_reads := Suc (time_reads s), uart_writes := uart_writes s @ map (Pair 0)
            (concat (map line_bytes panic_banner) @ body_bytes joke version date src_file file_line func message v1 v2 v3)\<rparr>)
    \<and> kernel_panic version date cycle src_file file_line func message v1 v2 v3 s = None"
proof -
  let ?j = "panic_messages ! panic_index (time_dev s (time_reads s)) v1 v2 v3 cycle"
  have "?j \<in> set panic_messages" by (rule nth_mem [OF panic_index_lt])
  moreover from panic_report_run [OF assms, where cycle = cycle] obtain k where
    r: "panic_report version date cycle src_file file_line func message v1 v2 v3 s
      = ret ((), s\<lparr>uart_reads := k, time_reads := Suc (time_reads s), uart_writes := uart_writes s @ map (Pair 0)
          (concat (map line_bytes panic_banner) @ body_bytes ?j version date src_file file_line func message v1 v2 v3)\<rparr>)" ..
  moreover have "kernel_panic version date cycle src_file file_line func message v1 v2 v3 s = None"
    unfolding kernel_panic_def r by simp
  ultimately show ?thesis by blast
qed

definition panic_hart :: hart where
  "panic_hart = blank_hart\<lparr>uart_dev := (\<lambda>_ _. 0x20)\<rparr>"

theorem kernel_panic_sound_witness:
  "(\<exists>k. \<exists>joke \<in> set panic_messages.
      panic_report ''Unknown'' ''Jan  1 2026'' 7 ''pager.c'' 255 ''pg_alloc'' ''OUT_OF_FREE_PAGES'' 1 (- 2) 3 panic_hart
        = ret ((), panic_hart\<lparr>uart_reads := k, time_reads := Suc (time_reads panic_hart),
            uart_writes := uart_writes panic_hart @ map (Pair 0) (concat (map line_bytes panic_banner)
              @ body_bytes joke ''Unknown'' ''Jan  1 2026'' ''pager.c'' 255 ''pg_alloc'' ''OUT_OF_FREE_PAGES'' 1 (- 2) 3)\<rparr>)
      \<and> kernel_panic ''Unknown'' ''Jan  1 2026'' 7 ''pager.c'' 255 ''pg_alloc'' ''OUT_OF_FREE_PAGES'' 1 (- 2) 3 panic_hart = None)"
proof (rule kernel_panic_sound)
  show "uart_ready panic_hart" by (auto simp: uart_ready_def panic_hart_def)
qed (simp_all add: sint_uint)

text \<open>
  A panic with the smallest 64-bit number as its first value does not get through its own report: printing
  the value negates it, which overflows.
\<close>

lemma undef_after_prints:
  assumes "prints t bs r" and "uart_ready t" and "\<And>u. uart_ready u \<Longrightarrow> f u = undef w"
  shows "bindr r (\<lambda>(_, s). f s) = undef w"
  using assms by (auto simp: prints_def)

lemma panic_value_min:
  assumes "uart_ready s"
  shows "panic_value t 0x8000000000000000 s = undef ''signed overflow''"
  unfolding panic_value_def
  by (intro undef_after_prints [OF print_pieces(1)] undef_after_prints [OF print_hex_bytes])
    (simp_all add: assms print_s64_min)

lemma panic_body_min:
  assumes "uart_ready s" and "printable file_line"
  shows "panic_body joke version date src_file file_line func message 0x8000000000000000 v2 v3 s = undef ''signed overflow''"
  unfolding panic_body_def
  by (intro undef_after_prints [OF print_pieces(1)] undef_after_prints [OF print_pieces(2)]
      undef_after_prints [OF panic_location_prints]) (use assms in \<open>simp_all add: panic_value_min\<close>)

lemma kernel_panic_min:
  assumes "uart_ready s" and "printable file_line"
  shows "kernel_panic version date cycle src_file file_line func message 0x8000000000000000 v2 v3 s = undef ''signed overflow''"
proof -
  obtain k where b: "for_each panic_banner uart_println_lit s
      = ret ((), s\<lparr>uart_reads := k, uart_writes := uart_writes s @ map (Pair 0) (concat (map line_bytes panic_banner))\<rparr>)"
    using println_all_prints [OF assms(1), of panic_banner] unfolding prints_def by blast
  have "uart_ready (s\<lparr>uart_reads := k, uart_writes := w, time_reads := n\<rparr>)" for w n
    using assms(1) by (simp add: uart_ready_def)
  then show ?thesis
    unfolding kernel_panic_def panic_report_def b bindr_simps prod.case time_cnt_def Let_def
    using assms(2) by (simp add: panic_body_min)
qed

end
