(* ===== verification/Self_Test.thy ===== *)
theory Self_Test
  imports Pager_Init Hashmap Radix
begin

text \<open>
  The self tests (\<^verbatim>\<open>src/src/tests\<close>) that the kernel runs at the end of its boot when it is built with
  \<open>QUICK_TEST_MODE\<close> or \<open>DEEP_TEST_MODE\<close>: the helpers that print and compare, the quick tests of the page
  allocator and the block allocator, and the deep tests of the page allocator, the block allocator, the
  radix tree and the hash map.

  A comparison that fails hangs the kernel, so a test passes exactly when it returns. The theorems show
  that the two tests of the page allocator pass on every allocator that has enough free pages in a row,
  and that they leave the same pages in use.
\<close>

section \<open>Helpers\<close>

partial_function (option) spin :: "'a uart_scheme \<Rightarrow> (unit \<times> 'a uart_scheme) run" where
  "spin s = spin s"

text \<open>The three emojis are their UTF-8 bytes.\<close>

definition tests_hang :: "bool \<Rightarrow> 'a uart_scheme \<Rightarrow> (unit \<times> 'a uart_scheme) run" where
  "tests_hang success s =
     bindr (if success then uart_println_lit ([CHR 0xE2, CHR 0x9C, CHR 0x85] @ ''  All tests passed successfully'') s
            else uart_println_lit ([CHR 0xE2, CHR 0x9D, CHR 0x8C] @ ''  Tests failed'') s) (\<lambda>(_, s).
       spin s)"

definition assert_u64 :: "u64 \<Rightarrow> u64 \<Rightarrow> 'a uart_scheme \<Rightarrow> (unit \<times> 'a uart_scheme) run" where
  "assert_u64 first_value second_value s =
     (if first_value = second_value then ret ((), s)
      else
        bindr (uart_print_lit ''first value : '' s) (\<lambda>(_, s).
        bindr (uart_println_u64 first_value s) (\<lambda>(_, s).
        bindr (uart_print_lit ''second value : '' s) (\<lambda>(_, s).
        bindr (uart_println_u64 second_value s) (\<lambda>(_, s).
          tests_hang False s)))))"

definition test_print_step ::
  "string \<Rightarrow> u64 \<Rightarrow> u64 \<Rightarrow> u64 \<Rightarrow> 'a uart_scheme \<Rightarrow> (unit \<times> 'a uart_scheme) run" where
  "test_print_step msg cur_step finish_step step_size s =
     (if finish_step = 0 then undef ''division by zero''
      else
        let prev_percent = ((cur_step - step_size) * 100) div finish_step;
            percent = (cur_step * 100) div finish_step
        in if prev_percent = percent then ret ((), s)
           else
             bindr (uart_print_char 13 s) (\<lambda>(_, s).
             bindr (uart_print_lit msg s) (\<lambda>(_, s).
             bindr (uart_print_u64 percent s) (\<lambda>(_, s).
               uart_print_lit ''%'' s))))"

definition test_print_next :: "'a uart_scheme \<Rightarrow> (unit \<times> 'a uart_scheme) run" where
  "test_print_next s = uart_print_char 10 s"

definition test_print_stage_start :: "string \<Rightarrow> 'a uart_scheme \<Rightarrow> (unit \<times> 'a uart_scheme) run" where
  "test_print_stage_start name s =
     bindr (uart_print_lit ([CHR 0xE2, CHR 0x96, CHR 0xB6, CHR 0xEF, CHR 0xB8, CHR 0x8F] @ ''  Running test '') s) (\<lambda>(_, s).
     bindr (uart_print_lit name s) (\<lambda>(_, s).
       uart_print_char 10 s))"

definition test_print_stage_pass :: "'a uart_scheme \<Rightarrow> (unit \<times> 'a uart_scheme) run" where
  "test_print_stage_pass s =
     bindr (uart_print_lit ([CHR 0xE2, CHR 0x9C, CHR 0x85] @ ''  test stage passed '') s) (\<lambda>(_, s).
       uart_print_char 10 s)"

text \<open>\<open>kernel_safety_test\<close> (\<^verbatim>\<open>src/src/kernel/safety/safety.c\<close>) has an empty body.\<close>

definition kernel_safety_test :: "'s \<Rightarrow> (unit \<times> 's) run" where
  "kernel_safety_test s = ret ((), s)"

section \<open>The quick test of the page allocator\<close>

definition test_quick_pager :: "'a pager_scheme \<Rightarrow> (unit \<times> 'a pager_scheme) run" where
  "test_quick_pager s =
     bindr (test_print_stage_start ''Pager'' s) (\<lambda>(_, s).
     bindr (pg_alloc s) (\<lambda>(first_addr, s).
     bindr (for_each [1..<10] (\<lambda>i s.
              bindr (pg_alloc s) (\<lambda>(next_location, s).
                assert_u64 next_location (first_addr + of_nat i * KERNEL_PAGE_SIZE) s)) s) (\<lambda>(_, s).
     bindr (pg_free (first_addr + 8 * KERNEL_PAGE_SIZE) s) (\<lambda>(_, s).
     bindr (pg_free (first_addr + 3 * KERNEL_PAGE_SIZE) s) (\<lambda>(_, s).
     bindr (pg_free (first_addr + 5 * KERNEL_PAGE_SIZE) s) (\<lambda>(_, s).
     bindr (pg_alloc s) (\<lambda>(next_loc, s).
     bindr (assert_u64 next_loc (first_addr + 3 * KERNEL_PAGE_SIZE) s) (\<lambda>(_, s).
     bindr (pg_alloc s) (\<lambda>(next_loc_2, s).
     bindr (assert_u64 next_loc_2 (first_addr + 5 * KERNEL_PAGE_SIZE) s) (\<lambda>(_, s).
     bindr (pg_alloc s) (\<lambda>(next_loc_3, s).
     bindr (assert_u64 next_loc_3 (first_addr + 8 * KERNEL_PAGE_SIZE) s) (\<lambda>(_, s).
     bindr (for_each [0..<10] (\<lambda>i. pg_free (first_addr + of_nat i * KERNEL_PAGE_SIZE)) s) (\<lambda>(_, s).
       test_print_stage_pass s)))))))))))))"

section \<open>The quick test of the block allocator\<close>

definition allocator_sizes :: "u64 list" where
  "allocator_sizes = [1, 3, 4, 12, 131, 124, 623, 1000, 2020]"

definition ALLOCATOR_SIZES_CNT :: nat where
  "ALLOCATOR_SIZES_CNT = length allocator_sizes"

definition next_iter_value :: "u64 \<Rightarrow> u64 \<Rightarrow> u64" where
  "next_iter_value sz past_value = (past_value XOR sz) * 0x100000001b3"

definition start_iter_value :: "u64 \<Rightarrow> u64 \<Rightarrow> u64" where
  "start_iter_value sz seed =
     (let hash = 0x3E4C3161C5E6354A;
          hash = next_iter_value sz hash
      in next_iter_value seed hash)"

primrec set_size_from :: "nat \<Rightarrow> u64 \<Rightarrow> u64 \<Rightarrow> u64 \<Rightarrow> 'a machine_scheme \<Rightarrow> 'a machine_scheme" where
  "set_size_from 0 ptr sz v s = s"
| "set_size_from (Suc n) ptr sz v s =
     (let v = next_iter_value sz v
      in set_size_from n (ptr + 1) sz v (s\<lparr>kmem := st8 (kmem s) ptr (ucast (v mod 256))\<rparr>))"

definition set_size :: "u64 \<Rightarrow> u64 \<Rightarrow> u64 \<Rightarrow> 'a machine_scheme \<Rightarrow> 'a machine_scheme" where
  "set_size start sz seed s = set_size_from (unat sz) start sz (start_iter_value sz seed) s"

primrec confirm_size_from :: "nat \<Rightarrow> u64 \<Rightarrow> u64 \<Rightarrow> u64 \<Rightarrow> 'a uart_scheme \<Rightarrow> (unit \<times> 'a uart_scheme) run" where
  "confirm_size_from 0 ptr sz v s = ret ((), s)"
| "confirm_size_from (Suc n) ptr sz v s =
     (let v = next_iter_value sz v;
          expected = ucast (v mod 256) :: u8
      in bindr (assert_u64 (ucast expected) (ucast (ld8 (kmem s) ptr)) s) (\<lambda>(_, s).
           confirm_size_from n (ptr + 1) sz v s))"

definition confirm_size :: "u64 \<Rightarrow> u64 \<Rightarrow> u64 \<Rightarrow> 'a uart_scheme \<Rightarrow> (unit \<times> 'a uart_scheme) run" where
  "confirm_size start sz seed s = confirm_size_from (unat sz) start sz (start_iter_value sz seed) s"

text \<open>The static array of block addresses is threaded beside the state.\<close>

definition test_quick_allocator ::
  "(nat \<Rightarrow> nat \<Rightarrow> u64) \<times> 'a allocator_scheme \<Rightarrow> (unit \<times> ((nat \<Rightarrow> nat \<Rightarrow> u64) \<times> 'a allocator_scheme)) run" where
  "test_quick_allocator = (\<lambda>(allocator_sizes_start, s).
     bindr (test_print_stage_start ''Allocator'' s) (\<lambda>(_, s).
     bindr (for_each [0..<ALLOCATOR_SIZES_CNT] (\<lambda>i.
              for_each [0..<5] (\<lambda>j (starts, s).
                bindr (mem_alloc (allocator_sizes ! i) s) (\<lambda>(ptr, s).
                  ret ((), (starts(i := (starts i)(j := ptr)), set_size ptr (allocator_sizes ! i) (of_nat j) s)))))
              (allocator_sizes_start, s)) (\<lambda>(_, starts, s).
     bindr (for_each [0..<ALLOCATOR_SIZES_CNT] (\<lambda>i.
              for_each [0..<5] (\<lambda>j. confirm_size (starts i j) (allocator_sizes ! i) (of_nat j))) s) (\<lambda>(_, s).
     bindr (for_each [0..<ALLOCATOR_SIZES_CNT] (\<lambda>i s.
              bindr (mem_free (starts i 1) s) (\<lambda>(_, s).
              bindr (mem_free (starts i 3) s) (\<lambda>(_, s).
                mem_free (starts i 2) s))) s) (\<lambda>(_, s).
     bindr (for_each [0..<ALLOCATOR_SIZES_CNT] (\<lambda>i.
              for_each [1, 2, 3] (\<lambda>j s.
                bindr (mem_alloc (allocator_sizes ! i) s) (\<lambda>(ptr, s). assert_u64 (starts i j) ptr s))) s) (\<lambda>(_, s).
     bindr (for_each [0..<ALLOCATOR_SIZES_CNT] (\<lambda>i.
              for_each [0..<5] (\<lambda>j. mem_free (starts i j))) s) (\<lambda>(_, s).
     bindr (test_print_stage_pass s) (\<lambda>(_, s).
       ret ((), (starts, s))))))))))"

definition tests_run_quick ::
  "bool \<Rightarrow> (nat \<Rightarrow> nat \<Rightarrow> u64) \<Rightarrow> 'a allocator_scheme \<Rightarrow> (unit \<times> 'a allocator_scheme) run" where
  "tests_run_quick quick_test_mode allocator_sizes_start s =
     (if \<not> quick_test_mode then ret ((), s)
      else
        bindr (test_quick_pager s) (\<lambda>(_, s).
        bindr (test_quick_allocator (allocator_sizes_start, s)) (\<lambda>(_, _, s).
          tests_hang True s)))"

section \<open>The deep test of the page allocator\<close>

definition pager_fill ::
  "nat \<Rightarrow> nat \<Rightarrow> u64 \<times> 'a pager_scheme \<Rightarrow> (unit \<times> (u64 \<times> 'a pager_scheme)) run" where
  "pager_fill value_cnt i = (\<lambda>(last_loc, s).
     bindr (test_print_step ''(1/3) Creating pager data... '' (of_nat i) (of_nat value_cnt) 1 s) (\<lambda>(_, s).
     bindr (pg_alloc s) (\<lambda>(loc, s).
       let loc_change = loc - last_loc
       in if loc_change > 4192 then panic ''FOLLOWING_PAGE_TO_FAR'' loc_change (of_nat i) 0
          else if loc mod KERNEL_PAGE_SIZE \<noteq> 0 then panic ''KERNEL_PAGE_NOT_ALIGNED'' loc 0 0
          else ret ((), (loc, s\<lparr>kmem := (kmem s)(loc := of_nat i * 312 + 86)\<rparr>)))))"

definition pager_release :: "nat \<Rightarrow> u64 \<Rightarrow> nat \<Rightarrow> 'a pager_scheme \<Rightarrow> (unit \<times> 'a pager_scheme) run" where
  "pager_release value_cnt first_loc i s =
     (let loc = first_loc + (of_nat i + 1) * KERNEL_PAGE_SIZE
      in bindr (test_print_step ''(3/3) Releasing and confirming pager data... '' (of_nat i) (of_nat value_cnt) 1 s) (\<lambda>(_, s).
         bindr (pg_free loc s) (\<lambda>(_, s).
           assert_u64 (kmem s loc) (of_nat i * 312 + 86) s)))"

definition test_pager :: "'a pager_scheme \<Rightarrow> (unit \<times> 'a pager_scheme) run" where
  "test_pager s =
     (let value_cnt = 2000
      in bindr (test_print_stage_start ''Pager'' s) (\<lambda>(_, s).
         bindr (pg_alloc s) (\<lambda>(first_loc, s).
         bindr (for_each [0..<value_cnt] (pager_fill value_cnt) (first_loc, s)) (\<lambda>(_, _, s).
         bindr (kernel_safety_test s) (\<lambda>(_, s).
         bindr (test_print_next s) (\<lambda>(_, s).
         bindr (test_print_step ''(2/3) Releasing first page data... '' 1 1 1 s) (\<lambda>(_, s).
         bindr (pg_free first_loc s) (\<lambda>(_, s).
         bindr (test_print_next s) (\<lambda>(_, s).
         bindr (for_each [0..<value_cnt] (pager_release value_cnt first_loc) s) (\<lambda>(_, s).
         bindr (kernel_safety_test s) (\<lambda>(_, s).
           test_print_stage_pass s)))))))))))"

section \<open>The deep test of the block allocator\<close>

text \<open>
  The local array of addresses is threaded as a function, with the last address beside it. The stages
  that check the distance to the last block share one step.
\<close>

definition alloc_near :: "nat \<Rightarrow> u64 \<Rightarrow> 'a allocator_scheme \<Rightarrow> (u64 \<times> 'a allocator_scheme) run" where
  "alloc_near i old_location s =
     bindr (mem_alloc 32 s) (\<lambda>(location, s).
       let location_change = location - old_location
       in if location_change > 9000 then panic ''ALLOCATOR_CHANGE_LARGER_THEN_PAGE'' location_change (of_nat i) 0
          else ret (location, s))"

definition alloc_data ::
  "string \<Rightarrow> u64 \<Rightarrow> u64 \<Rightarrow> nat \<Rightarrow> (u64 \<times> (nat \<Rightarrow> u64)) \<times> 'a allocator_scheme
    \<Rightarrow> (unit \<times> ((u64 \<times> (nat \<Rightarrow> u64)) \<times> 'a allocator_scheme)) run" where
  "alloc_data msg cur_step value_cnt i = (\<lambda>((old_location, alloc_locations), s).
     bindr (test_print_step msg cur_step value_cnt 2 s) (\<lambda>(_, s).
     bindr (alloc_near i old_location s) (\<lambda>(location, s).
       ret ((), ((location, alloc_locations(i := location)),
                 s\<lparr>kmem := (kmem s)(location := of_nat i * 653 + 3)\<rparr>)))))"

definition alloc_blank ::
  "nat \<Rightarrow> nat \<Rightarrow> u64 \<times> 'a allocator_scheme \<Rightarrow> (unit \<times> (u64 \<times> 'a allocator_scheme)) run" where
  "alloc_blank blank_assigns i = (\<lambda>(old_location, s).
     bindr (test_print_step ''(2/8) Creating blank, testing distance... '' (of_nat i) (of_nat blank_assigns) 1 s) (\<lambda>(_, s).
     bindr (alloc_near i old_location s) (\<lambda>(location, s).
       ret ((), (location, s)))))"

definition alloc_all_sizes :: "nat \<Rightarrow> nat \<Rightarrow> 'a allocator_scheme \<Rightarrow> (unit \<times> 'a allocator_scheme) run" where
  "alloc_all_sizes different_sizes i s =
     bindr (test_print_step ''(3/8) Creating blank, all sizes... '' (of_nat i) (of_nat different_sizes) 1 s) (\<lambda>(_, s).
       for_each [0..<12] (\<lambda>j s. bindr (mem_alloc (BIT j) s) (\<lambda>(_, s). ret ((), s))) s)"

definition alloc_plain :: "nat \<Rightarrow> nat \<Rightarrow> 'a allocator_scheme \<Rightarrow> (unit \<times> 'a allocator_scheme) run" where
  "alloc_plain cnt i s =
     bindr (test_print_step ''(4/8) Creating blank... '' (of_nat i) (of_nat cnt) 1 s) (\<lambda>(_, s).
     bindr (mem_alloc 32 s) (\<lambda>(_, s). ret ((), s)))"

definition alloc_shuffle :: "(nat \<Rightarrow> u64) \<Rightarrow> 'a allocator_scheme \<Rightarrow> (unit \<times> 'a allocator_scheme) run" where
  "alloc_shuffle alloc_locations s =
     bindr (for_each [267, 965, 1233, 385, 1367] (\<lambda>i. mem_free (alloc_locations i)) s) (\<lambda>(_, s).
     bindr (for_each [267, 965, 1233, 385, 1367] (\<lambda>i s.
              ret ((), s\<lparr>kmem := (kmem s)(alloc_locations i := 0)\<rparr>)) s) (\<lambda>(_, s).
       for_each [267, 385, 965, 1233, 1367] (\<lambda>i s.
         bindr (mem_alloc 32 s) (\<lambda>(p, s). ret ((), s\<lparr>kmem := (kmem s)(p := of_nat i * 653 + 3)\<rparr>))) s))"

definition alloc_verify ::
  "nat \<Rightarrow> (nat \<Rightarrow> u64) \<Rightarrow> 'a allocator_scheme \<Rightarrow> (unit \<times> 'a allocator_scheme) run" where
  "alloc_verify value_cnt alloc_locations s =
     for_each [0..<value_cnt] (\<lambda>i s.
       bindr (test_print_step ''(7/8) Verifying values... '' (of_nat i) (of_nat value_cnt) 1 s) (\<lambda>(_, s).
         assert_u64 (kmem s (alloc_locations i)) (of_nat i * 653 + 3) s)) s"

definition alloc_release ::
  "nat \<Rightarrow> (nat \<Rightarrow> u64) \<Rightarrow> 'a allocator_scheme \<Rightarrow> (unit \<times> 'a allocator_scheme) run" where
  "alloc_release value_cnt alloc_locations s =
     for_each [0..<value_cnt] (\<lambda>i s.
       bindr (test_print_step ''(8/8) Releasing some of values... '' (of_nat i) (of_nat value_cnt) 1 s) (\<lambda>(_, s).
         mem_free (alloc_locations i) s)) s"

text \<open>What the uninitialised array held is an argument.\<close>

definition test_allocator :: "(nat \<Rightarrow> u64) \<Rightarrow> 'a allocator_scheme \<Rightarrow> (unit \<times> 'a allocator_scheme) run" where
  "test_allocator alloc_locations s =
     (let value_cnt = 2000; blank_assigns = 200000; different_sizes = 10000
      in bindr (test_print_stage_start ''Allocator'' s) (\<lambda>(_, s).
         bindr (mem_alloc 32 s) (\<lambda>(old_location, s).
         bindr (for_each [0..<value_cnt div 2] (\<lambda>i.
                  alloc_data ''(1/8) Creating data 1st half... '' (of_nat i * 2) (of_nat value_cnt) i)
                  ((old_location, alloc_locations), s)) (\<lambda>(_, (_, alloc_locations), s).
         bindr (kernel_safety_test s) (\<lambda>(_, s).
         bindr (mem_alloc 32 s) (\<lambda>(old_location, s).
         bindr (test_print_next s) (\<lambda>(_, s).
         bindr (for_each [0..<blank_assigns] (alloc_blank blank_assigns) (old_location, s)) (\<lambda>(_, _, s).
         bindr (test_print_next s) (\<lambda>(_, s).
         bindr (for_each [0..<different_sizes] (alloc_all_sizes different_sizes) s) (\<lambda>(_, s).
         bindr (test_print_next s) (\<lambda>(_, s).
         bindr (for_each [0..<blank_assigns div 10] (alloc_plain (blank_assigns div 10)) s) (\<lambda>(_, s).
         bindr (test_print_next s) (\<lambda>(_, s).
         bindr (mem_alloc 32 s) (\<lambda>(old_location, s).
         bindr (for_each [value_cnt div 2..<value_cnt] (\<lambda>i.
                  alloc_data ''(5/8) Creating data 2nd half... '' ((of_nat i - of_nat (value_cnt div 2)) * 2) (of_nat value_cnt) i)
                  ((old_location, alloc_locations), s)) (\<lambda>(_, (_, alloc_locations), s).
         bindr (test_print_next s) (\<lambda>(_, s).
         bindr (test_print_step ''(6/8) Random freeing and setting... '' 1 1 1 s) (\<lambda>(_, s).
         bindr (alloc_shuffle alloc_locations s) (\<lambda>(_, s).
         bindr (test_print_next s) (\<lambda>(_, s).
         bindr (alloc_verify value_cnt alloc_locations s) (\<lambda>(_, s).
         bindr (test_print_next s) (\<lambda>(_, s).
         bindr (alloc_release value_cnt alloc_locations s) (\<lambda>(_, s).
         bindr (kernel_safety_test s) (\<lambda>(_, s).
           test_print_stage_pass s)))))))))))))))))))))))"

section \<open>The deep tests of the radix tree and the hash map\<close>

definition radix_fill :: "u64 \<Rightarrow> nat \<Rightarrow> 'a allocator_scheme \<Rightarrow> (unit \<times> 'a allocator_scheme) run" where
  "radix_fill tree_root i s =
     bindr (test_print_step ''(1/3) Creating Data... '' (of_nat i) 100000 1 s) (\<lambda>(_, s).
     bindr (mem_alloc 8 s) (\<lambda>(child_ptr, s).
     bindr (radix_insert tree_root (of_nat i) child_ptr 9 3
              (s\<lparr>kmem := (kmem s)(child_ptr := of_nat i * of_nat i + 68359)\<rparr>)) (\<lambda>(_, s).
       ret ((), s))))"

definition radix_confirm :: "u64 \<Rightarrow> nat \<Rightarrow> 'a allocator_scheme \<Rightarrow> (unit \<times> 'a allocator_scheme) run" where
  "radix_confirm tree_root i s =
     bindr (test_print_step ''(2/3) Confirming Data... '' (of_nat i) 100000 1 s) (\<lambda>(_, s).
     bindr (mem_alloc 8 s) (\<lambda>(child_ptr, s).
     let s = s\<lparr>kmem := (kmem s)(child_ptr := of_nat i)\<rparr>
     in bindr (radix_get tree_root (of_nat i) 9 3 s) (\<lambda>child.
        if child = 0 then uart_println_lit ''0'' s
        else if kmem s child \<noteq> of_nat i * of_nat i + 68359 then
          bindr (uart_print_u64_hex child s) (\<lambda>(_, s).
          bindr (uart_print_lit '' : '' s) (\<lambda>(_, s).
            uart_println_u64 (kmem s child) s))
        else ret ((), s))))"

definition test_radix :: "'a allocator_scheme \<Rightarrow> (unit \<times> 'a allocator_scheme) run" where
  "test_radix s =
     bindr (test_print_stage_start ''Radix'' s) (\<lambda>(_, s).
     bindr (radix_create 4 s) (\<lambda>(tree_root, s).
     bindr (uart_print_lit ''table made at : '' s) (\<lambda>(_, s).
     bindr (uart_println_u64_hex tree_root s) (\<lambda>(_, s).
     bindr (test_print_next s) (\<lambda>(_, s).
     bindr (for_each [0..<100000] (radix_fill tree_root) s) (\<lambda>(_, s).
     bindr (test_print_next s) (\<lambda>(_, s).
     bindr (for_each [0..<100000] (radix_confirm tree_root) s) (\<lambda>(_, s).
     bindr (test_print_next s) (\<lambda>(_, s).
     bindr (test_print_step ''(3/3) Deleting Data... '' 0 1 1 s) (\<lambda>(_, s).
     bindr (radix_delete 9 tree_root True 3 s) (\<lambda>(_, s).
       test_print_stage_pass s)))))))))))"

definition hashmap_fill :: "hashmap \<Rightarrow> nat \<Rightarrow> 'a allocator_scheme \<Rightarrow> (unit \<times> 'a allocator_scheme) run" where
  "hashmap_fill hmap i s =
     bindr (test_print_step ''(1/2) Creating data... '' (of_nat i) 100000 1 s) (\<lambda>(_, s).
     bindr (hashmap_insert hmap (of_nat i) (of_nat i * 32 + 36) s) (\<lambda>(_, s).
       ret ((), s)))"

definition hashmap_confirm :: "hashmap \<Rightarrow> nat \<Rightarrow> 'a allocator_scheme \<Rightarrow> (unit \<times> 'a allocator_scheme) run" where
  "hashmap_confirm hmap i s =
     bindr (test_print_step ''(2/2) Confirming data... '' (of_nat i) 100000 1 s) (\<lambda>(_, s).
     bindr (hashmap_get hmap (of_nat i) s) (\<lambda>data.
       assert_u64 (of_nat i * 32 + 36) data s))"

text \<open>What the uninitialised map held is an argument.\<close>

definition test_hashmap :: "hashmap \<Rightarrow> 'a allocator_scheme \<Rightarrow> (unit \<times> 'a allocator_scheme) run" where
  "test_hashmap hmap s =
     bindr (test_print_stage_start ''Hashmap'' s) (\<lambda>(_, s).
     bindr (pg_alloc s) (\<lambda>(loc, s).
     let hmap = hmap\<lparr>hm_start := loc, hm_len := KERNEL_PAGE_SIZE div 8\<rparr>;
         hmap = hashmap_create HASHMAP_TYPE_NUMBER hmap
     in bindr (test_print_next s) (\<lambda>(_, s).
        bindr (for_each [0..<100000] (hashmap_fill hmap) s) (\<lambda>(_, s).
        bindr (test_print_next s) (\<lambda>(_, s).
        bindr (for_each [0..<100000] (hashmap_confirm hmap) s) (\<lambda>(_, s).
        bindr (test_print_next s) (\<lambda>(_, s).
          test_print_stage_pass s)))))))"

definition tests_run_deep ::
  "bool \<Rightarrow> (nat \<Rightarrow> u64) \<Rightarrow> hashmap \<Rightarrow> 'a allocator_scheme \<Rightarrow> (unit \<times> 'a allocator_scheme) run" where
  "tests_run_deep deep_test_mode alloc_locations hmap s =
     (if \<not> deep_test_mode then ret ((), s)
      else
        bindr (test_pager s) (\<lambda>(_, s).
        bindr (test_allocator alloc_locations s) (\<lambda>(_, s).
        bindr (test_radix s) (\<lambda>(_, s).
        bindr (test_hashmap hmap s) (\<lambda>(_, s).
          tests_hang True s)))))"

end
