(* ===== verification/Self_Check.thy ===== *)
theory Self_Check
  imports Self_Test
begin

text \<open>
  The self tests of the page allocator pass. The allocator is seen as a set of slots in use, a slot being
  a region and the number of a page in it; \<open>holding\<close> relates the states of the test to that set. Taking a
  page adds the first free slot, giving one back removes it, and printing changes nothing.
\<close>

section \<open>Printing and comparing\<close>

lemma logs_utils:
  assumes "uart_ready s"
  shows "logs s (test_print_next s)" "logs s (test_print_stage_start name s)" "logs s (test_print_stage_pass s)"
    "finish_step \<noteq> 0 \<Longrightarrow> logs s (test_print_step msg cur_step finish_step step_size s)"
proof -
  have c: "logs s (uart_print_char c s)" if "uart_ready s" for c and s :: "'b uart_scheme"
    by (rule prints_logs [OF print_char_prints [OF that]])
  show "logs s (test_print_next s)" using c [OF assms] by (simp add: test_print_next_def)
  show "logs s (test_print_stage_start name s)" "logs s (test_print_stage_pass s)"
    unfolding test_print_stage_start_def test_print_stage_pass_def
    by (intro logs_bind logs_print c; simp add: assms)+
  show "logs s (test_print_step msg cur_step finish_step step_size s)" if "finish_step \<noteq> 0"
    using that unfolding test_print_step_def Let_def
    by (auto intro!: logs_bind logs_print c prints_logs [OF prints_nil] simp: assms)
qed

lemma assert_u64_same [simp]: "assert_u64 v v s = ret ((), s)"
  by (simp add: assert_u64_def)

lemma spin_never: "spin s = None"
proof (rule ccontr)
  assume "spin s \<noteq> None"
  then obtain r where "spin s = Some r" by blast
  then show False by (rule spin.raw_induct [where P = "\<lambda>_ _. False", rotated])
qed

section \<open>The allocator as a set of slots\<close>

definition holding :: "'a pager_scheme \<Rightarrow> (nat \<times> nat) set \<Rightarrow> 'a pager_scheme \<Rightarrow> bool" where
  "holding s0 U s \<longleftrightarrow> same_desc s0 s \<and> pager_inv s \<and> uart_ready s
     \<and> (\<forall>i k. managed s0 i k \<longrightarrow> (page_used s i k \<longleftrightarrow> (i, k) \<in> U))"

definition first_free :: "'a pager_scheme \<Rightarrow> (nat \<times> nat) set \<Rightarrow> nat \<Rightarrow> nat \<Rightarrow> bool" where
  "first_free s0 U i k \<longleftrightarrow> allocatable s0 i k \<and> (i, k) \<notin> U
     \<and> (\<forall>i' k'. allocatable s0 i' k' \<longrightarrow> i' < i \<or> (i' = i \<and> k' < k) \<longrightarrow> (i', k') \<in> U)"

text \<open>What two states of a run share: the contents of the pages that the operation did not touch.\<close>

definition pages_kept :: "'a pager_scheme \<Rightarrow> (nat \<times> nat) set \<Rightarrow> 'a pager_scheme \<Rightarrow> 'a pager_scheme \<Rightarrow> bool" where
  "pages_kept s0 U s s' \<longleftrightarrow>
     (\<forall>i k. managed s0 i k \<longrightarrow> (i, k) \<in> U \<longrightarrow> kmem s' (page_addr s0 i k) = kmem s (page_addr s0 i k))"

lemma same_desc_trans:
  assumes "same_desc s t" and "same_desc t u"
  shows "same_desc s u"
proof -
  have "desc_cells t = desc_cells s"
    using assms(1) same_desc_rcnt [OF assms(1)] by (simp add: desc_cells_def same_desc_def)
  then show ?thesis using assms by (auto simp: same_desc_def)
qed

lemma holding_start: "pager_inv s \<Longrightarrow> uart_ready s \<Longrightarrow> holding s {(i, k). managed s i k \<and> page_used s i k} s"
  by (auto simp: holding_def same_desc_def)

lemma holding_page:
  assumes "holding s0 U s"
  shows "managed s0 i k \<Longrightarrow> page_addr s i k = page_addr s0 i k" "managed s i k = managed s0 i k"
    "allocatable s i k = allocatable s0 i k" "pager_wf s" "hint_ok s"
proof -
  have same: "same_desc s0 s" using assms by (simp add: holding_def)
  show "page_addr s i k = page_addr s0 i k" if "managed s0 i k"
    using same_desc_page(1) [OF same] that by (simp add: managed_def)
  show "managed s i k = managed s0 i k" "allocatable s i k = allocatable s0 i k"
    using same_desc_page(3,4) [OF same] same_desc_rcnt [OF same] by (metis managed_def, metis allocatable_def)
  show "pager_wf s" "hint_ok s" using assms by (auto simp: holding_def pager_inv_def)
qed

lemma holding_live:
  assumes "holding s0 U s"
  shows "pager_live s = {page_addr s0 i k | i k. managed s0 i k \<and> (i, k) \<in> U}"
  using assms by (intro same_desc_live) (auto simp: holding_def)

lemma page_addr_not_meta: "pager_wf s \<Longrightarrow> managed s i k \<Longrightarrow> page_addr s i k \<notin> pager_meta s"
  using page_not_meta [of s i k] page_addr_in_cells by blast

lemma holding_alloc:
  assumes h: "holding s0 U s" and f: "first_free s0 U i k"
  shows "\<exists>s'. pg_alloc s = ret (page_addr s0 i k, s') \<and> holding s0 (insert (i, k) U) s' \<and> pages_kept s0 U s s'"
proof -
  note pg = holding_page [OF h]
  have al: "allocatable s i k" and man: "managed s i k" "managed s0 i k"
    using f pg(2,3) by (auto simp: first_free_def allocatable_managed)
  have used: "managed s0 x y \<Longrightarrow> page_used s x y \<longleftrightarrow> (x, y) \<in> U" for x y using h by (simp add: holding_def)
  have free: "\<not> page_used s i k" using f used [OF man(2)] by (simp add: first_free_def)
  obtain p s' where run: "pg_alloc s = ret (p, s')" using pg_alloc_cases [OF pg(4,5)] al free by metis
  from pg_alloc_ret [OF pg(4,5) run] obtain x y where g: "p = page_addr s x y" "s' = grab s x y"
    "allocatable s x y" "\<not> page_used s x y" "pager_wf s'" "hint_ok s'"
    and least: "\<And>i' k'. allocatable s i' k' \<Longrightarrow> before i' k' (int x) (int y) \<Longrightarrow> page_used s i' k'" by metis
  have al0: "allocatable s0 x y" using g(3) by (simp add: pg(3))
  have "\<not> (x < i \<or> x = i \<and> y < k)"
    using f al0 g(4) used [OF allocatable_managed [OF al0]] by (auto simp: first_free_def)
  moreover have "\<not> (i < x \<or> i = x \<and> k < y)" using least [OF al] free by (auto simp: before_def)
  ultimately have xy: "x = i" "y = k" by auto
  have "uart_ready s'" using h by (simp add: g(2) grab_def holding_def uart_ready_def)
  moreover have "same_desc s0 s'"
    unfolding g(2) xy by (rule same_desc_trans [OF _ grab_same_desc [OF pg(4) man(1)]]) (use h in \<open>simp add: holding_def\<close>)
  moreover have "page_used s' a b \<longleftrightarrow> (a, b) \<in> insert (i, k) U" if "managed s0 a b" for a b
    unfolding g(2) xy using grab_used [OF pg(4) man(1), of a b] that used [OF that] by (auto simp: pg(2))
  ultimately have "holding s0 (insert (i, k) U) s'" using g(5,6) by (simp add: holding_def pager_inv_def)
  moreover have "kmem s' (page_addr s0 a b) = kmem s (page_addr s0 a b)" if "managed s0 a b" "(a, b) \<in> U" for a b
  proof -
    have m: "managed s a b" "page_addr s0 a b = page_addr s a b" using that(1) pg(1) [OF that(1)] pg(2) by auto
    have "(a, b) \<noteq> (i, k)" using that(2) f by (auto simp: first_free_def)
    then have "page_addr s a b \<notin> page_cells (page_addr s i k)"
      using page_cells_disjoint [OF pg(4) m(1) man(1)] page_addr_in_cells by blast
    moreover have "page_addr s a b \<noteq> page_word s i k"
      using page_addr_not_meta [OF pg(4) m(1)] page_word_meta [OF man(1)] by auto
    ultimately show ?thesis by (simp add: g(2) xy kmem_grab m(2))
  qed
  ultimately show ?thesis using run g(1) xy pg(1) [of i k] man(2) by (auto simp: pages_kept_def)
qed

lemma holding_free:
  assumes h: "holding s0 U s" and man0: "managed s0 i k" and u: "(i, k) \<in> U"
  shows "\<exists>s'. pg_free (page_addr s0 i k) s = ret ((), s') \<and> holding s0 (U - {(i, k)}) s' \<and> pages_kept s0 UNIV s s'"
proof -
  note pg = holding_page [OF h]
  have man: "managed s i k" "page_addr s0 i k = page_addr s i k" using man0 pg(1) [OF man0] pg(2) by auto
  have used: "managed s0 x y \<Longrightarrow> page_used s x y \<longleftrightarrow> (x, y) \<in> U" for x y using h by (simp add: holding_def)
  let ?s = "drop_page s i k"
  have "pg_free (page_addr s i k) s = ret ((), ?s)"
    using pg_free_in_page [OF pg(4) _ page_addr_in_page [OF pg(4) man(1)]] pg(5) u used [OF man0]
    by (simp add: hint_ok_def)
  moreover have "uart_ready ?s" using h by (simp add: drop_page_def holding_def uart_ready_def Let_def)
  moreover have "same_desc s0 ?s"
    by (rule same_desc_trans [OF _ drop_page_same_desc [OF pg(4) man(1)]]) (use h in \<open>simp add: holding_def\<close>)
  moreover have "pager_inv ?s"
    using same_desc_wf [OF drop_page_same_desc [OF pg(4) man(1)] pg(4)] drop_page_hint_ok [OF pg(4) man(1) pg(5)]
    by (simp add: pager_inv_def)
  moreover have "page_used ?s a b \<longleftrightarrow> (a, b) \<in> U - {(i, k)}" if "managed s0 a b" for a b
    using drop_page_used [OF pg(4) man(1), of a b] that used [OF that] by (auto simp: pg(2))
  moreover have "kmem ?s (page_addr s0 a b) = kmem s (page_addr s0 a b)" if "managed s0 a b" for a b
    using page_addr_not_meta [OF pg(4), of a b] page_word_meta [OF man(1)] that pg(1,2) [of a b]
    by (auto simp: kmem_drop_page)
  ultimately show ?thesis by (auto simp: man(2) holding_def pages_kept_def)
qed

text \<open>A change outside the bookkeeping of the allocator keeps the slots as they are.\<close>

lemma holding_same:
  assumes h: "holding s0 U s" and same: "pager_same s s'" and "uart_ready s'"
  shows "holding s0 U s'"
proof -
  have inv: "pager_inv s" and d: "same_desc s0 s" using h by (auto simp: holding_def)
  have "page_used s' a b = page_used s a b" if "managed s0 a b" for a b
    using pager_same_used [OF same, of a b] that holding_page(2) [OF h] by blast
  then show ?thesis
    using assms(1,3) pager_same_inv(1) [OF same inv] same_desc_trans [OF d pager_same_desc [OF same]]
    by (simp add: holding_def)
qed

lemma holding_log:
  assumes "holding s0 U s" and "logs s r"
  shows "\<exists>s'. r = ret ((), s') \<and> holding s0 U s' \<and> kmem s' = kmem s"
proof -
  obtain k w where r: "r = ret ((), s\<lparr>uart_reads := k, uart_writes := w\<rparr>)" using assms(2) by (auto simp: logs_def)
  have "holding s0 U (s\<lparr>uart_reads := k, uart_writes := w\<rparr>)"
    using assms(1) by (intro holding_same [OF assms(1)]) (auto simp: pager_same_def holding_def)
  then show ?thesis using r by auto
qed

lemma holding_write:
  assumes "holding s0 U s" and "managed s0 i k"
  shows "holding s0 U (s\<lparr>kmem := (kmem s)(page_addr s0 i k := v)\<rparr>)"
proof (rule holding_same [OF assms(1)])
  note pg = holding_page [OF assms(1)]
  have "page_addr s0 i k \<notin> pager_meta s" using page_addr_not_meta [OF pg(4), of i k] pg(1,2) [of i k] assms(2) by auto
  then show "pager_same s (s\<lparr>kmem := (kmem s)(page_addr s0 i k := v)\<rparr>)" by (auto simp: pager_same_def)
  show "uart_ready (s\<lparr>kmem := (kmem s)(page_addr s0 i k := v)\<rparr>)" using assms(1) by (simp add: holding_def uart_ready_def)
qed

section \<open>Runs of free pages\<close>

definition free_run :: "'a pager_scheme \<Rightarrow> (nat \<times> nat) set \<Rightarrow> nat \<Rightarrow> nat \<Rightarrow> nat \<Rightarrow> bool" where
  "free_run s0 U r k n \<longleftrightarrow> (\<forall>j<n. allocatable s0 r (k + j) \<and> (r, k + j) \<notin> U)
     \<and> (\<forall>i' k'. allocatable s0 i' k' \<longrightarrow> i' < r \<or> (i' = r \<and> k' < k) \<longrightarrow> (i', k') \<in> U)"

definition slots :: "nat \<Rightarrow> nat \<Rightarrow> nat \<Rightarrow> nat \<Rightarrow> (nat \<times> nat) set" where
  "slots r k a b = {(r, k + j) | j. a \<le> j \<and> j < b}"

lemma free_run_first:
  assumes "free_run s0 U r k n" and "j < n" and "U \<subseteq> V" and "(r, k + j) \<notin> V" and "slots r k 0 j \<subseteq> V"
  shows "first_free s0 V r (k + j)"
proof -
  have "(i', k') \<in> V" if "allocatable s0 i' k'" "i' < r \<or> (i' = r \<and> k' < k + j)" for i' k'
  proof (cases "i' = r \<and> k \<le> k'")
    case True
    then have "(i', k') \<in> slots r k 0 j" using that(2) by (auto simp: slots_def intro!: exI [of _ "k' - k"])
    then show ?thesis using assms(5) by blast
  next
    case False
    then show ?thesis using assms(1,3) that by (auto simp: free_run_def)
  qed
  then show ?thesis using assms(1,2,4) by (simp add: first_free_def free_run_def)
qed

lemma free_run_managed: "free_run s0 U r k n \<Longrightarrow> j < n \<Longrightarrow> managed s0 r (k + j)"
  by (simp add: free_run_def allocatable_managed)

lemma page_addr_run: "page_addr s0 r (k + j) = page_addr s0 r k + of_nat j * KERNEL_PAGE_SIZE"
  by (simp add: page_addr_def algebra_simps)

lemma slots_Suc: "a \<le> b \<Longrightarrow> slots r k a (Suc b) = insert (r, k + b) (slots r k a b)"
  by (auto simp: slots_def less_Suc_eq)

lemma slots_first: "a < b \<Longrightarrow> slots r k a b = insert (r, k + a) (slots r k (Suc a) b)"
  by (auto simp: slots_def Suc_le_eq order_le_less)

lemma slots_iff [simp]: "(r, k + j) \<in> slots r k a b \<longleftrightarrow> a \<le> j \<and> j < b"
  by (auto simp: slots_def)

lemma free_run_out: "free_run s0 U r k n \<Longrightarrow> j < n \<Longrightarrow> (r, k + j) \<notin> U"
  by (simp add: free_run_def)

lemma slots_empty [simp]: "slots r k a a = {}"
  by (auto simp: slots_def)

lemma free_run_apart: "free_run s0 U r k n \<Longrightarrow> b \<le> n \<Longrightarrow> U \<inter> slots r k a b = {}"
  by (auto simp: free_run_def slots_def)

lemma take_run:
  assumes "free_run s0 U r k n" and "holding s0 (U \<union> slots r k 0 a) s" and "a + m \<le> n"
  shows "\<exists>s'. for_each [a..<a + m] (\<lambda>i s. bindr (pg_alloc s) (\<lambda>(loc, s).
      assert_u64 loc (page_addr s0 r k + of_nat i * KERNEL_PAGE_SIZE) s)) s = ret ((), s')
    \<and> holding s0 (U \<union> slots r k 0 (a + m)) s'"
  using assms(2,3)
proof (induction m arbitrary: a s)
  case (Suc m)
  have "first_free s0 (U \<union> slots r k 0 a) r (k + a)"
    by (rule free_run_first [OF assms(1)]) (use assms(1) Suc.prems(2) in \<open>auto simp: slots_def free_run_def\<close>)
  from holding_alloc [OF Suc.prems(1) this] obtain s1 where
    a: "pg_alloc s = ret (page_addr s0 r (k + a), s1)" "holding s0 (insert (r, k + a) (U \<union> slots r k 0 a)) s1" by blast
  have "holding s0 (U \<union> slots r k 0 (Suc a)) s1" using a(2) by (simp add: slots_Suc)
  from Suc.IH [OF this] Suc.prems(2) show ?case
    by (simp add: upt_conv_Cons a(1) page_addr_run del: upt_Suc)
qed simp

lemma drop_run:
  assumes "free_run s0 U r k n" and "holding s0 (U \<union> slots r k a (a + m)) s" and "a + m \<le> n"
  shows "\<exists>s'. for_each [a..<a + m] (\<lambda>i. pg_free (page_addr s0 r k + of_nat i * KERNEL_PAGE_SIZE)) s = ret ((), s')
    \<and> holding s0 U s'"
  using assms(2,3)
proof (induction m arbitrary: a s)
  case (Suc m)
  have set: "U \<union> slots r k a (a + Suc m) - {(r, k + a)} = U \<union> slots r k (Suc a) (Suc a + m)"
    using assms(1) Suc.prems(2) by (auto simp: slots_first [of a "a + Suc m"] free_run_def slots_def)
  have "managed s0 r (k + a)" "(r, k + a) \<in> U \<union> slots r k a (a + Suc m)"
    using free_run_managed [OF assms(1)] Suc.prems(2) by (auto simp: slots_def)
  from holding_free [OF Suc.prems(1) this] obtain s1 where
    a: "pg_free (page_addr s0 r (k + a)) s = ret ((), s1)" "holding s0 (U \<union> slots r k (Suc a) (Suc a + m)) s1"
    unfolding set by blast
  from Suc.IH [OF a(2)] Suc.prems(2) show ?case
    by (simp add: upt_conv_Cons a(1) [unfolded page_addr_run] del: upt_Suc)
qed simp

section \<open>The quick test\<close>

text \<open>Giving back three of the ten pages and taking them again, lowest first.\<close>

lemma swap_three:
  assumes f: "free_run s0 U r k 10" and h: "holding s0 (U \<union> slots r k 0 10) s"
  shows "\<exists>s1 s2 s3 s4 s5 s6. pg_free (page_addr s0 r (k + 8)) s = ret ((), s1)
    \<and> pg_free (page_addr s0 r (k + 3)) s1 = ret ((), s2) \<and> pg_free (page_addr s0 r (k + 5)) s2 = ret ((), s3)
    \<and> pg_alloc s3 = ret (page_addr s0 r (k + 3), s4) \<and> pg_alloc s4 = ret (page_addr s0 r (k + 5), s5)
    \<and> pg_alloc s5 = ret (page_addr s0 r (k + 8), s6) \<and> holding s0 (U \<union> slots r k 0 10) s6"
proof -
  let ?V = "U \<union> slots r k 0 10"
  have man: "managed s0 r (k + j)" "(r, k + j) \<in> ?V" "(r, k + j) \<notin> U" if "j < 10" for j
    using free_run_managed [OF f that] that f by (auto simp: slots_def free_run_def)
  have m: "managed s0 r (k + 8)" "managed s0 r (k + 3)" "managed s0 r (k + 5)" using man(1) by simp_all
  have v: "(r, k + 8) \<in> ?V" "(r, k + 3) \<in> ?V - {(r, k + 8)}" "(r, k + 5) \<in> ?V - {(r, k + 8)} - {(r, k + 3)}"
    using man(2) [of 8] man(2) [of 3] man(2) [of 5] by simp_all
  have e: "insert (r, k + 3) (?V - {(r, k + 8)} - {(r, k + 3)} - {(r, k + 5)}) = ?V - {(r, k + 8)} - {(r, k + 5)}"
    "insert (r, k + 5) (?V - {(r, k + 8)} - {(r, k + 5)}) = ?V - {(r, k + 8)}" "insert (r, k + 8) (?V - {(r, k + 8)}) = ?V"
    using v by auto
  obtain s1 where s1: "pg_free (page_addr s0 r (k + 8)) s = ret ((), s1)" "holding s0 (?V - {(r, k + 8)}) s1"
    using holding_free [OF h m(1) v(1)] by blast
  obtain s2 where s2: "pg_free (page_addr s0 r (k + 3)) s1 = ret ((), s2)" "holding s0 (?V - {(r, k + 8)} - {(r, k + 3)}) s2"
    using holding_free [OF s1(2) m(2) v(2)] by blast
  obtain s3 where s3: "pg_free (page_addr s0 r (k + 5)) s2 = ret ((), s3)"
    "holding s0 (?V - {(r, k + 8)} - {(r, k + 3)} - {(r, k + 5)}) s3"
    using holding_free [OF s2(2) m(3) v(3)] by blast
  have sub: "U \<subseteq> ?V - {(r, k + 8)} - {(r, k + 3)} - {(r, k + 5)}" using man(3) [of 8] man(3) [of 3] man(3) [of 5] by auto
  have f1: "first_free s0 (?V - {(r, k + 8)} - {(r, k + 3)} - {(r, k + 5)}) r (k + 3)"
    by (rule free_run_first [OF f _ sub]) (auto simp: slots_def)
  obtain s4 where s4: "pg_alloc s3 = ret (page_addr s0 r (k + 3), s4)" "holding s0 (?V - {(r, k + 8)} - {(r, k + 5)}) s4"
    using holding_alloc [OF s3(2) f1] unfolding e(1) by blast
  have f2: "first_free s0 (?V - {(r, k + 8)} - {(r, k + 5)}) r (k + 5)"
    by (rule free_run_first [OF f]) (use sub in \<open>auto simp: slots_def\<close>)
  obtain s5 where s5: "pg_alloc s4 = ret (page_addr s0 r (k + 5), s5)" "holding s0 (?V - {(r, k + 8)}) s5"
    using holding_alloc [OF s4(2) f2] unfolding e(2) by blast
  have f3: "first_free s0 (?V - {(r, k + 8)}) r (k + 8)"
    by (rule free_run_first [OF f]) (use sub in \<open>auto simp: slots_def\<close>)
  obtain s6 where s6: "pg_alloc s5 = ret (page_addr s0 r (k + 8), s6)" "holding s0 ?V s6"
    using holding_alloc [OF s5(2) f3] unfolding e(3) by blast
  show ?thesis using s1(1) s2(1) s3(1) s4(1) s5(1) s6 by blast
qed

lemma quick_pager_run:
  assumes f: "free_run s0 U r k 10" and h: "holding s0 U s"
  shows "\<exists>s'. test_quick_pager s = ret ((), s') \<and> holding s0 U s'"
proof -
  let ?first = "page_addr s0 r k"
  have ready: "uart_ready u" if "holding s0 V u" for V u using that by (simp add: holding_def)
  obtain s1 where s1: "test_print_stage_start ''Pager'' s = ret ((), s1)" "holding s0 U s1"
    using holding_log [OF h logs_utils(2) [OF ready [OF h]]] by blast
  have "(r, k + 0) \<notin> U" using f unfolding free_run_def by (metis zero_less_numeral)
  then have "first_free s0 U r (k + 0)" by (intro free_run_first [OF f]) auto
  then obtain s2 where s2: "pg_alloc s1 = ret (?first, s2)" "holding s0 (U \<union> slots r k 0 1) s2"
    using holding_alloc [OF s1(2)] by (auto simp: slots_Suc)
  obtain s3 where s3: "for_each [1..<1 + 9] (\<lambda>i s. bindr (pg_alloc s) (\<lambda>(loc, s).
      assert_u64 loc (?first + of_nat i * KERNEL_PAGE_SIZE) s)) s2 = ret ((), s3)" "holding s0 (U \<union> slots r k 0 (1 + 9)) s3"
    using take_run [OF f s2(2), of 9] by auto
  have h3: "holding s0 (U \<union> slots r k 0 10) s3" using s3(2) by simp
  from swap_three [OF f h3] obtain t1 t2 t3 t4 t5 t6 where
    t: "pg_free (page_addr s0 r (k + 8)) s3 = ret ((), t1)" "pg_free (page_addr s0 r (k + 3)) t1 = ret ((), t2)"
    "pg_free (page_addr s0 r (k + 5)) t2 = ret ((), t3)" "pg_alloc t3 = ret (page_addr s0 r (k + 3), t4)"
    "pg_alloc t4 = ret (page_addr s0 r (k + 5), t5)" "pg_alloc t5 = ret (page_addr s0 r (k + 8), t6)"
    "holding s0 (U \<union> slots r k 0 10) t6" by blast
  obtain s4 where s4: "for_each [0..<0 + 10] (\<lambda>i. pg_free (?first + of_nat i * KERNEL_PAGE_SIZE)) t6 = ret ((), s4)" "holding s0 U s4"
    using drop_run [OF f, of 0 10 t6] t(7) by auto
  obtain s5 where s5: "test_print_stage_pass s4 = ret ((), s5)" "holding s0 U s5"
    using holding_log [OF s4(2) logs_utils(3) [OF ready [OF s4(2)]]] by blast
  have "test_quick_pager s = ret ((), s5)"
    using s1(1) s2(1) s3(1) t(1-6) s4(1) s5(1)
    by (simp add: test_quick_pager_def page_addr_run del: upt_Suc bindr_eq_ret)
  then show ?thesis using s5(2) by blast
qed

section \<open>The deep test\<close>

text \<open>The values the test has stored in its first \<open>a\<close> pages.\<close>

definition stored :: "'a pager_scheme \<Rightarrow> nat \<Rightarrow> nat \<Rightarrow> nat \<Rightarrow> nat \<Rightarrow> 'a pager_scheme \<Rightarrow> bool" where
  "stored s0 r k a b s \<longleftrightarrow> (\<forall>l. a \<le> l \<and> l < b \<longrightarrow> kmem s (page_addr s0 r (k + Suc l)) = of_nat l * 312 + 86)"

lemma stored_kept:
  assumes "stored s0 r k a b s" and "pages_kept s0 V s s'" and "slots r k (Suc a) (Suc b) \<subseteq> V"
    and "free_run s0 U r k n" and "b < n"
  shows "stored s0 r k a b s'"
proof -
  have "kmem s' (page_addr s0 r (k + Suc l)) = kmem s (page_addr s0 r (k + Suc l))" if "a \<le> l" "l < b" for l
  proof -
    have "(r, k + Suc l) \<in> slots r k (Suc a) (Suc b)" using that by (auto simp: slots_def intro!: exI [of _ "Suc l"])
    moreover have "managed s0 r (k + Suc l)" using free_run_managed [OF assms(4), of "Suc l"] that assms(5) by simp
    ultimately show ?thesis using assms(2,3) by (auto simp: pages_kept_def)
  qed
  then show ?thesis using assms(1) by (simp add: stored_def)
qed

lemma pager_fill_step:
  assumes f: "free_run s0 U r k n" and h: "holding s0 (U \<union> slots r k 0 (Suc a)) s" and st: "stored s0 r k 0 a s"
    and n: "Suc a < n" "0 < cnt" "cnt < 2 ^ 64"
  shows "\<exists>s'. pager_fill cnt a (page_addr s0 r (k + a), s) = ret ((), (page_addr s0 r (k + Suc a), s'))
    \<and> holding s0 (U \<union> slots r k 0 (Suc (Suc a))) s' \<and> stored s0 r k 0 (Suc a) s'"
proof -
  let ?p = "page_addr s0 r (k + Suc a)"
  have cnt: "of_nat cnt \<noteq> (0 :: u64)" using n(2,3) unat_small [of cnt] by (metis less_irrefl unat_0)
  have "uart_ready s" using h by (simp add: holding_def)
  then obtain s1 where s1: "test_print_step ''(1/3) Creating pager data... '' (of_nat a) (of_nat cnt) 1 s = ret ((), s1)"
    "holding s0 (U \<union> slots r k 0 (Suc a)) s1" "kmem s1 = kmem s"
    using holding_log [OF h logs_utils(4)] cnt by blast
  have "first_free s0 (U \<union> slots r k 0 (Suc a)) r (k + Suc a)"
    by (rule free_run_first [OF f]) (use f n(1) in \<open>auto simp: slots_def free_run_def\<close>)
  from holding_alloc [OF s1(2) this] obtain s2 where s2: "pg_alloc s1 = ret (?p, s2)"
    "holding s0 (U \<union> slots r k 0 (Suc (Suc a))) s2" "pages_kept s0 (U \<union> slots r k 0 (Suc a)) s1 s2"
    by (auto simp: slots_Suc)
  have man: "managed s0 r (k + Suc a)" by (rule free_run_managed [OF f n(1)])
  note h3 = holding_write [OF s2(2) man, of "of_nat a * 312 + 86"]
  have "stored s0 r k 0 a s2"
    by (rule stored_kept [OF _ s2(3) _ f]) (use st s1(3) n(1) in \<open>auto simp: stored_def slots_def\<close>)
  moreover have "page_addr s0 r (k + Suc l) \<noteq> ?p" if "l < a" for l
  proof -
    have "managed s0 r (k + Suc l)" using free_run_managed [OF f, of "Suc l"] that n(1) by simp
    then show ?thesis
      using page_addr_inj [OF holding_page(4) [OF s2(2)]] man that holding_page(1,2) [OF s2(2)] by (metis add_left_cancel less_irrefl nat.inject)
  qed
  ultimately have "stored s0 r k 0 (Suc a) (s2\<lparr>kmem := (kmem s2)(?p := of_nat a * 312 + 86)\<rparr>)"
    by (auto simp: stored_def less_Suc_eq)
  moreover have "?p - page_addr s0 r (k + a) = 4096" by (simp add: page_addr_def algebra_simps)
  moreover have "?p mod 4096 = 0"
  proof -
    have "(r, k + Suc a) \<in> slots r k 0 (Suc (Suc a))" unfolding slots_iff by simp
    then have "?p \<in> pager_live s2" unfolding holding_live [OF s2(2)] using man by blast
    then have "unat ?p mod 4096 = 0" using live_page_aligned [of s2] s2(2) by (simp add: holding_def)
    then show ?thesis by (simp add: word_arith_nat_mod)
  qed
  ultimately show ?thesis using h3 s1(1) s2(1) by (auto simp: pager_fill_def Let_def)
qed

lemma pager_fill_run:
  assumes f: "free_run s0 U r k n" and h: "holding s0 (U \<union> slots r k 0 (Suc a)) s" and st: "stored s0 r k 0 a s"
    and n: "Suc (a + m) \<le> n" "0 < cnt" "cnt < 2 ^ 64"
  shows "\<exists>p s'. for_each [a..<a + m] (pager_fill cnt) (page_addr s0 r (k + a), s) = ret ((), (p, s'))
    \<and> holding s0 (U \<union> slots r k 0 (Suc (a + m))) s' \<and> stored s0 r k 0 (a + m) s'"
  using h st n(1)
proof (induction m arbitrary: a s)
  case (Suc m)
  have "Suc a < n" using Suc.prems(3) by simp
  from pager_fill_step [OF f Suc.prems(1,2) this n(2,3)] obtain s1 where
    s1: "pager_fill cnt a (page_addr s0 r (k + a), s) = ret ((), (page_addr s0 r (k + Suc a), s1))"
    "holding s0 (U \<union> slots r k 0 (Suc (Suc a))) s1" "stored s0 r k 0 (Suc a) s1" by blast
  from Suc.IH [OF s1(2,3)] Suc.prems(3) show ?case
    by (simp add: upt_conv_Cons s1(1) del: upt_Suc)
qed simp

lemma pager_release_run:
  assumes f: "free_run s0 U r k n" and h: "holding s0 (U \<union> slots r k (Suc a) (Suc (a + m))) s" and st: "stored s0 r k a (a + m) s"
    and n: "a + m < n" "0 < cnt" "cnt < 2 ^ 64"
  shows "\<exists>s'. for_each [a..<a + m] (pager_release cnt (page_addr s0 r k)) s = ret ((), s') \<and> holding s0 U s'"
  using h st n(1)
proof (induction m arbitrary: a s)
  case (Suc m)
  have cnt: "of_nat cnt \<noteq> (0 :: u64)" using n(2,3) unat_small [of cnt] by (metis less_irrefl unat_0)
  have "uart_ready s" using Suc.prems(1) by (simp add: holding_def)
  then obtain s1 where s1: "test_print_step ''(3/3) Releasing and confirming pager data... '' (of_nat a) (of_nat cnt) 1 s = ret ((), s1)"
    "holding s0 (U \<union> slots r k (Suc a) (Suc (a + Suc m))) s1" "kmem s1 = kmem s"
    using holding_log [OF Suc.prems(1) logs_utils(4)] cnt by blast
  have man: "managed s0 r (k + Suc a)" by (rule free_run_managed [OF f]) (use Suc.prems(3) in simp)
  have "(r, k + Suc a) \<in> U \<union> slots r k (Suc a) (Suc (a + Suc m))" by (auto simp: slots_def intro!: exI [of _ "Suc a"])
  from holding_free [OF s1(2) man this] obtain s2 where s2: "pg_free (page_addr s0 r (k + Suc a)) s1 = ret ((), s2)"
    "holding s0 (U \<union> slots r k (Suc a) (Suc (a + Suc m)) - {(r, k + Suc a)}) s2" "pages_kept s0 UNIV s1 s2" by blast
  have "U \<union> slots r k (Suc a) (Suc (a + Suc m)) - {(r, k + Suc a)} = U \<union> slots r k (Suc (Suc a)) (Suc (Suc a + m))"
    using free_run_out [OF f, of "Suc a"] Suc.prems(3) by (subst slots_first) (auto simp: slots_def)
  with s2(2) have h2: "holding s0 (U \<union> slots r k (Suc (Suc a)) (Suc (Suc a + m))) s2" by simp
  have st2: "stored s0 r k a (a + Suc m) s2"
    by (rule stored_kept [OF _ s2(3) _ f]) (use Suc.prems(2,3) s1(3) in \<open>auto simp: stored_def\<close>)
  have v: "kmem s2 (page_addr s0 r (k + Suc a)) = of_nat a * 312 + 86" using st2 by (simp add: stored_def)
  have addr: "page_addr s0 r k + (of_nat a + 1) * KERNEL_PAGE_SIZE = page_addr s0 r (k + Suc a)"
    by (simp add: page_addr_def algebra_simps)
  have "pager_release cnt (page_addr s0 r k) a s = ret ((), s2)"
    unfolding pager_release_def Let_def addr s1(1) bindr_simps prod.case s2(1) v by simp
  moreover have "stored s0 r k (Suc a) (Suc a + m) s2" using st2 by (simp add: stored_def)
  ultimately show ?case using Suc.IH [OF h2] Suc.prems(3) by (simp add: upt_conv_Cons del: upt_Suc)
qed simp

lemma deep_pager_run:
  assumes f: "free_run s0 U r k 2001" and h: "holding s0 U s"
  shows "\<exists>s'. test_pager s = ret ((), s') \<and> holding s0 U s'"
proof -
  let ?first = "page_addr s0 r k"
  have ready: "uart_ready u" if "holding s0 V u" for V u using that by (simp add: holding_def)
  obtain s1 where s1: "test_print_stage_start ''Pager'' s = ret ((), s1)" "holding s0 U s1"
    using holding_log [OF h logs_utils(2) [OF ready [OF h]]] by blast
  have "(r, k + 0) \<notin> U" using f unfolding free_run_def by (metis zero_less_numeral)
  then have "first_free s0 U r (k + 0)" by (intro free_run_first [OF f]) auto
  then obtain s2 where s2: "pg_alloc s1 = ret (?first, s2)" "holding s0 (U \<union> slots r k 0 (Suc 0)) s2"
    using holding_alloc [OF s1(2)] by (auto simp: slots_Suc)
  obtain p s3 where s3: "for_each [0..<2000] (pager_fill 2000) (?first, s2) = ret ((), (p, s3))"
    "holding s0 (U \<union> slots r k 0 (Suc 2000)) s3" "stored s0 r k 0 2000 s3"
    using pager_fill_run [OF f s2(2), of 2000 2000] by (auto simp: stored_def)
  obtain s4 where s4: "test_print_next s3 = ret ((), s4)" "holding s0 (U \<union> slots r k 0 (Suc 2000)) s4" "kmem s4 = kmem s3"
    using holding_log [OF s3(2) logs_utils(1) [OF ready [OF s3(2)]]] by blast
  obtain s5 where s5: "test_print_step ''(2/3) Releasing first page data... '' 1 1 1 s4 = ret ((), s5)"
    "holding s0 (U \<union> slots r k 0 (Suc 2000)) s5" "kmem s5 = kmem s4"
    using holding_log [OF s4(2) logs_utils(4) [OF ready [OF s4(2)]]] by (metis one_neq_zero)
  have man: "managed s0 r k" using free_run_managed [OF f, of 0] by simp
  have "(r, k) \<in> U \<union> slots r k 0 (Suc 2000)" by (auto simp: slots_def)
  from holding_free [OF s5(2) man this] obtain s6 where s6: "pg_free ?first s5 = ret ((), s6)"
    "holding s0 (U \<union> slots r k 0 (Suc 2000) - {(r, k)}) s6" "pages_kept s0 UNIV s5 s6" by blast
  have "U \<union> slots r k 0 (Suc 2000) - {(r, k)} = U \<union> slots r k (Suc 0) (Suc (0 + 2000))"
    using \<open>(r, k + 0) \<notin> U\<close> by (auto simp: slots_first [of 0 "Suc 2000"] slots_def)
  with s6(2) have h6: "holding s0 (U \<union> slots r k (Suc 0) (Suc (0 + 2000))) s6" by simp
  have st6: "stored s0 r k 0 (0 + 2000) s6"
    by (rule stored_kept [OF _ s6(3) _ f]) (use s3(3) s4(3) s5(3) in \<open>auto simp: stored_def\<close>)
  obtain s7 where s7: "test_print_next s6 = ret ((), s7)" "holding s0 (U \<union> slots r k (Suc 0) (Suc (0 + 2000))) s7" "kmem s7 = kmem s6"
    using holding_log [OF h6 logs_utils(1) [OF ready [OF h6]]] by blast
  have "stored s0 r k 0 (0 + 2000) s7" using st6 s7(3) by (simp add: stored_def)
  from pager_release_run [OF f s7(2) this, of 2000] obtain s8 where
    s8: "for_each [0..<2000] (pager_release 2000 ?first) s7 = ret ((), s8)" "holding s0 U s8" by auto
  obtain s9 where s9: "test_print_stage_pass s8 = ret ((), s9)" "holding s0 U s9"
    using holding_log [OF s8(2) logs_utils(3) [OF ready [OF s8(2)]]] by blast
  have "test_pager s = ret ((), s9)"
    unfolding test_pager_def Let_def s1(1) bindr_simps prod.case s2(1) s3(1) kernel_safety_test_def s4(1) s5(1) s6(1) s7(1) s8(1) s9(1) ..
  then show ?thesis using s9(2) by blast
qed

section \<open>Properties\<close>

text \<open>
  C20. The two self tests of the page allocator pass whenever the first free pages lie in a row: the quick
  test with ten pages, the deep test with 2001. They return instead of hanging or panicking, so consecutive
  allocations give consecutive aligned pages, pages that were given back are handed out again lowest
  first, and the allocator leaves what was stored in a page alone; and afterwards the same pages are in use.
\<close>

theorem pager_tests_pass:
  assumes "pager_inv s" and "uart_ready s"
    and "\<forall>j<n. allocatable s r (k + j) \<and> \<not> page_used s r (k + j)"
    and "\<forall>i' k'. allocatable s i' k' \<longrightarrow> i' < r \<or> (i' = r \<and> k' < k) \<longrightarrow> page_used s i' k'"
  shows "(10 \<le> n \<longrightarrow> (\<exists>s'. test_quick_pager s = ret ((), s') \<and> pager_inv s' \<and> pager_live s' = pager_live s))
    \<and> (2001 \<le> n \<longrightarrow> (\<exists>s'. test_pager s = ret ((), s') \<and> pager_inv s' \<and> pager_live s' = pager_live s))"
proof -
  let ?U = "{(i, k). managed s i k \<and> page_used s i k}"
  note h = holding_start [OF assms(1,2)]
  have f: "free_run s ?U r k m" if "m \<le> n" for m
    using assms(3,4) that by (auto simp: free_run_def allocatable_managed)
  have ends: "pager_inv s' \<and> pager_live s' = pager_live s" if "holding s ?U s'" for s'
    using holding_live [OF h] holding_live [OF that] that by (auto simp: holding_def)
  show ?thesis using quick_pager_run [OF f h] deep_pager_run [OF f h] ends by blast
qed

text \<open>A region of nine megabytes, for the witness.\<close>

definition big_region :: memory_region where
  "big_region = \<lparr>rgn_start = 0xffffffc080300000, rgn_size = 0x900000\<rparr>"

lemma big_table: "table_ok (pager_bitmap_list blank_pager) [big_region]"
  by (simp add: table_ok_def region_ok_def big_region_def blank_pager_def bitmap_words_def
      region_page_cnt_def region_page_start_def MAX_MEMORY_REGIONS_def apart_def)

lemma big_pages: "allocatable (pager_publish [big_region] blank_pager) 0 k \<longleftrightarrow> k < 2240"
  using publish_layout(1) [OF big_table] publish_layout(4) [OF big_table, of 0]
  by (simp add: allocatable_def) (simp add: big_region_def region_page_cnt_def)

theorem pager_tests_pass_witness:
  "(\<exists>s'. test_quick_pager (pager_publish [big_region] blank_pager) = ret ((), s') \<and> pager_inv s' \<and> pager_live s' = {})
   \<and> (\<exists>s'. test_pager (pager_publish [big_region] blank_pager) = ret ((), s') \<and> pager_inv s' \<and> pager_live s' = {})"
proof -
  let ?s = "pager_publish [big_region] blank_pager"
  have inv: "pager_inv ?s" "pager_live ?s = {}" using publish_inv [OF big_table] by (simp_all add: blank_pager_def)
  have ready: "uart_ready ?s"
    by (auto simp: uart_ready_def pager_publish_def set_region_def blank_pager_def Let_def)
  have run: "\<forall>j<2001. allocatable ?s 0 (0 + j) \<and> \<not> page_used ?s 0 (0 + j)"
    using publish_free [OF big_table allocatable_managed] by (simp add: big_pages)
  have least: "\<forall>i' k'. allocatable ?s i' k' \<longrightarrow> i' < 0 \<or> (i' = 0 \<and> k' < 0) \<longrightarrow> page_used ?s i' k'" by simp
  show ?thesis using pager_tests_pass [OF inv(1) ready run least] inv(2) by simp
qed

end
