(* ===== verification/Boot.thy ===== *)
theory Boot
  imports Pager_Boot Drivers Trap_Handling Self_Test
begin



section \<open>The boot sequence\<close>








section \<open>Starting the serial port\<close>



section \<open>Starting the device tree\<close>







section \<open>Memory at the end of the first stretch\<close>


















section \<open>A machine that boots\<close>

















section \<open>Properties\<close>



end
