(* ===== verification/Struct_Layout.thy ===== *)
theory Struct_Layout
  imports Device_Tree
begin

text \<open>
  The structs of the headers and their layout in memory. The other theories read a struct as words at
  fixed indices; here the declarations of \<^verbatim>\<open>src/src/kernel/process/process.h\<close>,
  \<^verbatim>\<open>src/src/arch/risc-v/arch_trap/parser.h\<close>, \<^verbatim>\<open>src/src/kernel/file_system\<close>,
  \<^verbatim>\<open>src/src/kernel/memory\<close> and \<^verbatim>\<open>src/src/kernel/devices/device_tree.h\<close> are written down as C has
  them, sizes and offsets are computed by the rules of the 64-bit RISC-V calling convention, and the
  indices and sizes in use are shown to be those of the declarations.
\<close>

section \<open>C types\<close>

text \<open>A struct has the alignment its attribute asks for, 1 without one; a member with the empty name
  is anonymous.\<close>

datatype ctype =
    C_u8 | C_char | C_u16 | C_u32 | C_enum | C_u64 | C_ptr
  | C_array nat ctype
  | C_struct nat "(string \<times> ctype) list"
  | C_union "(string \<times> ctype) list"

definition align_up :: "nat \<Rightarrow> nat \<Rightarrow> nat" where
  "align_up n a = (n + a - 1) div a * a"

fun align_of :: "ctype \<Rightarrow> nat" and aligns :: "(string \<times> ctype) list \<Rightarrow> nat" where
  "align_of C_u8 = 1" | "align_of C_char = 1" | "align_of C_u16 = 2" | "align_of C_u32 = 4"
| "align_of C_enum = 4" | "align_of C_u64 = 8" | "align_of C_ptr = 8"
| "align_of (C_array n t) = align_of t"
| "align_of (C_struct a fs) = max a (aligns fs)"
| "align_of (C_union fs) = aligns fs"
| "aligns [] = 1"
| "aligns ((f, t) # fs) = max (align_of t) (aligns fs)"

fun size_of :: "ctype \<Rightarrow> nat" and extent :: "nat \<Rightarrow> (string \<times> ctype) list \<Rightarrow> nat"
  and widest :: "(string \<times> ctype) list \<Rightarrow> nat" where
  "size_of C_u8 = 1" | "size_of C_char = 1" | "size_of C_u16 = 2" | "size_of C_u32 = 4"
| "size_of C_enum = 4" | "size_of C_u64 = 8" | "size_of C_ptr = 8"
| "size_of (C_array n t) = n * size_of t"
| "size_of (C_struct a fs) = align_up (extent 0 fs) (max a (aligns fs))"
| "size_of (C_union fs) = align_up (widest fs) (aligns fs)"
| "extent n [] = n"
| "extent n ((f, t) # fs) = extent (align_up n (align_of t) + size_of t) fs"
| "widest [] = 0"
| "widest ((f, t) # fs) = max (size_of t) (widest fs)"

text \<open>The offset and the type of a member, looked up through anonymous members as well.\<close>

fun member_of :: "ctype \<Rightarrow> string \<Rightarrow> (nat \<times> ctype) option"
  and member_from :: "nat \<Rightarrow> (string \<times> ctype) list \<Rightarrow> string \<Rightarrow> (nat \<times> ctype) option"
  and alternative :: "(string \<times> ctype) list \<Rightarrow> string \<Rightarrow> (nat \<times> ctype) option" where
  "member_of (C_struct a fs) g = member_from 0 fs g"
| "member_of (C_union fs) g = alternative fs g"
| "member_of _ g = None"
| "member_from n [] g = None"
| "member_from n ((f, t) # fs) g =
     (let off = align_up n (align_of t)
      in if f = g then Some (off, t)
         else case (if f = [] then member_of t g else None) of
                Some (d, u) \<Rightarrow> Some (off + d, u)
              | None \<Rightarrow> member_from (off + size_of t) fs g)"
| "alternative [] g = None"
| "alternative ((f, t) # fs) g = (if f = g then Some (0, t) else alternative fs g)"

datatype designator = Fld string | Idx nat

fun designate :: "ctype \<Rightarrow> designator list \<Rightarrow> (nat \<times> ctype) option" where
  "designate t [] = Some (0, t)"
| "designate t (Fld f # ds) =
     (case member_of t f of None \<Rightarrow> None
      | Some (d, u) \<Rightarrow> map_option (\<lambda>(e, v). (d + e, v)) (designate u ds))"
| "designate (C_array n t) (Idx i # ds) =
     (if i < n then map_option (\<lambda>(e, v). (i * size_of t + e, v)) (designate t ds) else None)"
| "designate _ (Idx i # ds) = None"

text \<open>The value of a scalar member, in a block of words with the bytes in ascending order.\<close>

definition read_member :: "ctype \<Rightarrow> designator list \<Rightarrow> (nat \<Rightarrow> u64) \<Rightarrow> u64 option" where
  "read_member t ds w =
     map_option (\<lambda>(d, u). take_bit (8 * size_of u) (drop_bit (8 * (d mod 8)) (w (d div 8)))) (designate t ds)"

definition struct_words :: "u64 \<Rightarrow> 'a machine_scheme \<Rightarrow> nat \<Rightarrow> u64" where
  "struct_words p s i = at s p (of_nat i)"

section \<open>The declarations\<close>

definition pid_type :: ctype where "pid_type = C_u32"
definition bool8_type :: ctype where "bool8_type = C_u8"
definition process_block_type :: ctype where "process_block_type = C_u64"

definition trapframe_struct :: ctype where
  "trapframe_struct = C_struct 1 [
     (''register_1'', C_u64), (''register_2'', C_u64), (''register_3'', C_u64), (''register_4'', C_u64),
     (''register_5'', C_u64), (''register_6'', C_u64), (''register_7'', C_u64), (''register_8'', C_u64),
     (''register_9'', C_u64), (''register_10'', C_u64), (''register_11'', C_u64), (''register_12'', C_u64),
     (''register_13'', C_u64), (''register_14'', C_u64), (''register_15'', C_u64), (''register_16'', C_u64),
     (''register_17'', C_u64), (''register_18'', C_u64), (''register_19'', C_u64), (''register_20'', C_u64),
     (''register_21'', C_u64), (''register_22'', C_u64), (''register_23'', C_u64), (''register_24'', C_u64),
     (''register_25'', C_u64), (''register_26'', C_u64), (''register_27'', C_u64), (''register_28'', C_u64),
     (''register_29'', C_u64), (''register_30'', C_u64), (''register_31'', C_u64),
     (''scause'', C_u64), (''sepc'', C_u64), (''stval'', C_u64), (''sstatus'', C_u64), (''process_ptr'', C_u64)]"

definition hashmap_leaf_struct :: ctype where
  "hashmap_leaf_struct = C_struct 64 [(''next_leaf'', C_u64), (''key'', C_u64), (''data'', C_u64)]"

definition list_struct :: ctype where
  "list_struct = C_struct 1 [(''first_section'', C_ptr), (''section_size'', C_u64), (''item_cnt'', C_u64), (''item_size'', C_u64)]"

definition inode_file_struct :: ctype where
  "inode_file_struct = C_struct 1 [(''size'', C_u64), (''radix_roots'', C_array INODE_FILE_RADIX_MAX_DEPTH C_u64)]"

definition inode_pipe_struct :: ctype where
  "inode_pipe_struct = C_struct 1 [(''buf_size'', C_u32), (''data_start'', C_u32), (''data_size'', C_u32)]"

definition inode_socket_struct :: ctype where
  "inode_socket_struct = C_struct 1 [(''buf_size'', C_u32), (''data_start'', C_u32), (''data_size'', C_u32)]"

definition inode_folder_struct :: ctype where
  "inode_folder_struct = C_struct 1 []"

definition inode_struct :: ctype where
  "inode_struct = C_struct 1 [
     (''open_refs'', C_u32), (''link_refs'', C_u32), (''type'', C_enum),
     ([], C_union [(''file_data'', inode_file_struct), (''pipe_data'', inode_pipe_struct),
        (''socket_data'', inode_socket_struct), (''folder_data'', inode_folder_struct)])]"

definition dentry_struct :: ctype where
  "dentry_struct = C_struct 1 [
     (''name'', C_array 256 C_char), (''type'', C_enum),
     ([], C_union [(''inode'', C_ptr), (''children'', list_struct)]),
     (''open_refs'', C_u32), (''link_refs'', C_u32), (''parent'', C_ptr)]"

definition file_descriptor_struct :: ctype where
  "file_descriptor_struct = C_struct 1 [
     (''file'', C_ptr), (''seek_pos'', C_u64), (''access_mode'', C_u8), (''virt_mapped_loc'', C_u64)]"

definition device_info_struct :: ctype where
  "device_info_struct = C_struct 1 [
     (''first_child'', C_ptr), (''next_sibling'', C_ptr), (''name'', C_ptr), (''is_leaf'', bool8_type),
     (''value'', C_ptr), (''value_len'', C_u64)]"

definition process_struct :: ctype where
  "process_struct = C_struct 64 [
     (''process_id'', pid_type), (''block_waiting'', process_block_type), (''trap_state'', C_enum),
     (''userspace_trapframe'', C_ptr), (''kernelspace_trapframe'', C_ptr), (''page_fault_trapframe'', C_ptr),
     (''vma_table'', C_ptr), (''vma_addr_space_id'', C_u64), (''file_desc_pg'', C_ptr), (''file_desc_cnt'', C_u64),
     (''runing_hart_id'', C_u16), (''running'', bool8_type), (''exe_file'', C_ptr), (''working_dir'', C_ptr),
     (''process_type'', C_enum), (''phys_kernel_stack_addr'', C_array 4 C_u64), (''list_idx'', C_u64),
     (''reading_userspace'', bool8_type), (''last_hart'', C_u64)]"

lemmas struct_defs = pid_type_def bool8_type_def process_block_type_def trapframe_struct_def hashmap_leaf_struct_def
  list_struct_def inode_file_struct_def inode_pipe_struct_def inode_socket_struct_def inode_folder_struct_def
  inode_struct_def dentry_struct_def file_descriptor_struct_def device_info_struct_def process_struct_def

section \<open>The rules of the layout\<close>

lemma align_pos [simp]: "0 < align_of t" and aligns_pos [simp]: "0 < aligns fs"
  by (induction t and fs rule: align_of_aligns.induct) (auto simp: max_def)

lemma align_up_props:
  assumes "0 < a"
  shows "n \<le> align_up n a" and "a dvd align_up n a" and "align_up n a < n + a"
proof -
  have d: "(n + a - 1) div a * a = n + a - 1 - (n + a - 1) mod a" by (simp add: minus_mod_eq_div_mult)
  have "(n + a - 1) mod a < a" using assms by simp
  then show "n \<le> align_up n a" "align_up n a < n + a" using assms unfolding align_up_def d by linarith+
  show "a dvd align_up n a" by (simp add: align_up_def)
qed

text \<open>A member of a list that starts at \<open>n\<close> is aligned and lies between \<open>n\<close> and the end of the list.\<close>

lemma extent_mono: "n \<le> extent n fs"
proof (induction fs arbitrary: n)
  case (Cons m fs)
  obtain f t where m: "m = (f, t)" by fastforce
  have "n \<le> align_up n (align_of t)" by (rule align_up_props) simp
  also have "\<dots> \<le> extent (align_up n (align_of t) + size_of t) fs" using Cons [of "align_up n (align_of t) + size_of t"] by simp
  finally show ?case by (simp add: m)
qed simp

definition named :: "(string \<times> ctype) list \<Rightarrow> bool" where
  "named fs \<longleftrightarrow> [] \<notin> fst ` set fs"

lemma member_from_inside:
  assumes "named fs" and "member_from n fs f = Some (d, t)"
  shows "n \<le> d \<and> d + size_of t \<le> extent n fs \<and> align_of t dvd d"
  using assms
proof (induction fs arbitrary: n)
  case (Cons m fs)
  obtain g u where m: "m = (g, u)" by fastforce
  define off where "off = align_up n (align_of u)"
  have off: "n \<le> off" "align_of u dvd off" by (simp_all add: off_def align_up_props)
  have g: "g \<noteq> []" "named fs" using Cons.prems(1) by (auto simp: named_def m)
  show ?case
  proof (cases "g = f")
    case True
    then have "d = off" "t = u" using Cons.prems(2) by (auto simp: m off_def)
    then show ?thesis using off extent_mono [of "off + size_of u" fs] by (simp add: m off_def)
  next
    case False
    then have "member_from (off + size_of u) fs f = Some (d, t)" using Cons.prems(2) g(1) by (simp add: m off_def Let_def)
    from Cons.IH [OF g(2) this] show ?thesis using off(1) by (auto simp: m off_def)
  qed
qed simp

text \<open>Two members of a struct do not overlap, and every member lies within the struct.\<close>

lemma members_apart:
  assumes "named fs" and "f \<noteq> g" and "member_from n fs f = Some (d, t)" and "member_from n fs g = Some (e, u)"
  shows "d + size_of t \<le> e \<or> e + size_of u \<le> d"
  using assms
proof (induction fs arbitrary: n)
  case (Cons m fs)
  obtain h v where m: "m = (h, v)" by fastforce
  have h: "h \<noteq> []" "named fs" using Cons.prems(1) by (auto simp: named_def m)
  let ?rest = "member_from (align_up n (align_of v) + size_of v) fs"
  consider "h = f" | "h = g" | "h \<noteq> f" "h \<noteq> g" by blast
  then show ?case
  proof cases
    case 1
    then have "d = align_up n (align_of v)" "t = v" "?rest g = Some (e, u)" using Cons.prems h(1) by (auto simp: m)
    then show ?thesis using member_from_inside [OF h(2)] by blast
  next
    case 2
    then have "e = align_up n (align_of v)" "u = v" "?rest f = Some (d, t)" using Cons.prems h(1) by (auto simp: m)
    then show ?thesis using member_from_inside [OF h(2)] by blast
  next
    case 3
    then show ?thesis using Cons.IH [OF h(2) Cons.prems(2)] Cons.prems(3,4) h(1) by (simp add: m Let_def)
  qed
qed simp

lemma struct_members_sound:
  assumes "named fs" and "member_of (C_struct a fs) f = Some (d, t)"
  shows "align_of t dvd d" and "d + size_of t \<le> size_of (C_struct a fs)"
    and "f \<noteq> g \<Longrightarrow> member_of (C_struct a fs) g = Some (e, u) \<Longrightarrow> d + size_of t \<le> e \<or> e + size_of u \<le> d"
proof -
  have m: "member_from 0 fs f = Some (d, t)" using assms(2) by simp
  show "align_of t dvd d" using member_from_inside [OF assms(1) m] by simp
  have "extent 0 fs \<le> align_up (extent 0 fs) (max a (aligns fs))"
    by (rule align_up_props) (simp add: less_max_iff_disj)
  then show "d + size_of t \<le> size_of (C_struct a fs)" using member_from_inside [OF assms(1) m] by simp
  show "d + size_of t \<le> e \<or> e + size_of u \<le> d" if "f \<noteq> g" "member_of (C_struct a fs) g = Some (e, u)"
    using members_apart [OF assms(1) that(1) m] that(2) by simp
qed

corollary process_members_apart:
  assumes "member_of process_struct f = Some (d, t)" and "member_of process_struct g = Some (e, u)" and "f \<noteq> g"
  shows "d + size_of t \<le> e \<or> e + size_of u \<le> d" and "d + size_of t \<le> size_of process_struct"
  using struct_members_sound(2,3) [OF _ assms(1) [unfolded process_struct_def]] assms(2,3)
  unfolding process_struct_def by (auto simp: named_def)

section \<open>The sizes and indices in use\<close>

lemma struct_sizes:
  "size_of process_struct = 192" "size_of inode_struct = 152" "size_of dentry_struct = 312"
  "size_of file_descriptor_struct = 32" "size_of hashmap_leaf_struct = 64" "size_of device_info_struct = 48"
  "size_of trapframe_struct = 288"
  by (simp_all add: struct_defs align_up_def)

text \<open>The narrow fields: what an assignment to one leaves in it, and in its neighbour.\<close>

lemma take_put32: "take_bit 32 (put32 v w) = ucast v"
  unfolding put32_def
  by (rule bit_word_eqI) (auto simp: bit_take_bit_iff bit_or_iff bit_and_iff bit_high_half bit_unsigned_iff
    dest: bit_imp_le_length)

lemma take_put8:
  assumes "lane < 8"
  shows "take_bit 8 (drop_bit (8 * lane) (put8 lane v w)) = ucast v"
proof (rule bit_word_eqI)
  fix n
  assume "n < LENGTH(64)"
  show "bit (take_bit 8 (drop_bit (8 * lane) (put8 lane v w))) n \<longleftrightarrow> bit (ucast v :: u64) n"
  proof (cases "n < 8")
    case True
    then show ?thesis using assms bit_splice [of "8 * lane + n" w "8 * lane" v]
      by (simp only: put8_def bit_take_bit_iff bit_drop_bit_eq comp_def bit_unsigned_iff) simp
  next
    case False
    then show ?thesis by (auto simp: bit_take_bit_iff bit_unsigned_iff dest: bit_imp_le_length)
  qed
qed

lemma take_below_put8: "n \<le> 8 * lane \<Longrightarrow> take_bit n (put8 lane v w) = take_bit n w"
  unfolding put8_def
  by (rule bit_word_eqI) (auto simp: bit_take_bit_iff bit_or_iff bit_and_iff bit_not_iff bit_push_bit_iff)

lemma take_all: "take_bit 64 (w :: u64) = w"
  by (rule bit_word_eqI) (auto simp: bit_take_bit_iff dest: bit_imp_le_length)

text \<open>Where the members of a process are.\<close>

lemma process_members:
  "designate process_struct [Fld ''process_id''] = Some (0, C_u32)"
  "designate process_struct [Fld ''block_waiting''] = Some (8, C_u64)"
  "designate process_struct [Fld ''trap_state''] = Some (16, C_enum)"
  "designate process_struct [Fld ''userspace_trapframe''] = Some (24, C_ptr)"
  "designate process_struct [Fld ''kernelspace_trapframe''] = Some (32, C_ptr)"
  "designate process_struct [Fld ''page_fault_trapframe''] = Some (40, C_ptr)"
  "designate process_struct [Fld ''vma_table''] = Some (48, C_ptr)"
  "designate process_struct [Fld ''vma_addr_space_id''] = Some (56, C_u64)"
  "designate process_struct [Fld ''file_desc_pg''] = Some (64, C_ptr)"
  "designate process_struct [Fld ''file_desc_cnt''] = Some (72, C_u64)"
  "designate process_struct [Fld ''runing_hart_id''] = Some (80, C_u16)"
  "designate process_struct [Fld ''running''] = Some (82, C_u8)"
  "designate process_struct [Fld ''exe_file''] = Some (88, C_ptr)"
  "designate process_struct [Fld ''working_dir''] = Some (96, C_ptr)"
  "designate process_struct [Fld ''process_type''] = Some (104, C_enum)"
  "designate process_struct [Fld ''phys_kernel_stack_addr'', Idx 0] = Some (112, C_u64)"
  "designate process_struct [Fld ''phys_kernel_stack_addr'', Idx 1] = Some (120, C_u64)"
  "designate process_struct [Fld ''phys_kernel_stack_addr'', Idx 2] = Some (128, C_u64)"
  "designate process_struct [Fld ''phys_kernel_stack_addr'', Idx 3] = Some (136, C_u64)"
  "designate process_struct [Fld ''list_idx''] = Some (144, C_u64)"
  "designate process_struct [Fld ''reading_userspace''] = Some (152, C_u8)"
  "designate process_struct [Fld ''last_hart''] = Some (160, C_u64)"
  by code_simp+

declare designate.simps [simp del]

lemma process_reads:
  "read_member process_struct [Fld ''process_id''] w = Some (take_bit 32 (w 0))"
  "read_member process_struct [Fld ''block_waiting''] w = Some (w 1)"
  "read_member process_struct [Fld ''trap_state''] w = Some (take_bit 32 (w 2))"
  "read_member process_struct [Fld ''userspace_trapframe''] w = Some (w 3)"
  "read_member process_struct [Fld ''kernelspace_trapframe''] w = Some (w 4)"
  "read_member process_struct [Fld ''page_fault_trapframe''] w = Some (w 5)"
  "read_member process_struct [Fld ''vma_table''] w = Some (w 6)"
  "read_member process_struct [Fld ''vma_addr_space_id''] w = Some (w 7)"
  "read_member process_struct [Fld ''file_desc_pg''] w = Some (w 8)"
  "read_member process_struct [Fld ''file_desc_cnt''] w = Some (w 9)"
  "read_member process_struct [Fld ''runing_hart_id''] w = Some (take_bit 16 (w 10))"
  "read_member process_struct [Fld ''running''] w = Some (take_bit 8 (drop_bit 16 (w 10)))"
  "read_member process_struct [Fld ''exe_file''] w = Some (w 11)"
  "read_member process_struct [Fld ''working_dir''] w = Some (w 12)"
  "read_member process_struct [Fld ''process_type''] w = Some (take_bit 32 (w 13))"
  "read_member process_struct [Fld ''phys_kernel_stack_addr'', Idx 0] w = Some (w 14)"
  "read_member process_struct [Fld ''phys_kernel_stack_addr'', Idx 1] w = Some (w 15)"
  "read_member process_struct [Fld ''phys_kernel_stack_addr'', Idx 2] w = Some (w 16)"
  "read_member process_struct [Fld ''phys_kernel_stack_addr'', Idx 3] w = Some (w 17)"
  "read_member process_struct [Fld ''list_idx''] w = Some (w 18)"
  "read_member process_struct [Fld ''reading_userspace''] w = Some (take_bit 8 (w 19))"
  "read_member process_struct [Fld ''last_hart''] w = Some (w 20)"
  by (simp_all add: read_member_def process_members take_all del: One_nat_def)

lemmas narrow_fields = take_put32 take_put8 [of 2, simplified] take_put8 [of 0, simplified] take_below_put8

lemma take_as_ucast:
  "take_bit 32 w = ucast (ucast w :: u32)" "take_bit 8 w = ucast (ucast w :: u8)" for w :: u64
  by (rule bit_word_eqI; auto simp: bit_take_bit_iff bit_unsigned_iff dest: bit_imp_le_length)+

text \<open>The members of the struct \<open>process\<close> as the other theories read them.\<close>

lemma process_accessors:
  "read_member process_struct [Fld ''process_id''] (struct_words p s) = Some (ucast (process_id s p))"
  "read_member process_struct [Fld ''trap_state''] (struct_words p s) = Some (ucast (at32 s p 2))"
  "read_member process_struct [Fld ''process_type''] (struct_words p s) = Some (ucast (process_type s p))"
  "read_member process_struct [Fld ''running''] (struct_words p s) = Some (ucast (running s p))"
  "read_member process_struct [Fld ''reading_userspace''] (struct_words p s) = Some (ucast (reading_userspace s p))"
  "read_member process_struct [Fld ''vma_table''] (struct_words p s) = Some (at s p 6)"
  "read_member process_struct [Fld ''vma_addr_space_id''] (struct_words p s) = Some (at s p 7)"
  "read_member process_struct [Fld ''userspace_trapframe''] (struct_words p s) = Some (at s p 3)"
  "read_member process_struct [Fld ''kernelspace_trapframe''] (struct_words p s) = Some (at s p 4)"
  "read_member process_struct [Fld ''last_hart''] (struct_words p s) = Some (at s p 20)"
  by (simp_all add: process_reads take_as_ucast struct_words_def at32_def running_def reading_userspace_def)

text \<open>The members of the file system structs, the leaves of a hash map, the devices and the trap frame.\<close>

lemma inode_members:
  "designate inode_struct [Fld ''open_refs''] = Some (0, C_u32)"
  "designate inode_struct [Fld ''link_refs''] = Some (4, C_u32)"
  "designate inode_struct [Fld ''type''] = Some (8, C_enum)"
  "designate inode_struct [Fld ''file_data'', Fld ''size''] = Some (16, C_u64)"
  "designate inode_struct [Fld ''file_data'', Fld ''radix_roots'', Idx 0] = Some (24, C_u64)"
  "designate inode_struct [Fld ''file_data'', Fld ''radix_roots'', Idx 15] = Some (144, C_u64)"
  by code_simp+

lemma dentry_members:
  "designate dentry_struct [Fld ''name''] = Some (0, C_array 256 C_char)"
  "designate dentry_struct [Fld ''type''] = Some (256, C_enum)"
  "designate dentry_struct [Fld ''inode''] = Some (264, C_ptr)"
  "designate dentry_struct [Fld ''children'', Fld ''first_section''] = Some (264, C_ptr)"
  "designate dentry_struct [Fld ''children'', Fld ''section_size''] = Some (272, C_u64)"
  "designate dentry_struct [Fld ''children'', Fld ''item_cnt''] = Some (280, C_u64)"
  "designate dentry_struct [Fld ''children'', Fld ''item_size''] = Some (288, C_u64)"
  "designate dentry_struct [Fld ''open_refs''] = Some (296, C_u32)"
  "designate dentry_struct [Fld ''link_refs''] = Some (300, C_u32)"
  "designate dentry_struct [Fld ''parent''] = Some (304, C_ptr)"
  by code_simp+

lemma file_descriptor_members:
  "designate file_descriptor_struct [Fld ''file''] = Some (0, C_ptr)"
  "designate file_descriptor_struct [Fld ''seek_pos''] = Some (8, C_u64)"
  "designate file_descriptor_struct [Fld ''access_mode''] = Some (16, C_u8)"
  "designate file_descriptor_struct [Fld ''virt_mapped_loc''] = Some (24, C_u64)"
  by code_simp+

lemma hashmap_leaf_members:
  "designate hashmap_leaf_struct [Fld ''next_leaf''] = Some (0, C_u64)"
  "designate hashmap_leaf_struct [Fld ''key''] = Some (8, C_u64)"
  "designate hashmap_leaf_struct [Fld ''data''] = Some (16, C_u64)"
  by code_simp+

lemma device_info_members:
  "designate device_info_struct [Fld ''first_child''] = Some (0, C_ptr)"
  "designate device_info_struct [Fld ''next_sibling''] = Some (8, C_ptr)"
  "designate device_info_struct [Fld ''name''] = Some (16, C_ptr)"
  "designate device_info_struct [Fld ''is_leaf''] = Some (24, C_u8)"
  "designate device_info_struct [Fld ''value''] = Some (32, C_ptr)"
  "designate device_info_struct [Fld ''value_len''] = Some (40, C_u64)"
  by code_simp+

lemma trapframe_members:
  "designate trapframe_struct [Fld ''register_1''] = Some (0, C_u64)"
  "designate trapframe_struct [Fld ''register_2''] = Some (8, C_u64)"
  "designate trapframe_struct [Fld ''register_10''] = Some (72, C_u64)"
  "designate trapframe_struct [Fld ''register_17''] = Some (128, C_u64)"
  "designate trapframe_struct [Fld ''register_31''] = Some (240, C_u64)"
  "designate trapframe_struct [Fld ''scause''] = Some (248, C_u64)"
  "designate trapframe_struct [Fld ''sepc''] = Some (256, C_u64)"
  "designate trapframe_struct [Fld ''stval''] = Some (264, C_u64)"
  "designate trapframe_struct [Fld ''sstatus''] = Some (272, C_u64)"
  "designate trapframe_struct [Fld ''process_ptr''] = Some (280, C_u64)"
  by code_simp+

lemma children_reads:
  "read_member dentry_struct [Fld ''children'', Fld ''first_section''] (struct_words d s) = Some (first_section (children s d))"
  "read_member dentry_struct [Fld ''children'', Fld ''section_size''] (struct_words d s) = Some (section_size (children s d))"
  "read_member dentry_struct [Fld ''children'', Fld ''item_cnt''] (struct_words d s) = Some (item_cnt (children s d))"
  "read_member dentry_struct [Fld ''children'', Fld ''item_size''] (struct_words d s) = Some (item_size (children s d))"
  "read_member dentry_struct [Fld ''link_refs''] (struct_words d s) = Some (ucast (dentry_link_refs s d))"
  by (simp_all add: read_member_def dentry_members children_def struct_words_def take_all take_as_ucast at_high32_def)

text \<open>The members of the struct \<open>new_process\<close> on the stack.\<close>

lemma new_process_reads:
  "let w = new_process stack next_pid user_tf kernel_tf fault_tf fd_page [a0, a1, a2, a3] root_folder vma_table;
       fld = (\<lambda>f. read_member process_struct [Fld f] w);
       page = (\<lambda>i. read_member process_struct [Fld ''phys_kernel_stack_addr'', Idx i] w)
   in fld ''process_id'' = Some (ucast (ucast next_pid :: u32)) \<and> fld ''block_waiting'' = Some 0
         \<and> fld ''trap_state'' = Some (ucast PROC_TRAP_PROCESS)
         \<and> fld ''userspace_trapframe'' = Some user_tf \<and> fld ''kernelspace_trapframe'' = Some kernel_tf
         \<and> fld ''page_fault_trapframe'' = Some fault_tf \<and> fld ''vma_table'' = Some vma_table
         \<and> fld ''vma_addr_space_id'' = Some U64_MAX \<and> fld ''file_desc_pg'' = Some fd_page \<and> fld ''file_desc_cnt'' = Some 0
         \<and> fld ''runing_hart_id'' = read_member process_struct [Fld ''runing_hart_id''] stack
         \<and> fld ''running'' = Some 0 \<and> fld ''exe_file'' = Some 0 \<and> fld ''working_dir'' = Some root_folder
         \<and> fld ''process_type'' = Some (ucast PROC_TYPE_NORMAL)
         \<and> page 0 = Some a0 \<and> page 1 = Some a1 \<and> page 2 = Some a2 \<and> page 3 = Some a3 \<and> page 4 = None
         \<and> fld ''list_idx'' = read_member process_struct [Fld ''list_idx''] stack
         \<and> fld ''reading_userspace'' = Some 0 \<and> fld ''last_hart'' = Some U64_MAX"
proof -
  have four: "read_member process_struct [Fld ''phys_kernel_stack_addr'', Idx 4] w = None" for w
    unfolding read_member_def by code_simp
  show ?thesis unfolding Let_def process_reads by (simp add: narrow_fields four new_process_def)
qed

text \<open>A process in memory is the struct that was assigned to it.\<close>

lemma made_process_struct:
  assumes "\<And>i. i < 24 \<Longrightarrow> at s' p (of_nat i) = new_process stack pid u k f d [a0, a1, a2, a3] folder root i"
  defines "stack' \<equiv> (\<lambda>i. if i < 24 then stack i else struct_words p s' i)"
  shows "struct_words p s' = new_process stack' pid u k f d [a0, a1, a2, a3] folder root"
proof
  fix i
  show "struct_words p s' i = new_process stack' pid u k f d [a0, a1, a2, a3] folder root i"
    using assms(1) [of i] by (cases "i < 24") (simp_all add: struct_words_def new_process_def stack'_def)
qed

section \<open>Properties\<close>

text \<open>
  C26. The struct \<open>process\<close> in memory after \<open>new_blank_process\<close>, read member by member at the offsets C
  gives to the declaration in \<^verbatim>\<open>process.h\<close>. The struct lies within one block of 256 bytes that was free
  and is now in use, which holds its size. The process has the number that was free, cut to 32 bits, is a
  normal process outside of any trap, waits for nothing, does not run, has no address space number and no
  last hart; its trap frames, its page of descriptors and its kernel stack (four pages; the comment in
  the declaration speaks of 12 KiB) are eight different pages that were not in use, and its table is the
  root of an address space. The two members the function does not assign, \<open>runing_hart_id\<close> and
  \<open>list_idx\<close>, are what the stack held.
\<close>

theorem new_process_fields:
  fixes s :: "'a kernel_scheme"
  assumes "processes_ok s" and "process_room s"
  shows "\<exists>pid b p s' ps root. new_blank_process stack s = ret (p, s')
    \<and> hashmap_get (process_hashmap s) pid s = ret 0 \<and> hashmap_get (process_hashmap s') pid s' = ret p
    \<and> b < 15 \<and> \<not> block_used s 8 b \<and> block_used s' 8 b
    \<and> unat p = unat (data_page s 8) + 64 + 2 ^ 8 * b \<and> size_of process_struct \<le> 2 ^ 8
    \<and> length ps = 8 \<and> distinct ps \<and> set ps \<inter> pager_live s = {} \<and> vma_tree root s'
    \<and> (let fld = (\<lambda>f. read_member process_struct [Fld f] (struct_words p s'));
           page = (\<lambda>i. read_member process_struct [Fld ''phys_kernel_stack_addr'', Idx i] (struct_words p s'))
       in fld ''process_id'' = Some (ucast (ucast pid :: u32)) \<and> fld ''block_waiting'' = Some 0
         \<and> fld ''trap_state'' = Some (ucast PROC_TRAP_PROCESS)
         \<and> fld ''userspace_trapframe'' = Some (ps ! 0) \<and> fld ''kernelspace_trapframe'' = Some (ps ! 1)
         \<and> fld ''page_fault_trapframe'' = Some (ps ! 2) \<and> fld ''vma_table'' = Some root
         \<and> fld ''vma_addr_space_id'' = Some U64_MAX \<and> fld ''file_desc_pg'' = Some (ps ! 3) \<and> fld ''file_desc_cnt'' = Some 0
         \<and> fld ''runing_hart_id'' = read_member process_struct [Fld ''runing_hart_id''] stack
         \<and> fld ''running'' = Some 0 \<and> fld ''exe_file'' = Some 0 \<and> fld ''working_dir'' = Some (root_dentry_folder s)
         \<and> fld ''process_type'' = Some (ucast PROC_TYPE_NORMAL)
         \<and> page 0 = Some (ps ! 4) \<and> page 1 = Some (ps ! 5) \<and> page 2 = Some (ps ! 6) \<and> page 3 = Some (ps ! 7) \<and> page 4 = None
         \<and> fld ''list_idx'' = read_member process_struct [Fld ''list_idx''] stack
         \<and> fld ''reading_userspace'' = Some 0 \<and> fld ''last_hart'' = Some U64_MAX)"
proof -
  obtain j p s' b ps root where r: "hashmap_get (process_hashmap s) (process_upto s + of_nat j) s = ret 0"
    "new_blank_process stack s = ret (p, s')"
    "\<forall>k. hashmap_get (process_hashmap s') k s' =
      (if k = process_upto s + of_nat j then ret p else hashmap_get (process_hashmap s) k s)"
    and made: "made_process stack (process_upto s + of_nat j) s p s' b ps root"
    by (rule new_blank_process_made [OF assms])
  obtain u k f d a0 a1 a2 a3 where ps: "ps = [u, k, f, d, a0, a1, a2, a3]"
    and w: "\<And>i. i < 24 \<Longrightarrow> at s' p (of_nat i) =
      new_process stack (process_upto s + of_nat j) u k f d [a0, a1, a2, a3] (root_dentry_folder s) root i"
    by (rule made_process_list [OF made]) (rule that)
  have m: "b < 15" "p = block_addr s 8 b" "\<not> block_used s 8 b" "block_used s' 8 b" "length ps = 8" "distinct ps"
    "set ps \<inter> pager_live s = {}" "vma_tree root s'" using made unfolding made_process_def by blast+
  have "slab s 8" using assms(1) by (simp add: processes_ok_def)
  then have a: "unat p = unat (data_page s 8) + 64 + 2 ^ 8 * b" using unat_block_addr(1) [of s 8 b] m(1,2) by simp
  have sz: "size_of process_struct \<le> 2 ^ 8" by (simp add: struct_sizes)
  have mem: "struct_words p s' = new_process (\<lambda>i. if i < 24 then stack i else struct_words p s' i)
      (process_upto s + of_nat j) u k f d [a0, a1, a2, a3] (root_dentry_folder s) root"
    by (rule made_process_struct) (rule w)
  note reads = new_process_reads [of "\<lambda>i. if i < 24 then stack i else struct_words p s' i" "process_upto s + of_nat j"
    u k f d a0 a1 a2 a3 "root_dentry_folder s" root, folded mem, unfolded Let_def]
  have st: "read_member process_struct [Fld ''runing_hart_id''] (\<lambda>i. if i < 24 then stack i else struct_words p s' i)
      = read_member process_struct [Fld ''runing_hart_id''] stack"
    "read_member process_struct [Fld ''list_idx''] (\<lambda>i. if i < 24 then stack i else struct_words p s' i)
      = read_member process_struct [Fld ''list_idx''] stack" unfolding process_reads by simp_all
  have n: "ps ! 0 = u" "ps ! 1 = k" "ps ! 2 = f" "ps ! 3 = d" "ps ! 4 = a0" "ps ! 5 = a1" "ps ! 6 = a2" "ps ! 7 = a3" by (simp_all add: ps)
  have k: "hashmap_get (process_hashmap s') (process_upto s + of_nat j) s' = ret p" using r(3) by simp
  show ?thesis unfolding Let_def
    by (rule exI [of _ "process_upto s + of_nat j"], rule exI [of _ b], rule exI [of _ p], rule exI [of _ s'], rule exI [of _ ps],
        rule exI [of _ root]) (use r(1,2) k m(1,3-8) a sz reads in \<open>simp only: n st simp_thms\<close>)
qed

theorem new_process_fields_witness:
  "\<exists>(s :: kernel) p s'. new_blank_process (\<lambda>_. 7) s = ret (p, s')
     \<and> read_member process_struct [Fld ''process_type''] (struct_words p s') = Some 0
     \<and> read_member process_struct [Fld ''runing_hart_id''] (struct_words p s') = Some 7"
proof -
  obtain s :: kernel where s: "processes_ok s" "process_room s" by (rule demo_processes)
  from new_process_fields [OF s, of "\<lambda>_. 7"] show ?thesis
    unfolding Let_def process_reads(11) by auto
qed

end
