(* ===== verification/Spec2Isabelle.thy ===== *)
theory Spec2Isabelle
  imports Uart Pager_Init Stack Endian Kstring Allocator Hashmap Radix_Map Klist Scheduler Trap_Handling
    Pager_Boot Elf Drivers File_Rw Panic Self_Check Boot Struct_Layout
begin

text \<open>
  A verification of Toastium, a kernel for 64-bit RISC-V written in C (\<^verbatim>\<open>src/src\<close>).

  \<^bold>\<open>The program.\<close> The firmware enters \<^verbatim>\<open>arch_main\<close> with the address of a flattened device tree.
  \<^verbatim>\<open>kernel_main\<close> starts the components in order: the serial port; the byte order conversions; the
  device tree, unflattened behind the kernel image; the page allocator, whose memory regions are read
  from the tree; the block allocator on top of it; the file system; the stacks of the harts; the table
  of processes; the scheduler; virtual memory; the first process; interrupts; and a timer. From then on
  everything happens in traps. The assembly entry saves the registers into the trap frame of the
  running process and calls \<^verbatim>\<open>handle_sync_trap\<close>, which decodes the cause, runs a handler that cannot
  be interrupted, and may switch to the process at the head of the queue; work that can be interrupted,
  such as a system call on files, runs on the kernel stack of the process in \<^verbatim>\<open>handle_async_trap\<close>.

  \<^bold>\<open>The model.\<close> Memory is one map from addresses to 64-bit words (\<open>mem\<close>), with a byte view (\<open>ld8\<close>, \<open>st8\<close>);
  structs, arrays and the data structures of the kernel live in it at the offsets the compiler gives
  them, so that aliasing and overlap are visible. The globals of each component are a record that
  extends the record of the component below it:
  \<open>machine\<close> (memory), \<open>uart\<close>, \<open>pager\<close>, \<open>kstacks\<close>, \<open>allocator\<close>, \<open>procs\<close>, \<open>vma\<close>, \<open>sched\<close>, \<open>kernel\<close>, \<open>hart\<close> (control
  registers, timer, interrupt controller), \<open>fs\<close>, \<open>devices\<close>, \<open>drivers\<close>, \<open>boot\<close>. An operation is a function from its
  arguments and the state to an outcome \<open>'a run\<close>: \<open>ret\<close> of a result and the new state; \<open>panic\<close> with the
  message and values of the \<^verbatim>\<open>PANIC\<close> macro; \<open>undef\<close> where C gives the code no meaning (shifts by the
  width, signed overflow, accesses outside an array); or \<open>None\<close> when it never returns. Loops with a
  bound are primitive recursion on the number of iterations left, loops that end by a measure are
  \<open>function\<close>s, and loops that may run forever (a device that is never ready, a string without a
  terminator, a cyclic list) are \<open>partial_function (option)\<close>, so no fuel is needed; the theorems about
  them show that they return. Integers keep their width; Isabelle's words wrap as C's unsigned types
  do. Devices and firmware are part of the state as functions of the number of the access: the status
  of the serial port, the time register, the answers of the firmware. The assembly routine that copies
  user memory, the addresses of buffers on a kernel stack and what uninitialised locals held are
  arguments.

  \<^bold>\<open>The theories.\<close>
  \<^item> \<open>Kernel_Prelude\<close>: integers, macros, outcomes, memory; facts on bits, words and cells.
  \<^item> \<open>Uart\<close>: \<^verbatim>\<open>drivers/uart\<close>. Printing returns when the device becomes ready again and again, and
    sends the right digits.
  \<^item> \<open>Page_Source\<close>, \<open>Pager\<close>, \<open>Pager_Init\<close>, \<open>Pager_Boot\<close>: \<^verbatim>\<open>kernel/memory/pager.c\<close>. The contract of a page
    source as a locale, the allocator as its interpretation, the set-up from a table of regions, and
    \<open>pager_init\<close> on a device tree, with the exact set of pages it makes available for one bank of memory. The invariant \<open>pager_inv\<close> says that descriptors, bitmaps and pages do not
    overlap and that the search hint hides no free page; \<open>pager_pool\<close> and \<open>pager_live\<close> are the pages that can
    be handed out and the pages in use.
  \<^item> \<open>Stack\<close>: \<^verbatim>\<open>kernel/memory/stack.c\<close>.
  \<^item> \<open>Endian\<close>: \<^verbatim>\<open>include/endian.c\<close>; the locale \<open>byte_order\<close>, interpreted for the three widths.
  \<^item> \<open>Kstring\<close>: \<^verbatim>\<open>kernel/memory/string.c\<close>, against list functions on zero-terminated strings.
  \<^item> \<open>Allocator\<close>: \<^verbatim>\<open>kernel/memory/allocator.c\<close>. A block class (\<open>slab\<close>) is an index page with bitmaps and a
    data page; allocation takes the first free block and freeing returns it.
  \<^item> \<open>Map_Store\<close>, \<open>Hashmap\<close>, \<open>Radix\<close>, \<open>Radix_Map\<close>: \<^verbatim>\<open>kernel/memory/hashmap.c\<close> and
    \<^verbatim>\<open>kernel/memory/radix.c\<close>. The contract of a keyed store as a locale, interpreted by both.
  \<^item> \<open>Klist\<close>: \<^verbatim>\<open>kernel/memory/list.c\<close>.
  \<^item> \<open>Vma\<close>, \<open>Vma_Walk\<close>, \<open>Vma_Map\<close>: \<^verbatim>\<open>arch/risc-v/arch_vma/virtual_memory.c\<close>. The meaning of the tables is the
    translation of the sv39 scheme (\<open>sv39_page\<close>); mapping and unmapping a range below one table change
    it exactly there, a new address space has the kernel half mapped, and switching loads the right
    root and identifier.
  \<^item> \<open>Fifo\<close>, \<open>Scheduler\<close>: \<^verbatim>\<open>kernel/process/scheduler.c\<close>; the contract of a bounded queue as a locale and the
    ring buffer as its interpretation.
  \<^item> \<open>Process\<close>, \<open>Process_Create\<close>, \<open>Process_Switch\<close>: \<^verbatim>\<open>kernel/process/process.c\<close> and
    \<^verbatim>\<open>kernel/process/context.c\<close>. Creating a process, with the search for its number and its eight fresh
    pages, and switching to one, over the allocators, the map of processes, the list and the page tables.
  \<^item> \<open>Trap_Frame\<close>, \<open>File_System\<close>, \<open>File_Rw\<close>, \<open>Syscall\<close>, \<open>Trap\<close>, \<open>Trap_Switch\<close>, \<open>Trap_Handling\<close>: the trap code under
    \<^verbatim>\<open>arch/risc-v/arch_trap\<close> and \<^verbatim>\<open>kernel/trap\<close>, the timer, the file system under
    \<^verbatim>\<open>kernel/file_system\<close>, and the system calls under \<^verbatim>\<open>kernel/syscall\<close>. The theorems follow whole
    traps: preemption by the timer, a system call answered at once, faults, and the guard around user
    memory; and what is written to the first page of a file is read back, with interrupts left off.
  \<^item> \<open>Device_Tree\<close>, \<open>Device_Parse\<close>: \<^verbatim>\<open>arch/risc-v/arch_device_tree/dtb.c\<close> and
    \<^verbatim>\<open>kernel/devices/device_tree.c\<close>. The parser is an inverse of the encoding of trees, and lookups
    find what the tree has.
  \<^item> \<open>Struct_Layout\<close>: the structs of the headers (\<^verbatim>\<open>kernel/process/process.h\<close>, \<^verbatim>\<open>kernel/file_system\<close>,
    \<^verbatim>\<open>arch/risc-v/arch_trap/parser.h\<close> and others) as C types with sizes, alignments and offsets. Members do
    not overlap, the words and sizes the other theories use are those of the declarations, and the memory of a
    new process is read member by member.
  \<^item> \<open>Elf\<close>: \<^verbatim>\<open>kernel/process/elf_parser.c\<close>, with the meaning of every answer of the header check;
    \<open>Drivers\<close>: \<^verbatim>\<open>kernel/devices/driver_manager.c\<close>.
  \<^item> \<open>Panic\<close>: \<^verbatim>\<open>kernel/safety/panic.c\<close>. The bytes of the report a panic sends, and that nothing follows it.
  \<^item> \<open>Self_Test\<close>, \<open>Self_Check\<close>: \<^verbatim>\<open>tests\<close>. The quick and the deep self tests; those of the page allocator pass
    whenever enough free pages lie in a row. The allocator is seen there as a set of slots in use.
  \<^item> \<open>Boot\<close>: \<^verbatim>\<open>arch/risc-v/arch_main.c\<close> and \<^verbatim>\<open>kernel/main.c\<close>. The whole boot sequence as a composition of the
    set-up routines, and that it brings up the console, the device tree and both allocators on a machine
    the firmware has prepared.

  \<^bold>\<open>Assumptions.\<close> The kernel runs on one hart (\<^verbatim>\<open>dtb_hart_cnt\<close> is 1), and a handler is not interrupted
  by another process in the middle, so operations are sequential. Memory the kernel addresses is there:
  a load or store never traps. The compiler lays out structs by the RISC-V rules (\<open>Struct_Layout\<close>) and does not exploit
  undefined behaviour beyond what \<open>undef\<close> marks. Where a theorem speaks of one table, one section of a
  list or one block class, larger structures are covered by the definitions but not by the theorem.

  \<^bold>\<open>Not modelled.\<close> The assembly files (boot, trap entry, copy of user memory) and the linker scripts; header
  files that only declare what the C files define; files without code. For directories and the system
  calls on files the definitions are complete, and what is shown about them is limited to the guards and to
  the deviations found while modelling; the same holds for the set-up of the file system and the first
  processes within the boot sequence and for the self tests of the block allocator, the radix tree and the
  hash map, whose definitions are complete as well.
\<close>

end
